(* ===== verification/Prelude.thy ===== *)
theory Prelude
  imports Main "HOL-Library.Word" "HOL-Library.Code_Target_Numeral"
begin

text \<open>
  The shared vocabulary of the development: Rust strings as lists of Unicode scalar values, their
  UTF-8 bytes, the standard-library string operations the crates call, decimal printing and
  parsing of \<^verbatim>\<open>i64\<close>, saturating arithmetic, and the lemma collections the component theories
  share.
\<close>

named_theorems rust_simps \<open>evaluation rules for the standard-library string operations\<close>

section \<open>Strings and bytes\<close>

text \<open>
  A Rust \<^verbatim>\<open>char\<close> is a Unicode scalar value and a \<^verbatim>\<open>str\<close> a sequence of them; \<^verbatim>\<open>chars().count()\<close> is
  the length of the list.  Bytes are numbers below 256 (lemma \<open>utf8_bytes\<close>), and \<^verbatim>\<open>str::len\<close> is the
  length of the UTF-8 encoding.
\<close>

type_synonym uchar = nat
type_synonym rstr = "uchar list"
type_synonym byte = nat

definition lit :: "string \<Rightarrow> rstr" where
  "lit s = map of_char s"

fun utf8_char :: "uchar \<Rightarrow> byte list" where
  "utf8_char c =
     (if c < 128 then [c]
      else if c < 2048 then [192 + c div 64, 128 + c mod 64]
      else if c < 65536 then [224 + c div 4096, 128 + c div 64 mod 64, 128 + c mod 64]
      else [240 + c div 262144, 128 + c div 4096 mod 64, 128 + c div 64 mod 64, 128 + c mod 64])"

declare utf8_char.simps [simp del]

definition utf8 :: "rstr \<Rightarrow> byte list" where
  "utf8 s = concat (map utf8_char s)"

definition byte_len :: "rstr \<Rightarrow> nat" where
  "byte_len s = length (utf8 s)"

lemma utf8_Nil [simp]: "utf8 [] = []"
  by (simp add: utf8_def)

lemma utf8_Cons [simp]: "utf8 (c # s) = utf8_char c @ utf8 s"
  by (simp add: utf8_def)

lemma utf8_append [simp]: "utf8 (s @ t) = utf8 s @ utf8 t"
  by (simp add: utf8_def)

lemma byte_len_append [simp]: "byte_len (s @ t) = byte_len s + byte_len t"
  by (simp add: byte_len_def)

lemma utf8_char_ascii [simp]: "c < 128 \<Longrightarrow> utf8_char c = [c]"
  by (simp add: utf8_char.simps)

lemma utf8_ascii: "(\<forall>c\<in>set s. c < 128) \<Longrightarrow> utf8 s = s"
  by (induction s) auto

lemma utf8_char_length: "1 \<le> length (utf8_char c) \<and> length (utf8_char c) \<le> 4"
  by (simp add: utf8_char.simps)

lemma utf8_char_bytes:
  assumes "c < 1114112" and "b \<in> set (utf8_char c)"
  shows "b < 256"
proof -
  have "c div 64 < 32" if "c < 2048" using that by (simp add: less_mult_imp_div_less)
  moreover have "c div 4096 < 16" if "c < 65536" using that by (simp add: less_mult_imp_div_less)
  moreover have "c div 262144 < 5" using assms(1) by (simp add: less_mult_imp_div_less)
  ultimately show ?thesis
    using assms(2) mod_less_divisor [of 64] by (auto simp: utf8_char.simps split: if_splits intro: add_less_mono)
qed

lemma utf8_bytes: "\<forall>c\<in>set s. c < 1114112 \<Longrightarrow> b \<in> set (utf8 s) \<Longrightarrow> b < 256"
  by (auto simp: utf8_def dest: utf8_char_bytes)

lemma byte_len_ge_length: "length s \<le> byte_len s"
proof (induction s)
  case (Cons c s)
  then show ?case using utf8_char_length [of c] by (simp add: byte_len_def)
qed (simp add: byte_len_def)

section \<open>Prefix codes\<close>

text \<open>
  An encoding is a prefix code when what follows an encoded value can be told from the value.
  Every serialisation the ledger hashes is assembled from prefix codes, which is what makes the
  hashed bytes determine the event.
\<close>

locale prefix_code =
  fixes enc :: "'a \<Rightarrow> 'b list"
  assumes prefix_free: "enc a @ xs = enc b @ ys \<Longrightarrow> a = b \<and> xs = ys"
begin

lemma enc_inject: "enc a = enc b \<longleftrightarrow> a = b"
  using prefix_free [of a "[]" b "[]"] by auto

lemma enc_append_inject: "enc a @ xs = enc b @ ys \<longleftrightarrow> a = b \<and> xs = ys"
  using prefix_free by blast

lemma enc_nonempty: "enc a \<noteq> [] \<or> (\<forall>b. b = a)"
proof (rule ccontr)
  assume "\<not> ?thesis"
  then obtain b where "enc a = []" and "b \<noteq> a" by auto
  then have "enc a @ enc b = enc b @ []" by simp
  then have "a = b" using prefix_free by blast
  with \<open>b \<noteq> a\<close> show False by simp
qed

lemma concat_inject:
  assumes ne: "\<And>a. enc a \<noteq> []"
  shows "concat (map enc as) = concat (map enc bs) \<longleftrightarrow> as = bs"
proof
  assume "concat (map enc as) = concat (map enc bs)"
  then show "as = bs"
  proof (induction as arbitrary: bs)
    case Nil
    then show ?case using ne by (cases bs) auto
  next
    case (Cons a as)
    then show ?case using ne by (cases bs) (auto simp: enc_append_inject)
  qed
qed simp

lemma concat_terminated_inject:
  assumes "\<And>a. \<exists>c cs. enc a = c # cs \<and> c \<noteq> stop"
    and "concat (map enc as) @ stop # xs = concat (map enc bs) @ stop # ys"
  shows "as = bs \<and> xs = ys"
  using assms(2)
proof (induction as arbitrary: bs)
  case Nil
  show ?case
  proof (cases bs)
    case (Cons b bs')
    obtain c cs where "enc b = c # cs" and "c \<noteq> stop" using assms(1) by blast
    with Nil.prems Cons show ?thesis by simp
  qed (use Nil.prems in simp)
next
  case (Cons a as)
  show ?case
  proof (cases bs)
    case Nil
    obtain c cs where "enc a = c # cs" and "c \<noteq> stop" using assms(1) by blast
    with Cons.prems Nil show ?thesis by simp
  next
    case (Cons b bs')
    with Cons.prems Cons.IH [of bs'] show ?thesis by (auto simp: enc_append_inject)
  qed
qed

end

lemma div_mod_eq_nat: "(a::nat) div n = b div n \<Longrightarrow> a mod n = b mod n \<Longrightarrow> a = b"
  by (metis mult_div_mod_eq)

text \<open>Decoding one encoded character, by its length.\<close>

fun utf8_decode1 :: "byte list \<Rightarrow> uchar" where
  "utf8_decode1 [b0] = b0"
| "utf8_decode1 [b0, b1] = (b0 - 192) * 64 + (b1 - 128)"
| "utf8_decode1 [b0, b1, b2] = ((b0 - 224) * 64 + (b1 - 128)) * 64 + (b2 - 128)"
| "utf8_decode1 [b0, b1, b2, b3] = (((b0 - 240) * 64 + (b1 - 128)) * 64 + (b2 - 128)) * 64 + (b3 - 128)"
| "utf8_decode1 _ = 0"

lemma utf8_decode1: "utf8_decode1 (utf8_char c) = c"
proof -
  have "c div 4096 = c div 64 div 64" "c div 262144 = c div 64 div 64 div 64"
    by (simp_all add: div_mult2_eq [symmetric])
  then show ?thesis
    by (simp add: utf8_char.simps div_mult_mod_eq)
qed

lemma utf8_char_length_eq:
  assumes "utf8_char a @ xs = utf8_char b @ ys"
  shows "length (utf8_char a) = length (utf8_char b)"
proof -
  have lead2: "c div 64 < 32" if "c < 2048" for c :: nat
    using that by (simp add: less_mult_imp_div_less)
  have lead3: "c div 4096 < 16" if "c < 65536" for c :: nat
    using that by (simp add: less_mult_imp_div_less)
  have "hd (utf8_char a) = hd (utf8_char b)"
    using assms utf8_char_length [of a] utf8_char_length [of b]
    by (cases "utf8_char a"; cases "utf8_char b") auto
  then show ?thesis
    using lead2 [of a] lead2 [of b] lead3 [of a] lead3 [of b]
    by (simp add: utf8_char.simps split: if_splits)
qed

lemma utf8_char_prefix_free:
  assumes "utf8_char a @ xs = utf8_char b @ ys"
  shows "a = b \<and> xs = ys"
proof -
  have "utf8_char a = utf8_char b \<and> xs = ys"
    using assms utf8_char_length_eq [OF assms] by simp
  then show ?thesis
    by (metis utf8_decode1)
qed

interpretation utf8: prefix_code utf8_char
  by unfold_locales (rule utf8_char_prefix_free)

lemma utf8_char_not_Nil [simp]: "utf8_char c \<noteq> []"
  by (simp add: utf8_char.simps)

lemma utf8_inject [simp]: "utf8 s = utf8 t \<longleftrightarrow> s = t"
  unfolding utf8_def by (rule utf8.concat_inject) simp

section \<open>Standard-library string operations\<close>

text \<open>\<^verbatim>\<open>char::is_whitespace\<close> is the Unicode property \<^verbatim>\<open>White_Space\<close>, a set of 25 code points.\<close>

definition is_whitespace :: "uchar \<Rightarrow> bool" where
  "is_whitespace c \<longleftrightarrow>
     9 \<le> c \<and> c \<le> 13 \<or> c = 32 \<or> c = 133 \<or> c = 160 \<or> c = 5760 \<or>
     8192 \<le> c \<and> c \<le> 8202 \<or> c = 8232 \<or> c = 8233 \<or> c = 8239 \<or> c = 8287 \<or> c = 12288"

definition trim_start_by :: "('a \<Rightarrow> bool) \<Rightarrow> 'a list \<Rightarrow> 'a list" where
  "trim_start_by P s = dropWhile P s"

definition trim_end_by :: "('a \<Rightarrow> bool) \<Rightarrow> 'a list \<Rightarrow> 'a list" where
  "trim_end_by P s = rev (dropWhile P (rev s))"

definition trim_by :: "('a \<Rightarrow> bool) \<Rightarrow> 'a list \<Rightarrow> 'a list" where
  "trim_by P s = trim_end_by P (trim_start_by P s)"

definition trim :: "rstr \<Rightarrow> rstr" where
  "trim s = trim_by is_whitespace s"

lemma set_dropWhile_subset: "set (dropWhile P s) \<subseteq> set s"
  by (auto dest: set_dropWhileD)

lemma trim_end_by_edge: "trim_end_by P s = [] \<or> \<not> P (last (trim_end_by P s))"
proof (cases "dropWhile P (rev s)")
  case (Cons x xs)
  then have "\<not> P x"
    using hd_dropWhile [of P "rev s"] by simp
  with Cons show ?thesis by (simp add: trim_end_by_def)
qed (simp add: trim_end_by_def)

lemma trim_end_by_prefix: "\<exists>zs. s = trim_end_by P s @ zs \<and> (\<forall>z\<in>set zs. P z)"
proof -
  have "s = rev (dropWhile P (rev s)) @ rev (takeWhile P (rev s))"
    by (metis rev_append rev_rev_ident takeWhile_dropWhile_id)
  moreover have "\<forall>z\<in>set (rev (takeWhile P (rev s))). P z"
    by (auto dest: set_takeWhileD)
  ultimately show ?thesis
    unfolding trim_end_by_def by blast
qed

lemma trim_end_by_id: "s = [] \<or> \<not> P (last s) \<Longrightarrow> trim_end_by P s = s"
  by (cases s rule: rev_cases) (auto simp: trim_end_by_def)

lemma trim_by_edges:
  assumes "trim_by P s \<noteq> []"
  shows "\<not> P (hd (trim_by P s)) \<and> \<not> P (last (trim_by P s))"
proof -
  obtain zs where zs: "trim_start_by P s = trim_by P s @ zs"
    using trim_end_by_prefix [of "trim_start_by P s" P] by (auto simp: trim_by_def)
  then have "dropWhile P s \<noteq> []" and "hd (trim_by P s) = hd (dropWhile P s)"
    using assms by (auto simp: trim_start_by_def)
  then have "\<not> P (hd (trim_by P s))"
    by (simp add: hd_dropWhile)
  with assms trim_end_by_edge [of P "trim_start_by P s"] show ?thesis
    by (auto simp: trim_by_def)
qed

lemma trim_by_idem [simp]: "trim_by P (trim_by P s) = trim_by P s"
proof (cases "trim_by P s")
  case Nil
  have "trim_by P [] = []" by (simp add: trim_by_def trim_start_by_def trim_end_by_def)
  with Nil show ?thesis by (simp only:)
next
  case (Cons c cs)
  have "\<not> P c" and "\<not> P (last (c # cs))"
    using trim_by_edges [of P s] Cons by auto
  with Cons show ?thesis
    by (simp add: trim_by_def [of P "c # cs"] trim_start_by_def trim_end_by_id)
qed

lemma trim_by_Nil_iff: "trim_by P s = [] \<longleftrightarrow> (\<forall>c\<in>set s. P c)"
proof
  assume "trim_by P s = []"
  then have "\<forall>c\<in>set (dropWhile P s). P c"
    using trim_end_by_prefix [of "dropWhile P s" P]
    by (auto simp: trim_by_def trim_start_by_def)
  then have "dropWhile P s = []"
    by (metis hd_dropWhile hd_in_set)
  then show "\<forall>c\<in>set s. P c" by simp
next
  assume "\<forall>c\<in>set s. P c"
  then have "dropWhile P s = []" by simp
  then show "trim_by P s = []"
    by (simp only: trim_by_def trim_start_by_def trim_end_by_def rev.simps dropWhile.simps)
qed

lemma set_trim_by: "set (trim_by P s) \<subseteq> set s"
  using set_dropWhile_subset [of P "rev (dropWhile P s)"] set_dropWhile_subset [of P s]
  by (auto simp: trim_by_def trim_start_by_def trim_end_by_def)

lemma trim_idem [simp]: "trim (trim s) = trim s"
  by (simp add: trim_def)

text \<open>\<^verbatim>\<open>str::split\<close> with a character predicate keeps the empty pieces; \<^verbatim>\<open>split_whitespace\<close> drops them.\<close>

fun split_by :: "('a \<Rightarrow> bool) \<Rightarrow> 'a list \<Rightarrow> 'a list list" where
  "split_by P [] = [[]]"
| "split_by P (c # s) =
     (if P c then [] # split_by P s
      else (case split_by P s of [] \<Rightarrow> [[c]] | w # ws \<Rightarrow> (c # w) # ws))"

definition split_whitespace :: "rstr \<Rightarrow> rstr list" where
  "split_whitespace s = filter (\<lambda>w. w \<noteq> []) (split_by is_whitespace s)"

lemma split_by_not_Nil [simp]: "split_by P s \<noteq> []"
  by (cases s) (auto split: list.splits)

lemma split_by_pieces: "w \<in> set (split_by P s) \<Longrightarrow> c \<in> set w \<Longrightarrow> \<not> P c \<and> c \<in> set s"
proof (induction s arbitrary: w)
  case (Cons d s)
  show ?case
  proof (cases "P d")
    case False
    obtain v vs where v: "split_by P s = v # vs" by (cases "split_by P s") auto
    with Cons.prems False have "w = d # v \<or> w \<in> set vs" by auto
    with Cons.prems(2) have "c = d \<or> (\<exists>u\<in>set (split_by P s). c \<in> set u)" by (auto simp: v)
    with Cons.IH False show ?thesis by auto
  qed (use Cons in auto)
qed simp

lemma split_whitespace_words:
  "w \<in> set (split_whitespace s) \<Longrightarrow> w \<noteq> [] \<and> (\<forall>c\<in>set w. \<not> is_whitespace c \<and> c \<in> set s)"
  by (auto simp: split_whitespace_def dest: split_by_pieces)

fun join :: "'a list \<Rightarrow> 'a list list \<Rightarrow> 'a list" where
  "join sep [] = []"
| "join sep [w] = w"
| "join sep (w # v # ws) = w @ sep @ join sep (v # ws)"

lemma join_Cons: "join sep (w # ws) = w @ (if ws = [] then [] else sep @ join sep ws)"
  by (cases ws) auto

fun starts_with :: "'a list \<Rightarrow> 'a list \<Rightarrow> bool" where
  "starts_with s [] = True"
| "starts_with [] (p # ps) = False"
| "starts_with (c # s) (p # ps) = (c = p \<and> starts_with s ps)"

lemma starts_with_iff: "starts_with s p \<longleftrightarrow> (\<exists>t. s = p @ t)"
  by (induction s p rule: starts_with.induct) auto

text \<open>\<^verbatim>\<open>str::find\<close>: the position of the first occurrence, here counted in characters.\<close>

fun find_sub :: "'a list \<Rightarrow> 'a list \<Rightarrow> nat option" where
  "find_sub [] p = (if p = [] then Some 0 else None)"
| "find_sub (c # s) p = (if starts_with (c # s) p then Some 0 else map_option Suc (find_sub s p))"

definition contains :: "'a list \<Rightarrow> 'a list \<Rightarrow> bool" where
  "contains s p \<longleftrightarrow> find_sub s p \<noteq> None"

lemma find_sub_Some: "find_sub s p = Some i \<Longrightarrow> i \<le> length s \<and> starts_with (drop i s) p"
proof (induction s arbitrary: i)
  case Nil
  then show ?case by (auto split: if_splits)
qed (auto split: if_splits)

lemma contains_iff: "contains s p \<longleftrightarrow> (\<exists>u v. s = u @ p @ v)"
proof
  assume "contains s p"
  then obtain i where "find_sub s p = Some i" by (auto simp: contains_def)
  then have "starts_with (drop i s) p" by (simp add: find_sub_Some)
  then obtain v where "drop i s = p @ v" by (auto simp: starts_with_iff)
  then show "\<exists>u v. s = u @ p @ v" by (metis append_take_drop_id)
next
  assume "\<exists>u v. s = u @ p @ v"
  then obtain u v where "s = u @ p @ v" by blast
  then show "contains s p"
  proof (induction u arbitrary: s)
    case Nil
    then have "starts_with s p" by (simp add: starts_with_iff)
    then show ?case by (cases s; cases p) (auto simp: contains_def)
  qed (auto simp: contains_def)
qed

text \<open>\<^verbatim>\<open>str::replace\<close> of one character by a string.\<close>

definition replace_char :: "'a \<Rightarrow> 'a list \<Rightarrow> 'a list \<Rightarrow> 'a list" where
  "replace_char c r s = concat (map (\<lambda>d. if d = c then r else [d]) s)"

section \<open>Integers\<close>

text \<open>
  \<^verbatim>\<open>i64\<close> values are HOL integers; where the code saturates, the bounds are written out.
  Sequence numbers, timestamps and counters stay far inside the 64-bit range.
\<close>

abbreviation i64_min :: int where "i64_min \<equiv> - 9223372036854775808"
abbreviation i64_max :: int where "i64_max \<equiv> 9223372036854775807"

definition i64_range :: "int \<Rightarrow> bool" where
  "i64_range i \<longleftrightarrow> i64_min \<le> i \<and> i \<le> i64_max"

definition saturating_add :: "int \<Rightarrow> int \<Rightarrow> int" where
  "saturating_add a b = max i64_min (min i64_max (a + b))"

definition clamp :: "'a::linorder \<Rightarrow> 'a \<Rightarrow> 'a \<Rightarrow> 'a" where
  "clamp lo hi x = (if x < lo then lo else if hi < x then hi else x)"

lemma clamp_bounds: "lo \<le> hi \<Longrightarrow> lo \<le> clamp lo hi x \<and> clamp lo hi x \<le> hi"
  by (auto simp: clamp_def)

lemma saturating_add_mono: "a \<le> b \<Longrightarrow> saturating_add a c \<le> saturating_add b c"
  by (simp add: saturating_add_def)

text \<open>\<^verbatim>\<open>i64::to_string\<close>: the decimal digits, with a minus sign for a negative number.\<close>

fun show_nat :: "nat \<Rightarrow> rstr" where
  "show_nat n = (if n < 10 then [48 + n] else show_nat (n div 10) @ [48 + n mod 10])"

declare show_nat.simps [simp del]

definition show_int :: "int \<Rightarrow> rstr" where
  "show_int i = (if i < 0 then 45 # show_nat (nat (- i)) else show_nat (nat i))"

text \<open>
  \<^verbatim>\<open>str::parse::<i64>\<close>: an optional sign, at least one digit, nothing else, and a value in range.
\<close>

definition is_digit :: "uchar \<Rightarrow> bool" where
  "is_digit c \<longleftrightarrow> 48 \<le> c \<and> c \<le> 57"

definition digits_value :: "rstr \<Rightarrow> nat" where
  "digits_value s = foldl (\<lambda>n c. 10 * n + (c - 48)) 0 s"

definition parse_digits :: "rstr \<Rightarrow> nat option" where
  "parse_digits s = (if s \<noteq> [] \<and> list_all is_digit s then Some (digits_value s) else None)"

definition parse_i64 :: "rstr \<Rightarrow> int option" where
  "parse_i64 s =
     (case (case s of
              [] \<Rightarrow> None
            | c # t \<Rightarrow> (if c = 45 then map_option (\<lambda>n. - int n) (parse_digits t)
                       else if c = 43 then map_option int (parse_digits t)
                       else map_option int (parse_digits s)))
      of None \<Rightarrow> None | Some i \<Rightarrow> if i64_range i then Some i else None)"

lemma is_digit_48 [simp]: "is_digit (48 + k) \<longleftrightarrow> k < 10"
  by (auto simp: is_digit_def)

lemma show_nat_digits: "list_all is_digit (show_nat n)"
proof (induction n rule: show_nat.induct)
  case (1 n)
  then show ?case
    by (subst show_nat.simps) auto
qed

lemma show_nat_not_Nil [simp]: "show_nat n \<noteq> []"
  by (subst show_nat.simps) simp

lemma digits_value_snoc [simp]: "digits_value (s @ [c]) = 10 * digits_value s + (c - 48)"
  by (simp add: digits_value_def)

lemma digits_value_show_nat [simp]: "digits_value (show_nat n) = n"
proof (induction n rule: show_nat.induct)
  case (1 n)
  then show ?case
    by (subst show_nat.simps) (auto simp: digits_value_def [of "[48 + n]"])
qed

lemma parse_digits_show_nat [simp]: "parse_digits (show_nat n) = Some n"
  by (simp add: parse_digits_def show_nat_digits)

lemma parse_i64_show_int:
  assumes "i64_range i"
  shows "parse_i64 (show_int i) = Some i"
proof (cases "i < 0")
  case True
  with assms show ?thesis
    by (simp add: parse_i64_def show_int_def)
next
  case False
  obtain c s where cs: "show_nat (nat i) = c # s"
    by (cases "show_nat (nat i)") auto
  then have "is_digit c"
    using show_nat_digits [of "nat i"] by simp
  then have "c \<noteq> 45" and "c \<noteq> 43"
    by (auto simp: is_digit_def)
  with False assms cs show ?thesis
    using parse_digits_show_nat [of "nat i"] by (simp add: parse_i64_def show_int_def)
qed

definition int_char :: "uchar \<Rightarrow> bool" where
  "int_char c \<longleftrightarrow> c = 45 \<or> is_digit c"

lemma show_int_chars: "c \<in> set (show_int i) \<Longrightarrow> int_char c"
  using show_nat_digits by (auto simp: show_int_def int_char_def list_all_iff split: if_splits)

lemma show_int_not_Nil [simp]: "show_int i \<noteq> []"
  by (simp add: show_int_def)

lemma show_int_inject [simp]: "show_int i = show_int j \<longleftrightarrow> i = j"
proof
  have nat_inj: "m = n" if "show_nat m = show_nat n" for m n
    using that digits_value_show_nat by metis
  have no_minus: "show_nat n \<noteq> 45 # s" for n s
    using show_nat_digits [of n] by (auto simp: is_digit_def)
  assume "show_int i = show_int j"
  then show "i = j"
    using no_minus no_minus [THEN not_sym]
    by (auto simp: show_int_def split: if_splits dest!: nat_inj)
qed simp

text \<open>
  Two lists whose elements satisfy \<open>P\<close>, each followed by a stop that does not, agree when the
  whole lists agree: the argument behind every length-free field of a serialisation.
\<close>

lemma stopped_append_inject:
  assumes "u @ x # xs = v @ y # ys" and "\<forall>c\<in>set u. P c" and "\<forall>c\<in>set v. P c"
    and "\<not> P x" and "\<not> P y"
  shows "u = v \<and> x # xs = y # ys"
  using assms
proof (induction u arbitrary: v)
  case Nil
  then show ?case by (cases v) auto
next
  case (Cons c u)
  then show ?case by (cases v) auto
qed

end
