(* ===== verification/Json.thy ===== *)
theory Json
  imports Prelude
begin

text \<open>
  The compact JSON that \<^verbatim>\<open>serde_json::to_string\<close> writes, as far as hashed and signed values use it:
  string literals with serde's escapes, decimal integers, \<^verbatim>\<open>null\<close> for an absent option.  The lemmas
  show that each field encoding is a prefix code, so that an object with a fixed list of keys can
  be read back from its text in one way only.
\<close>

section \<open>String literals\<close>

definition hex_digit :: "nat \<Rightarrow> uchar" where
  "hex_digit n = (if n < 10 then 48 + n else 87 + n)"

text \<open>serde's escape table: quote, backslash, the five short escapes, and \<^verbatim>\<open>\u00XX\<close> below 32.\<close>

definition json_escape :: "uchar \<Rightarrow> rstr" where
  "json_escape c =
     (if c = 34 then [92, 34]
      else if c = 92 then [92, 92]
      else if c = 8 then [92, 98]
      else if c = 9 then [92, 116]
      else if c = 10 then [92, 110]
      else if c = 12 then [92, 102]
      else if c = 13 then [92, 114]
      else if c < 32 then [92, 117, 48, 48, hex_digit (c div 16), hex_digit (c mod 16)]
      else [c])"

definition json_str :: "rstr \<Rightarrow> rstr" where
  "json_str s = 34 # concat (map json_escape s) @ [34]"

definition json_opt :: "('a \<Rightarrow> rstr) \<Rightarrow> 'a option \<Rightarrow> rstr" where
  "json_opt f x = (case x of None \<Rightarrow> [110, 117, 108, 108] | Some a \<Rightarrow> f a)"

definition json_int :: "int \<Rightarrow> rstr" where
  "json_int i = show_int i"

lemma hex_digit_inject: "hex_digit m = hex_digit n \<longleftrightarrow> m = n"
  by (auto simp: hex_digit_def)

text \<open>Reading one escaped character back.\<close>

definition hex_value :: "uchar \<Rightarrow> nat" where
  "hex_value c = (if c < 58 then c - 48 else c - 87)"

definition short_escape :: "uchar \<Rightarrow> uchar" where
  "short_escape c =
     (if c = 98 then 8 else if c = 116 then 9 else if c = 110 then 10 else if c = 102 then 12
      else if c = 114 then 13 else c)"

definition json_unescape :: "rstr \<Rightarrow> uchar \<times> rstr" where
  "json_unescape s =
     (if s ! 0 \<noteq> 92 then (s ! 0, drop 1 s)
      else if s ! 1 \<noteq> 117 then (short_escape (s ! 1), drop 2 s)
      else (16 * hex_value (s ! 4) + hex_value (s ! 5), drop 6 s))"

lemma hex_value_digit: "n < 16 \<Longrightarrow> hex_value (hex_digit n) = n"
  by (simp add: hex_value_def hex_digit_def)

lemma json_unescape_escape: "json_unescape (json_escape c @ xs) = (c, xs)"
proof (cases "c \<in> {34, 92, 8, 9, 10, 12, 13}")
  case True
  then show ?thesis
    by (elim insertE) (simp_all add: json_escape_def json_unescape_def short_escape_def)
next
  case False
  show ?thesis
  proof (cases "c < 32")
    case True
    with False have "json_escape c = [92, 117, 48, 48, hex_digit (c div 16), hex_digit (c mod 16)]"
      by (simp add: json_escape_def)
    moreover have "c div 16 < 16" using True by (simp add: less_mult_imp_div_less)
    ultimately show ?thesis
      by (simp add: json_unescape_def hex_value_digit)
  next
    case c: False
    with False have "json_escape c = [c]" and "c \<noteq> 92" by (simp_all add: json_escape_def)
    then show ?thesis by (simp add: json_unescape_def)
  qed
qed

lemma json_escape_prefix_free:
  assumes "json_escape a @ xs = json_escape b @ ys"
  shows "a = b \<and> xs = ys"
proof -
  have "(a, xs) = json_unescape (json_escape b @ ys)"
    by (simp only: json_unescape_escape assms [symmetric])
  also have "\<dots> = (b, ys)" by (rule json_unescape_escape)
  finally show ?thesis by simp
qed

interpretation escape: prefix_code json_escape
  by unfold_locales (rule json_escape_prefix_free)

lemma json_escape_head: "\<exists>c cs. json_escape a = c # cs \<and> c \<noteq> 34"
proof -
  have "json_escape a \<noteq> []" and "hd (json_escape a) \<noteq> 34" by (simp_all add: json_escape_def)
  then show ?thesis by (cases "json_escape a") auto
qed

interpretation str: prefix_code json_str
proof unfold_locales
  fix a b xs ys
  assume "json_str a @ xs = json_str b @ ys"
  then have "concat (map json_escape a) @ 34 # xs = concat (map json_escape b) @ 34 # ys"
    by (simp add: json_str_def)
  then show "a = b \<and> xs = ys"
    by (rule escape.concat_terminated_inject [OF json_escape_head])
qed

section \<open>Object fields\<close>

text \<open>A field value with the comma that follows it.\<close>

definition int_field :: "int \<Rightarrow> rstr" where
  "int_field i = json_int i @ [44]"

definition str_field :: "rstr \<Rightarrow> rstr" where
  "str_field s = json_str s @ [44]"

definition opt_int_field :: "int option \<Rightarrow> rstr" where
  "opt_int_field x = json_opt json_int x @ [44]"

definition opt_str_field :: "rstr option \<Rightarrow> rstr" where
  "opt_str_field x = json_opt json_str x @ [44]"

lemma int_stopped:
  assumes "json_int a @ c # xs = json_int b @ d # ys" and "\<not> int_char c" and "\<not> int_char d"
  shows "a = b \<and> c # xs = d # ys"
  using stopped_append_inject [OF assms(1) [unfolded json_int_def], of int_char]
    assms(2,3) show_int_chars by auto

lemma json_int_not_null: "json_int i @ xs \<noteq> 110 # ys"
proof
  assume eq: "json_int i @ xs = 110 # ys"
  obtain c cs where "json_int i = c # cs" by (cases "json_int i") (auto simp: json_int_def)
  with eq have "110 \<in> set (show_int i)" by (simp add: json_int_def)
  then show False by (auto dest: show_int_chars simp: int_char_def is_digit_def)
qed

lemma json_str_not_null: "json_str s @ xs \<noteq> 110 # ys"
  by (simp add: json_str_def)

lemma comma_stops [simp]: "\<not> int_char 44"
  by (simp add: int_char_def is_digit_def)

interpretation int_fld: prefix_code int_field
proof unfold_locales
  fix a b xs ys
  assume "int_field a @ xs = int_field b @ ys"
  then have "json_int a @ 44 # xs = json_int b @ 44 # ys" by (simp add: int_field_def)
  then show "a = b \<and> xs = ys" by (auto dest: int_stopped)
qed

interpretation str_fld: prefix_code str_field
proof unfold_locales
  fix a b xs ys
  assume "str_field a @ xs = str_field b @ ys"
  then show "a = b \<and> xs = ys" by (auto simp: str_field_def str.enc_append_inject)
qed

interpretation opt_int: prefix_code opt_int_field
proof unfold_locales
  fix a b xs ys
  assume "opt_int_field a @ xs = opt_int_field b @ ys"
  then show "a = b \<and> xs = ys"
    using json_int_not_null json_int_not_null [THEN not_sym]
    by (cases a; cases b) (auto simp: opt_int_field_def json_opt_def dest: int_stopped)
qed

interpretation opt_str_val: prefix_code "json_opt json_str"
proof unfold_locales
  fix a b xs ys
  assume "json_opt json_str a @ xs = json_opt json_str b @ ys"
  then show "a = b \<and> xs = ys"
    using json_str_not_null json_str_not_null [THEN not_sym]
    by (cases a; cases b) (auto simp: json_opt_def str.enc_append_inject)
qed

interpretation opt_str: prefix_code opt_str_field
  by unfold_locales (auto simp: opt_str_field_def opt_str_val.enc_append_inject)

lemmas field_injects =
  int_fld.enc_append_inject str_fld.enc_append_inject
  opt_int.enc_append_inject opt_str.enc_append_inject
  str.enc_append_inject opt_str_val.enc_append_inject

end
