(* ===== verification/Ledger.thy ===== *)
theory Ledger
  imports Json
begin

text \<open>
  \<^verbatim>\<open>polis-core/src/ledger.rs\<close>: the vocabulary of the ledger (event kinds, corpus roles, prompt
  sources), the canonical event and its hash, and the consume-once guards.  SHA-256 is a crate the
  repository depends on, so it is a parameter \<open>sha\<close> of every definition that hashes: a function from
  bytes to the 64 hexadecimal characters of \<^verbatim>\<open>sha256_hex\<close>.
\<close>

type_synonym sha_fn = "byte list \<Rightarrow> rstr"

section \<open>Sources, roles and kinds\<close>

datatype prompt_source = Hook | DrafterLaunch | RustFirstTurn | VoiceStream | Api

fun prompt_source_as_str :: "prompt_source \<Rightarrow> rstr" where
  "prompt_source_as_str Hook = lit ''hook''"
| "prompt_source_as_str DrafterLaunch = lit ''drafter_launch''"
| "prompt_source_as_str RustFirstTurn = lit ''rust_firstturn''"
| "prompt_source_as_str VoiceStream = lit ''voice_stream''"
| "prompt_source_as_str Api = lit ''api''"

datatype corpus_role = RoleUser | RoleAssistant | RoleAgent | RoleSystem

fun corpus_role_as_str :: "corpus_role \<Rightarrow> rstr" where
  "corpus_role_as_str RoleUser = lit ''user''"
| "corpus_role_as_str RoleAssistant = lit ''assistant''"
| "corpus_role_as_str RoleAgent = lit ''agent''"
| "corpus_role_as_str RoleSystem = lit ''system''"

definition to_ascii_lowercase :: "rstr \<Rightarrow> rstr" where
  "to_ascii_lowercase s = map (\<lambda>c. if 65 \<le> c \<and> c \<le> 90 then c + 32 else c) s"

definition corpus_role_parse :: "rstr \<Rightarrow> corpus_role option" where
  "corpus_role_parse value =
     (let v = to_ascii_lowercase (trim value)
      in if v = lit ''user'' \<or> v = lit ''human'' then Some RoleUser
         else if v = lit ''assistant'' \<or> v = lit ''ai'' then Some RoleAssistant
         else if v = lit ''agent'' then Some RoleAgent
         else if v = lit ''system'' then Some RoleSystem
         else None)"

definition system_prefixes :: "rstr list" where
  "system_prefixes = [lit ''<task-notification>'', lit ''<system-reminder>'']"

definition classify_captured :: "rstr \<Rightarrow> corpus_role" where
  "classify_captured body =
     (let head = trim_start_by is_whitespace body
      in if list_ex (starts_with head) system_prefixes then RoleSystem else RoleUser)"

datatype origin = OriginRedline | OriginExternal

fun origin_as_str :: "origin \<Rightarrow> rstr" where
  "origin_as_str OriginRedline = lit ''redline''"
| "origin_as_str OriginExternal = lit ''external''"

datatype event_kind =
    EkPrompt | EkRevision | EkResolution | EkApproval | EkReopen | EkReviewVerdict | EkPin
  | EkSourceTrust | EkTaxonomyReorg | EkClassCurate | EkCompaction | EkCaptureForgotten
  | EkBrowseEvent | EkSessionLink | EkSupersede | EkObservation | EkNote | EkWorkFile
  | EkWorkClaim | EkWorkClose | EkMootTurn | EkRouterVerdict | EkGardenerRevert
  | EkGardenerRegression | EkPrincipalBind | EkRedaction

definition event_kind_ALL :: "event_kind list" where
  "event_kind_ALL =
     [EkPrompt, EkRevision, EkResolution, EkApproval, EkReopen, EkReviewVerdict, EkPin,
      EkSourceTrust, EkTaxonomyReorg, EkClassCurate, EkCompaction, EkCaptureForgotten,
      EkBrowseEvent, EkSessionLink, EkSupersede, EkObservation, EkNote, EkWorkFile,
      EkWorkClaim, EkWorkClose, EkMootTurn, EkRouterVerdict, EkPrincipalBind, EkRedaction]"

fun event_kind_as_str :: "event_kind \<Rightarrow> rstr" where
  "event_kind_as_str EkPrompt = lit ''prompt''"
| "event_kind_as_str EkRevision = lit ''revision''"
| "event_kind_as_str EkResolution = lit ''resolution''"
| "event_kind_as_str EkApproval = lit ''approval''"
| "event_kind_as_str EkReopen = lit ''reopen''"
| "event_kind_as_str EkReviewVerdict = lit ''review_verdict''"
| "event_kind_as_str EkPin = lit ''pin''"
| "event_kind_as_str EkSourceTrust = lit ''source_trust''"
| "event_kind_as_str EkTaxonomyReorg = lit ''taxonomy_reorg''"
| "event_kind_as_str EkClassCurate = lit ''class_curate''"
| "event_kind_as_str EkCompaction = lit ''compaction''"
| "event_kind_as_str EkCaptureForgotten = lit ''capture_forgotten''"
| "event_kind_as_str EkBrowseEvent = lit ''browse_event''"
| "event_kind_as_str EkSessionLink = lit ''session_link''"
| "event_kind_as_str EkSupersede = lit ''supersede''"
| "event_kind_as_str EkObservation = lit ''observation''"
| "event_kind_as_str EkNote = lit ''note''"
| "event_kind_as_str EkWorkFile = lit ''work_file''"
| "event_kind_as_str EkWorkClaim = lit ''work_claim''"
| "event_kind_as_str EkWorkClose = lit ''work_close''"
| "event_kind_as_str EkMootTurn = lit ''moot_turn''"
| "event_kind_as_str EkRouterVerdict = lit ''router_verdict''"
| "event_kind_as_str EkGardenerRevert = lit ''gardener_revert''"
| "event_kind_as_str EkGardenerRegression = lit ''gardener_regression''"
| "event_kind_as_str EkPrincipalBind = lit ''principal_bind''"
| "event_kind_as_str EkRedaction = lit ''redaction''"

section \<open>The canonical event and its hash\<close>

text \<open>Genesis predecessor hash: 64 hexadecimal zeros.\<close>

definition GENESIS_PREV :: rstr where
  "GENESIS_PREV = replicate 64 48"

definition body_hash :: "sha_fn \<Rightarrow> rstr \<Rightarrow> rstr" where
  "body_hash sha body = sha (utf8 body)"

text \<open>
  The hashed fields, in declaration order.  A stored row is the same record extended with the two
  hashes, so \<open>canonical_event.truncate\<close> is the projection \<^verbatim>\<open>canonical_of\<close>.
\<close>

record canonical_event =
  ev_seq :: int
  ev_ts :: int
  ev_kind :: rstr
  ev_author :: rstr
  ev_prompt_id :: "int option"
  ev_session_id :: "rstr option"
  ev_version_number :: "int option"
  ev_ref_kind :: "rstr option"
  ev_ref_id :: "rstr option"
  ev_payload_hash :: rstr

record ledger_event_row = canonical_event +
  prev_hash :: rstr
  entry_hash :: rstr

text \<open>The arguments of an append: the event without its sequence number.\<close>

record ledger_append =
  la_kind :: rstr
  la_author :: rstr
  la_ts :: int
  la_prompt_id :: "int option"
  la_session_id :: "rstr option"
  la_version_number :: "int option"
  la_ref_kind :: "rstr option"
  la_ref_id :: "rstr option"
  la_payload_hash :: rstr

definition json_key :: "string \<Rightarrow> rstr" where
  "json_key k = 34 # lit k @ [34, 58]"

text \<open>\<^verbatim>\<open>serde_json::to_string\<close> of the event: one object, the keys in field order, no whitespace.\<close>

definition canonical_json :: "canonical_event \<Rightarrow> rstr" where
  "canonical_json e =
     [123] @ json_key ''seq'' @ int_field (ev_seq e)
     @ json_key ''ts'' @ int_field (ev_ts e)
     @ json_key ''kind'' @ str_field (ev_kind e)
     @ json_key ''author'' @ str_field (ev_author e)
     @ json_key ''prompt_id'' @ opt_int_field (ev_prompt_id e)
     @ json_key ''session_id'' @ opt_str_field (ev_session_id e)
     @ json_key ''version_number'' @ opt_int_field (ev_version_number e)
     @ json_key ''ref_kind'' @ opt_str_field (ev_ref_kind e)
     @ json_key ''ref_id'' @ opt_str_field (ev_ref_id e)
     @ json_key ''payload_hash'' @ json_str (ev_payload_hash e) @ [125]"

definition compute_entry_hash :: "sha_fn \<Rightarrow> rstr \<Rightarrow> canonical_event \<Rightarrow> rstr" where
  "compute_entry_hash sha prev ev = sha (utf8 (prev @ canonical_json ev))"

definition canonical_of :: "ledger_event_row \<Rightarrow> canonical_event" where
  "canonical_of row = canonical_event.truncate row"

lemma canonical_json_inject: "canonical_json e = canonical_json f \<longleftrightarrow> e = f"
proof
  assume "canonical_json e = canonical_json f"
  then show "e = f"
    unfolding canonical_json_def append_assoc same_append_eq field_injects str.enc_append_inject
    by (intro canonical_event.equality) simp_all
qed simp

text \<open>Equal hash inputs, under predecessors of one length, mean the same predecessor and event.\<close>

lemma hash_input_inject:
  assumes "length p = length q"
  shows "utf8 (p @ canonical_json e) = utf8 (q @ canonical_json f) \<longleftrightarrow> p = q \<and> e = f"
  using assms by (auto simp: canonical_json_inject simp del: utf8_append)

text \<open>\<^verbatim>\<open>decision_payload_hash\<close>: \<^verbatim>\<open>key=value\<close> lines in the caller's order, hashed.\<close>

definition decision_payload :: "(rstr \<times> rstr) list \<Rightarrow> rstr" where
  "decision_payload kvs = concat (map (\<lambda>(k, v). k @ [61] @ v @ [10]) kvs)"

definition decision_payload_hash :: "sha_fn \<Rightarrow> (rstr \<times> rstr) list \<Rightarrow> rstr" where
  "decision_payload_hash sha kvs = sha (utf8 (decision_payload kvs))"

section \<open>The consume-once guard\<close>

text \<open>
  \<^verbatim>\<open>TtlGuard\<close>: a map from keys to a value and the instant it was registered.  Instants are numbers
  of the monotonic clock; \<^verbatim>\<open>duration_since\<close> saturates at zero, as subtraction of naturals does.
  \<open>register\<close> reads the clock twice, once to prune and once for the entry.
\<close>

type_synonym 'v ttl_guard = "rstr \<Rightarrow> ('v \<times> nat) option"

definition ttl_prune :: "nat \<Rightarrow> nat \<Rightarrow> 'v ttl_guard \<Rightarrow> 'v ttl_guard" where
  "ttl_prune ttl now m =
     (\<lambda>k. case m k of None \<Rightarrow> None | Some (v, t) \<Rightarrow> if now - t < ttl then Some (v, t) else None)"

definition ttl_register ::
  "nat \<Rightarrow> nat \<Rightarrow> nat \<Rightarrow> rstr \<Rightarrow> 'v \<Rightarrow> 'v ttl_guard \<Rightarrow> 'v ttl_guard" where
  "ttl_register ttl now now' key value m = (ttl_prune ttl now m)(key \<mapsto> (value, now'))"

definition ttl_claim :: "nat \<Rightarrow> nat \<Rightarrow> rstr \<Rightarrow> 'v ttl_guard \<Rightarrow> 'v option \<times> 'v ttl_guard" where
  "ttl_claim ttl now key m =
     (let g = ttl_prune ttl now m in (map_option fst (g key), g(key := None)))"

text \<open>Five minutes, in the clock's milliseconds.\<close>

definition GUARD_TTL :: nat where
  "GUARD_TTL = 300000"

definition register_agent_prompt ::
  "sha_fn \<Rightarrow> nat \<Rightarrow> nat \<Rightarrow> rstr \<Rightarrow> unit ttl_guard \<Rightarrow> unit ttl_guard" where
  "register_agent_prompt sha now now' body m =
     ttl_register GUARD_TTL now now' (body_hash sha (trim body)) () m"

definition claim_agent_prompt :: "nat \<Rightarrow> rstr \<Rightarrow> unit ttl_guard \<Rightarrow> bool \<times> unit ttl_guard" where
  "claim_agent_prompt now hash m =
     (let (r, m') = ttl_claim GUARD_TTL now hash m in (r \<noteq> None, m'))"

section \<open>Properties\<close>

text \<open>
  C1. The bytes the chain hashes determine the predecessor hash and every field of the event: two
  events hashed onto predecessors of the same length have the same hash input only if they are the
  same event on the same predecessor, so no field can be edited, moved or dropped silently.
\<close>

theorem hash_input_determines_event:
  assumes "length p = length q"
  shows "utf8 (p @ canonical_json e) = utf8 (q @ canonical_json f) \<longleftrightarrow> p = q \<and> e = f"
  using assms by (rule hash_input_inject)

definition sample_event :: canonical_event where
  "sample_event =
     \<lparr>ev_seq = 1, ev_ts = 1000, ev_kind = lit ''prompt'', ev_author = lit ''local'',
      ev_prompt_id = Some 7, ev_session_id = Some (lit ''sess''), ev_version_number = None,
      ev_ref_kind = None, ev_ref_id = None, ev_payload_hash = lit ''abc''\<rparr>"

theorem hash_input_determines_event_witness:
  "length GENESIS_PREV = length GENESIS_PREV \<and>
   utf8 (GENESIS_PREV @ canonical_json sample_event)
     \<noteq> utf8 (GENESIS_PREV @ canonical_json (sample_event\<lparr>ev_author := lit ''bob''\<rparr>))"
  using hash_input_determines_event [OF refl, of GENESIS_PREV sample_event
      "sample_event\<lparr>ev_author := lit ''bob''\<rparr>"]
  by (simp add: sample_event_def lit_def)

lemma event_kind_as_str_eq:
  assumes "event_kind_as_str a = event_kind_as_str b"
  shows "a = b"
proof -
  let ?all = "EkGardenerRevert # EkGardenerRegression # event_kind_ALL"
  have "distinct (map event_kind_as_str ?all)" by code_simp
  then have "inj_on event_kind_as_str (set ?all)" by (simp only: distinct_map)
  moreover have "k \<in> set ?all" for k by (cases k) (simp_all add: event_kind_ALL_def)
  ultimately show ?thesis using assms by (metis inj_onD)
qed

lemma set_event_kind_ALL: "set event_kind_ALL = UNIV - {EkGardenerRevert, EkGardenerRegression}"
proof -
  have "k \<in> set event_kind_ALL \<longleftrightarrow> k \<noteq> EkGardenerRevert \<and> k \<noteq> EkGardenerRegression" for k
    by (cases k) (simp_all add: event_kind_ALL_def)
  then show ?thesis by blast
qed

text \<open>
  The wire strings of the event kinds are pairwise different, and the list \<^verbatim>\<open>EventKind::ALL\<close>,
  documented as holding every kind, holds all of them exactly once except the two gardener kinds
  \<^verbatim>\<open>GardenerRevert\<close> and \<^verbatim>\<open>GardenerRegression\<close>.
\<close>

lemma event_kinds_on_the_wire:
  "inj event_kind_as_str \<and> distinct event_kind_ALL
   \<and> set event_kind_ALL = UNIV - {EkGardenerRevert, EkGardenerRegression}"
proof (intro conjI)
  show "inj event_kind_as_str" by (rule injI) (rule event_kind_as_str_eq)
  show "distinct event_kind_ALL" by (simp add: event_kind_ALL_def)
qed (rule set_event_kind_ALL)

subsection \<open>The guard as a consume-once store\<close>

text \<open>
  The contract of a consume-once store: \<open>held\<close> over-approximates the keys a claim can take,
  registering adds at most its own key, and a successful claim takes a held key away.
\<close>

locale consume_once =
  fixes register :: "'t \<Rightarrow> 'k \<Rightarrow> 'v \<Rightarrow> 'm \<Rightarrow> 'm"
    and claim :: "'u \<Rightarrow> 'k \<Rightarrow> 'm \<Rightarrow> 'v option \<times> 'm"
    and held :: "'m \<Rightarrow> 'k set"
  assumes register_held: "held (register t k v m) \<subseteq> insert k (held m)"
    and claim_held: "held (snd (claim u k m)) \<subseteq> held m - {k}"
    and claim_some: "fst (claim u k m) \<noteq> None \<Longrightarrow> k \<in> held m"
begin

fun run :: "('t \<times> 'k \<times> 'v + 'u \<times> 'k) list \<Rightarrow> 'm \<Rightarrow> 'k list \<times> 'm" where
  "run [] m = ([], m)"
| "run (Inl (t, k, v) # ops) m = run ops (register t k v m)"
| "run (Inr (u, k) # ops) m =
     (let (r, m') = claim u k m; (ks, m'') = run ops m'
      in ((if r = None then ks else k # ks), m''))"

fun registrations :: "'k \<Rightarrow> ('t \<times> 'k \<times> 'v + 'u \<times> 'k) list \<Rightarrow> nat" where
  "registrations k [] = 0"
| "registrations k (Inl (t, k', v) # ops) = (if k' = k then 1 else 0) + registrations k ops"
| "registrations k (Inr _ # ops) = registrations k ops"

lemma claims_bounded:
  "count_list (fst (run ops m)) k \<le> registrations k ops + (if k \<in> held m then 1 else 0)"
proof (induction ops m rule: run.induct)
  case (2 t k' v ops m)
  then show ?case using register_held [of t k' v m] by (auto split: if_splits)
next
  case (3 u k' ops m)
  obtain r m' where c: "claim u k' m = (r, m')" by fastforce
  then have "held m' \<subseteq> held m - {k'}" and "r \<noteq> None \<Longrightarrow> k' \<in> held m"
    using claim_held [of u k' m] claim_some [of u k' m] by auto
  with "3.IH" [of "(r, m')" r m'] c show ?case
    by (auto split: prod.splits if_splits)
qed simp

lemma claim_twice: "fst (claim u' k (snd (claim u k m))) = None"
  using claim_some [of u' k "snd (claim u k m)"] claim_held [of u k m] by fastforce

end

definition ttl_register_at ::
  "nat \<Rightarrow> nat \<times> nat \<Rightarrow> rstr \<Rightarrow> 'v \<Rightarrow> 'v ttl_guard \<Rightarrow> 'v ttl_guard" where
  "ttl_register_at ttl t k v m = ttl_register ttl (fst t) (snd t) k v m"

interpretation guard: consume_once "ttl_register_at ttl" "ttl_claim ttl" dom for ttl
  by unfold_locales
    (auto simp: ttl_register_at_def ttl_register_def ttl_claim_def ttl_prune_def Let_def
      split: option.splits if_splits)

text \<open>
  A history of the guard: \<open>Inl\<close> a registration with its two clock readings, \<open>Inr\<close> a claim.  \<open>guard_run\<close>
  yields the keys successfully claimed, in order, and the guard it leaves.
\<close>

fun guard_run ::
  "nat \<Rightarrow> ((nat \<times> nat) \<times> rstr \<times> 'v + nat \<times> rstr) list \<Rightarrow> 'v ttl_guard \<Rightarrow> rstr list \<times> 'v ttl_guard" where
  "guard_run ttl [] m = ([], m)"
| "guard_run ttl (Inl ((now, now'), k, v) # ops) m = guard_run ttl ops (ttl_register ttl now now' k v m)"
| "guard_run ttl (Inr (now, k) # ops) m =
     (let (r, m') = ttl_claim ttl now k m; (ks, m'') = guard_run ttl ops m'
      in ((if r = None then ks else k # ks), m''))"

fun guard_registrations :: "rstr \<Rightarrow> ((nat \<times> nat) \<times> rstr \<times> 'v + nat \<times> rstr) list \<Rightarrow> nat" where
  "guard_registrations k [] = 0"
| "guard_registrations k (Inl (t, k', v) # ops) = (if k' = k then 1 else 0) + guard_registrations k ops"
| "guard_registrations k (Inr _ # ops) = guard_registrations k ops"

lemma ttl_register_at_pair: "ttl_register_at ttl (now, now') k v m = ttl_register ttl now now' k v m"
  by (simp add: ttl_register_at_def)

lemma guard_run_eq: "guard_run ttl ops m = guard.run ttl ops m"
  by (induction ttl ops m rule: guard_run.induct)
    (simp_all add: ttl_register_at_pair split: prod.splits)

lemma guard_registrations_eq: "guard_registrations k ops = guard.registrations k ops"
  by (induction k ops rule: guard_registrations.induct) simp_all

text \<open>
  Over any sequence of registrations and claims on an empty guard, with any clock readings, a
  key is claimed successfully at most as often as it was registered.
\<close>

theorem claims_never_exceed_registrations:
  "count_list (fst (guard_run ttl ops Map.empty)) k \<le> guard_registrations k ops"
  using guard.claims_bounded [of ttl ops Map.empty k] by (simp add: guard_run_eq guard_registrations_eq)

text \<open>
  The trim is the guard's business: a body registered at a construction site is claimed by the
  hash the capture hook computes from any spelling of it that differs in surrounding whitespace,
  while less than five minutes have passed, and the same hash is not claimed again at any time.
\<close>

theorem agent_prompt_claim_is_trim_insensitive:
  assumes "trim hook_body = trim body" and "later - now' < GUARD_TTL"
  shows "let (first, m') = claim_agent_prompt later (body_hash sha (trim hook_body))
                             (register_agent_prompt sha now now' body m);
             (second, _) = claim_agent_prompt latest (body_hash sha (trim hook_body)) m'
         in first \<and> \<not> second"
  using assms
  by (auto simp: claim_agent_prompt_def register_agent_prompt_def ttl_register_def ttl_claim_def
      ttl_prune_def Let_def split: option.splits)

theorem agent_prompt_claim_is_trim_insensitive_witness:
  "trim (lit ''  hello '') = trim (lit ''hello'') \<and> (5::nat) - 2 < GUARD_TTL \<and>
   fst (claim_agent_prompt 5 (body_hash (\<lambda>b. b) (trim (lit ''  hello '')))
          (register_agent_prompt (\<lambda>b. b) 1 2 (lit ''hello'') Map.empty))"
proof -
  have t: "trim (lit ''  hello '') = trim (lit ''hello'')" by code_simp
  have g: "(5::nat) - 2 < GUARD_TTL" by (simp add: GUARD_TTL_def)
  have "fst (claim_agent_prompt 5 (body_hash (\<lambda>b. b) (trim (lit ''  hello '')))
          (register_agent_prompt (\<lambda>b. b) 1 2 (lit ''hello'') Map.empty))"
    using agent_prompt_claim_is_trim_insensitive
      [OF t g, where sha = "\<lambda>b. b" and m = Map.empty and now = 1 and latest = 6]
    by (simp only: Let_def case_prod_beta)
  with t g show ?thesis by blast
qed

lemma corpus_role_parse_as_str: "corpus_role_parse (corpus_role_as_str r) = Some r"
proof (cases r)
  case RoleUser then show ?thesis by (simp only:) code_simp
next
  case RoleAssistant then show ?thesis by (simp only:) code_simp
next
  case RoleAgent then show ?thesis by (simp only:) code_simp
next
  case RoleSystem then show ?thesis by (simp only:) code_simp
qed

end
