(* ===== verification/Chain.thy ===== *)
theory Chain
  imports Ledger
begin

text \<open>
  \<^verbatim>\<open>polis-store/src/ledger.rs\<close> and \<^verbatim>\<open>chain.rs\<close>: the append that links an event onto the head, the
  full and the incremental verification, and the chain's read queries.  A table is the list of its
  rows in primary-key order, which is the order every \<^verbatim>\<open>ORDER BY seq ASC\<close> reads.
\<close>

section \<open>State and reads\<close>

record chain_verdict =
  cv_ok :: bool
  cv_checked :: int
  cv_first_bad_seq :: "int option"
  cv_head_hash :: "rstr option"

record ledger_store =
  ledger_events :: "ledger_event_row list"
  polis_meta :: "rstr \<Rightarrow> rstr option"

definition VERIFY_HEAD_HASH :: rstr where
  "VERIFY_HEAD_HASH = lit ''redline.ledgerVerify.headHash''"

definition VERIFY_LAST_SEQ :: rstr where
  "VERIFY_LAST_SEQ = lit ''redline.ledgerVerify.lastSeq''"

definition set_meta :: "rstr \<Rightarrow> rstr \<Rightarrow> ledger_store \<Rightarrow> ledger_store" where
  "set_meta k v st = st\<lparr>polis_meta := (polis_meta st)(k \<mapsto> v)\<rparr>"

definition max_ledger_seq :: "ledger_event_row list \<Rightarrow> int" where
  "max_ledger_seq rows = (if rows = [] then 0 else Max (ev_seq ` set rows))"

text \<open>SQLite's \<^verbatim>\<open>LIMIT\<close>: a negative bound means no bound.\<close>

definition sql_limit :: "int \<Rightarrow> 'a list \<Rightarrow> 'a list" where
  "sql_limit n xs = (if n < 0 then xs else take (nat n) xs)"

definition list_session_events :: "rstr \<Rightarrow> ledger_event_row list \<Rightarrow> ledger_event_row list" where
  "list_session_events sid rows = filter (\<lambda>e. ev_session_id e = Some sid) rows"

definition list_ledger_events_asc ::
  "int \<Rightarrow> int \<Rightarrow> ledger_event_row list \<Rightarrow> ledger_event_row list" where
  "list_ledger_events_asc since_seq limit rows =
     sql_limit (max limit 0) (filter (\<lambda>e. max since_seq 0 < ev_seq e) rows)"

definition list_ledger_events :: "int \<Rightarrow> ledger_event_row list \<Rightarrow> ledger_event_row list" where
  "list_ledger_events limit rows = sql_limit limit (rev rows)"

definition list_ledger_events_of_kind_since ::
  "rstr \<Rightarrow> int \<Rightarrow> int \<Rightarrow> ledger_event_row list \<Rightarrow> ledger_event_row list" where
  "list_ledger_events_of_kind_since kind since_ts limit rows =
     sql_limit (max limit 1) (rev (filter (\<lambda>e. ev_kind e = kind \<and> since_ts \<le> ev_ts e) rows))"

definition revision_event_exists ::
  "rstr \<Rightarrow> int \<Rightarrow> rstr \<Rightarrow> ledger_event_row list \<Rightarrow> bool" where
  "revision_event_exists sid version ph rows \<longleftrightarrow>
     list_ex (\<lambda>e. ev_kind e = lit ''revision'' \<and> ev_session_id e = Some sid
                  \<and> ev_version_number e = Some version \<and> ev_payload_hash e = ph) rows"

definition decision_event_exists ::
  "rstr \<Rightarrow> rstr \<Rightarrow> rstr \<Rightarrow> rstr \<Rightarrow> ledger_event_row list \<Rightarrow> bool" where
  "decision_event_exists kind rk rid ph rows \<longleftrightarrow>
     list_ex (\<lambda>e. ev_kind e = kind \<and> ev_ref_kind e = Some rk \<and> ev_ref_id e = Some rid
                  \<and> ev_payload_hash e = ph) rows"

definition latest_decision_seq :: "rstr \<Rightarrow> rstr \<Rightarrow> ledger_event_row list \<Rightarrow> int option" where
  "latest_decision_seq sid kind rows =
     (case filter (\<lambda>e. ev_session_id e = Some sid \<and> ev_kind e = kind) rows of
        [] \<Rightarrow> None | es \<Rightarrow> Some (Max (ev_seq ` set es)))"

definition latest_approval_seq :: "rstr \<Rightarrow> ledger_event_row list \<Rightarrow> int option" where
  "latest_approval_seq sid rows =
     map_option ev_seq
       (find (\<lambda>e. ev_kind e = lit ''approval'' \<and> ev_session_id e = Some sid) (rev rows))"

definition kind_of_seq :: "ledger_event_row list \<Rightarrow> int \<Rightarrow> rstr option" where
  "kind_of_seq rows s = map_option ev_kind (find (\<lambda>e. ev_seq e = s) rows)"

section \<open>Append\<close>

text \<open>
  \<^verbatim>\<open>append_in_txn\<close>: read the head, take the next sequence number, hash the canonical event onto the
  head's hash, insert the row.
\<close>

definition ledger_head :: "ledger_event_row list \<Rightarrow> int \<times> rstr" where
  "ledger_head rows =
     (if rows = [] then (0, GENESIS_PREV) else (ev_seq (last rows), entry_hash (last rows)))"

definition append_in_txn ::
  "sha_fn \<Rightarrow> ledger_append \<Rightarrow> ledger_event_row list \<Rightarrow> ledger_event_row \<times> ledger_event_row list" where
  "append_in_txn sha a rows =
     (let (prev_seq, prev) = ledger_head rows;
          seq = prev_seq + 1;
          canon = \<lparr>ev_seq = seq, ev_ts = la_ts a, ev_kind = la_kind a, ev_author = la_author a,
                   ev_prompt_id = la_prompt_id a, ev_session_id = la_session_id a,
                   ev_version_number = la_version_number a, ev_ref_kind = la_ref_kind a,
                   ev_ref_id = la_ref_id a, ev_payload_hash = la_payload_hash a\<rparr>;
          row = canonical_event.extend canon
                  (ledger_event_row.fields prev (compute_entry_hash sha prev canon))
      in (row, rows @ [row]))"

section \<open>Verification\<close>

text \<open>
  The walk both verifications share: from a predecessor hash, a count and a head, each row must
  commit to its actual predecessor and its stored hash must recompute.
\<close>

definition bad_verdict :: "int \<Rightarrow> ledger_event_row \<Rightarrow> chain_verdict" where
  "bad_verdict checked e =
     \<lparr>cv_ok = False, cv_checked = checked, cv_first_bad_seq = Some (ev_seq e), cv_head_hash = None\<rparr>"

fun verify_from ::
  "sha_fn \<Rightarrow> rstr \<Rightarrow> int \<Rightarrow> rstr option \<Rightarrow> ledger_event_row list \<Rightarrow> chain_verdict" where
  "verify_from sha prev checked head [] =
     \<lparr>cv_ok = True, cv_checked = checked, cv_first_bad_seq = None, cv_head_hash = head\<rparr>"
| "verify_from sha prev checked head (e # es) =
     (if prev_hash e \<noteq> prev then bad_verdict checked e
      else if compute_entry_hash sha (prev_hash e) (canonical_of e) \<noteq> entry_hash e
      then bad_verdict checked e
      else verify_from sha (entry_hash e) (checked + 1) (Some (entry_hash e)) es)"

definition verify_ledger_chain :: "sha_fn \<Rightarrow> ledger_event_row list \<Rightarrow> chain_verdict" where
  "verify_ledger_chain sha rows = verify_from sha GENESIS_PREV 0 None rows"

definition full_and_reanchor :: "sha_fn \<Rightarrow> ledger_store \<Rightarrow> chain_verdict \<times> ledger_store" where
  "full_and_reanchor sha st =
     (let verdict = verify_ledger_chain sha (ledger_events st)
      in if cv_ok verdict
         then (verdict,
               set_meta VERIFY_HEAD_HASH
                 (case cv_head_hash verdict of None \<Rightarrow> GENESIS_PREV | Some h \<Rightarrow> h)
                 (set_meta VERIFY_LAST_SEQ (show_int (max_ledger_seq (ledger_events st))) st))
         else (verdict, st))"

definition entry_hash_at :: "ledger_event_row list \<Rightarrow> int \<Rightarrow> rstr option" where
  "entry_hash_at rows s = map_option entry_hash (find (\<lambda>e. ev_seq e = s) rows)"

definition anchor_of :: "ledger_store \<Rightarrow> (int \<times> rstr) option" where
  "anchor_of st =
     (case (Option.bind (polis_meta st VERIFY_LAST_SEQ) parse_i64, polis_meta st VERIFY_HEAD_HASH) of
        (Some s, Some h) \<Rightarrow> Some (s, h) | _ \<Rightarrow> None)"

definition verify_ledger_chain_incremental ::
  "sha_fn \<Rightarrow> ledger_store \<Rightarrow> chain_verdict \<times> ledger_store" where
  "verify_ledger_chain_incremental sha st =
     (let head_seq = max_ledger_seq (ledger_events st)
      in case anchor_of st of
           None \<Rightarrow> full_and_reanchor sha st
         | Some (anchor_seq, anchor_hash) \<Rightarrow>
             if anchor_seq > head_seq then full_and_reanchor sha st
             else
               let anchor_ok = (case entry_hash_at (ledger_events st) anchor_seq of
                                  None \<Rightarrow> anchor_seq = 0 \<and> anchor_hash = GENESIS_PREV
                                | Some h \<Rightarrow> h = anchor_hash)
               in if \<not> anchor_ok then full_and_reanchor sha st
                  else if head_seq = anchor_seq
                  then (\<lparr>cv_ok = True, cv_checked = head_seq, cv_first_bad_seq = None,
                         cv_head_hash = Some anchor_hash\<rparr>, st)
                  else
                    let verdict = verify_from sha anchor_hash anchor_seq (Some anchor_hash)
                                    (filter (\<lambda>e. anchor_seq < ev_seq e) (ledger_events st))
                    in if cv_ok verdict
                       then (verdict,
                             set_meta VERIFY_HEAD_HASH (the (cv_head_hash verdict))
                               (set_meta VERIFY_LAST_SEQ (show_int head_seq) st))
                       else (verdict, st))"

section \<open>What a sound chain is\<close>

fun linked :: "sha_fn \<Rightarrow> rstr \<Rightarrow> ledger_event_row list \<Rightarrow> bool" where
  "linked sha prev [] = True"
| "linked sha prev (e # es) =
     (prev_hash e = prev \<and> entry_hash e = compute_entry_hash sha prev (canonical_of e)
      \<and> linked sha (entry_hash e) es)"

definition chain_head :: "rstr \<Rightarrow> ledger_event_row list \<Rightarrow> rstr" where
  "chain_head prev rows = (if rows = [] then prev else entry_hash (last rows))"

text \<open>The primary key order of the table, and the numbering an append-only chain has.\<close>

definition pk_sorted :: "ledger_event_row list \<Rightarrow> bool" where
  "pk_sorted rows \<longleftrightarrow> sorted_wrt (<) (map ev_seq rows)"

definition contiguous :: "ledger_event_row list \<Rightarrow> bool" where
  "contiguous rows \<longleftrightarrow> map ev_seq rows = [1..int (length rows)]"

definition sound_chain :: "sha_fn \<Rightarrow> ledger_event_row list \<Rightarrow> bool" where
  "sound_chain sha rows \<longleftrightarrow> linked sha GENESIS_PREV rows \<and> contiguous rows"

lemma chain_head_simps [simp]:
  "chain_head p [] = p" "chain_head p (e # es) = chain_head (entry_hash e) es"
  "chain_head p (es @ [e]) = entry_hash e"
  by (simp_all add: chain_head_def)

lemma linked_append [simp]:
  "linked sha p (xs @ ys) \<longleftrightarrow> linked sha p xs \<and> linked sha (chain_head p xs) ys"
  by (induction xs arbitrary: p) auto

lemma verify_from_linked:
  "linked sha prev rows \<Longrightarrow>
   verify_from sha prev checked head rows =
     \<lparr>cv_ok = True, cv_checked = checked + int (length rows), cv_first_bad_seq = None,
      cv_head_hash = (if rows = [] then head else Some (chain_head prev rows))\<rparr>"
  by (induction sha prev checked head rows rule: verify_from.induct) auto

lemma verify_from_broken:
  assumes "\<not> linked sha prev rows"
  shows "\<exists>i < length rows. linked sha prev (take i rows) \<and> \<not> linked sha prev (take (Suc i) rows)
    \<and> verify_from sha prev checked head rows = bad_verdict (checked + int i) (rows ! i)"
  using assms
proof (induction sha prev checked head rows rule: verify_from.induct)
  case (2 sha prev checked head e es)
  show ?case
  proof (cases "prev_hash e = prev \<and> entry_hash e = compute_entry_hash sha prev (canonical_of e)")
    case True
    with "2.prems" have "\<not> linked sha (entry_hash e) es" by simp
    with True "2.IH" obtain i where "i < length es" "linked sha (entry_hash e) (take i es)"
      "\<not> linked sha (entry_hash e) (take (Suc i) es)"
      "verify_from sha (entry_hash e) (checked + 1) (Some (entry_hash e)) es
         = bad_verdict (checked + 1 + int i) (es ! i)"
      by auto
    with True show ?thesis
      by (intro exI [of _ "Suc i"]) (auto simp: add.assoc)
  next
    case False
    then show ?thesis by (intro exI [of _ 0]) auto
  qed
qed simp

lemma verify_from_ok_iff: "cv_ok (verify_from sha prev checked head rows) \<longleftrightarrow> linked sha prev rows"
proof (cases "linked sha prev rows")
  case False
  then show ?thesis
    using verify_from_broken [OF False, of checked head] by (auto simp: bad_verdict_def)
qed (simp add: verify_from_linked)

section \<open>An append-only log\<close>

text \<open>
  The interface every recorder relies on: an append adds exactly one entry at the end, numbers it
  above everything recorded, and keeps the log valid.  Recorders that append through it can only
  extend the record.
\<close>

locale event_log =
  fixes append_op :: "'a \<Rightarrow> 's \<Rightarrow> 'r \<times> 's"
    and entries :: "'s \<Rightarrow> 'r list"
    and number :: "'r \<Rightarrow> int"
    and valid :: "'s \<Rightarrow> bool"
  assumes entries_append: "entries (snd (append_op a s)) = entries s @ [fst (append_op a s)]"
    and valid_append: "valid s \<Longrightarrow> valid (snd (append_op a s))"
    and number_append: "valid s \<Longrightarrow> r \<in> set (entries s) \<Longrightarrow> number r < number (fst (append_op a s))"
begin

fun append_all :: "'a list \<Rightarrow> 's \<Rightarrow> 's" where
  "append_all [] s = s"
| "append_all (a # as) s = append_all as (snd (append_op a s))"

lemma append_all_extends: "\<exists>rs. entries (append_all as s) = entries s @ rs \<and> length rs = length as"
proof (induction as arbitrary: s)
  case (Cons a as)
  show ?case using Cons.IH [of "snd (append_op a s)"] by (auto simp: entries_append)
qed simp

lemma valid_append_all: "valid s \<Longrightarrow> valid (append_all as s)"
  by (induction as arbitrary: s) (auto intro: valid_append)

lemma new_entry_fresh: "valid s \<Longrightarrow> fst (append_op a s) \<notin> set (entries s)"
  using number_append [of s "fst (append_op a s)" a] by auto

lemma numbers_increase:
  "valid s \<Longrightarrow> sorted_wrt (<) (map number (entries s)) \<Longrightarrow>
   sorted_wrt (<) (map number (entries (append_all as s)))"
proof (induction as arbitrary: s)
  case (Cons a as)
  have "sorted_wrt (<) (map number (entries (snd (append_op a s))))"
    using Cons.prems number_append [of s _ a] by (auto simp: entries_append sorted_wrt_append)
  then show ?case using Cons.IH Cons.prems valid_append by simp
qed simp

end

lemma append_in_txn_rows: "snd (append_in_txn sha a rows) = rows @ [fst (append_in_txn sha a rows)]"
  by (simp add: append_in_txn_def Let_def case_prod_beta)

lemma contiguous_snoc:
  "contiguous (rows @ [e]) \<longleftrightarrow> contiguous rows \<and> ev_seq e = int (length rows) + 1"
proof -
  have "[1..1 + int (length rows)] = [1..int (length rows)] @ [int (length rows) + 1]"
    using upto_rec2 [of 1 "int (length rows) + 1"] by (simp add: add.commute)
  then show ?thesis by (auto simp: contiguous_def add.commute)
qed

lemma contiguous_seqs: "contiguous rows \<Longrightarrow> e \<in> set rows \<Longrightarrow> 1 \<le> ev_seq e \<and> ev_seq e \<le> int (length rows)"
  unfolding contiguous_def by (metis atLeastAtMost_iff image_eqI list.set_map set_upto)

lemma contiguous_pk_sorted: "contiguous rows \<Longrightarrow> pk_sorted rows"
  by (simp add: contiguous_def pk_sorted_def sorted_wrt_upto)

lemma contiguous_head: "contiguous rows \<Longrightarrow> fst (ledger_head rows) = int (length rows)"
  by (cases rows rule: rev_cases) (auto simp: ledger_head_def contiguous_snoc)

lemma ledger_head_hash: "snd (ledger_head rows) = chain_head GENESIS_PREV rows"
  by (simp add: ledger_head_def chain_head_def)

lemma append_in_txn_row:
  "ev_seq (fst (append_in_txn sha a rows)) = fst (ledger_head rows) + 1"
  "prev_hash (fst (append_in_txn sha a rows)) = chain_head GENESIS_PREV rows"
  "entry_hash (fst (append_in_txn sha a rows))
     = compute_entry_hash sha (chain_head GENESIS_PREV rows) (canonical_of (fst (append_in_txn sha a rows)))"
  "ev_kind (fst (append_in_txn sha a rows)) = la_kind a"
  "ev_ts (fst (append_in_txn sha a rows)) = la_ts a"
  "ev_author (fst (append_in_txn sha a rows)) = la_author a"
  "ev_prompt_id (fst (append_in_txn sha a rows)) = la_prompt_id a"
  "ev_session_id (fst (append_in_txn sha a rows)) = la_session_id a"
  "ev_version_number (fst (append_in_txn sha a rows)) = la_version_number a"
  "ev_ref_kind (fst (append_in_txn sha a rows)) = la_ref_kind a"
  "ev_ref_id (fst (append_in_txn sha a rows)) = la_ref_id a"
  "ev_payload_hash (fst (append_in_txn sha a rows)) = la_payload_hash a"
  by (simp_all add: append_in_txn_def Let_def case_prod_beta ledger_head_hash [symmetric]
      canonical_of_def canonical_event.defs ledger_event_row.defs)

lemma sound_append: "sound_chain sha rows \<Longrightarrow> sound_chain sha (snd (append_in_txn sha a rows))"
  by (simp add: sound_chain_def append_in_txn_rows contiguous_snoc append_in_txn_row contiguous_head)

interpretation log: event_log "append_in_txn sha" "\<lambda>rows. rows" ev_seq "sound_chain sha" for sha
proof unfold_locales
  fix a rows and r :: ledger_event_row
  assume "sound_chain sha rows" and "r \<in> set rows"
  then show "ev_seq r < ev_seq (fst (append_in_txn sha a rows))"
    using contiguous_seqs [of rows r] by (auto simp: sound_chain_def append_in_txn_row contiguous_head)
qed (auto simp: append_in_txn_rows intro: sound_append [simplified append_in_txn_rows])

fun append_events ::
  "sha_fn \<Rightarrow> ledger_append list \<Rightarrow> ledger_event_row list \<Rightarrow> ledger_event_row list" where
  "append_events sha [] rows = rows"
| "append_events sha (a # as) rows = append_events sha as (snd (append_in_txn sha a rows))"

lemma append_events_eq: "append_events sha as rows = log.append_all sha as rows"
  by (induction as arbitrary: rows) simp_all

lemma sound_empty [simp]: "sound_chain sha []"
  by (simp add: sound_chain_def contiguous_def)

section \<open>Properties of the chain\<close>

text \<open>
  C2. The full verification is exact: it accepts precisely the chains in which every row commits to
  its predecessor and to its own fields, counts all rows and reports the last hash; otherwise it
  reports the first row at which the linkage or the hash breaks, with the number of rows before it.
\<close>

theorem verify_ledger_chain_exact:
  "if linked sha GENESIS_PREV rows
   then verify_ledger_chain sha rows =
          \<lparr>cv_ok = True, cv_checked = int (length rows), cv_first_bad_seq = None,
           cv_head_hash = (if rows = [] then None else Some (entry_hash (last rows)))\<rparr>
   else \<exists>i < length rows. linked sha GENESIS_PREV (take i rows)
          \<and> \<not> linked sha GENESIS_PREV (take (Suc i) rows)
          \<and> verify_ledger_chain sha rows =
              \<lparr>cv_ok = False, cv_checked = int i, cv_first_bad_seq = Some (ev_seq (rows ! i)),
               cv_head_hash = None\<rparr>"
  using verify_from_broken [of sha GENESIS_PREV rows 0 None]
  by (auto simp: verify_ledger_chain_def verify_from_linked chain_head_def bad_verdict_def)

text \<open>
  C3. A ledger built by appending alone verifies: after any appends to the empty table the
  verification accepts, has checked as many rows as events were appended, and the rows are numbered
  1, 2, 3 and so on.
\<close>

theorem appended_ledger_verifies:
  "let rows = append_events sha as [] in
     cv_ok (verify_ledger_chain sha rows) \<and> cv_checked (verify_ledger_chain sha rows) = int (length as)
     \<and> map ev_seq rows = [1..int (length as)]"
proof -
  have "sound_chain sha (append_events sha as [])"
    unfolding append_events_eq by (intro log.valid_append_all) simp
  moreover have "length (append_events sha as []) = length as"
    using log.append_all_extends [of sha as "[]"] by (auto simp: append_events_eq)
  ultimately show ?thesis
    by (simp add: sound_chain_def contiguous_def verify_ledger_chain_def verify_from_linked)
qed

text \<open>
  C6. One append on a sound chain: the new row is numbered one past the head, commits to the head's
  hash, carries each of the caller's nine fields (so the hash it stores is that of those fields), is
  the last row of the table with every earlier row unchanged, and the chain is sound again.
\<close>

theorem append_in_txn_correct:
  assumes "sound_chain sha rows"
  shows "let (row, rows') = append_in_txn sha a rows in
    rows' = rows @ [row] \<and> sound_chain sha rows' \<and> row \<notin> set rows
    \<and> ev_seq row = int (length rows) + 1 \<and> prev_hash row = chain_head GENESIS_PREV rows
    \<and> ev_kind row = la_kind a \<and> ev_author row = la_author a \<and> ev_ts row = la_ts a
    \<and> ev_prompt_id row = la_prompt_id a \<and> ev_session_id row = la_session_id a
    \<and> ev_version_number row = la_version_number a
    \<and> ev_ref_kind row = la_ref_kind a \<and> ev_ref_id row = la_ref_id a
    \<and> ev_payload_hash row = la_payload_hash a
    \<and> entry_hash row = compute_entry_hash sha (prev_hash row) (canonical_of row)"
  using sound_append [OF assms, of a] log.new_entry_fresh [OF assms, of a] assms
  by (simp add: case_prod_beta append_in_txn_rows append_in_txn_row contiguous_head sound_chain_def)

definition sample_append :: "string \<Rightarrow> ledger_append" where
  "sample_append p =
     \<lparr>la_kind = lit ''prompt'', la_author = lit ''local'', la_ts = 5, la_prompt_id = None,
      la_session_id = None, la_version_number = None, la_ref_kind = None, la_ref_id = None,
      la_payload_hash = lit p\<rparr>"

theorem append_in_txn_correct_witness:
  "sound_chain (\<lambda>b. b) [] \<and>
   ev_seq (fst (append_in_txn (\<lambda>b. b) (sample_append ''x'') [])) = 1"
  using append_in_txn_correct [OF sound_empty, of "\<lambda>b. b" "sample_append ''x''"]
  by (simp add: case_prod_beta)

subsection \<open>Tamper evidence\<close>

definition hash_input :: "ledger_event_row \<Rightarrow> byte list" where
  "hash_input e = utf8 (prev_hash e @ canonical_json (canonical_of e))"

lemma row_eqI:
  "canonical_of d = canonical_of e \<Longrightarrow> prev_hash d = prev_hash e \<Longrightarrow> entry_hash d = entry_hash e \<Longrightarrow> d = e"
  by (cases d; cases e) (auto simp: canonical_of_def canonical_event.truncate_def)

lemma linked_entry: "linked sha p rows \<Longrightarrow> e \<in> set rows \<Longrightarrow> entry_hash e = sha (hash_input e)"
  by (induction rows arbitrary: p) (auto simp: hash_input_def compute_entry_hash_def)

lemma chain_head_64:
  "\<forall>b. length (sha b) = 64 \<Longrightarrow> linked sha GENESIS_PREV rows \<Longrightarrow> length (chain_head GENESIS_PREV rows) = 64"
  by (cases rows rule: rev_cases) (auto simp: GENESIS_PREV_def compute_entry_hash_def)

text \<open>
  C14. Tamper evidence.  Two chains that verify and end in the same head hash are the same chain, row
  for row, whenever SHA-256 has no collision among the rows' hash inputs and none of them hashes to
  the genesis constant.  So whoever pins a head hash pins the whole history: no edit, insertion,
  removal or reordering of earlier events keeps both the verification and the head.
\<close>

theorem head_hash_pins_the_chain:
  assumes len: "\<forall>b. length (sha b) = 64"
    and inj: "inj_on sha (hash_input ` (set xs \<union> set ys))"
    and fresh: "GENESIS_PREV \<notin> sha ` hash_input ` (set xs \<union> set ys)"
    and "cv_ok (verify_ledger_chain sha xs)" and "cv_ok (verify_ledger_chain sha ys)"
    and "chain_head GENESIS_PREV xs = chain_head GENESIS_PREV ys"
  shows "xs = ys"
  using inj fresh assms(4-6) unfolding verify_ledger_chain_def verify_from_ok_iff
proof (induction xs arbitrary: ys rule: rev_induct)
  case Nil
  then show ?case
  proof (cases ys rule: rev_cases)
    case (snoc ys' y)
    with Nil have "GENESIS_PREV = sha (hash_input y)"
      using linked_entry [OF Nil.prems(4), of y] by simp
    with Nil.prems(2) snoc show ?thesis by simp
  qed simp
next
  case (snoc x xs)
  show ?case
  proof (cases ys rule: rev_cases)
    case Nil
    with snoc have "GENESIS_PREV = sha (hash_input x)"
      using linked_entry [OF snoc.prems(3), of x] by simp
    with snoc.prems(2) show ?thesis by simp
  next
    case (snoc ys' y)
    note ys = this
    have "entry_hash x = sha (hash_input x)"
      by (rule linked_entry [OF snoc.prems(3)]) simp
    moreover have "entry_hash y = sha (hash_input y)"
      by (rule linked_entry [OF snoc.prems(4)]) (simp add: ys)
    ultimately have same: "sha (hash_input x) = sha (hash_input y)"
      using snoc.prems(5) by (simp only: ys chain_head_simps)
    have input: "hash_input x = hash_input y"
      by (rule inj_onD [OF snoc.prems(1) same]) (simp_all add: ys)
    have "length (prev_hash x) = 64" and "length (prev_hash y) = 64"
      using snoc.prems(3,4) ys chain_head_64 [OF len, of xs] chain_head_64 [OF len, of ys'] by simp_all
    then have "prev_hash x = prev_hash y" and "canonical_of x = canonical_of y"
      using input hash_input_inject [of "prev_hash x" "prev_hash y" "canonical_of x" "canonical_of y"]
      by (simp_all only: hash_input_def simp_thms)
    moreover have "entry_hash x = entry_hash y" using snoc.prems(5) ys by simp
    ultimately have "x = y" by (intro row_eqI)
    moreover have "xs = ys'"
    proof (rule snoc.IH)
      show "inj_on sha (hash_input ` (set xs \<union> set ys'))"
        by (rule inj_on_subset [OF snoc.prems(1)]) (auto simp: ys)
      show "GENESIS_PREV \<notin> sha ` hash_input ` (set xs \<union> set ys')"
        using snoc.prems(2) by (auto simp: ys)
      show "chain_head GENESIS_PREV xs = chain_head GENESIS_PREV ys'"
        using snoc.prems(3,4) \<open>prev_hash x = prev_hash y\<close> by (simp add: ys)
    qed (use snoc.prems(3,4) ys in simp_all)
    ultimately show ?thesis using ys by simp
  qed
qed

text \<open>A stand-in hash for concrete examples: the last 64 bytes of the input, reversed and padded.\<close>

definition tail_hash :: sha_fn where
  "tail_hash b = take 64 (rev b @ replicate 64 48)"

lemma tail_hash_length: "length (tail_hash b) = 64"
  by (simp add: tail_hash_def)

definition sample_chain :: "ledger_event_row list" where
  "sample_chain =
     snd (append_in_txn tail_hash (sample_append ''y'')
       (snd (append_in_txn tail_hash (sample_append ''x'') [])))"

theorem head_hash_pins_the_chain_witness:
  "sample_chain = append_events tail_hash [sample_append ''x'', sample_append ''y''] []"
proof (rule head_hash_pins_the_chain)
  have ys: "append_events tail_hash [sample_append ''x'', sample_append ''y''] [] = sample_chain"
    by (simp add: sample_chain_def)
  have d: "distinct (map tail_hash (map hash_input sample_chain))" by code_simp
  show "inj_on tail_hash (hash_input ` (set sample_chain
          \<union> set (append_events tail_hash [sample_append ''x'', sample_append ''y''] [])))"
    using d unfolding ys by (simp only: distinct_map [of tail_hash] set_map Un_absorb)
  have g: "\<not> list_ex (\<lambda>h. h = GENESIS_PREV) (map tail_hash (map hash_input sample_chain))" by code_simp
  show "GENESIS_PREV \<notin> tail_hash ` hash_input ` (set sample_chain
          \<union> set (append_events tail_hash [sample_append ''x'', sample_append ''y''] []))"
    using g unfolding ys by (auto simp: list_ex_iff)
  show v: "cv_ok (verify_ledger_chain tail_hash sample_chain)" by code_simp
  show "cv_ok (verify_ledger_chain tail_hash
          (append_events tail_hash [sample_append ''x'', sample_append ''y''] []))"
    using v by (simp only: ys)
  show "chain_head GENESIS_PREV sample_chain
      = chain_head GENESIS_PREV (append_events tail_hash [sample_append ''x'', sample_append ''y''] [])"
    by (simp only: ys)
qed (simp add: tail_hash_length)

subsection \<open>The incremental verification\<close>

text \<open>
  What a stored anchor stands for: the rows up to the anchor's sequence number form a linked chain
  from genesis whose head is the anchor's hash.
\<close>

definition upto_seq :: "int \<Rightarrow> ledger_event_row list \<Rightarrow> ledger_event_row list" where
  "upto_seq s rows = filter (\<lambda>e. ev_seq e \<le> s) rows"

definition anchored :: "sha_fn \<Rightarrow> ledger_store \<Rightarrow> bool" where
  "anchored sha st \<longleftrightarrow>
     (case anchor_of st of
        None \<Rightarrow> True
      | Some (s, h) \<Rightarrow>
          s \<le> max_ledger_seq (ledger_events st) \<longrightarrow>
          linked sha GENESIS_PREV (upto_seq s (ledger_events st))
          \<and> chain_head GENESIS_PREV (upto_seq s (ledger_events st)) = h)"

lemma pk_sorted_split:
  "pk_sorted rows \<Longrightarrow> rows = upto_seq s rows @ filter (\<lambda>e. s < ev_seq e) rows"
proof (induction rows)
  case (Cons e es)
  then have IH: "es = upto_seq s es @ filter (\<lambda>e. s < ev_seq e) es"
    by (simp add: pk_sorted_def)
  show ?case
  proof (cases "ev_seq e \<le> s")
    case True
    with IH show ?thesis by (simp add: upto_seq_def)
  next
    case False
    with Cons.prems have "\<forall>d\<in>set es. s < ev_seq d" by (fastforce simp: pk_sorted_def)
    then have "upto_seq s es = []" and "filter (\<lambda>e. s < ev_seq e) es = es"
      by (auto simp: upto_seq_def filter_empty_conv)
    with False show ?thesis by (simp add: upto_seq_def)
  qed
qed (simp add: upto_seq_def)

lemma max_ledger_seq_ge: "e \<in> set rows \<Longrightarrow> ev_seq e \<le> max_ledger_seq rows"
  by (auto simp: max_ledger_seq_def intro: Max_ge)

lemma max_ledger_seq_last: "pk_sorted rows \<Longrightarrow> rows \<noteq> [] \<Longrightarrow> max_ledger_seq rows = ev_seq (last rows)"
proof (cases rows rule: rev_cases)
  case (snoc ys y)
  assume "pk_sorted rows"
  with snoc have "\<forall>x\<in>set ys. ev_seq x < ev_seq y"
    by (auto simp: pk_sorted_def sorted_wrt_append)
  then have "Max (insert (ev_seq y) (ev_seq ` set ys)) = ev_seq y"
    by (intro Max_eqI) (auto intro: less_imp_le)
  with snoc show ?thesis by (simp add: max_ledger_seq_def)
qed simp

lemma upto_seq_all: "max_ledger_seq rows \<le> s \<Longrightarrow> upto_seq s rows = rows"
  using max_ledger_seq_ge by (force simp: upto_seq_def filter_id_conv)

lemma verify_full_fields:
  "cv_ok (verify_ledger_chain sha rows) \<longleftrightarrow> linked sha GENESIS_PREV rows"
  "linked sha GENESIS_PREV rows \<Longrightarrow> cv_first_bad_seq (verify_ledger_chain sha rows) = None"
  "linked sha GENESIS_PREV rows \<Longrightarrow>
   (case cv_head_hash (verify_ledger_chain sha rows) of None \<Rightarrow> GENESIS_PREV | Some h \<Rightarrow> h)
     = chain_head GENESIS_PREV rows"
  by (auto simp: verify_ledger_chain_def verify_from_ok_iff verify_from_linked)

lemma verify_from_suffix:
  "linked sha prev xs \<Longrightarrow>
   verify_from sha prev checked head (xs @ ys) =
     verify_from sha (chain_head prev xs) (checked + int (length xs))
       (if xs = [] then head else Some (chain_head prev xs)) ys"
  by (induction sha prev checked head xs rule: verify_from.induct) (auto simp: add.assoc)

lemma verify_from_bad_seq:
  "cv_first_bad_seq (verify_from sha prev checked head rows)
     = cv_first_bad_seq (verify_from sha prev checked' head' rows)"
  by (induction rows arbitrary: prev checked head checked' head')
    (auto simp: bad_verdict_def)

lemma full_and_reanchor_fst [simp]:
  "fst (full_and_reanchor sha st) = verify_ledger_chain sha (ledger_events st)"
  by (simp add: full_and_reanchor_def Let_def)

lemma set_meta_events [simp]: "ledger_events (set_meta k v st) = ledger_events st"
  by (simp add: set_meta_def)

lemma verify_keys_differ [simp]: "VERIFY_HEAD_HASH \<noteq> VERIFY_LAST_SEQ" "VERIFY_LAST_SEQ \<noteq> VERIFY_HEAD_HASH"
  by (simp_all add: VERIFY_HEAD_HASH_def VERIFY_LAST_SEQ_def lit_def)

lemma anchor_of_set:
  "i64_range s \<Longrightarrow>
   anchor_of (set_meta VERIFY_HEAD_HASH h (set_meta VERIFY_LAST_SEQ (show_int s) st)) = Some (s, h)"
  by (simp add: anchor_of_def set_meta_def parse_i64_show_int)

lemma anchored_reanchor:
  assumes "linked sha GENESIS_PREV (ledger_events st)" and "i64_range (max_ledger_seq (ledger_events st))"
    and "h = chain_head GENESIS_PREV (ledger_events st)"
  shows "anchored sha (set_meta VERIFY_HEAD_HASH h
           (set_meta VERIFY_LAST_SEQ (show_int (max_ledger_seq (ledger_events st))) st))"
  using assms by (simp add: anchored_def anchor_of_set upto_seq_all)

definition verdict_head :: "chain_verdict \<Rightarrow> rstr" where
  "verdict_head v = (case cv_head_hash v of None \<Rightarrow> GENESIS_PREV | Some h \<Rightarrow> h)"

text \<open>The walk from a trusted anchor, against the walk from genesis.\<close>

lemma suffix_walk_agrees:
  fixes c :: int
  assumes sorted: "pk_sorted rows" and pre: "linked sha GENESIS_PREV (upto_seq s rows)"
    and head: "chain_head GENESIS_PREV (upto_seq s rows) = h"
  defines "v \<equiv> verify_from sha h c (Some h) (filter (\<lambda>e. s < ev_seq e) rows)"
  shows "cv_ok v \<longleftrightarrow> linked sha GENESIS_PREV rows"
    and "cv_first_bad_seq v = cv_first_bad_seq (verify_ledger_chain sha rows)"
    and "cv_ok v \<Longrightarrow> cv_head_hash v = Some (chain_head GENESIS_PREV rows)"
proof -
  let ?suf = "filter (\<lambda>e. s < ev_seq e) rows"
  have split: "rows = upto_seq s rows @ ?suf" by (rule pk_sorted_split [OF sorted])
  have link: "linked sha GENESIS_PREV rows \<longleftrightarrow> linked sha h ?suf"
    using pre head by (subst split) simp
  show ok: "cv_ok v \<longleftrightarrow> linked sha GENESIS_PREV rows"
    by (simp add: v_def verify_from_ok_iff link)
  have "verify_ledger_chain sha rows = verify_from sha h (int (length (upto_seq s rows)))
          (if upto_seq s rows = [] then None else Some h) ?suf"
    unfolding verify_ledger_chain_def
    by (subst split) (simp add: verify_from_suffix [OF pre] head)
  then show "cv_first_bad_seq v = cv_first_bad_seq (verify_ledger_chain sha rows)"
    unfolding v_def by (simp add: verify_from_bad_seq)
  have "chain_head GENESIS_PREV rows = chain_head h ?suf"
    by (subst split) (simp add: head [symmetric] chain_head_def)
  then show "cv_head_hash v = Some (chain_head GENESIS_PREV rows)" if "cv_ok v"
    using that unfolding v_def by (simp add: verify_from_ok_iff verify_from_linked)
qed

lemma full_and_reanchor_anchored:
  assumes "i64_range (max_ledger_seq (ledger_events st))"
    and "anchored sha st"
  shows "anchored sha (snd (full_and_reanchor sha st))"
  using assms anchored_reanchor [of sha st]
  by (auto simp: full_and_reanchor_def Let_def verify_full_fields)

text \<open>
  C7. While the stored anchor is honest (the rows up to it form a chain ending in the anchor's
  hash), the incremental verification and the full one agree: the same verdict, the same first bad
  row, the same head.  The incremental run leaves an honest anchor behind, so the agreement lasts
  from poll to poll; a missing, rewound or mismatched anchor falls back to the full walk.
\<close>

theorem incremental_agrees_with_full:
  assumes sorted: "pk_sorted (ledger_events st)" and honest: "anchored sha st"
    and range: "i64_range (max_ledger_seq (ledger_events st))"
  shows "let (v, st') = verify_ledger_chain_incremental sha st;
             w = verify_ledger_chain sha (ledger_events st)
         in cv_ok v = cv_ok w \<and> cv_first_bad_seq v = cv_first_bad_seq w
            \<and> (cv_ok v \<longrightarrow> verdict_head v = verdict_head w) \<and> anchored sha st'"
proof -
  let ?rows = "ledger_events st"
  have full: ?thesis if "verify_ledger_chain_incremental sha st = full_and_reanchor sha st"
    using that full_and_reanchor_anchored [OF range honest] by (simp add: case_prod_beta)
  show ?thesis
  proof (cases "anchor_of st")
    case None
    then show ?thesis by (intro full) (simp add: verify_ledger_chain_incremental_def)
  next
    case (Some a)
    obtain s h where a: "anchor_of st = Some (s, h)" using Some by (cases a) auto
    let ?ok = "case entry_hash_at ?rows s of None \<Rightarrow> s = 0 \<and> h = GENESIS_PREV | Some h' \<Rightarrow> h' = h"
    show ?thesis
    proof (cases "max_ledger_seq ?rows < s \<or> \<not> ?ok")
      case True
      with a show ?thesis by (intro full) (auto simp: verify_ledger_chain_incremental_def Let_def)
    next
      case False
      then have le: "s \<le> max_ledger_seq ?rows" and ok: ?ok by auto
      have pre: "linked sha GENESIS_PREV (upto_seq s ?rows)"
        and hd: "chain_head GENESIS_PREV (upto_seq s ?rows) = h"
        using honest a le by (auto simp: anchored_def)
      note walk = suffix_walk_agrees [OF sorted pre hd, of s]
      show ?thesis
      proof (cases "max_ledger_seq ?rows = s")
        case True
        with pre hd have "linked sha GENESIS_PREV ?rows" "chain_head GENESIS_PREV ?rows = h"
          by (simp_all add: upto_seq_all)
        with True a ok honest show ?thesis
          by (simp add: verify_ledger_chain_incremental_def Let_def verify_full_fields verdict_head_def)
      next
        case False
        let ?v = "verify_from sha h s (Some h) (filter (\<lambda>e. s < ev_seq e) ?rows)"
        have inc: "verify_ledger_chain_incremental sha st =
            (if cv_ok ?v
             then (?v, set_meta VERIFY_HEAD_HASH (the (cv_head_hash ?v))
                         (set_meta VERIFY_LAST_SEQ (show_int (max_ledger_seq ?rows)) st))
             else (?v, st))"
          using False a ok le by (simp add: verify_ledger_chain_incremental_def Let_def)
        show ?thesis
        proof (cases "linked sha GENESIS_PREV ?rows")
          case True
          then have "cv_ok ?v" using walk(1) by simp
          moreover have "cv_head_hash ?v = Some (chain_head GENESIS_PREV ?rows)"
            using walk(3) \<open>cv_ok ?v\<close> by simp
          ultimately show ?thesis
            using walk(2) inc True anchored_reanchor [OF True range refl]
            by (simp add: verify_full_fields verdict_head_def)
        next
          case False
          then have "\<not> cv_ok ?v" using walk(1) by simp
          with False inc walk(2) honest show ?thesis
            by (simp add: verify_full_fields)
        qed
      qed
    qed
  qed
qed

text \<open>The sample ledger with an anchor at its first row: the suffix walk covers the second.\<close>

definition sample_store :: ledger_store where
  "sample_store =
     \<lparr>ledger_events = sample_chain,
      polis_meta = Map.empty(VERIFY_LAST_SEQ \<mapsto> show_int 1, VERIFY_HEAD_HASH \<mapsto> entry_hash (hd sample_chain))\<rparr>"

lemma sample_store_anchor: "anchor_of sample_store = Some (1, entry_hash (hd sample_chain))"
  by (simp add: sample_store_def anchor_of_def parse_i64_show_int i64_range_def)

theorem incremental_agrees_with_full_witness:
  "let (v, st') = verify_ledger_chain_incremental tail_hash sample_store;
       w = verify_ledger_chain tail_hash (ledger_events sample_store)
   in cv_ok v = cv_ok w \<and> cv_first_bad_seq v = cv_first_bad_seq w
      \<and> (cv_ok v \<longrightarrow> verdict_head v = verdict_head w) \<and> anchored tail_hash st'"
proof (rule incremental_agrees_with_full)
  show "pk_sorted (ledger_events sample_store)" unfolding sample_store_def by code_simp
  show "i64_range (max_ledger_seq (ledger_events sample_store))" unfolding sample_store_def by code_simp
  have "linked tail_hash GENESIS_PREV (upto_seq 1 sample_chain)
     \<and> chain_head GENESIS_PREV (upto_seq 1 sample_chain) = entry_hash (hd sample_chain)" by code_simp
  then show "anchored tail_hash sample_store"
    by (simp add: anchored_def sample_store_anchor) (simp add: sample_store_def)
qed

text \<open>
  The trade the incremental verification makes: a row at or below a matching anchor is not
  walked again, so there is a store whose first row was altered after the anchor was laid that the
  incremental verification accepts and the full one rejects at that row.
\<close>

definition tampered_store :: ledger_store where
  "tampered_store =
     (case ledger_events sample_store of
        e # es \<Rightarrow>
          \<lparr>ledger_events = e\<lparr>ev_payload_hash := lit ''z''\<rparr> # es,
           polis_meta = Map.empty(VERIFY_LAST_SEQ \<mapsto> show_int 2, VERIFY_HEAD_HASH \<mapsto> entry_hash (last sample_chain))\<rparr>
      | [] \<Rightarrow> sample_store)"

theorem incremental_misses_old_tampering:
  "cv_ok (fst (verify_ledger_chain_incremental tail_hash tampered_store))
   \<and> cv_first_bad_seq (verify_ledger_chain tail_hash (ledger_events tampered_store)) = Some 1"
proof -
  have len: "sample_chain = [hd sample_chain, last sample_chain]" by code_simp
  have st: "tampered_store = \<lparr>ledger_events = [(hd sample_chain)\<lparr>ev_payload_hash := lit ''z''\<rparr>, last sample_chain],
      polis_meta = Map.empty(VERIFY_LAST_SEQ \<mapsto> show_int 2, VERIFY_HEAD_HASH \<mapsto> entry_hash (last sample_chain))\<rparr>"
    unfolding tampered_store_def sample_store_def by (subst len) simp
  have anchor: "anchor_of tampered_store = Some (2, entry_hash (last sample_chain))"
    by (simp add: st anchor_of_def parse_i64_show_int i64_range_def)
  have seqs: "ev_seq (hd sample_chain) = 1 \<and> ev_seq (last sample_chain) = 2"
    by (simp add: sample_chain_def append_in_txn_rows append_in_txn_row ledger_head_def)
  have max: "max_ledger_seq (ledger_events tampered_store) = 2"
    by (simp add: st max_ledger_seq_def seqs)
  have at: "entry_hash_at (ledger_events tampered_store) 2 = Some (entry_hash (last sample_chain))"
    by (simp add: st entry_hash_at_def seqs)
  let ?e = "(hd sample_chain)\<lparr>ev_payload_hash := lit ''z''\<rparr>"
  have broken: "\<not> linked tail_hash GENESIS_PREV [?e]" by code_simp
  then have bad: "cv_first_bad_seq (verify_ledger_chain tail_hash (ledger_events tampered_store)) = Some 1"
    by (auto simp: st verify_ledger_chain_def bad_verdict_def seqs)
  show ?thesis
    using bad by (simp add: verify_ledger_chain_incremental_def Let_def anchor max at)
qed

end
