(* ===== verification/Writers.thy ===== *)
theory Writers
  imports Chain
begin

text \<open>
  \<^verbatim>\<open>append_event\<close> of \<^verbatim>\<open>polis-store/src/ledger.rs\<close>: the transaction around the append.  First the one
  call, against the outcomes SQLite may give it; then any number of processes on one database file,
  as a step relation in which their calls interleave.
\<close>

section \<open>One call\<close>

text \<open>
  What SQLite may answer to \<^verbatim>\<open>BEGIN IMMEDIATE\<close>: the write lock, a busy or locked error (\<^verbatim>\<open>is_busy\<close>), or
  another error.
\<close>

datatype begin_result = BeginOk | BeginBusy | BeginError

definition BUSY_ATTEMPTS :: nat where
  "BUSY_ATTEMPTS = 8"

fun is_busy :: "begin_result \<Rightarrow> bool" where
  "is_busy BeginBusy = True"
| "is_busy _ = False"

text \<open>
  The retry loop.  \<open>answer n\<close> is the answer to the try made with \<open>attempt = n\<close>; the result is
  whether the lock was taken, and at which attempt the loop stopped.
\<close>

function begin_immediate :: "(nat \<Rightarrow> begin_result) \<Rightarrow> nat \<Rightarrow> bool \<times> nat" where
  "begin_immediate answer attempt =
     (if answer attempt = BeginOk then (True, attempt)
      else if is_busy (answer attempt) \<and> attempt < BUSY_ATTEMPTS
      then begin_immediate answer (attempt + 1)
      else (False, attempt))"
  by pat_completeness auto
termination by (relation "measure (\<lambda>(answer, n). BUSY_ATTEMPTS - n)") auto

declare begin_immediate.simps [simp del]

text \<open>
  A connection: the rows its transaction sees, whether it is in autocommit, and the rows the file
  holds.  \<open>insert_ok\<close> and \<open>commit_ok\<close> say whether the insert and the \<^verbatim>\<open>COMMIT\<close> succeed.  A failed
  \<^verbatim>\<open>COMMIT\<close> is returned without a rollback, so the transaction stays open.
\<close>

record connection =
  autocommit :: bool
  seen :: "ledger_event_row list"
  on_disk :: "ledger_event_row list"

definition append_event ::
  "sha_fn \<Rightarrow> (nat \<Rightarrow> begin_result) \<Rightarrow> bool \<Rightarrow> bool \<Rightarrow> ledger_append \<Rightarrow> connection
   \<Rightarrow> ledger_event_row option \<times> connection" where
  "append_event sha answer insert_ok commit_ok a conn =
     (let (row, rows) = append_in_txn sha a (seen conn)
      in if \<not> autocommit conn
         then if insert_ok then (Some row, conn\<lparr>seen := rows\<rparr>) else (None, conn)
         else if \<not> fst (begin_immediate answer 0) then (None, conn)
         else if \<not> insert_ok then (None, conn)
         else if commit_ok then (Some row, conn\<lparr>seen := rows, on_disk := rows\<rparr>)
         else (None, conn\<lparr>autocommit := False, seen := rows\<rparr>))"

lemma begin_immediate_iff:
  "attempt \<le> BUSY_ATTEMPTS \<Longrightarrow>
   fst (begin_immediate answer attempt) \<longleftrightarrow>
     (\<exists>k. attempt \<le> k \<and> k \<le> BUSY_ATTEMPTS \<and> answer k = BeginOk
          \<and> (\<forall>j. attempt \<le> j \<and> j < k \<longrightarrow> answer j = BeginBusy))"
proof (induction answer attempt rule: begin_immediate.induct)
  case (1 answer attempt)
  show ?case
  proof (cases "answer attempt")
    case BeginOk
    then show ?thesis using "1.prems" by (auto simp: begin_immediate.simps [of answer attempt])
  next
    case BeginBusy
    show ?thesis
    proof (cases "attempt < BUSY_ATTEMPTS")
      case True
      have "(\<exists>k\<ge>attempt. k \<le> BUSY_ATTEMPTS \<and> answer k = BeginOk
                \<and> (\<forall>j. attempt \<le> j \<and> j < k \<longrightarrow> answer j = BeginBusy))
          \<longleftrightarrow> (\<exists>k\<ge>attempt + 1. k \<le> BUSY_ATTEMPTS \<and> answer k = BeginOk
                \<and> (\<forall>j. attempt + 1 \<le> j \<and> j < k \<longrightarrow> answer j = BeginBusy))" (is "?L \<longleftrightarrow> ?R")
      proof
        assume ?L
        then obtain k where k: "attempt \<le> k" "k \<le> BUSY_ATTEMPTS" "answer k = BeginOk"
          "\<forall>j. attempt \<le> j \<and> j < k \<longrightarrow> answer j = BeginBusy" by blast
        with BeginBusy have "attempt \<noteq> k" by auto
        with k show ?R by (intro exI [of _ k]) auto
      next
        assume ?R
        then obtain k where k: "attempt + 1 \<le> k" "k \<le> BUSY_ATTEMPTS" "answer k = BeginOk"
          "\<forall>j. attempt + 1 \<le> j \<and> j < k \<longrightarrow> answer j = BeginBusy" by blast
        have "answer j = BeginBusy" if "attempt \<le> j" "j < k" for j
          using k(4) BeginBusy that by (cases "j = attempt") auto
        with k show ?L by (intro exI [of _ k]) auto
      qed
      with True BeginBusy "1.IH" show ?thesis
        by (simp add: begin_immediate.simps [of answer attempt])
    next
      case False
      with "1.prems" have "attempt = BUSY_ATTEMPTS" by simp
      have "answer k \<noteq> BeginOk" if "attempt \<le> k" "k \<le> BUSY_ATTEMPTS" for k
        using that BeginBusy \<open>attempt = BUSY_ATTEMPTS\<close> by (metis begin_result.distinct(1) le_antisym)
      moreover have "\<not> fst (begin_immediate answer attempt)"
        using BeginBusy False by (subst begin_immediate.simps) simp
      ultimately show ?thesis by blast
    qed
  next
    case BeginError
    then have "\<not> (\<exists>k\<ge>attempt. k \<le> BUSY_ATTEMPTS \<and> answer k = BeginOk
                \<and> (\<forall>j. attempt \<le> j \<and> j < k \<longrightarrow> answer j = BeginBusy))"
      by (metis begin_result.distinct(3) begin_result.distinct(5) le_neq_implies_less order_refl)
    with BeginError show ?thesis by (simp add: begin_immediate.simps [of answer attempt])
  qed
qed

lemma begin_immediate_bound:
  "attempt \<le> BUSY_ATTEMPTS \<Longrightarrow> snd (begin_immediate answer attempt) \<le> BUSY_ATTEMPTS"
proof (induction answer attempt rule: begin_immediate.induct)
  case (1 answer attempt)
  then show ?case by (simp add: begin_immediate.simps [of answer attempt])
qed

section \<open>Many writers\<close>

text \<open>
  Where a call stands.  \<open>Begin a n\<close> is about to issue its \<open>n\<close>-th try, \<open>Holding\<close> has the write lock and
  has not read the head, \<open>Inserted\<close> has read it and inserted its row in its own transaction, \<open>Open\<close> is
  the caller's error after a failed \<^verbatim>\<open>COMMIT\<close>, whose transaction still holds the lock.
\<close>

datatype call =
    Begin ledger_append nat
  | Holding ledger_append
  | Inserted ledger_append ledger_event_row
  | Done ledger_append ledger_event_row
  | Failed
  | Open ledger_append ledger_event_row

record system =
  committed :: "ledger_event_row list"
  write_lock :: "nat option"
  calls :: "nat \<Rightarrow> call"

definition set_call :: "nat \<Rightarrow> call \<Rightarrow> system \<Rightarrow> system" where
  "set_call w c s = s\<lparr>calls := (calls s)(w := c)\<rparr>"

inductive writer_step :: "sha_fn \<Rightarrow> system \<Rightarrow> system \<Rightarrow> bool" for sha where
  begin_ok:
    "calls s w = Begin a n \<Longrightarrow> write_lock s = None \<Longrightarrow>
     writer_step sha s (set_call w (Holding a) (s\<lparr>write_lock := Some w\<rparr>))"
| begin_busy:
    "calls s w = Begin a n \<Longrightarrow> n < BUSY_ATTEMPTS \<Longrightarrow>
     writer_step sha s (set_call w (Begin a (n + 1)) s)"
| begin_fails:
    "calls s w = Begin a n \<Longrightarrow> writer_step sha s (set_call w Failed s)"
| read_head_and_insert:
    "calls s w = Holding a \<Longrightarrow>
     writer_step sha s (set_call w (Inserted a (fst (append_in_txn sha a (committed s)))) s)"
| insert_fails:
    "calls s w = Holding a \<Longrightarrow>
     writer_step sha s (set_call w Failed (s\<lparr>write_lock := None\<rparr>))"
| commit:
    "calls s w = Inserted a row \<Longrightarrow>
     writer_step sha s
       (set_call w (Done a row) (s\<lparr>committed := committed s @ [row], write_lock := None\<rparr>))"
| commit_fails:
    "calls s w = Inserted a row \<Longrightarrow> writer_step sha s (set_call w (Open a row) s)"

inductive_cases writer_stepE: "writer_step sha s s'"

text \<open>Every call starts at its first try, the lock is free and the file holds a sound chain.\<close>

definition initial :: "sha_fn \<Rightarrow> (nat \<Rightarrow> ledger_append) \<Rightarrow> ledger_event_row list \<Rightarrow> system" where
  "initial sha job rows = \<lparr>committed = rows, write_lock = None, calls = (\<lambda>w. Begin (job w) 0)\<rparr>"

inductive reachable :: "sha_fn \<Rightarrow> (nat \<Rightarrow> ledger_append) \<Rightarrow> ledger_event_row list \<Rightarrow> system \<Rightarrow> bool"
  for sha job rows where
  start: "reachable sha job rows (initial sha job rows)"
| step: "reachable sha job rows s \<Longrightarrow> writer_step sha s s' \<Longrightarrow> reachable sha job rows s'"

fun holds_lock :: "call \<Rightarrow> bool" where
  "holds_lock (Holding a) = True"
| "holds_lock (Inserted a row) = True"
| "holds_lock (Open a row) = True"
| "holds_lock _ = False"

fun finished_row :: "call \<Rightarrow> ledger_event_row option" where
  "finished_row (Done a row) = Some row"
| "finished_row _ = None"

text \<open>
  What holds of one call, given the rows on disk: its arguments are the caller's; a staged row is
  the append's row for the present disk; a finished row is on disk, past the rows the run started
  with, and is the append's row for the rows before it.
\<close>

fun call_ok ::
  "sha_fn \<Rightarrow> ledger_append \<Rightarrow> ledger_event_row list \<Rightarrow> ledger_event_row list \<Rightarrow> call \<Rightarrow> bool" where
  "call_ok sha job rows disk (Begin a n) = (a = job \<and> n \<le> BUSY_ATTEMPTS)"
| "call_ok sha job rows disk (Holding a) = (a = job)"
| "call_ok sha job rows disk (Inserted a row) = (a = job \<and> row = fst (append_in_txn sha a disk))"
| "call_ok sha job rows disk (Done a row) =
     (a = job \<and> (\<exists>i < length disk. length rows \<le> i \<and> disk ! i = row
                      \<and> row = fst (append_in_txn sha a (take i disk))))"
| "call_ok sha job rows disk Failed = True"
| "call_ok sha job rows disk (Open a row) = (a = job)"

text \<open>The invariant: a sound chain on disk, one lock holder, every call as it should be.\<close>

definition writers_ok :: "sha_fn \<Rightarrow> (nat \<Rightarrow> ledger_append) \<Rightarrow> ledger_event_row list \<Rightarrow> system \<Rightarrow> bool" where
  "writers_ok sha job rows s \<longleftrightarrow>
     sound_chain sha (committed s)
     \<and> (\<exists>rest. committed s = rows @ rest)
     \<and> (\<forall>w. holds_lock (calls s w) \<longrightarrow> write_lock s = Some w)
     \<and> (\<forall>w. call_ok sha (job w) rows (committed s) (calls s w))
     \<and> (\<forall>v w row. finished_row (calls s v) = Some row \<and> finished_row (calls s w) = Some row \<longrightarrow> v = w)"

lemma set_call_simps [simp]:
  "committed (set_call w c s) = committed s" "write_lock (set_call w c s) = write_lock s"
  "calls (set_call w c s) = (calls s)(w := c)"
  by (simp_all add: set_call_def)

lemma initial_ok: "sound_chain sha rows \<Longrightarrow> writers_ok sha job rows (initial sha job rows)"
  by (simp add: writers_ok_def initial_def)

lemma lock_holder: "writers_ok sha job rows s \<Longrightarrow> holds_lock (calls s w) \<Longrightarrow> write_lock s = Some w"
  by (simp add: writers_ok_def)

text \<open>A step that leaves the disk alone.\<close>

lemma writers_ok_local:
  assumes inv: "writers_ok sha job rows s" and c: "call_ok sha (job w) rows (committed s) c"
    and fin: "finished_row c = None" and own: "holds_lock c \<longrightarrow> lk = Some w"
    and others: "\<And>v. v \<noteq> w \<Longrightarrow> holds_lock (calls s v) \<Longrightarrow> lk = Some v"
  shows "writers_ok sha job rows (set_call w c (s\<lparr>write_lock := lk\<rparr>))"
proof -
  have "holds_lock (((calls s)(w := c)) v) \<longrightarrow> lk = Some v" for v
    using own others by simp
  moreover have "call_ok sha (job v) rows (committed s) (((calls s)(w := c)) v)" for v
    using inv c by (simp add: writers_ok_def)
  moreover have "finished_row (((calls s)(w := c)) v) = Some row \<Longrightarrow> finished_row (calls s v) = Some row" for v row
    using fin by (simp split: if_splits)
  moreover have "committed (s\<lparr>write_lock := lk\<rparr>) = committed s" "calls (s\<lparr>write_lock := lk\<rparr>) = calls s"
    "write_lock (s\<lparr>write_lock := lk\<rparr>) = lk" by simp_all
  ultimately show ?thesis
    using inv unfolding writers_ok_def set_call_simps by metis
qed

lemma call_ok_grow:
  assumes "call_ok sha a rows disk c" and "\<not> holds_lock c"
  shows "call_ok sha a rows (disk @ [row]) c"
proof (cases c)
  case (Done b r)
  with assms obtain i where "i < length disk" "length rows \<le> i" "disk ! i = r"
    "r = fst (append_in_txn sha b (take i disk))" by auto
  with Done assms show ?thesis by (auto simp: nth_append intro!: exI [of _ i])
qed (use assms in auto)

lemma commit_ok:
  assumes inv: "writers_ok sha job rows s" and c: "calls s w = Inserted a row"
  shows "writers_ok sha job rows
           (set_call w (Done a row) (s\<lparr>committed := committed s @ [row], write_lock := None\<rparr>))"
proof -
  let ?disk = "committed s" and ?calls = "(calls s)(w := Done a row)"
  have ok: "call_ok sha (job v) rows ?disk (calls s v)" for v using inv by (simp add: writers_ok_def)
  have a: "a = job w" and row: "row = fst (append_in_txn sha a ?disk)" using ok [of w] c by auto
  have sound: "sound_chain sha ?disk" using inv by (simp add: writers_ok_def)
  have held: "write_lock s = Some w" using lock_holder [OF inv, of w] c by simp
  have only: "\<not> holds_lock (calls s v)" if "v \<noteq> w" for v
    using lock_holder [OF inv, of v] held that by auto
  have free: "\<not> holds_lock (?calls v)" for v using only by simp
  obtain rest where rest: "?disk = rows @ rest" using inv by (auto simp: writers_ok_def)
  have fresh: "row \<notin> set ?disk" using log.new_entry_fresh [OF sound] by (simp add: row)
  have sound': "sound_chain sha (?disk @ [row])"
    using sound_append [OF sound, of a] by (simp add: append_in_txn_rows row)
  have mine: "call_ok sha (job w) rows (?disk @ [row]) (Done a row)"
    using a row rest by (auto intro!: exI [of _ "length ?disk"])
  have calls': "call_ok sha (job v) rows (?disk @ [row]) (?calls v)" for v
    using mine call_ok_grow [OF ok only] by (cases "v = w") auto
  have old: "r \<in> set ?disk" if "finished_row (calls s v) = Some r" for v r
    using ok [of v] that by (cases "calls s v") (auto, metis nth_mem)
  have uniq: "v = v'" if fin: "finished_row (?calls v) = Some r" "finished_row (?calls v') = Some r" for v v' r
  proof (cases "v = w \<or> v' = w")
    case True
    with fin old fresh show ?thesis by (auto split: if_splits)
  next
    case False
    with fin inv show ?thesis by (auto simp: writers_ok_def)
  qed
  let ?s = "s\<lparr>committed := ?disk @ [row], write_lock := None\<rparr>"
  have sel: "committed ?s = ?disk @ [row]" "calls ?s = calls s" by simp_all
  have rest': "\<exists>rest. ?disk @ [row] = rows @ rest" by (simp add: rest)
  show ?thesis
    unfolding writers_ok_def set_call_simps sel using sound' rest' free calls' uniq by blast
qed

lemma writers_ok_step:
  assumes "writer_step sha s s'" and inv: "writers_ok sha job rows s"
  shows "writers_ok sha job rows s'"
proof -
  have ok: "call_ok sha (job w) rows (committed s) (calls s w)" for w
    using inv by (simp add: writers_ok_def)
  have same: "s\<lparr>write_lock := write_lock s\<rparr> = s" by simp
  have keep: "lk = Some v" if "holds_lock (calls s w)" "v \<noteq> w" "holds_lock (calls s v)" for lk v w
    using lock_holder [OF inv that(1)] lock_holder [OF inv that(3)] that(2) by simp
  from assms(1) show ?thesis
  proof cases
    case (begin_ok w a n)
    have "\<not> holds_lock (calls s v)" for v using lock_holder [OF inv, of v] begin_ok(3) by auto
    then show ?thesis
      using begin_ok ok [of w] by (auto intro!: writers_ok_local [OF inv])
  next
    case (begin_busy w a n)
    then show ?thesis
      using writers_ok_local [OF inv, of w "Begin a (n + 1)" "write_lock s"] ok [of w]
        lock_holder [OF inv] by (auto simp: same)
  next
    case (begin_fails w a n)
    then show ?thesis
      using writers_ok_local [OF inv, of w Failed "write_lock s"] lock_holder [OF inv] by (auto simp: same)
  next
    case (read_head_and_insert w a)
    then show ?thesis
      using writers_ok_local [OF inv, of w "Inserted a (fst (append_in_txn sha a (committed s)))" "write_lock s"]
        lock_holder [OF inv] ok [of w] by (auto simp: same)
  next
    case (insert_fails w a)
    then show ?thesis
      using writers_ok_local [OF inv, of w Failed None] keep [of w] by auto
  next
    case (commit w a row)
    then show ?thesis using commit_ok [OF inv] by simp
  next
    case (commit_fails w a row)
    then show ?thesis
      using writers_ok_local [OF inv, of w "Open a row" "write_lock s"] lock_holder [OF inv] ok [of w]
      by (auto simp: same)
  qed
qed

lemma reachable_ok: "reachable sha job rows s \<Longrightarrow> sound_chain sha rows \<Longrightarrow> writers_ok sha job rows s"
  by (induction rule: reachable.induct) (auto intro: initial_ok writers_ok_step)

section \<open>Properties\<close>

text \<open>
  C4. Any number of processes appending to one file, their calls interleaved in any order and with
  any of them failing at any point, never fork the chain: in every reachable state the file holds a
  sound chain extending the one they started from, and a call that returned its row finds it on
  disk, as the append's row for exactly the rows before it, and shared with no other call.
\<close>

theorem writers_never_fork:
  assumes "reachable sha job rows s" and "sound_chain sha rows"
  shows "sound_chain sha (committed s) \<and> take (length rows) (committed s) = rows
    \<and> (\<forall>w a row. calls s w = Done a row \<longrightarrow>
         a = job w \<and> (\<exists>i < length (committed s). length rows \<le> i \<and> committed s ! i = row
             \<and> row = fst (append_in_txn sha (job w) (take i (committed s)))))
    \<and> (\<forall>v w a b row. calls s v = Done a row \<and> calls s w = Done b row \<longrightarrow> v = w)"
proof -
  have inv: "writers_ok sha job rows s" by (rule reachable_ok [OF assms])
  have "a = job w \<and> (\<exists>i < length (committed s). length rows \<le> i \<and> committed s ! i = row
             \<and> row = fst (append_in_txn sha (job w) (take i (committed s))))"
    if "calls s w = Done a row" for w a row
  proof -
    have "call_ok sha (job w) rows (committed s) (calls s w)" using inv by (simp add: writers_ok_def)
    with that show ?thesis by auto
  qed
  moreover have "v = w" if "calls s v = Done a row" "calls s w = Done b row" for v w a b row
    using inv that unfolding writers_ok_def by (metis finished_row.simps(1))
  ultimately show ?thesis using inv by (auto simp: writers_ok_def)
qed

text \<open>Two writers on an empty file: the second is refused once while the first holds the lock.\<close>

definition sample_job :: "nat \<Rightarrow> ledger_append" where
  "sample_job w = (if w = 0 then sample_append ''x'' else sample_append ''y'')"

definition sample_run :: system where
  "sample_run =
     \<lparr>committed = [fst (append_in_txn (\<lambda>b. b) (sample_append ''x'') [])], write_lock = None,
      calls = ((\<lambda>w. Begin (sample_job w) 0)(1 := Begin (sample_append ''y'') 1))
                (0 := Done (sample_append ''x'') (fst (append_in_txn (\<lambda>b. b) (sample_append ''x'') [])))\<rparr>"

lemma sample_run_reachable: "reachable (\<lambda>b. b) sample_job [] sample_run"
proof -
  let ?sha = "\<lambda>b. b" and ?x = "sample_append ''x''" and ?y = "sample_append ''y''"
  let ?r = "fst (append_in_txn ?sha ?x [])"
  let ?s0 = "initial ?sha sample_job []"
  let ?s1 = "set_call 0 (Holding ?x) (?s0\<lparr>write_lock := Some 0\<rparr>)"
  let ?s2 = "set_call 1 (Begin ?y 1) ?s1"
  let ?s3 = "set_call 0 (Inserted ?x ?r) ?s2"
  let ?s4 = "set_call 0 (Done ?x ?r) (?s3\<lparr>committed := [] @ [?r], write_lock := None\<rparr>)"
  have r1: "reachable ?sha sample_job [] ?s1"
    by (rule reachable.step [OF reachable.start], rule begin_ok [of _ _ _ 0])
      (simp_all add: initial_def sample_job_def)
  have w2: "writer_step ?sha ?s1 ?s2"
    using begin_busy [of ?s1 1 ?y 0 ?sha] by (simp add: initial_def sample_job_def BUSY_ATTEMPTS_def)
  have w3: "writer_step ?sha ?s2 ?s3"
    using read_head_and_insert [of ?s2 0 ?x ?sha] by (simp add: initial_def)
  have w4: "writer_step ?sha ?s3 ?s4"
    using commit [of ?s3 0 ?x ?r ?sha] by (simp add: initial_def)
  have "?s4 = sample_run" by (simp add: sample_run_def set_call_def initial_def fun_eq_iff)
  with reachable.step [OF reachable.step [OF reachable.step [OF r1 w2] w3] w4] show ?thesis
    by (simp only:)
qed

theorem writers_never_fork_witness:
  "sound_chain (\<lambda>b. b) (committed sample_run) \<and> length (committed sample_run) = 1"
proof
  show "sound_chain (\<lambda>b. b) (committed sample_run)"
    by (rule writers_never_fork [OF sample_run_reachable sound_empty, THEN conjunct1])
qed (simp add: sample_run_def)

text \<open>
  C15. One call.  On a connection in autocommit \<^verbatim>\<open>BEGIN IMMEDIATE\<close> is tried at most nine times, the call
  goes on exactly when one of those tries takes the lock after busy answers only, the file gains the
  append's row exactly when the row is returned, and is untouched on every error path.  On a
  connection inside its caller's transaction no lock is asked for: the row is returned exactly when
  the insert succeeds, it is then the last row the transaction sees, and the file, which only the
  caller's own \<^verbatim>\<open>COMMIT\<close> can change, is as it was.  The hypothesis is SQLite's own: a connection in
  autocommit reads what the file holds.
\<close>

theorem append_event_effect:
  assumes "autocommit conn \<longrightarrow> seen conn = on_disk conn"
  shows "let (res, conn') = append_event sha answer insert_ok commit_ok a conn;
             (row, rows) = append_in_txn sha a (seen conn);
             locked = (\<exists>k\<le>BUSY_ATTEMPTS. answer k = BeginOk \<and> (\<forall>j<k. answer j = BeginBusy))
         in snd (begin_immediate answer 0) \<le> BUSY_ATTEMPTS
            \<and> (if autocommit conn
               then res = (if locked \<and> insert_ok \<and> commit_ok then Some row else None)
                    \<and> on_disk conn' = (if res = None then on_disk conn else on_disk conn @ [row])
                    \<and> (autocommit conn' \<longleftrightarrow> \<not> (locked \<and> insert_ok \<and> \<not> commit_ok))
               else res = (if insert_ok then Some row else None)
                    \<and> seen conn' = (if res = None then seen conn else seen conn @ [row])
                    \<and> on_disk conn' = on_disk conn \<and> \<not> autocommit conn')"
proof -
  have "fst (begin_immediate answer 0)
      \<longleftrightarrow> (\<exists>k\<le>BUSY_ATTEMPTS. answer k = BeginOk \<and> (\<forall>j<k. answer j = BeginBusy))"
    using begin_immediate_iff [of 0 answer] by simp
  moreover have "snd (begin_immediate answer 0) \<le> BUSY_ATTEMPTS"
    using begin_immediate_bound [of 0 answer] by simp
  ultimately show ?thesis
    unfolding append_event_def Let_def case_prod_beta using assms
    by (cases "autocommit conn"; cases insert_ok; cases commit_ok; cases "fst (begin_immediate answer 0)")
      (simp_all add: append_in_txn_rows)
qed

theorem append_event_effect_witness:
  "fst (append_event (\<lambda>b. b) (\<lambda>n. if n < 3 then BeginBusy else BeginOk) True True (sample_append ''x'')
          \<lparr>autocommit = True, seen = [], on_disk = []\<rparr>)
     = Some (fst (append_in_txn (\<lambda>b. b) (sample_append ''x'') []))"
proof -
  have "\<exists>k\<le>BUSY_ATTEMPTS. (if k < 3 then BeginBusy else BeginOk) = BeginOk
          \<and> (\<forall>j<k. (if j < 3 then BeginBusy else BeginOk) = BeginBusy)"
    by (intro exI [of _ 3]) (simp add: BUSY_ATTEMPTS_def)
  then show ?thesis
    using append_event_effect [of "\<lparr>autocommit = True, seen = [], on_disk = []\<rparr>" "\<lambda>b. b"
        "\<lambda>n. if n < 3 then BeginBusy else BeginOk" True True "sample_append ''x''"]
    by (simp add: case_prod_beta Let_def)
qed

end
