(* ===== verification/Types.thy ===== *)
theory Types
  imports Ledger "HOL-Library.List_Lexorder" "HOL-Library.Product_Lexorder"
begin

text \<open>
  The rows of \<^verbatim>\<open>polis-core/src/types.rs\<close> the components exchange, and the tables the store keeps of
  them.  Strings compare by their scalar values, which is the order of their UTF-8 bytes and so the
  order of Rust's \<^verbatim>\<open>str\<close> and of SQLite's binary collation.
\<close>

record class_node =
  cn_id :: rstr
  cn_parent_id :: "rstr option"
  cn_kind :: rstr
  cn_title :: rstr
  cn_summary :: "rstr option"
  cn_project_path :: "rstr option"
  cn_ip_name :: "rstr option"
  cn_status :: rstr
  cn_pinned :: bool
  cn_curated_by :: "rstr option"
  cn_created_at :: int
  cn_updated_at :: int

record class_link =
  cl_id :: int
  cl_node_id :: rstr
  cl_target_kind :: rstr
  cl_target_id :: rstr
  cl_note :: "rstr option"
  cl_status :: rstr
  cl_created_at :: int

record user_note =
  un_id :: int
  un_seq :: "int option"
  un_target_kind :: rstr
  un_target_id :: "rstr option"
  un_text :: rstr
  un_starred :: bool
  un_created_at :: int
  un_updated_at :: int

record class_observation =
  co_id :: int
  co_node_id :: rstr
  co_summary :: rstr
  co_cite_seqs :: "int list"
  co_created_seq :: "int option"
  co_pinned :: bool
  co_dismissed :: bool
  co_created_at :: int
  co_retired_at :: "int option"
  co_retired_reason :: "rstr option"

record lake_item =
  li_seq :: int
  li_ts :: int
  li_kind :: rstr
  li_surface :: "rstr option"
  li_origin :: "rstr option"
  li_role :: "rstr option"
  li_session_id :: "rstr option"
  li_mission_id :: "rstr option"
  li_project_path :: "rstr option"
  li_ref_kind :: "rstr option"
  li_ref_id :: "rstr option"
  li_body :: "rstr option"
  li_thread_kind :: "rstr option"
  li_thread_id :: "rstr option"
  li_parent_session_id :: "rstr option"
  li_model :: "rstr option"

text \<open>A float that is only carried is its bit pattern.\<close>

type_synonym f64_bits = "64 word"

record browse_hit =
  bh_id :: int
  bh_seq :: "int option"
  bh_ts :: int
  bh_url :: rstr
  bh_title :: "rstr option"
  bh_snippet :: rstr
  bh_score :: f64_bits
  bh_stage :: rstr
  bh_shot_key :: "rstr option"
  bh_caption :: "rstr option"

record grep_hit =
  gh_kind :: rstr
  gh_seq :: "int option"
  gh_ts :: int
  gh_label :: rstr
  gh_excerpt :: rstr

datatype grep_scope = GrepAll | GrepPrompts | GrepBrowse

definition grep_scope_parse :: "rstr option \<Rightarrow> grep_scope" where
  "grep_scope_parse s =
     (case map_option trim s of
        None \<Rightarrow> GrepAll
      | Some t \<Rightarrow> if t = lit ''prompts'' then GrepPrompts
                  else if t = lit ''browse'' then GrepBrowse else GrepAll)"

definition wants_prompts :: "grep_scope \<Rightarrow> bool" where
  "wants_prompts g \<longleftrightarrow> g = GrepAll \<or> g = GrepPrompts"

definition wants_browse :: "grep_scope \<Rightarrow> bool" where
  "wants_browse g \<longleftrightarrow> g = GrepAll \<or> g = GrepBrowse"

text \<open>\<^verbatim>\<open>polis-core/src/claims.rs\<close> and the scope of \<^verbatim>\<open>api.rs\<close>: cited assertions with two time axes.\<close>

datatype claim_predicate =
  Preference | ProjectConfiguration | SelectedTechnology | Constraint | DecisionClaim | Relationship

datatype claim_value = ClaimText rstr | ClaimBoolean bool | ClaimNumber f64_bits

datatype claim_role = ClaimUser | ClaimAssistant | ClaimAgent | ClaimSystem | ClaimTool

datatype claim_derivation = Structured | Gardener

record claim_source =
  cs_chain_id :: rstr
  cs_seq :: int
  cs_role :: claim_role
  cs_quote :: rstr
  cs_start_byte :: "nat option"

record scope =
  sc_principal :: "rstr option"
  sc_org :: "rstr option"
  sc_agent :: "rstr option"
  sc_run :: "rstr option"
  sc_project :: "rstr option"
  sc_include_shared :: bool

record claim_write =
  cw_id :: rstr
  cw_subject :: rstr
  cw_predicate :: claim_predicate
  cw_value :: claim_value
  cw_scope :: scope
  cw_sources :: "claim_source list"
  cw_derivation :: claim_derivation
  cw_valid_from :: int
  cw_valid_until :: "int option"
  cw_supersedes :: "rstr list"
  cw_contradicts :: "rstr list"
  cw_organizer_run :: "int option"
  cw_model_version :: "rstr option"

record claim =
  cl_assertion :: claim_write
  cl_recorded_at :: int
  cl_event_seq :: int
  cl_unresolved_alternatives :: "rstr list"

text \<open>\<^verbatim>\<open>f64::to_string\<close> is the parameter \<open>show_f64\<close>.\<close>

fun supporting_text :: "(f64_bits \<Rightarrow> rstr) \<Rightarrow> claim_value \<Rightarrow> rstr" where
  "supporting_text show_f64 (ClaimText s) = s"
| "supporting_text show_f64 (ClaimBoolean b) = lit (if b then ''true'' else ''false'')"
| "supporting_text show_f64 (ClaimNumber n) = show_f64 n"

text \<open>A row of \<^verbatim>\<open>prompts\<close>, as far as the reads modelled here select it.\<close>

record prompt_row =
  pr_id :: int
  pr_mission_id :: "rstr option"
  pr_body :: rstr
  pr_gist :: "rstr option"

text \<open>The catalogue tables; a retired row carries the run that retired it.\<close>

record lake =
  lk_events :: "ledger_event_row list"
  lk_prompts :: "prompt_row list"
  lk_nodes :: "(class_node \<times> int option) list"
  lk_links :: "(class_link \<times> int option) list"
  lk_notes :: "user_note list"

definition list_class_nodes :: "lake \<Rightarrow> class_node list" where
  "list_class_nodes db = sort_key cn_title (map fst (filter (\<lambda>(n, r). r = None) (lk_nodes db)))"

definition list_class_links_for_node :: "lake \<Rightarrow> rstr \<Rightarrow> class_link list" where
  "list_class_links_for_node db nid =
     sort_key cl_id (map fst (filter (\<lambda>(l, r). r = None \<and> cl_node_id l = nid) (lk_links db)))"

definition mission_prompt_ids :: "lake \<Rightarrow> rstr \<Rightarrow> int list" where
  "mission_prompt_ids db mid =
     map pr_id (filter (\<lambda>p. pr_mission_id p = Some mid) (lk_prompts db))"

text \<open>\<^verbatim>\<open>COALESCE(gist, body)\<close>: a forgotten body is served as its gist.\<close>

definition get_prompt_body :: "lake \<Rightarrow> int \<Rightarrow> rstr option" where
  "get_prompt_body db pid =
     map_option (\<lambda>p. case pr_gist p of Some g \<Rightarrow> g | None \<Rightarrow> pr_body p)
       (find (\<lambda>p. pr_id p = pid) (lk_prompts db))"

definition list_user_notes :: "lake \<Rightarrow> bool \<Rightarrow> int \<Rightarrow> user_note list" where
  "list_user_notes db starred_only limit =
     take (nat limit)
       (sort_key (\<lambda>n. (- un_updated_at n, - un_id n))
         (filter (\<lambda>n. \<not> starred_only \<or> un_starred n) (lk_notes db)))"

text \<open>The only kinds a supersession may connect, and the cap of the filtered lake read.\<close>

definition DECISION_KINDS :: "rstr list" where
  "DECISION_KINDS = [lit ''resolution'', lit ''approval'', lit ''review_verdict'']"

definition PROMPT_LIMIT_MAX :: int where
  "PROMPT_LIMIT_MAX = 200"

definition clamp_prompt_limit :: "int option \<Rightarrow> int" where
  "clamp_prompt_limit raw =
     clamp 1 PROMPT_LIMIT_MAX (case raw of None \<Rightarrow> PROMPT_LIMIT_MAX | Some n \<Rightarrow> n)"

lemma set_list_class_nodes: "set (list_class_nodes db) = {n. (n, None) \<in> set (lk_nodes db)}"
  by (force simp: list_class_nodes_def)

end
