(* ===== verification/Bundle.thy ===== *)
theory Bundle
  imports Chain Types
begin

text \<open>
  The export bundle: its wire shape and verifier (\<^verbatim>\<open>polis-core/src/bundle.rs\<close>) and the code that
  builds one from the lake (\<^verbatim>\<open>polis-memory/src/bundle.rs\<close>).
\<close>

section \<open>The wire shape\<close>

datatype bundle_scope =
    ScopeSession rstr
  | ScopeMission rstr
  | ScopeClass rstr
  | ScopeFull

fun bundle_scope_label :: "bundle_scope \<Rightarrow> rstr" where
  "bundle_scope_label (ScopeSession i) = lit ''session:'' @ i"
| "bundle_scope_label (ScopeMission i) = lit ''mission:'' @ i"
| "bundle_scope_label (ScopeClass i) = lit ''class:'' @ i"
| "bundle_scope_label ScopeFull = lit ''full''"

fun bundle_scope_kind :: "bundle_scope \<Rightarrow> rstr" where
  "bundle_scope_kind (ScopeSession _) = lit ''session''"
| "bundle_scope_kind (ScopeMission _) = lit ''mission''"
| "bundle_scope_kind (ScopeClass _) = lit ''class''"
| "bundle_scope_kind ScopeFull = lit ''full''"

fun bundle_scope_session_id :: "bundle_scope \<Rightarrow> rstr option" where
  "bundle_scope_session_id (ScopeSession i) = Some i"
| "bundle_scope_session_id _ = None"

record bundle_prompt =
  bp_id :: int
  bp_body :: rstr

record bundle_revision =
  br_session_id :: rstr
  br_version_number :: int
  br_markdown :: rstr

record bundle_tree =
  bt_nodes :: "class_node list"
  bt_links :: "class_link list"

type_synonym bundle_note = user_note

record context_bundle =
  cb_schema :: rstr
  cb_scope :: rstr
  cb_head_hash :: rstr
  cb_verified_at :: int
  cb_events :: "ledger_event_row list"
  cb_prompts :: "bundle_prompt list"
  cb_revisions :: "bundle_revision list"
  cb_tree :: bundle_tree
  cb_notes :: "bundle_note list"

definition BUNDLE_SCHEMA :: rstr where
  "BUNDLE_SCHEMA = lit ''redline.context-bundle/1''"

record bundle_verdict =
  bv_ok :: bool
  bv_checked :: nat
  bv_first_bad_seq :: "int option"
  bv_full_chain :: bool
  bv_recomputed_head :: "rstr option"

section \<open>The verifier\<close>

definition certifies_itself :: "sha_fn \<Rightarrow> ledger_event_row \<Rightarrow> bool" where
  "certifies_itself sha e \<longleftrightarrow> compute_entry_hash sha (prev_hash e) (canonical_of e) = entry_hash e"

definition is_full_chain :: "ledger_event_row list \<Rightarrow> bool" where
  "is_full_chain es \<longleftrightarrow>
     es \<noteq> [] \<and> ev_seq (hd es) = 1
     \<and> list_all (\<lambda>(d, e). ev_seq e = ev_seq d + 1) (zip es (tl es))"

text \<open>The genesis walk: the first event whose predecessor hash is not the running one.\<close>

fun first_unlinked :: "rstr \<Rightarrow> ledger_event_row list \<Rightarrow> ledger_event_row option" where
  "first_unlinked prev [] = None"
| "first_unlinked prev (e # es) =
     (if prev_hash e \<noteq> prev then Some e else first_unlinked (entry_hash e) es)"

definition verify_events :: "sha_fn \<Rightarrow> rstr \<Rightarrow> ledger_event_row list \<Rightarrow> bundle_verdict" where
  "verify_events sha pinned events =
     (let checked = length events;
          full_chain = is_full_chain events;
          recomputed_head = (if events = [] then None else Some (entry_hash (last events)))
      in case find (\<lambda>e. \<not> certifies_itself sha e) events of
           Some e \<Rightarrow> \<lparr>bv_ok = False, bv_checked = checked, bv_first_bad_seq = Some (ev_seq e),
                      bv_full_chain = False, bv_recomputed_head = None\<rparr>
         | None \<Rightarrow>
             if full_chain
             then (case first_unlinked GENESIS_PREV events of
                     Some e \<Rightarrow> \<lparr>bv_ok = False, bv_checked = checked,
                                bv_first_bad_seq = Some (ev_seq e), bv_full_chain = True,
                                bv_recomputed_head = None\<rparr>
                   | None \<Rightarrow>
                       let head_ok = (recomputed_head = Some pinned)
                       in \<lparr>bv_ok = head_ok, bv_checked = checked,
                           bv_first_bad_seq = (if head_ok then None else Some (ev_seq (last events))),
                           bv_full_chain = True, bv_recomputed_head = recomputed_head\<rparr>)
             else \<lparr>bv_ok = True, bv_checked = checked, bv_first_bad_seq = None,
                   bv_full_chain = False, bv_recomputed_head = recomputed_head\<rparr>)"

definition verify_bundle :: "sha_fn \<Rightarrow> context_bundle \<Rightarrow> bundle_verdict" where
  "verify_bundle sha bundle =
     verify_events sha (cb_head_hash bundle) (sort_key ev_seq (cb_events bundle))"

section \<open>Building a bundle\<close>

definition full_tree :: "lake \<Rightarrow> bundle_tree" where
  "full_tree db =
     (let nodes = sort_key cn_id (list_class_nodes db);
          links = concat (map (\<lambda>n. list_class_links_for_node db (cn_id n)) nodes)
      in \<lparr>bt_nodes = nodes, bt_links = sort_key cl_id links\<rparr>)"

text \<open>The subtree's ids, by passes over all nodes until a pass adds none.\<close>

definition keep_pass :: "class_node list \<Rightarrow> rstr list \<Rightarrow> rstr list" where
  "keep_pass all keep =
     fold (\<lambda>n keep. case cn_parent_id n of
                       None \<Rightarrow> keep
                     | Some p \<Rightarrow> if p \<in> set keep then List.insert (cn_id n) keep else keep) all keep"

lemma keep_pass_props:
  "set keep \<subseteq> set (keep_pass all keep) \<and> set (keep_pass all keep) \<subseteq> set keep \<union> cn_id ` set all
   \<and> length keep \<le> length (keep_pass all keep)
   \<and> (if length (keep_pass all keep) = length keep then keep_pass all keep = keep
      else set keep \<subset> set (keep_pass all keep))
   \<and> (distinct keep \<longrightarrow> distinct (keep_pass all keep))"
proof (induction all arbitrary: keep)
  case (Cons n all)
  let ?keep = "case cn_parent_id n of None \<Rightarrow> keep
      | Some p \<Rightarrow> if p \<in> set keep then List.insert (cn_id n) keep else keep"
  have pass: "keep_pass (n # all) keep = keep_pass all ?keep" by (simp add: keep_pass_def)
  have "?keep = keep \<or> ?keep = cn_id n # keep \<and> cn_id n \<notin> set keep"
    by (auto simp: List.insert_def split: option.splits)
  then show ?case
  proof
    assume same: "?keep = keep"
    show ?thesis unfolding pass same using Cons.IH [of keep] by (auto split: if_splits)
  next
    assume new: "?keep = cn_id n # keep \<and> cn_id n \<notin> set keep"
    then have k: "?keep = cn_id n # keep" ..
    show ?thesis unfolding pass k using Cons.IH [of "cn_id n # keep"] new
      by (auto split: if_splits)
  qed
qed (simp add: keep_pass_def)

function keep_ids :: "class_node list \<Rightarrow> rstr list \<Rightarrow> rstr list" where
  "keep_ids all keep =
     (let keep' = keep_pass all keep
      in if length keep' = length keep then keep' else keep_ids all keep')"
  by pat_completeness auto
termination
proof (relation "measure (\<lambda>(all, keep). card (cn_id ` set all - set keep))")
  fix all keep keep'
  assume k: "keep' = keep_pass all keep" and ne: "length keep' \<noteq> length keep"
  then have "set keep \<subset> set keep'" and "set keep' \<subseteq> set keep \<union> cn_id ` set all"
    using keep_pass_props [of keep all] by auto
  then have "cn_id ` set all - set keep' \<subset> cn_id ` set all - set keep" by blast
  then show "((all, keep'), all, keep) \<in> measure (\<lambda>(all, keep). card (cn_id ` set all - set keep))"
    by (simp add: psubset_card_mono)
qed simp

declare keep_ids.simps [simp del]

record class_keep =
  ck_prompt_ids :: "int set"
  ck_session_ids :: "rstr set"
  ck_seqs :: "int set"

definition class_keep_matches :: "class_keep \<Rightarrow> ledger_event_row \<Rightarrow> bool" where
  "class_keep_matches keep e \<longleftrightarrow>
     ev_seq e \<in> ck_seqs keep
     \<or> (case ev_prompt_id e of None \<Rightarrow> False | Some p \<Rightarrow> p \<in> ck_prompt_ids keep)
     \<or> (case ev_session_id e of None \<Rightarrow> False | Some i \<Rightarrow> i \<in> ck_session_ids keep)"

text \<open>One link's contribution to the keep set; a prompt filing names its ledger event.\<close>

definition keep_link :: "ledger_event_row list \<Rightarrow> class_link \<Rightarrow> class_keep \<Rightarrow> class_keep" where
  "keep_link rows l keep =
     (if cl_target_kind l = lit ''prompt''
      then (case parse_i64 (cl_target_id l) of
              None \<Rightarrow> keep
            | Some i \<Rightarrow>
                let keep' = (case Option.bind (find (\<lambda>e. ev_seq e = i) rows) ev_prompt_id of
                               None \<Rightarrow> keep
                             | Some pid \<Rightarrow> keep\<lparr>ck_prompt_ids := insert pid (ck_prompt_ids keep)\<rparr>)
                in keep'\<lparr>ck_seqs := insert i (ck_seqs keep')\<rparr>)
      else if cl_target_kind l = lit ''session''
      then keep\<lparr>ck_session_ids := insert (cl_target_id l) (ck_session_ids keep)\<rparr>
      else if cl_target_kind l \<in> set [lit ''decision'', lit ''revision'', lit ''note'',
                                      lit ''browse_event'', lit ''ledger'']
      then (case parse_i64 (cl_target_id l) of
              None \<Rightarrow> keep | Some i \<Rightarrow> keep\<lparr>ck_seqs := insert i (ck_seqs keep)\<rparr>)
      else keep)"

definition class_scope :: "lake \<Rightarrow> rstr \<Rightarrow> bundle_tree \<times> class_keep" where
  "class_scope db root =
     (let all = list_class_nodes db;
          ids = keep_ids all [root];
          nodes = sort_key cn_id (filter (\<lambda>n. cn_id n \<in> set ids) all);
          links = concat (map (\<lambda>n. list_class_links_for_node db (cn_id n)) nodes)
      in (\<lparr>bt_nodes = nodes, bt_links = sort_key cl_id links\<rparr>,
          fold (keep_link (lk_events db)) links
            \<lparr>ck_prompt_ids = {}, ck_session_ids = {}, ck_seqs = {}\<rparr>))"

text \<open>
  The bodies of the bundled events, each prompt and each revision once, in event order.  The host
  supplies revision bodies (\<open>revision_markdown\<close>).
\<close>

fun join_bodies ::
  "lake \<Rightarrow> (rstr \<Rightarrow> int \<Rightarrow> rstr option) \<Rightarrow> ledger_event_row list \<Rightarrow> int set \<Rightarrow> (rstr \<times> int) set
   \<Rightarrow> bundle_prompt list \<times> bundle_revision list" where
  "join_bodies db rm [] sp sr = ([], [])"
| "join_bodies db rm (e # es) sp sr =
     (if ev_kind e = lit ''prompt''
      then (case ev_prompt_id e of
              None \<Rightarrow> join_bodies db rm es sp sr
            | Some pid \<Rightarrow>
                let (ps, rs) = join_bodies db rm es (insert pid sp) sr
                in (if pid \<in> sp then ps
                    else case get_prompt_body db pid of
                           None \<Rightarrow> ps | Some body \<Rightarrow> \<lparr>bp_id = pid, bp_body = body\<rparr> # ps, rs))
      else if ev_kind e = lit ''revision''
      then (case (ev_session_id e, ev_version_number e) of
              (Some sid, Some ver) \<Rightarrow>
                let (ps, rs) = join_bodies db rm es sp (insert (sid, ver) sr)
                in (ps, if (sid, ver) \<in> sr then rs
                        else case rm sid ver of
                               None \<Rightarrow> rs
                             | Some md \<Rightarrow> \<lparr>br_session_id = sid, br_version_number = ver,
                                          br_markdown = md\<rparr> # rs)
            | _ \<Rightarrow> join_bodies db rm es sp sr)
      else join_bodies db rm es sp sr)"

definition note_on_bundled_event :: "int set \<Rightarrow> user_note \<Rightarrow> bool" where
  "note_on_bundled_event seqs n \<longleftrightarrow>
     un_target_kind n = lit ''ledger_event''
     \<and> (case Option.bind (un_target_id n) parse_i64 of None \<Rightarrow> False | Some s \<Rightarrow> s \<in> seqs)"

fun note_in_scope :: "bundle_scope \<Rightarrow> int set \<Rightarrow> user_note \<Rightarrow> bool" where
  "note_in_scope ScopeFull seqs n = True"
| "note_in_scope (ScopeSession sid) seqs n =
     (un_target_kind n = lit ''session'' \<and> un_target_id n = Some sid \<or> note_on_bundled_event seqs n)"
| "note_in_scope (ScopeMission _) seqs n = note_on_bundled_event seqs n"
| "note_in_scope (ScopeClass _) seqs n = note_on_bundled_event seqs n"

fun scope_keeps :: "lake \<Rightarrow> bundle_scope \<Rightarrow> ledger_event_row \<Rightarrow> bool" where
  "scope_keeps db ScopeFull e = True"
| "scope_keeps db (ScopeSession sid) e = (ev_session_id e = Some sid)"
| "scope_keeps db (ScopeMission mid) e =
     (case ev_prompt_id e of None \<Rightarrow> False | Some i \<Rightarrow> i \<in> set (mission_prompt_ids db mid))"
| "scope_keeps db (ScopeClass root) e = class_keep_matches (snd (class_scope db root)) e"

fun scope_tree :: "lake \<Rightarrow> bundle_scope \<Rightarrow> bundle_tree" where
  "scope_tree db ScopeFull = full_tree db"
| "scope_tree db (ScopeClass root) = fst (class_scope db root)"
| "scope_tree db _ = \<lparr>bt_nodes = [], bt_links = []\<rparr>"

definition build_bundle ::
  "sha_fn \<Rightarrow> (rstr \<Rightarrow> int \<Rightarrow> rstr option) \<Rightarrow> int \<Rightarrow> lake \<Rightarrow> bundle_scope \<Rightarrow> context_bundle" where
  "build_bundle sha rm now db scope =
     (let head_hash = (case cv_head_hash (verify_ledger_chain sha (lk_events db)) of
                         None \<Rightarrow> GENESIS_PREV | Some h \<Rightarrow> h);
          all = list_ledger_events_asc 0 i64_max (lk_events db);
          events = sort_key ev_seq (filter (scope_keeps db scope) all);
          (prompts, revisions) = join_bodies db rm events {} {};
          seqs = set (map ev_seq events);
          notes = filter (note_in_scope scope seqs) (list_user_notes db False i64_max)
      in \<lparr>cb_schema = BUNDLE_SCHEMA, cb_scope = bundle_scope_label scope, cb_head_hash = head_hash,
          cb_verified_at = now, cb_events = events, cb_prompts = sort_key bp_id prompts,
          cb_revisions = sort_key (\<lambda>r. (br_session_id r, br_version_number r)) revisions,
          cb_tree = scope_tree db scope, cb_notes = sort_key un_id notes\<rparr>)"

section \<open>What the verifier accepts\<close>

lemma first_unlinked_linked:
  "\<forall>e\<in>set es. certifies_itself sha e \<Longrightarrow> first_unlinked prev es = None \<longleftrightarrow> linked sha prev es"
  by (induction es arbitrary: prev) (auto simp: certifies_itself_def)

lemma linked_certifies: "linked sha prev es \<Longrightarrow> e \<in> set es \<Longrightarrow> certifies_itself sha e"
  by (induction es arbitrary: prev) (auto simp: certifies_itself_def)

lemma consecutive_iff:
  "es \<noteq> [] \<Longrightarrow> ev_seq (hd es) = k \<Longrightarrow>
   list_all (\<lambda>(d, e). ev_seq e = ev_seq d + 1) (zip es (tl es))
     \<longleftrightarrow> map ev_seq es = [k..k + int (length es) - 1]"
proof (induction es arbitrary: k)
  case (Cons e es)
  show ?case
  proof (cases es)
    case Nil
    with Cons.prems show ?thesis by (simp add: upto.simps)
  next
    case (Cons d ds)
    let ?n = "int (length es)"
    have IH: "list_all (\<lambda>(d, e). ev_seq e = ev_seq d + 1) (zip es (tl es))
        \<longleftrightarrow> map ev_seq es = [ev_seq d..ev_seq d + ?n - 1]"
      using Cons.IH [of "ev_seq d"] Cons by simp
    have n: "1 \<le> ?n" using Cons by simp
    have up: "[k..k + int (length (e # es)) - 1] = k # [k + 1..k + ?n]"
      by (simp add: upto_rec1)
    have first: "map ev_seq es = [k + 1..k + ?n] \<Longrightarrow> ev_seq d = k + 1"
      using n Cons by (simp add: upto_rec1)
    have "list_all (\<lambda>(d, e). ev_seq e = ev_seq d + 1) (zip (e # es) (tl (e # es)))
        \<longleftrightarrow> ev_seq d = k + 1 \<and> map ev_seq es = [ev_seq d..ev_seq d + ?n - 1]"
      using IH Cons Cons.prems by simp
    also have "\<dots> \<longleftrightarrow> ev_seq d = k + 1 \<and> map ev_seq es = [k + 1..k + ?n]" by auto
    also have "\<dots> \<longleftrightarrow> map ev_seq (e # es) = [k..k + int (length (e # es)) - 1]"
      unfolding up using first Cons.prems by auto
    finally show ?thesis .
  qed
qed simp

lemma is_full_chain_iff: "is_full_chain es \<longleftrightarrow> es \<noteq> [] \<and> contiguous es"
proof (cases "es = []")
  case False
  have "ev_seq (hd es) = 1" if "contiguous es"
  proof -
    have eq: "hd (map ev_seq es) = hd [1..int (length es)]" using that by (simp add: contiguous_def)
    have "1 \<le> int (length es)" using False by (cases es) auto
    then have "hd [1..int (length es)] = 1" by (simp add: upto_rec1)
    with eq show ?thesis using False by (simp add: hd_map)
  qed
  with False show ?thesis
    using consecutive_iff [of es 1] by (auto simp: is_full_chain_def contiguous_def)
qed (simp add: is_full_chain_def)

lemma first_unlinked_in: "first_unlinked p es = Some e \<Longrightarrow> e \<in> set es"
  by (induction es arbitrary: p) (auto split: if_splits)

lemma verify_events_exact:
  fixes es and pinned and sha
  defines "v \<equiv> verify_events sha pinned es"
  shows "bv_ok v \<longleftrightarrow> list_all (certifies_itself sha) es
         \<and> (is_full_chain es \<longrightarrow> linked sha GENESIS_PREV es \<and> entry_hash (last es) = pinned)"
    and "bv_checked v = length es"
    and "bv_first_bad_seq v = None \<longleftrightarrow> bv_ok v"
    and "\<And>s. bv_first_bad_seq v = Some s \<Longrightarrow> s \<in> ev_seq ` set es"
    and "bv_ok v \<Longrightarrow> bv_full_chain v = is_full_chain es"
proof -
  have "(bv_ok v \<longleftrightarrow> list_all (certifies_itself sha) es
         \<and> (is_full_chain es \<longrightarrow> linked sha GENESIS_PREV es \<and> entry_hash (last es) = pinned))
    \<and> bv_checked v = length es \<and> (bv_first_bad_seq v = None \<longleftrightarrow> bv_ok v)
    \<and> (\<forall>s. bv_first_bad_seq v = Some s \<longrightarrow> s \<in> ev_seq ` set es)
    \<and> (bv_ok v \<longrightarrow> bv_full_chain v = is_full_chain es)"
  proof (cases "find (\<lambda>e. \<not> certifies_itself sha e) es")
    case (Some e)
    then have "e \<in> set es" and "\<not> certifies_itself sha e"
      unfolding find_Some_iff by (metis nth_mem, blast)
    then have "\<not> list_all (certifies_itself sha) es" by (auto simp: list_all_iff)
    with Some \<open>e \<in> set es\<close> show ?thesis by (simp add: v_def verify_events_def Let_def)
  next
    case None
    then have all: "\<forall>e\<in>set es. certifies_itself sha e" by (simp add: find_None_iff)
    then have la: "list_all (certifies_itself sha) es" by (simp only: list_all_iff)
    show ?thesis
    proof (cases "is_full_chain es")
      case False
      then show ?thesis using None la by (simp add: v_def verify_events_def Let_def)
    next
      case True
      then have ne: "es \<noteq> []" by (simp add: is_full_chain_def)
      have lk: "first_unlinked GENESIS_PREV es = None \<longleftrightarrow> linked sha GENESIS_PREV es"
        by (rule first_unlinked_linked [OF all])
      show ?thesis
      proof (cases "first_unlinked GENESIS_PREV es")
        case None
        with \<open>find _ es = None\<close> la True lk ne last_in_set [OF ne] show ?thesis
          by (simp add: v_def verify_events_def Let_def)
      next
        case (Some e)
        with \<open>find _ es = None\<close> la True lk first_unlinked_in [OF Some] show ?thesis
          by (simp add: v_def verify_events_def Let_def)
      qed
    qed
  qed
  then show "bv_ok v \<longleftrightarrow> list_all (certifies_itself sha) es
         \<and> (is_full_chain es \<longrightarrow> linked sha GENESIS_PREV es \<and> entry_hash (last es) = pinned)"
    and "bv_checked v = length es" and "bv_first_bad_seq v = None \<longleftrightarrow> bv_ok v"
    and "\<And>s. bv_first_bad_seq v = Some s \<Longrightarrow> s \<in> ev_seq ` set es"
    and "bv_ok v \<Longrightarrow> bv_full_chain v = is_full_chain es" by blast+
qed

text \<open>
  C16. The verifier is exact.  It accepts a bundle precisely when every event certifies itself and,
  if the events in order are numbered 1, 2, 3 and so on, they form a linked chain from genesis whose
  head is the pinned one; it counts every event, and names a bad one, an event of the bundle, exactly
  when it rejects.
\<close>

theorem verify_bundle_exact:
  "let v = verify_bundle sha b; es = sort_key ev_seq (cb_events b)
   in bv_ok v = (list_all (certifies_itself sha) es
                 \<and> (if es \<noteq> [] \<and> contiguous es
                    then linked sha GENESIS_PREV es \<and> entry_hash (last es) = cb_head_hash b else True))
      \<and> bv_checked v = length (cb_events b) \<and> (bv_first_bad_seq v = None \<longleftrightarrow> bv_ok v)
      \<and> set_option (bv_first_bad_seq v) \<subseteq> ev_seq ` set (cb_events b)"
  using verify_events_exact [of sha "cb_head_hash b" "sort_key ev_seq (cb_events b)"]
  by (auto simp: Let_def verify_bundle_def is_full_chain_iff)

text \<open>
  C19. The class export's subtree: the kept ids are exactly the root and every node reachable from it
  along parent links, for any table of nodes, cyclic ones included.
\<close>

definition child_rel :: "class_node list \<Rightarrow> (rstr \<times> rstr) set" where
  "child_rel all = {(p, cn_id n) | p n. n \<in> set all \<and> cn_parent_id n = Some p}"

lemma keep_pass_sound: "set keep \<subseteq> (child_rel all)\<^sup>* `` R \<Longrightarrow> set ns \<subseteq> set all \<Longrightarrow>
    set (keep_pass ns keep) \<subseteq> (child_rel all)\<^sup>* `` R"
proof (induction ns arbitrary: keep)
  case (Cons n ns)
  let ?keep = "case cn_parent_id n of None \<Rightarrow> keep
      | Some p \<Rightarrow> if p \<in> set keep then List.insert (cn_id n) keep else keep"
  have "set ?keep \<subseteq> (child_rel all)\<^sup>* `` R"
  proof (cases "cn_parent_id n")
    case None
    then show ?thesis using Cons.prems by simp
  next
    case (Some p)
    have "(p, cn_id n) \<in> child_rel all" using Some Cons.prems by (auto simp: child_rel_def)
    then have "p \<in> set keep \<Longrightarrow> cn_id n \<in> (child_rel all)\<^sup>* `` R"
      using Cons.prems(1) by (blast intro: rtrancl_into_rtrancl)
    with Some Cons.prems show ?thesis by simp
  qed
  then show ?case using Cons.IH Cons.prems by (simp add: keep_pass_def)
qed (simp add: keep_pass_def)

lemma keep_pass_Cons:
  "keep_pass (n # ns) keep = keep_pass ns (keep_pass [n] keep)"
  by (simp add: keep_pass_def)

lemma keep_pass_step:
  "n \<in> set all \<Longrightarrow> cn_parent_id n = Some p \<Longrightarrow> p \<in> set keep \<Longrightarrow> cn_id n \<in> set (keep_pass all keep)"
proof (induction all arbitrary: keep)
  case (Cons m all)
  show ?case
  proof (cases "n = m")
    case True
    then have "cn_id n \<in> set (keep_pass [m] keep)" using Cons.prems by (simp add: keep_pass_def)
    then show ?thesis
      unfolding keep_pass_Cons [of m all] using keep_pass_props [of "keep_pass [m] keep" all] by blast
  next
    case False
    moreover have "p \<in> set (keep_pass [m] keep)" using keep_pass_props [of keep "[m]"] Cons.prems by blast
    ultimately show ?thesis
      unfolding keep_pass_Cons [of m all] using Cons.IH Cons.prems by simp
  qed
qed simp

lemma keep_ids_closed:
  "set keep \<subseteq> set (keep_ids all keep)
   \<and> (\<forall>(p, i)\<in>child_rel all. p \<in> set (keep_ids all keep) \<longrightarrow> i \<in> set (keep_ids all keep))"
proof (induction all keep rule: keep_ids.induct)
  case (1 all keep)
  show ?case
  proof (cases "length (keep_pass all keep) = length keep")
    case True
    then have "keep_pass all keep = keep" using keep_pass_props [of keep all] by simp
    moreover from this have "keep_ids all keep = keep" by (simp add: keep_ids.simps [of all keep])
    ultimately show ?thesis
      using keep_pass_step [of _ all _ keep] by (auto simp: child_rel_def)
  next
    case False
    then have "keep_ids all keep = keep_ids all (keep_pass all keep)"
      by (simp add: keep_ids.simps [of all keep] Let_def)
    with "1.IH" [OF refl False] keep_pass_props [of keep all] show ?thesis by auto
  qed
qed

lemma keep_ids_sound:
  "set keep \<subseteq> (child_rel all)\<^sup>* `` R \<Longrightarrow> set (keep_ids all keep) \<subseteq> (child_rel all)\<^sup>* `` R"
proof (induction all keep rule: keep_ids.induct)
  case (1 all keep)
  then show ?case
    using keep_pass_sound [OF "1.prems" order_refl]
    by (subst keep_ids.simps) (simp add: Let_def)
qed

theorem class_export_keeps_the_subtree:
  "set (keep_ids all [root]) = {i. (root, i) \<in> (child_rel all)\<^sup>*}"
proof
  show "set (keep_ids all [root]) \<subseteq> {i. (root, i) \<in> (child_rel all)\<^sup>*}"
    using keep_ids_sound [of "[root]" all "{root}"] by auto
  have "i \<in> set (keep_ids all [root])" if "(root, i) \<in> (child_rel all)\<^sup>*" for i
    using that
  proof (induction rule: rtrancl_induct)
    case base
    then show ?case using keep_ids_closed [of "[root]" all] by simp
  next
    case (step p i)
    then show ?case using keep_ids_closed [of "[root]" all] by fast
  qed
  then show "{i. (root, i) \<in> (child_rel all)\<^sup>*} \<subseteq> set (keep_ids all [root])" by blast
qed

section \<open>What an honest export verifies as\<close>

lemma sound_events_asc:
  assumes "sound_chain sha rows" and "int (length rows) \<le> i64_max"
  shows "list_ledger_events_asc 0 i64_max rows = rows"
proof -
  have "filter (\<lambda>e. 0 < ev_seq e) rows = rows"
    using assms(1) contiguous_seqs [of rows] by (force simp: sound_chain_def filter_id_conv)
  then show ?thesis
    using assms(2) by (simp add: list_ledger_events_asc_def sql_limit_def)
qed

lemma build_bundle_events:
  assumes "sound_chain sha (lk_events db)" and "int (length (lk_events db)) \<le> i64_max"
  shows "cb_events (build_bundle sha rm now db scope) = filter (scope_keeps db scope) (lk_events db)"
    and "cb_head_hash (build_bundle sha rm now db scope) = chain_head GENESIS_PREV (lk_events db)"
proof -
  have "pk_sorted (lk_events db)"
    using assms(1) by (simp add: sound_chain_def contiguous_pk_sorted)
  then have "sorted_wrt (<) (map ev_seq (filter (scope_keeps db scope) (lk_events db)))"
    unfolding pk_sorted_def sorted_wrt_map by (rule sorted_wrt_filter)
  then have "sorted (map ev_seq (filter (scope_keeps db scope) (lk_events db)))"
    by (rule strict_sorted_imp_sorted)
  then show "cb_events (build_bundle sha rm now db scope) = filter (scope_keeps db scope) (lk_events db)"
    using sound_events_asc [OF assms]
    by (simp add: build_bundle_def Let_def case_prod_beta sorted_sort_id sort_key_id_if_sorted)
  show "cb_head_hash (build_bundle sha rm now db scope) = chain_head GENESIS_PREV (lk_events db)"
    using assms(1) verify_full_fields(3) [of sha "lk_events db"]
    by (simp add: build_bundle_def Let_def case_prod_beta sound_chain_def)
qed

lemma contiguous_filter_prefix:
  assumes rows: "contiguous rows" and es: "contiguous (filter P rows)"
  shows "filter P rows = take (length (filter P rows)) rows"
proof (rule nth_equalityI)
  show "length (filter P rows) = length (take (length (filter P rows)) rows)" by simp
next
  fix i
  let ?es = "filter P rows"
  assume i: "i < length ?es"
  have le: "length ?es \<le> length rows" by simp
  have seq: "ev_seq (xs ! j) = int j + 1" if "contiguous xs" "j < length xs" for xs j
  proof -
    have "map ev_seq xs ! j = [1..int (length xs)] ! j" using that by (simp add: contiguous_def)
    then show ?thesis using that by (simp add: nth_upto)
  qed
  have "?es ! i \<in> set rows" using i by (meson filter_is_subset nth_mem subsetD)
  then obtain j where j: "j < length rows" "rows ! j = ?es ! i" by (meson in_set_conv_nth)
  then have "int j + 1 = int i + 1" using seq [OF rows j(1)] seq [OF es i] by simp
  then show "?es ! i = take (length ?es) rows ! i" using j i by simp
qed

lemma contiguous_take: "contiguous rows \<Longrightarrow> contiguous (take n rows)"
proof -
  assume "contiguous rows"
  then have "map ev_seq (take n rows) = take n [1..int (length rows)]"
    by (simp add: contiguous_def take_map [symmetric])
  also have "\<dots> = [1..int (length (take n rows))]"
    by (rule nth_equalityI) (auto simp: nth_upto min_def split: if_splits)
  finally show ?thesis by (simp add: contiguous_def)
qed

lemma linked_entry_hash_inj:
  assumes "distinct (map entry_hash rows)" and "0 < k" and "k < length rows"
  shows "entry_hash (last (take k rows)) \<noteq> entry_hash (last rows)"
proof -
  have "rows \<noteq> []" using assms by auto
  then have "last (take k rows) = rows ! (k - 1)" and "last rows = rows ! (length rows - 1)"
    using assms by (simp_all add: last_conv_nth min_def)
  moreover have "map entry_hash rows ! (k - 1) \<noteq> map entry_hash rows ! (length rows - 1)"
    using assms by (subst nth_eq_iff_index_eq [OF assms(1)]) auto
  ultimately show ?thesis using assms by simp
qed

text \<open>
  C17. The full export of a sound ledger verifies from the bundle alone: every row is in it, all are
  checked, the genesis walk is made (unless the ledger is empty) and ends in the pinned head.
\<close>

theorem full_export_verifies:
  assumes "sound_chain sha (lk_events db)" and "int (length (lk_events db)) \<le> i64_max"
  shows "let b = build_bundle sha rm now db ScopeFull; v = verify_bundle sha b
         in cb_events b = lk_events db \<and> bv_ok v \<and> bv_checked v = length (lk_events db)
            \<and> bv_first_bad_seq v = None \<and> (bv_full_chain v \<longleftrightarrow> lk_events db \<noteq> [])"
proof -
  let ?b = "build_bundle sha rm now db ScopeFull" and ?rows = "lk_events db"
  let ?v = "verify_bundle sha ?b"
  have ev: "cb_events ?b = ?rows" using build_bundle_events(1) [OF assms, of rm now ScopeFull] by simp
  have cont: "contiguous ?rows" and lk: "linked sha GENESIS_PREV ?rows"
    using assms(1) by (simp_all add: sound_chain_def)
  have "sort_key ev_seq ?rows = ?rows"
    using contiguous_pk_sorted [OF cont]
    by (intro sort_key_id_if_sorted) (simp add: pk_sorted_def strict_sorted_imp_sorted)
  then have v: "?v = verify_events sha (chain_head GENESIS_PREV ?rows) ?rows"
    using build_bundle_events(2) [OF assms] by (simp add: verify_bundle_def ev)
  have "list_all (certifies_itself sha) ?rows"
    using linked_certifies [OF lk] by (simp add: list_all_iff)
  then have ok: "bv_ok ?v"
    unfolding v by (simp add: verify_events_exact(1) lk is_full_chain_iff chain_head_def)
  moreover have "bv_checked ?v = length ?rows" unfolding v by (rule verify_events_exact(2))
  moreover have "bv_full_chain ?v \<longleftrightarrow> ?rows \<noteq> []"
    using ok cont unfolding v by (simp add: verify_events_exact(5) is_full_chain_iff)
  moreover have "bv_first_bad_seq ?v = None"
    using ok unfolding v by (simp add: verify_events_exact(3))
  ultimately show ?thesis using ev by simp
qed

definition sample_lake :: lake where
  "sample_lake =
     \<lparr>lk_events = sample_chain, lk_prompts = [], lk_nodes = [], lk_links = [], lk_notes = []\<rparr>"

lemma sample_chain_sound: "sound_chain tail_hash sample_chain"
  unfolding sample_chain_def by (intro sound_append sound_empty)

lemma sample_chain_length: "length sample_chain = 2"
  by (simp add: sample_chain_def append_in_txn_rows)

theorem full_export_verifies_witness:
  "bv_ok (verify_bundle tail_hash (build_bundle tail_hash (\<lambda>s v. None) 0 sample_lake ScopeFull))"
proof -
  have "sound_chain tail_hash (lk_events sample_lake)" and "int (length (lk_events sample_lake)) \<le> i64_max"
    by (simp_all add: sample_lake_def sample_chain_sound sample_chain_length)
  from full_export_verifies [OF this, of "\<lambda>s v. None" 0] show ?thesis by (simp add: Let_def)
qed

text \<open>
  C18. The scoped export of a sound ledger verifies exactly when its events are not a nonempty proper
  prefix of the ledger.  A scope whose events are rows 1 to k with k below the head, such as the first
  session of a lake, is taken for a full chain whose head is not the pinned one, and an honest export
  of it is rejected.
\<close>

theorem scoped_export_verifies_iff:
  assumes "sound_chain sha (lk_events db)" and "int (length (lk_events db)) \<le> i64_max"
    and "distinct (map entry_hash (lk_events db))"
  shows "bv_ok (verify_bundle sha (build_bundle sha rm now db scope)) \<longleftrightarrow>
         \<not> (\<exists>k. 0 < k \<and> k < length (lk_events db)
               \<and> filter (scope_keeps db scope) (lk_events db) = take k (lk_events db))"
proof -
  let ?b = "build_bundle sha rm now db scope" and ?rows = "lk_events db"
  let ?es = "filter (scope_keeps db scope) ?rows"
  have cont: "contiguous ?rows" and lk: "linked sha GENESIS_PREV ?rows"
    using assms(1) by (simp_all add: sound_chain_def)
  have "sort_key ev_seq ?es = ?es"
    using build_bundle_events(1) [OF assms(1,2), of rm now scope]
    by (metis build_bundle_events(1) [OF assms(1,2)] contiguous_pk_sorted [OF cont] pk_sorted_def
        sort_key_id_if_sorted sorted_wrt_filter sorted_wrt_map strict_sorted_imp_sorted)
  then have v: "verify_bundle sha ?b = verify_events sha (chain_head GENESIS_PREV ?rows) ?es"
    using build_bundle_events [OF assms(1,2)] by (simp add: verify_bundle_def)
  have all: "list_all (certifies_itself sha) ?es"
    using linked_certifies [OF lk] by (simp add: list_all_iff)
  show ?thesis
  proof (cases "is_full_chain ?es")
    case False
    have "?es \<noteq> take k ?rows" if "0 < k" "k < length ?rows" for k
      using False contiguous_take [OF cont, of k] that by (auto simp: is_full_chain_iff)
    with False all show ?thesis unfolding v by (auto simp: verify_events_exact(1))
  next
    case True
    then have ne: "?es \<noteq> []" and c: "contiguous ?es" by (simp_all add: is_full_chain_iff)
    let ?k = "length ?es"
    have pre: "?es = take ?k ?rows" by (rule contiguous_filter_prefix [OF cont c])
    have lk': "linked sha GENESIS_PREV ?es"
      using lk by (subst pre) (metis append_take_drop_id linked_append)
    have k: "0 < ?k" "?k \<le> length ?rows" using ne by simp_all
    have "bv_ok (verify_bundle sha ?b) \<longleftrightarrow> entry_hash (last ?es) = chain_head GENESIS_PREV ?rows"
      unfolding v by (simp add: verify_events_exact(1) True all lk')
    also have "\<dots> \<longleftrightarrow> ?k = length ?rows"
    proof
      assume eq: "entry_hash (last ?es) = chain_head GENESIS_PREV ?rows"
      show "?k = length ?rows"
      proof (rule ccontr)
        assume "?k \<noteq> length ?rows"
        then have "entry_hash (last (take ?k ?rows)) \<noteq> entry_hash (last ?rows)"
          using k by (intro linked_entry_hash_inj [OF assms(3)]) linarith+
        with eq pre k show False by (auto simp: chain_head_def split: if_splits)
      qed
    next
      assume "?k = length ?rows"
      with pre have "?es = ?rows" by simp
      with ne show "entry_hash (last ?es) = chain_head GENESIS_PREV ?rows"
        by (simp add: chain_head_def)
    qed
    also have "\<dots> \<longleftrightarrow> \<not> (\<exists>k. 0 < k \<and> k < length ?rows \<and> ?es = take k ?rows)"
      using pre k by (metis le_neq_implies_less length_take min.absorb4 min_def nat_less_le)
    finally show ?thesis .
  qed
qed

text \<open>Two sessions on one lake; the first one's export is rejected, the second one's accepted.\<close>

definition session_append :: "string \<Rightarrow> string \<Rightarrow> ledger_append" where
  "session_append sid p = (sample_append p)\<lparr>la_session_id := Some (lit sid)\<rparr>"

definition two_session_lake :: lake where
  "two_session_lake =
     \<lparr>lk_events =
        snd (append_in_txn tail_hash (session_append ''b'' ''y'')
          (snd (append_in_txn tail_hash (session_append ''a'' ''x'') []))),
      lk_prompts = [], lk_nodes = [], lk_links = [], lk_notes = []\<rparr>"

theorem scoped_export_verifies_iff_witness:
  "\<not> bv_ok (verify_bundle tail_hash
       (build_bundle tail_hash (\<lambda>s v. None) 0 two_session_lake (ScopeSession (lit ''a''))))"
proof -
  let ?rows = "lk_events two_session_lake"
  have sound: "sound_chain tail_hash ?rows"
    by (simp add: two_session_lake_def sound_append)
  have len: "length ?rows = 2" by (simp add: two_session_lake_def append_in_txn_rows)
  have dist: "distinct (map entry_hash ?rows)" by code_simp
  have "filter (scope_keeps two_session_lake (ScopeSession (lit ''a''))) ?rows = take 1 ?rows" by code_simp
  then have "\<exists>k. 0 < k \<and> k < length ?rows
      \<and> filter (scope_keeps two_session_lake (ScopeSession (lit ''a''))) ?rows = take k ?rows"
    by (intro exI [of _ 1]) (simp add: len)
  then show ?thesis
    using scoped_export_verifies_iff [OF sound _ dist, of "\<lambda>s v. None" 0 "ScopeSession (lit ''a'')"] len
    by simp
qed

end
