(* ===== verification/Identity.thy ===== *)
theory Identity
  imports Ledger
begin

text \<open>
  \<^verbatim>\<open>polis-core/src/identity.rs\<close>: the ids a public key derives, the principals they name, the signed
  bind payload, and the rule that resolves a legacy author string.
\<close>

section \<open>Ids\<close>

definition principal_id :: "sha_fn \<Rightarrow> byte list \<Rightarrow> rstr" where
  "principal_id sha pubkey = sha pubkey"

definition fingerprint :: "rstr \<Rightarrow> rstr" where
  "fingerprint pid = take 16 pid"

definition derived :: "sha_fn \<Rightarrow> byte list \<Rightarrow> rstr \<Rightarrow> rstr \<Rightarrow> rstr" where
  "derived sha pubkey label name = sha (pubkey @ [0] @ utf8 label @ utf8 name)"

definition device_id :: "sha_fn \<Rightarrow> byte list \<Rightarrow> rstr \<Rightarrow> rstr" where
  "device_id sha pubkey name = derived sha pubkey (lit ''device:'') name"

definition agent_id :: "sha_fn \<Rightarrow> byte list \<Rightarrow> rstr \<Rightarrow> rstr" where
  "agent_id sha pubkey name = derived sha pubkey (lit ''agent:'') name"

section \<open>Principals\<close>

datatype principal_kind = Human | Device | Agent | Org

fun principal_kind_as_str :: "principal_kind \<Rightarrow> rstr" where
  "principal_kind_as_str Human = lit ''human''"
| "principal_kind_as_str Device = lit ''device''"
| "principal_kind_as_str Agent = lit ''agent''"
| "principal_kind_as_str Org = lit ''org''"

definition principal_kind_parse :: "rstr \<Rightarrow> principal_kind option" where
  "principal_kind_parse s =
     (if s = lit ''human'' then Some Human
      else if s = lit ''device'' then Some Device
      else if s = lit ''agent'' then Some Agent
      else if s = lit ''org'' then Some Org
      else None)"

record principal_card =
  pc_principal_id :: rstr
  pc_kind :: principal_kind
  pc_pubkey :: "rstr option"
  pc_parent_id :: "rstr option"
  pc_display_name :: "rstr option"

text \<open>A \<^verbatim>\<open>principals\<close> row is a card with its clock; \<open>card_of\<close> is \<^verbatim>\<open>From<&Principal>\<close>.\<close>

record principal = principal_card +
  created_at :: int

definition card_of :: "principal \<Rightarrow> principal_card" where
  "card_of p = principal_card.truncate p"

section \<open>The bind payload\<close>

definition BIND_MESSAGE_LABEL :: rstr where
  "BIND_MESSAGE_LABEL = lit ''polis.bind/1''"

definition bind_message :: "rstr \<Rightarrow> rstr \<Rightarrow> byte list" where
  "bind_message chain_id head_hash = utf8 (BIND_MESSAGE_LABEL @ [10] @ chain_id @ [10] @ head_hash)"

record bind_payload =
  bd_human :: principal_card
  bd_device :: principal_card
  bd_chain_id :: rstr
  bd_head_hash :: rstr
  bd_signature :: rstr

definition principal_card_json :: "principal_card \<Rightarrow> rstr" where
  "principal_card_json c =
     [123] @ json_key ''principalId'' @ str_field (pc_principal_id c)
     @ json_key ''kind'' @ str_field (principal_kind_as_str (pc_kind c))
     @ json_key ''pubkey'' @ opt_str_field (pc_pubkey c)
     @ json_key ''parentId'' @ opt_str_field (pc_parent_id c)
     @ json_key ''displayName'' @ json_opt json_str (pc_display_name c) @ [125]"

definition bind_payload_json :: "bind_payload \<Rightarrow> rstr" where
  "bind_payload_json b =
     [123] @ json_key ''human'' @ principal_card_json (bd_human b)
     @ [44] @ json_key ''device'' @ principal_card_json (bd_device b)
     @ [44] @ json_key ''chainId'' @ str_field (bd_chain_id b)
     @ json_key ''headHash'' @ str_field (bd_head_hash b)
     @ json_key ''signature'' @ json_str (bd_signature b) @ [125]"

definition bind_payload_hash :: "sha_fn \<Rightarrow> bind_payload \<Rightarrow> rstr" where
  "bind_payload_hash sha b = sha (utf8 (bind_payload_json b))"

section \<open>Legacy authors\<close>

datatype alias_target = AliasDevice | AliasAgent rstr

definition alias_target :: "rstr \<Rightarrow> rstr \<Rightarrow> alias_target" where
  "alias_target author login =
     (let a = trim author
      in if a = [] \<or> a = lit ''local'' \<or> (login \<noteq> [] \<and> a = login) then AliasDevice
         else if a \<in> set [lit ''classifier'', lit ''keeper'', lit ''router''] then AliasAgent a
         else AliasAgent (lit ''surface:'' @ a))"

definition BUILTIN_AGENTS :: "rstr list" where
  "BUILTIN_AGENTS =
     [lit ''keeper'', lit ''classifier'', lit ''router'', lit ''claude-code'', lit ''codex'']"

section \<open>Properties\<close>

text \<open>Which principal an id names, and the bytes that are hashed for it.\<close>

datatype principal_ref =
    RefHuman "byte list"
  | RefDevice "byte list" rstr
  | RefAgent "byte list" rstr

fun ref_id :: "sha_fn \<Rightarrow> principal_ref \<Rightarrow> rstr" where
  "ref_id sha (RefHuman pk) = principal_id sha pk"
| "ref_id sha (RefDevice pk name) = device_id sha pk name"
| "ref_id sha (RefAgent pk name) = agent_id sha pk name"

fun ref_key :: "principal_ref \<Rightarrow> byte list" where
  "ref_key (RefHuman pk) = pk"
| "ref_key (RefDevice pk name) = pk"
| "ref_key (RefAgent pk name) = pk"

text \<open>
  Identity is derivation: over public keys of one length, as Ed25519's 32 bytes are, the bytes
  hashed for a human, a device and an agent determine which of the three it is, the key and the name.
  So two principals share an id only through a collision of the hash.
\<close>

theorem id_preimages_differ:
  assumes "length (ref_key r) = length (ref_key s)" and "ref_id (\<lambda>b. b) r = ref_id (\<lambda>b. b) s"
  shows "r = s"
proof -
  have labels: "utf8 (lit ''device:'') = [100, 101, 118, 105, 99, 101, 58]"
    "utf8 (lit ''agent:'') = [97, 103, 101, 110, 116, 58]" by code_simp+
  have "length (ref_key r) = length (ref_id (\<lambda>b. b) r) \<longleftrightarrow> (\<exists>pk. r = RefHuman pk)" for r
    by (cases r) (auto simp: principal_id_def device_id_def agent_id_def derived_def)
  then have "(\<exists>pk. r = RefHuman pk) \<longleftrightarrow> (\<exists>pk. s = RefHuman pk)" using assms by metis
  with assms show ?thesis
    by (cases r; cases s) (auto simp: principal_id_def device_id_def agent_id_def derived_def labels)
qed

theorem id_preimages_differ_witness:
  "RefDevice (replicate 32 7) (lit ''keeper'') \<noteq> RefAgent (replicate 32 7) (lit ''keeper'')
   \<and> RefHuman (replicate 32 (7 - 0)) = RefHuman (replicate 32 7)"
proof
  show "RefHuman (replicate 32 (7 - 0)) = RefHuman (replicate 32 7)"
    by (rule id_preimages_differ) simp_all
qed simp

text \<open>
  The alias rule is total and only the trimmed author counts.  It never merges two authors: two
  legacy strings that resolve to the same agent are the same string up to surrounding whitespace, so
  no surface name can be taken for a built-in seat or for another surface.
\<close>

theorem alias_target_separates:
  "alias_target (trim a) login = alias_target a login
   \<and> (alias_target a login = alias_target b login \<longleftrightarrow>
        trim a = trim b \<or> alias_target a login = AliasDevice \<and> alias_target b login = AliasDevice)"
proof -
  have lens: "length (lit ''surface:'') = 8" "length (lit ''classifier'') = 10"
    "length (lit ''keeper'') = 6" "length (lit ''router'') = 6" by (simp_all add: lit_def)
  have "take 8 (lit ''classifier'') \<noteq> lit ''surface:''" by code_simp
  then have "lit ''surface:'' @ x \<notin> set [lit ''classifier'', lit ''keeper'', lit ''router'']" for x
    using lens by (auto dest: arg_cong [of _ _ length] arg_cong [of _ _ "take 8"])
  then have free: "lit ''surface:'' @ x \<in> S \<Longrightarrow> False"
    if "S = set [lit ''classifier'', lit ''keeper'', lit ''router'']" for S x
    using that by blast
  obtain S where S: "S = set [lit ''classifier'', lit ''keeper'', lit ''router'']" by blast
  obtain D where D: "D = (\<lambda>a. a = [] \<or> a = lit ''local'' \<or> (login \<noteq> [] \<and> a = login))" by blast
  obtain F where F: "F = (\<lambda>x. lit ''surface:'' @ x)" by blast
  have F_free: "F x \<notin> S" for x using free [OF S] unfolding F by blast
  have F_inj: "F x = F y \<longleftrightarrow> x = y" for x y unfolding F by (rule same_append_eq)
  have def: "alias_target x login =
      (if D (trim x) then AliasDevice else if trim x \<in> S then AliasAgent (trim x)
       else AliasAgent (F (trim x)))" for x
    unfolding alias_target_def Let_def S D F ..
  have "trim (trim a) = trim a" by (simp add: trim_def)
  then show ?thesis
    using F_free [of "trim a"] F_free [of "trim b"] F_inj unfolding def
    by (cases "trim a \<in> S"; cases "trim b \<in> S"; cases "D (trim a)"; cases "D (trim b)") auto
qed

text \<open>
  The hash a bind event commits to covers the whole payload: two payloads with the same canonical
  JSON are equal, cards, chain, head and signature included.
\<close>

lemma principal_kind_as_str_inject: "principal_kind_as_str a = principal_kind_as_str b \<longleftrightarrow> a = b"
  by (cases a; cases b; simp add: lit_def)

lemma principal_card_prefix_free:
  assumes "principal_card_json c @ xs = principal_card_json d @ ys"
  shows "c = d \<and> xs = ys"
proof -
  from assms have "pc_principal_id c = pc_principal_id d \<and> pc_kind c = pc_kind d
      \<and> pc_pubkey c = pc_pubkey d \<and> pc_parent_id c = pc_parent_id d
      \<and> pc_display_name c = pc_display_name d \<and> xs = ys"
    unfolding principal_card_json_def append_assoc same_append_eq field_injects
      principal_kind_as_str_inject by simp
  then show ?thesis by (simp add: principal_card.equality)
qed

interpretation card: prefix_code principal_card_json
  by unfold_locales (rule principal_card_prefix_free)

theorem bind_payload_json_determines:
  "bind_payload_json a = bind_payload_json b \<longleftrightarrow> a = b"
proof
  assume "bind_payload_json a = bind_payload_json b"
  then show "a = b"
    unfolding bind_payload_json_def append_assoc same_append_eq field_injects card.enc_append_inject
    by (intro bind_payload.equality) simp_all
qed simp

text \<open>The signed bytes, when neither part holds a newline.\<close>

lemma bind_message_inject:
  assumes "10 \<notin> set c" and "10 \<notin> set d" and "bind_message c h = bind_message d k"
  shows "c = d \<and> h = k"
proof -
  have "c @ 10 # h = d @ 10 # k"
    using assms(3) by (simp add: bind_message_def del: utf8_append utf8_Cons)
  then show ?thesis
    using assms(1,2)
  proof (induction c arbitrary: d)
    case Nil
    then show ?case by (cases d) auto
  next
    case (Cons x c)
    then show ?case by (cases d) auto
  qed
qed

lemma principal_kind_parse_as_str: "principal_kind_parse (principal_kind_as_str k) = Some k"
  by (cases k; simp add: principal_kind_parse_def lit_def)

end
