(* ===== verification/Jobs.thy ===== *)
theory Jobs
  imports Prelude
begin

text \<open>
  \<^verbatim>\<open>polis-store/src/jobs.rs\<close>: durable, leased background work.  The table is the list of its rows in
  id order with the autoincrement counter; every operation is one SQL transaction, so a run is a
  sequence of operations.
\<close>

section \<open>State\<close>

datatype job_status = Pending | Running | DoneJob | FailedJob

record background_job =
  jb_id :: int
  jb_kind :: rstr
  jb_job_key :: rstr
  jb_status :: job_status
  jb_attempts :: int
  jb_max_attempts :: int
  jb_available_at :: int
  jb_lease_owner :: "rstr option"
  jb_lease_until :: "int option"
  jb_checkpoint :: "rstr option"
  jb_error :: "rstr option"

record job_table =
  jobs :: "background_job list"
  next_job_id :: int

definition update_jobs :: "(background_job \<Rightarrow> bool) \<Rightarrow> (background_job \<Rightarrow> background_job) \<Rightarrow> job_table \<Rightarrow> job_table" where
  "update_jobs P f t = t\<lparr>jobs := map (\<lambda>j. if P j then f j else j) (jobs t)\<rparr>"

section \<open>Operations\<close>

definition enqueue_job :: "rstr \<Rightarrow> rstr \<Rightarrow> int \<Rightarrow> int \<Rightarrow> job_table \<Rightarrow> int \<times> job_table" where
  "enqueue_job kind key now max_attempts t =
     (case find (\<lambda>j. jb_job_key j = key) (jobs t) of
        Some j \<Rightarrow> (jb_id j, t)
      | None \<Rightarrow>
          (next_job_id t,
           \<lparr>jobs = jobs t @
              [\<lparr>jb_id = next_job_id t, jb_kind = kind, jb_job_key = key, jb_status = Pending,
                jb_attempts = 0, jb_max_attempts = clamp 1 20 max_attempts, jb_available_at = now,
                jb_lease_owner = None, jb_lease_until = None, jb_checkpoint = None, jb_error = None\<rparr>],
            next_job_id = next_job_id t + 1\<rparr>))"

text \<open>The sweep that opens every lease and listing: expired attempts are reclaimed.\<close>

definition lease_expired :: "int \<Rightarrow> background_job \<Rightarrow> bool" where
  "lease_expired now j \<longleftrightarrow>
     jb_status j = Running \<and> (case jb_lease_until j of None \<Rightarrow> False | Some u \<Rightarrow> u \<le> now)"

definition reclaim :: "background_job \<Rightarrow> background_job" where
  "reclaim j =
     j\<lparr>jb_status := (if jb_attempts j \<ge> jb_max_attempts j then FailedJob else Pending),
       jb_lease_owner := None, jb_lease_until := None, jb_error := Some (lit ''lease expired'')\<rparr>"

definition sweep :: "int \<Rightarrow> job_table \<Rightarrow> job_table" where
  "sweep now = update_jobs (lease_expired now) reclaim"

definition leasable :: "rstr \<Rightarrow> int \<Rightarrow> job_table \<Rightarrow> background_job \<Rightarrow> bool" where
  "leasable kind now t j \<longleftrightarrow>
     jb_kind j = kind \<and> jb_status j = Pending \<and> jb_available_at j \<le> now
     \<and> jb_attempts j < jb_max_attempts j
     \<and> \<not> list_ex (\<lambda>r. jb_kind r = kind \<and> jb_status r = Running) (jobs t)"

definition take_lease :: "rstr \<Rightarrow> int \<Rightarrow> int \<Rightarrow> background_job \<Rightarrow> background_job" where
  "take_lease owner now lease_ms j =
     j\<lparr>jb_status := Running, jb_attempts := jb_attempts j + 1, jb_lease_owner := Some owner,
       jb_lease_until := Some (saturating_add now (clamp 1 600000 lease_ms))\<rparr>"

text \<open>\<^verbatim>\<open>ORDER BY available_at, id LIMIT 1\<close>.\<close>

definition next_due :: "rstr \<Rightarrow> int \<Rightarrow> job_table \<Rightarrow> background_job option" where
  "next_due kind now t =
     (case sort_key jb_available_at (filter (leasable kind now t) (sort_key jb_id (jobs t))) of
        [] \<Rightarrow> None | j # _ \<Rightarrow> Some j)"

definition lease_job :: "rstr \<Rightarrow> rstr \<Rightarrow> int \<Rightarrow> int \<Rightarrow> job_table \<Rightarrow> background_job option \<times> job_table" where
  "lease_job kind owner now lease_ms t =
     (let t' = sweep now t
      in case next_due kind now t' of
           None \<Rightarrow> (None, t')
         | Some j \<Rightarrow>
             (Some (take_lease owner now lease_ms j),
              update_jobs (\<lambda>i. jb_id i = jb_id j) (take_lease owner now lease_ms) t'))"

text \<open>The fence of every write a worker makes: id, owner and attempt, running and unexpired.\<close>

definition fenced :: "background_job \<Rightarrow> int \<Rightarrow> background_job \<Rightarrow> bool" where
  "fenced job now j \<longleftrightarrow>
     jb_id j = jb_id job \<and> jb_lease_owner j \<noteq> None \<and> jb_lease_owner j = jb_lease_owner job
     \<and> jb_attempts j = jb_attempts job \<and> jb_status j = Running
     \<and> (case jb_lease_until j of None \<Rightarrow> False | Some u \<Rightarrow> now < u)"

definition checkpoint_job :: "background_job \<Rightarrow> rstr \<Rightarrow> int \<Rightarrow> job_table \<Rightarrow> bool \<times> job_table" where
  "checkpoint_job job checkpoint now t =
     (list_ex (fenced job now) (jobs t),
      update_jobs (fenced job now) (\<lambda>j. j\<lparr>jb_checkpoint := Some checkpoint\<rparr>) t)"

definition finish_job :: "background_job \<Rightarrow> rstr option \<Rightarrow> int \<Rightarrow> job_table \<Rightarrow> bool \<times> job_table" where
  "finish_job job error now t =
     (let status = (if error = None then DoneJob
                    else if jb_attempts job \<ge> jb_max_attempts job then FailedJob else Pending)
      in (list_ex (fenced job now) (jobs t),
          update_jobs (fenced job now)
            (\<lambda>j. j\<lparr>jb_status := status, jb_error := error, jb_lease_owner := None, jb_lease_until := None,
                   jb_available_at := saturating_add now (1000 * jb_attempts job)\<rparr>) t))"

definition retry_job :: "int \<Rightarrow> int \<Rightarrow> job_table \<Rightarrow> bool \<times> job_table" where
  "retry_job i now t =
     (let P = (\<lambda>j. jb_id j = i \<and> jb_status j = FailedJob)
      in (list_ex P (jobs t),
          update_jobs P (\<lambda>j. j\<lparr>jb_status := Pending, jb_attempts := 0, jb_error := None,
                               jb_available_at := now\<rparr>) t))"

definition list_jobs :: "int \<Rightarrow> nat \<Rightarrow> job_table \<Rightarrow> background_job list \<times> job_table" where
  "list_jobs now limit t =
     (let t' = sweep now t in (take (min limit 1000) (rev (sort_key jb_id (jobs t'))), t'))"

section \<open>Runs\<close>

datatype job_op =
    Enqueue rstr rstr int int
  | Lease rstr rstr int int
  | Checkpoint background_job rstr int
  | Finish background_job "rstr option" int
  | Retry int int
  | ListJobs int nat

fun job_step :: "job_op \<Rightarrow> job_table \<Rightarrow> job_table" where
  "job_step (Enqueue kind key now m) t = snd (enqueue_job kind key now m t)"
| "job_step (Lease kind owner now ms) t = snd (lease_job kind owner now ms t)"
| "job_step (Checkpoint job c now) t = snd (checkpoint_job job c now t)"
| "job_step (Finish job err now) t = snd (finish_job job err now t)"
| "job_step (Retry i now) t = snd (retry_job i now t)"
| "job_step (ListJobs now limit) t = snd (list_jobs now limit t)"

definition empty_jobs :: job_table where
  "empty_jobs = \<lparr>jobs = [], next_job_id = 1\<rparr>"

text \<open>
  The table's invariant: ids and keys are unique and below the counter; attempts stay within the
  bound, which is between 1 and 20; a running job has an owner and a lease, any other has neither;
  at most one job of a kind runs.
\<close>

definition job_ok :: "background_job \<Rightarrow> bool" where
  "job_ok j \<longleftrightarrow>
     1 \<le> jb_max_attempts j \<and> jb_max_attempts j \<le> 20 \<and> 0 \<le> jb_attempts j
     \<and> jb_attempts j \<le> jb_max_attempts j
     \<and> (jb_status j = Running \<longleftrightarrow> jb_lease_owner j \<noteq> None)
     \<and> (jb_status j = Running \<longleftrightarrow> jb_lease_until j \<noteq> None)"

definition running_of :: "rstr \<Rightarrow> job_table \<Rightarrow> background_job list" where
  "running_of kind t = filter (\<lambda>j. jb_kind j = kind \<and> jb_status j = Running) (jobs t)"

definition jobs_ok :: "job_table \<Rightarrow> bool" where
  "jobs_ok t \<longleftrightarrow>
     list_all job_ok (jobs t) \<and> distinct (map jb_id (jobs t)) \<and> distinct (map jb_job_key (jobs t))
     \<and> list_all (\<lambda>i. i < next_job_id t) (map jb_id (jobs t))
     \<and> (\<forall>kind. length (running_of kind t) \<le> 1)"

subsection \<open>Updates\<close>

text \<open>What an update must keep of a row for the table's invariant to survive.\<close>

definition gentle :: "(background_job \<Rightarrow> bool) \<Rightarrow> (background_job \<Rightarrow> background_job) \<Rightarrow> bool" where
  "gentle P f \<longleftrightarrow>
     (\<forall>j. P j \<longrightarrow> jb_id (f j) = jb_id j \<and> jb_job_key (f j) = jb_job_key j \<and> jb_kind (f j) = jb_kind j
           \<and> jb_max_attempts (f j) = jb_max_attempts j \<and> (job_ok j \<longrightarrow> job_ok (f j)))"

lemma update_jobs_keep:
  assumes "gentle P f"
  shows "map jb_id (jobs (update_jobs P f t)) = map jb_id (jobs t)"
    and "map jb_job_key (jobs (update_jobs P f t)) = map jb_job_key (jobs t)"
    and "next_job_id (update_jobs P f t) = next_job_id t"
    and "list_all job_ok (jobs t) \<Longrightarrow> list_all job_ok (jobs (update_jobs P f t))"
  using assms by (auto simp: update_jobs_def gentle_def list_all_iff)

lemma length_filter_map_le:
  assumes "\<And>x. x \<in> set xs \<Longrightarrow> Q (f x) \<Longrightarrow> P x"
  shows "length (filter Q (map f xs)) \<le> length (filter P xs)"
  using assms
proof (induction xs)
  case (Cons x xs)
  have "length (filter Q (map f xs)) \<le> length (filter P xs)" using Cons by auto
  with Cons.prems [of x] show ?case by auto
qed simp

lemma jobs_ok_update:
  assumes ok: "jobs_ok t" and g: "gentle P f"
    and idle: "\<And>j. P j \<Longrightarrow> jb_status (f j) = Running \<Longrightarrow> jb_status j = Running"
  shows "jobs_ok (update_jobs P f t)"
proof -
  have "length (running_of k (update_jobs P f t)) \<le> length (running_of k t)" for k
  proof -
    have "length (filter (\<lambda>j. jb_kind j = k \<and> jb_status j = Running)
            (map (\<lambda>j. if P j then f j else j) (jobs t)))
        \<le> length (filter (\<lambda>j. jb_kind j = k \<and> jb_status j = Running) (jobs t))"
      using g idle by (intro length_filter_map_le) (auto simp: gentle_def split: if_splits)
    then show ?thesis by (simp add: running_of_def update_jobs_def)
  qed
  with ok show ?thesis
    unfolding jobs_ok_def update_jobs_keep(1,2,3) [OF g]
    using update_jobs_keep(4) [OF g] order_trans by blast
qed

lemma gentle_reclaim: "gentle (lease_expired now) reclaim"
  by (auto simp: gentle_def reclaim_def job_ok_def)

lemma gentle_retry: "gentle (\<lambda>j. jb_id j = i \<and> jb_status j = FailedJob)
    (\<lambda>j. j\<lparr>jb_status := Pending, jb_attempts := 0, jb_error := None, jb_available_at := now\<rparr>)"
  by (auto simp: gentle_def job_ok_def)

lemma jobs_ok_sweep: "jobs_ok t \<Longrightarrow> jobs_ok (sweep now t)"
  unfolding sweep_def by (rule jobs_ok_update [OF _ gentle_reclaim]) (auto simp: reclaim_def split: if_splits)

lemma next_due_leasable:
  assumes "next_due kind now t = Some j"
  shows "j \<in> set (jobs t) \<and> leasable kind now t j"
proof -
  let ?due = "sort_key jb_available_at (filter (leasable kind now t) (sort_key jb_id (jobs t)))"
  obtain rest where "?due = j # rest" using assms by (auto simp: next_due_def split: list.splits)
  then have "j \<in> set ?due" by (metis list.set_intros(1))
  then show ?thesis by simp
qed

lemma length_filter_eq: "distinct xs \<Longrightarrow> length (filter (\<lambda>x. x = a) xs) \<le> 1"
proof (induction xs)
  case (Cons x xs)
  then show ?case by (cases "x = a") (auto simp: filter_empty_conv)
qed simp

lemma running_of_lease:
  assumes ids: "distinct (map jb_id (jobs t))" and j: "j \<in> set (jobs t)" "leasable kind now t j"
  shows "length (running_of k (update_jobs (\<lambda>i. jb_id i = jb_id j) (take_lease owner now' ms) t))
     \<le> (if k = kind then 1 else length (running_of k t))"
proof -
  let ?f = "\<lambda>i. if jb_id i = jb_id j then take_lease owner now' ms i else i"
  have same: "i = j" if "i \<in> set (jobs t)" "jb_id i = jb_id j" for i
    using ids j(1) that by (metis distinct_map inj_onD)
  have kind: "jb_kind j = kind" and free: "\<forall>r\<in>set (jobs t). \<not> (jb_kind r = kind \<and> jb_status r = Running)"
    using j(2) by (auto simp: leasable_def list_ex_iff)
  show ?thesis
  proof (cases "k = kind")
    case True
    have "length (filter (\<lambda>i. jb_kind i = kind \<and> jb_status i = Running) (map ?f (jobs t)))
        \<le> length (filter (\<lambda>i. jb_id i = jb_id j) (jobs t))"
      using free by (intro length_filter_map_le) (auto split: if_splits)
    also have "\<dots> \<le> length (filter (\<lambda>i. i = j) (jobs t))"
      using same by (intro eq_imp_le arg_cong [of _ _ length] filter_cong) auto
    also have "\<dots> \<le> 1" using ids by (intro length_filter_eq) (simp add: distinct_map)
    finally show ?thesis using True by (simp add: running_of_def update_jobs_def)
  next
    case False
    have "length (filter (\<lambda>i. jb_kind i = k \<and> jb_status i = Running) (map ?f (jobs t)))
        \<le> length (filter (\<lambda>i. jb_kind i = k \<and> jb_status i = Running) (jobs t))"
      using False kind same by (intro length_filter_map_le) (auto simp: take_lease_def split: if_splits)
    with False show ?thesis by (simp add: running_of_def update_jobs_def)
  qed
qed

lemma update_one_job:
  assumes "distinct (map jb_id (jobs t))" and "j \<in> set (jobs t)"
  shows "update_jobs (\<lambda>i. jb_id i = jb_id j) f t = update_jobs (\<lambda>i. i = j) f t"
proof -
  have "map (\<lambda>i. if jb_id i = jb_id j then f i else i) (jobs t)
      = map (\<lambda>i. if i = j then f i else i) (jobs t)"
    using assms by (intro map_cong) (auto dest: eq_key_imp_eq_value simp: distinct_map inj_on_def)
  then show ?thesis by (simp add: update_jobs_def)
qed

lemma gentle_lease:
  "leasable kind now t j \<Longrightarrow> gentle (\<lambda>i. i = j) (take_lease owner now' ms)"
  for kind owner :: rstr
  by (auto simp: gentle_def leasable_def take_lease_def job_ok_def)

lemma jobs_ok_lease:
  assumes ok: "jobs_ok t" and j: "j \<in> set (jobs t)" "leasable kind now t j"
  shows "jobs_ok (update_jobs (\<lambda>i. jb_id i = jb_id j) (take_lease owner now' ms) t)"
proof -
  have ids: "distinct (map jb_id (jobs t))" using ok by (simp add: jobs_ok_def)
  note g = gentle_lease [OF j(2)]
  have one: "length (running_of k (update_jobs (\<lambda>i. jb_id i = jb_id j) (take_lease owner now' ms) t)) \<le> 1" for k
    using running_of_lease [OF ids j, where k = k and owner = owner and now' = now' and ms = ms] ok
    by (cases "k = kind") (auto simp: jobs_ok_def intro: order_trans)
  then show ?thesis
    using ok update_jobs_keep(4) [OF g] one
    unfolding jobs_ok_def update_one_job [OF ids j(1)] update_jobs_keep(1,2,3) [OF g] by blast
qed

lemma gentle_checkpoint: "gentle (fenced job now) (\<lambda>j. j\<lparr>jb_checkpoint := c\<rparr>)"
  by (auto simp: gentle_def job_ok_def)

lemma gentle_finish:
  "st \<noteq> Running \<Longrightarrow>
   gentle (fenced job now)
     (\<lambda>j. j\<lparr>jb_status := st, jb_error := e, jb_lease_owner := None, jb_lease_until := None,
            jb_available_at := a\<rparr>)"
  by (auto simp: gentle_def job_ok_def)

lemma jobs_ok_enqueue: "jobs_ok t \<Longrightarrow> jobs_ok (snd (enqueue_job kind key now m t))"
proof (cases "find (\<lambda>j. jb_job_key j = key) (jobs t)")
  case None
  assume ok: "jobs_ok t"
  have "jb_id j < next_job_id t" if "j \<in> set (jobs t)" for j
    using ok that by (auto simp: jobs_ok_def list_all_iff)
  moreover have "jb_job_key j \<noteq> key" if "j \<in> set (jobs t)" for j
    using None that by (auto simp: find_None_iff)
  moreover have "1 \<le> clamp 1 20 m" "clamp 1 20 m \<le> (20::int)" by (simp_all add: clamp_def)
  ultimately show ?thesis
    using None ok
    by (fastforce simp: enqueue_job_def jobs_ok_def list_all_iff job_ok_def running_of_def less_imp_neq)
qed (simp add: enqueue_job_def)

lemma jobs_ok_step: "jobs_ok t \<Longrightarrow> jobs_ok (job_step op t)"
proof (cases op)
  case (Lease kind owner now ms)
  assume "jobs_ok t"
  then have ok: "jobs_ok (sweep now t)" by (rule jobs_ok_sweep)
  show ?thesis
  proof (cases "next_due kind now (sweep now t)")
    case None
    with ok Lease show ?thesis by (simp add: lease_job_def Let_def)
  next
    case (Some j)
    with ok Lease next_due_leasable [OF Some] show ?thesis
      by (auto simp: lease_job_def Let_def intro: jobs_ok_lease)
  qed
next
  case (Retry i now)
  assume "jobs_ok t"
  then show ?thesis
    unfolding Retry job_step.simps retry_job_def Let_def snd_conv
    by (rule jobs_ok_update [OF _ gentle_retry]) simp
next
  case (Checkpoint job c now)
  assume "jobs_ok t"
  then show ?thesis
    unfolding Checkpoint job_step.simps checkpoint_job_def snd_conv
    by (rule jobs_ok_update [OF _ gentle_checkpoint]) simp
next
  case (Finish job err now)
  assume "jobs_ok t"
  then show ?thesis
    unfolding Finish job_step.simps finish_job_def Let_def snd_conv
    by (rule jobs_ok_update [OF _ gentle_finish]) (simp_all split: if_splits)
qed (simp_all add: jobs_ok_enqueue list_jobs_def Let_def jobs_ok_sweep)

lemma jobs_ok_run: "jobs_ok t \<Longrightarrow> jobs_ok (fold job_step ops t)"
  by (induction ops arbitrary: t) (simp_all add: jobs_ok_step)

lemma jobs_ok_empty [simp]: "jobs_ok empty_jobs"
  by (simp add: jobs_ok_def empty_jobs_def running_of_def)

subsection \<open>One job through a run\<close>

definition job_at :: "int \<Rightarrow> job_table \<Rightarrow> background_job option" where
  "job_at i t = find (\<lambda>j. jb_id j = i) (jobs t)"

definition attempts_of :: "int \<Rightarrow> job_table \<Rightarrow> int" where
  "attempts_of i t = (case job_at i t of None \<Rightarrow> 0 | Some j \<Rightarrow> jb_attempts j)"

lemma job_at_update:
  assumes "\<And>j. P j \<Longrightarrow> jb_id (f j) = jb_id j"
  shows "job_at i (update_jobs P f t) = map_option (\<lambda>j. if P j then f j else j) (job_at i t)"
proof -
  have "find (\<lambda>j. jb_id j = i) (map (\<lambda>j. if P j then f j else j) js)
      = map_option (\<lambda>j. if P j then f j else j) (find (\<lambda>j. jb_id j = i) js)" for js
    using assms by (induction js) auto
  then show ?thesis by (simp add: job_at_def update_jobs_def)
qed

lemma job_at_mem:
  "distinct (map jb_id (jobs t)) \<Longrightarrow> j \<in> set (jobs t) \<Longrightarrow> job_at (jb_id j) t = Some j"
proof -
  assume d: "distinct (map jb_id (jobs t))" and j: "j \<in> set (jobs t)"
  have "distinct (map jb_id js) \<Longrightarrow> j \<in> set js \<Longrightarrow> find (\<lambda>k. jb_id k = jb_id j) js = Some j" for js
    by (induction js) auto
  with d j show ?thesis by (simp add: job_at_def)
qed

lemma job_at_Some: "job_at i t = Some j \<Longrightarrow> j \<in> set (jobs t) \<and> jb_id j = i"
  unfolding job_at_def by (induction "jobs t") (auto simp: find_Some_iff)

lemma job_at_sweep: "job_at i (sweep now t) = map_option (\<lambda>j. if lease_expired now j then reclaim j else j) (job_at i t)"
  unfolding sweep_def by (rule job_at_update) (simp add: reclaim_def)

lemma job_at_lease:
  assumes "jobs_ok t" and "lease_job kind owner now ms t = (res, t')"
  shows "attempts_of i t' = attempts_of i t + (case res of None \<Rightarrow> 0 | Some j \<Rightarrow> if jb_id j = i then 1 else 0)"
    and "\<And>j. res = Some j \<Longrightarrow> job_at (jb_id j) t' = Some j"
proof -
  let ?s = "sweep now t"
  have ids: "distinct (map jb_id (jobs ?s))" using jobs_ok_sweep [OF assms(1)] by (simp add: jobs_ok_def)
  have sw: "attempts_of i ?s = attempts_of i t" for i
    by (simp add: attempts_of_def job_at_sweep reclaim_def split: option.splits)
  have "attempts_of i t' = attempts_of i t + (case res of None \<Rightarrow> 0 | Some j \<Rightarrow> if jb_id j = i then 1 else 0)
      \<and> (\<forall>j. res = Some j \<longrightarrow> job_at (jb_id j) t' = Some j)"
  proof (cases "next_due kind now ?s")
    case None
    with assms(2) sw show ?thesis by (auto simp: lease_job_def Let_def)
  next
    case (Some j)
    let ?f = "take_lease owner now ms" and ?P = "\<lambda>i. jb_id i = jb_id j"
    have t': "t' = update_jobs ?P ?f ?s" and res: "res = Some (?f j)"
      using assms(2) Some by (auto simp: lease_job_def Let_def)
    have at: "job_at (jb_id j) ?s = Some j" using job_at_mem [OF ids] next_due_leasable [OF Some] by blast
    have upd: "job_at k t' = map_option (\<lambda>i. if ?P i then ?f i else i) (job_at k ?s)" for k
      unfolding t' by (rule job_at_update) (simp add: take_lease_def)
    have id: "jb_id (?f j) = jb_id j" by (simp add: take_lease_def)
    have "attempts_of i t' = attempts_of i ?s + (if jb_id j = i then 1 else 0)"
    proof (cases "jb_id j = i")
      case True
      then show ?thesis using at upd [of i] by (auto simp: attempts_of_def take_lease_def)
    next
      case False
      then show ?thesis using upd [of i] job_at_Some [of i ?s]
        by (auto simp: attempts_of_def split: option.splits)
    qed
    with res id at upd [of "jb_id j"] sw show ?thesis by simp
  qed
  then show "attempts_of i t' = attempts_of i t + (case res of None \<Rightarrow> 0 | Some j \<Rightarrow> if jb_id j = i then 1 else 0)"
    and "\<And>j. res = Some j \<Longrightarrow> job_at (jb_id j) t' = Some j" by blast+
qed

text \<open>How often a run leases the job of an id.\<close>

fun leases_of :: "int \<Rightarrow> job_op list \<Rightarrow> job_table \<Rightarrow> nat" where
  "leases_of i [] t = 0"
| "leases_of i (op # ops) t =
     (case op of
        Lease kind owner now ms \<Rightarrow>
          (case fst (lease_job kind owner now ms t) of
             None \<Rightarrow> 0 | Some j \<Rightarrow> if jb_id j = i then 1 else 0)
      | _ \<Rightarrow> 0)
     + leases_of i ops (job_step op t)"

definition no_retry :: "int \<Rightarrow> job_op list \<Rightarrow> bool" where
  "no_retry i ops \<longleftrightarrow> list_all (\<lambda>op. case op of Retry k now \<Rightarrow> k \<noteq> i | _ \<Rightarrow> True) ops"

lemma find_snoc: "find P (xs @ [x]) = (case find P xs of None \<Rightarrow> if P x then Some x else None | Some y \<Rightarrow> Some y)"
  by (induction xs) auto

lemma attempts_step:
  assumes "jobs_ok t" and "case op of Retry k now \<Rightarrow> k \<noteq> i | _ \<Rightarrow> True"
  shows "attempts_of i (job_step op t) = attempts_of i t + int (leases_of i [op] t)"
proof (cases op)
  case (Enqueue kind key now m)
  then show ?thesis
    by (auto simp: enqueue_job_def attempts_of_def job_at_def find_snoc split: option.splits)
next
  case (Lease kind owner now ms)
  obtain res t' where l: "lease_job kind owner now ms t = (res, t')" by fastforce
  with Lease job_at_lease(1) [OF assms(1) l, of i] show ?thesis by (simp split: option.splits)
next
  case (Checkpoint job c now)
  then show ?thesis
    using job_at_update [of "fenced job now" "\<lambda>j. j\<lparr>jb_checkpoint := Some c\<rparr>" i t]
    by (simp add: checkpoint_job_def attempts_of_def split: option.splits)
next
  case (Finish job err now)
  show ?thesis
    unfolding Finish job_step.simps finish_job_def Let_def snd_conv attempts_of_def leases_of.simps
    by (subst job_at_update) (auto split: option.splits)
next
  case (Retry k now)
  have "job_at i t = Some j \<Longrightarrow> jb_id j \<noteq> k" for j using assms(2) Retry job_at_Some by fastforce
  then show ?thesis
    unfolding Retry job_step.simps retry_job_def Let_def snd_conv attempts_of_def leases_of.simps
    by (subst job_at_update) (auto split: option.splits)
next
  case (ListJobs now limit)
  then show ?thesis
    by (simp add: list_jobs_def Let_def attempts_of_def job_at_sweep reclaim_def split: option.splits)
qed

lemma attempts_run:
  "jobs_ok t \<Longrightarrow> no_retry i ops \<Longrightarrow>
   attempts_of i (fold job_step ops t) = attempts_of i t + int (leases_of i ops t)"
proof (induction ops arbitrary: t)
  case (Cons op ops)
  then have "attempts_of i (job_step op t) = attempts_of i t + int (leases_of i [op] t)"
    by (intro attempts_step) (simp_all add: no_retry_def)
  with Cons jobs_ok_step [OF Cons.prems(1), of op] show ?case by (simp add: no_retry_def)
qed simp

section \<open>Properties\<close>

text \<open>
  C20. Whatever is enqueued, leased, checkpointed, finished, retried or listed, in any order and with
  any clock readings and any handles, the job table stays well-formed; in particular at most one job
  of each kind runs at any time, and a job runs exactly while it has an owner and a lease.
\<close>

theorem job_table_invariant:
  "let t = fold job_step ops empty_jobs
   in jobs_ok t \<and> (\<forall>kind. length (filter (\<lambda>j. jb_kind j = kind \<and> jb_status j = Running) (jobs t)) \<le> 1)"
  using jobs_ok_run [OF jobs_ok_empty, of ops] by (simp add: Let_def jobs_ok_def running_of_def)

text \<open>
  C21. Retries are bounded: in a run that never explicitly retries a job, the job is leased at most as
  often as its attempt bound allows, and never more than twenty times, crashes and expiries included.
\<close>

theorem leases_are_bounded:
  assumes "no_retry i ops"
  shows "case job_at i (fold job_step ops empty_jobs) of
           None \<Rightarrow> leases_of i ops empty_jobs = 0
         | Some j \<Rightarrow> int (leases_of i ops empty_jobs) = jb_attempts j
                    \<and> jb_attempts j \<le> jb_max_attempts j \<and> jb_max_attempts j \<le> 20"
proof -
  let ?t = "fold job_step ops empty_jobs"
  have att: "attempts_of i ?t = int (leases_of i ops empty_jobs)"
    using attempts_run [OF jobs_ok_empty assms]
    by (simp add: attempts_of_def job_at_def empty_jobs_def)
  show ?thesis
  proof (cases "job_at i ?t")
    case (Some j)
    then have "job_ok j"
      using jobs_ok_run [OF jobs_ok_empty, of ops] job_at_Some [OF Some]
      by (simp add: jobs_ok_def list_all_iff)
    with att Some show ?thesis by (simp add: attempts_of_def job_ok_def)
  qed (use att in \<open>simp add: attempts_of_def\<close>)
qed

text \<open>A job that fails twice: leased, expired, leased again under another owner, finished.\<close>

definition sample_ops :: "job_op list" where
  "sample_ops = [Enqueue (lit ''k'') (lit ''a'') 0 3, Lease (lit ''k'') (lit ''w1'') 1 10,
     Lease (lit ''k'') (lit ''w2'') 20 10]"

theorem leases_are_bounded_witness:
  "leases_of 1 sample_ops empty_jobs = 2 \<and>
   (case job_at 1 (fold job_step sample_ops empty_jobs) of
      None \<Rightarrow> False | Some j \<Rightarrow> jb_attempts j = 2)"
proof -
  have "no_retry 1 sample_ops" by code_simp
  moreover have "leases_of 1 sample_ops empty_jobs = 2" by code_simp
  ultimately show ?thesis
    using leases_are_bounded [of 1 sample_ops] by (simp split: option.splits)
qed

text \<open>
  C22. Stale workers are fenced: once a later lease of the same job exists, the earlier lease's handle
  can neither checkpoint nor finish the job, whatever happened in between and afterwards, provided that
  nobody retried the job explicitly; the refused write changes nothing.  A retry sets the attempts back to
  none, so after it a later lease of the same owner can have the old handle's number again
  (\<open>retry_revives_a_stale_handle\<close>).
\<close>

theorem stale_worker_is_fenced:
  assumes "jobs_ok t0" and "lease_job kind owner now ms t0 = (Some job, t1)"
    and "no_retry (jb_id job) (ops @ ops')"
    and "lease_job kind' owner' now' ms' (fold job_step ops t1) = (Some job', t2)"
    and "jb_id job' = jb_id job"
  shows "finish_job job err later (fold job_step ops' t2) = (False, fold job_step ops' t2)
       \<and> checkpoint_job job c later (fold job_step ops' t2) = (False, fold job_step ops' t2)"
proof -
  let ?i = "jb_id job" and ?t = "fold job_step ops' t2"
  have ok1: "jobs_ok t1" using jobs_ok_step [OF assms(1), of "Lease kind owner now ms"] assms(2) by simp
  then have okm: "jobs_ok (fold job_step ops t1)" by (rule jobs_ok_run)
  have ok2: "jobs_ok t2" using jobs_ok_step [OF okm, of "Lease kind' owner' now' ms'"] assms(4) by simp
  have nr: "no_retry ?i ops" "no_retry ?i ops'" using assms(3) by (simp_all add: no_retry_def)
  have "attempts_of ?i t1 = jb_attempts job"
    using job_at_lease(2) [OF assms(1,2)] by (simp add: attempts_of_def)
  moreover have "attempts_of ?i t2 = attempts_of ?i (fold job_step ops t1) + 1"
    using job_at_lease(1) [OF okm assms(4), of ?i] assms(5) by simp
  ultimately have more: "jb_attempts job < attempts_of ?i ?t"
    using attempts_run [OF ok1 nr(1)] attempts_run [OF ok2 nr(2)] by simp
  have ids: "distinct (map jb_id (jobs ?t))" using jobs_ok_run [OF ok2, of ops'] by (simp add: jobs_ok_def)
  have no: "\<not> fenced job later j" if "j \<in> set (jobs ?t)" for j
    using more job_at_mem [OF ids that] by (auto simp: fenced_def attempts_of_def)
  then have "\<not> list_ex (fenced job later) (jobs ?t)" by (auto simp: list_ex_iff)
  moreover have "update_jobs (fenced job later) f ?t = ?t" for f
    using no by (simp add: update_jobs_def map_idI)
  ultimately show ?thesis by (simp add: finish_job_def checkpoint_job_def Let_def)
qed

definition leased_once :: "background_job option \<times> job_table" where
  "leased_once = lease_job (lit ''k'') (lit ''w1'') 1 10
     (snd (enqueue_job (lit ''k'') (lit ''a'') 0 3 empty_jobs))"

definition leased_twice :: "background_job option \<times> job_table" where
  "leased_twice = lease_job (lit ''k'') (lit ''w2'') 20 10 (snd leased_once)"

theorem stale_worker_is_fenced_witness:
  "\<not> fst (finish_job (the (fst leased_once)) None 21 (snd leased_twice))"
proof -
  have ok: "jobs_ok (snd (enqueue_job (lit ''k'') (lit ''a'') 0 3 empty_jobs))"
    by (rule jobs_ok_enqueue [OF jobs_ok_empty])
  have ids: "map_option jb_id (fst leased_once) = Some 1 \<and> map_option jb_id (fst leased_twice) = Some 1"
    by code_simp
  then obtain j j' where j: "fst leased_once = Some j" "fst leased_twice = Some j'"
    "jb_id j' = jb_id j" by auto
  then have l: "lease_job (lit ''k'') (lit ''w1'') 1 10
      (snd (enqueue_job (lit ''k'') (lit ''a'') 0 3 empty_jobs)) = (Some j, snd leased_once)"
    by (metis leased_once_def prod.collapse)
  have l': "lease_job (lit ''k'') (lit ''w2'') 20 10 (fold job_step [] (snd leased_once)) = (Some j', snd leased_twice)"
    using j(2) by (metis fold_simps(1) leased_twice_def prod.collapse)
  have "no_retry (jb_id j) ([] @ [])" by (simp add: no_retry_def)
  from stale_worker_is_fenced [OF ok l this l' j(3), of None 21] j(1) show ?thesis by simp
qed

text \<open>
  A job of one attempt: its lease runs out, it is retried and leased by the same owner once more, and the
  handle of the first lease finishes the job of the second.
\<close>

definition tried_once :: "background_job option \<times> job_table" where
  "tried_once = lease_job (lit ''k'') (lit ''w1'') 1 10
     (snd (enqueue_job (lit ''k'') (lit ''a'') 0 1 empty_jobs))"

definition tried_again :: "background_job option \<times> job_table" where
  "tried_again = lease_job (lit ''k'') (lit ''w1'') 40 10
     (snd (retry_job 1 30 (snd (lease_job (lit ''k'') (lit ''w2'') 20 10 (snd tried_once)))))"

lemma retry_revives_a_stale_handle:
  "fst tried_again \<noteq> None \<and> fst (finish_job (the (fst tried_once)) None 41 (snd tried_again))"
  by code_simp

text \<open>
  Work is done once: enqueueing a key that exists returns its id and changes nothing, and a
  finished job's row is never touched again by any operation.
\<close>

lemma update_jobs_other: "j \<in> set (jobs t) \<Longrightarrow> \<not> P j \<Longrightarrow> j \<in> set (jobs (update_jobs P f t))"
  by (force simp: update_jobs_def)

lemma done_step:
  assumes ok: "jobs_ok t" and j: "j \<in> set (jobs t)" "jb_status j = DoneJob"
  shows "j \<in> set (jobs (job_step op t))"
proof -
  have sw: "j \<in> set (jobs (sweep now t))" for now
    unfolding sweep_def using j by (intro update_jobs_other) (simp_all add: lease_expired_def)
  show ?thesis
  proof (cases op)
    case (Lease kind owner now ms)
    have ids: "distinct (map jb_id (jobs (sweep now t)))"
      using jobs_ok_sweep [OF ok] by (simp add: jobs_ok_def)
    show ?thesis
    proof (cases "next_due kind now (sweep now t)")
      case (Some k)
      have k: "k \<in> set (jobs (sweep now t))" "jb_status k = Pending"
        using next_due_leasable [OF Some] by (auto simp: leasable_def)
      then have "jb_id j \<noteq> jb_id k"
        using ids sw j(2) by (metis distinct_map inj_onD job_status.distinct(3))
      then show ?thesis
        using Lease Some sw by (auto simp: lease_job_def Let_def intro: update_jobs_other)
    qed (use Lease sw in \<open>simp add: lease_job_def Let_def\<close>)
  qed (use j sw in \<open>auto simp: enqueue_job_def checkpoint_job_def finish_job_def retry_job_def
      list_jobs_def fenced_def Let_def intro!: update_jobs_other split: option.splits\<close>)
qed

theorem finished_work_is_final:
  assumes "jobs_ok t" and "j \<in> set (jobs t)"
  shows "enqueue_job kind (jb_job_key j) now m t = (jb_id j, t)
       \<and> (jb_status j = DoneJob \<longrightarrow> j \<in> set (jobs (fold job_step ops t)))"
proof
  have "distinct (map jb_job_key js) \<Longrightarrow> j \<in> set js \<Longrightarrow> find (\<lambda>k. jb_job_key k = jb_job_key j) js = Some j" for js
    by (induction js) auto
  then show "enqueue_job kind (jb_job_key j) now m t = (jb_id j, t)"
    using assms by (simp add: enqueue_job_def jobs_ok_def)
  show "jb_status j = DoneJob \<longrightarrow> j \<in> set (jobs (fold job_step ops t))"
    using assms by (induction ops arbitrary: t) (simp_all add: jobs_ok_step done_step)
qed

definition finished_once :: job_table where
  "finished_once = snd (finish_job (the (fst leased_once)) None 5 (snd leased_once))"

theorem finished_work_is_final_witness:
  "list_all (\<lambda>j. jb_status j = DoneJob) (jobs finished_once) \<and> jobs finished_once \<noteq> []
   \<and> fst (enqueue_job (lit ''k'') (jb_job_key (hd (jobs finished_once))) 9 1 finished_once)
       = jb_id (hd (jobs finished_once))"
proof -
  have st: "list_all (\<lambda>j. jb_status j = DoneJob) (jobs finished_once) \<and> jobs finished_once \<noteq> []"
    by code_simp
  have "jobs_ok (snd leased_once)"
    using jobs_ok_step [OF jobs_ok_enqueue [OF jobs_ok_empty], of "Lease (lit ''k'') (lit ''w1'') 1 10"]
    by (simp add: leased_once_def)
  then have "jobs_ok finished_once"
    using jobs_ok_step [of "snd leased_once" "Finish (the (fst leased_once)) None 5"]
    by (simp add: finished_once_def)
  moreover have "hd (jobs finished_once) \<in> set (jobs finished_once)" using st by simp
  ultimately show ?thesis using finished_work_is_final st by simp
qed

end
