(* ===== verification/Dedup.thy ===== *)
theory Dedup
  imports Prelude "HOL-Library.Multiset"
begin

unbundle bit_operations_syntax

text \<open>
  \<^verbatim>\<open>polis-core/src/dedup.rs\<close>: near-duplicate suppression by 64-bit SimHash, match-centred excerpts and
  the per-hit budget of the answer pack.
\<close>

section \<open>SimHash\<close>

type_synonym u64 = "64 word"

definition SHINGLE :: nat where
  "SHINGLE = 3"

definition NEAR_DUP_HAMMING :: nat where
  "NEAR_DUP_HAMMING = 3"

text \<open>FNV-1a over the lowercased tokens of a shingle, joined by single spaces.\<close>

definition byte_lower :: "byte \<Rightarrow> byte" where
  "byte_lower b = (if 65 \<le> b \<and> b \<le> 90 then b + 32 else b)"

definition fnv_byte :: "byte \<Rightarrow> u64 \<Rightarrow> u64" where
  "fnv_byte b h = (h XOR of_nat b) * 0x00000100000001b3"

definition fnv1a :: "rstr list \<Rightarrow> u64" where
  "fnv1a tokens =
     fold fnv_byte (join [32] (map (\<lambda>t. map byte_lower (utf8 t)) tokens)) 0xcbf29ce484222325"

text \<open>Each shingle votes on every bit; \<^verbatim>\<open>i32\<close> counters, which a text of this size cannot overflow.\<close>

definition vote :: "u64 \<Rightarrow> int list \<Rightarrow> int list" where
  "vote h votes = map2 (\<lambda>b v. if bit h b then v + 1 else v - 1) [0..<64] votes"

definition shingles :: "rstr list \<Rightarrow> rstr list list" where
  "shingles tokens =
     (let n = (if length tokens < SHINGLE then 1 else length tokens - SHINGLE + 1)
      in map (\<lambda>i. take (min (i + SHINGLE) (length tokens) - i) (drop i tokens)) [0..<n])"

definition simhash :: "rstr \<Rightarrow> u64" where
  "simhash text =
     (let tokens = split_whitespace text
      in if tokens = [] then 0
         else
           let votes = fold (\<lambda>s. vote (fnv1a s)) (shingles tokens) (replicate 64 0)
           in fold (\<lambda>(b, v) out. if v > 0 then out OR push_bit b 1 else out)
                (zip [0..<64] votes) 0)"

definition count_ones :: "u64 \<Rightarrow> nat" where
  "count_ones w = length (filter (bit w) [0..<64])"

definition near_duplicate :: "u64 \<Rightarrow> u64 \<Rightarrow> bool" where
  "near_duplicate a b \<longleftrightarrow> count_ones (a XOR b) \<le> NEAR_DUP_HAMMING"

section \<open>Deduplication\<close>

datatype verdict = Keep "int list" | Duplicate int

record candidate =
  ca_key :: int
  ca_exact_hash :: "rstr option"
  ca_text :: rstr

text \<open>The verdicts so far, the kept indices with their fingerprints, the kept indices with a hash.\<close>

type_synonym dedup_state = "verdict list \<times> (nat \<times> u64) list \<times> (nat \<times> rstr) list"

definition usable_hash :: "candidate \<Rightarrow> rstr option" where
  "usable_hash c = (case ca_exact_hash c of None \<Rightarrow> None | Some h \<Rightarrow> if h = [] then None else Some h)"

definition dupe_of :: "(nat \<times> u64) list \<Rightarrow> (nat \<times> rstr) list \<Rightarrow> candidate \<Rightarrow> nat option" where
  "dupe_of kept kept_hashes c =
     (let exact = (case usable_hash c of
                     None \<Rightarrow> None
                   | Some h \<Rightarrow> map_option fst (find (\<lambda>(_, kh). kh = h) kept_hashes))
      in case exact of
           Some j \<Rightarrow> Some j
         | None \<Rightarrow>
             if trim (ca_text c) \<noteq> []
             then map_option fst (find (\<lambda>(_, kfp). near_duplicate kfp (simhash (ca_text c))) kept)
             else None)"

definition absorb :: "int \<Rightarrow> verdict \<Rightarrow> verdict" where
  "absorb key v = (case v of Keep absorbed \<Rightarrow> Keep (absorbed @ [key]) | Duplicate k \<Rightarrow> Duplicate k)"

definition dedup_step :: "candidate list \<Rightarrow> nat \<Rightarrow> dedup_state \<Rightarrow> dedup_state" where
  "dedup_step cs i st =
     (case st of (verdicts, kept, kept_hashes) \<Rightarrow>
        let c = cs ! i
        in case dupe_of kept kept_hashes c of
             Some j \<Rightarrow>
               (let vs = verdicts @ [Duplicate (ca_key (cs ! j))]
                in vs[j := absorb (ca_key c) (vs ! j)], kept, kept_hashes)
           | None \<Rightarrow>
               (verdicts @ [Keep []], kept @ [(i, simhash (ca_text c))],
                case usable_hash c of None \<Rightarrow> kept_hashes | Some h \<Rightarrow> kept_hashes @ [(i, h)]))"

definition dedup :: "candidate list \<Rightarrow> verdict list" where
  "dedup cs = fst (fold (dedup_step cs) [0..<length cs] ([], [], []))"

section \<open>Excerpts and budgets\<close>

text \<open>
  The standard library's lowercasing is the parameter \<open>to_lower\<close>; offsets in the lowered text are
  counted in characters.  The ellipsis is one character.
\<close>

definition ellipsis :: uchar where
  "ellipsis = 8230"

definition earliest :: "nat list \<Rightarrow> nat option" where
  "earliest ns = (if ns = [] then None else Some (Min (set ns)))"

definition first_hit :: "(rstr \<Rightarrow> rstr) \<Rightarrow> rstr \<Rightarrow> rstr list \<Rightarrow> nat option" where
  "first_hit to_lower text terms =
     earliest (List.map_filter (\<lambda>t. find_sub (to_lower text) (to_lower t))
                (filter (\<lambda>t. t \<noteq> []) terms))"

definition excerpt_around :: "(rstr \<Rightarrow> rstr) \<Rightarrow> rstr \<Rightarrow> rstr list \<Rightarrow> nat \<Rightarrow> rstr" where
  "excerpt_around to_lower text terms budget =
     (if length text \<le> budget then text
      else
        case first_hit to_lower text terms of
          None \<Rightarrow> take budget text @ [ellipsis]
        | Some hit \<Rightarrow>
            let start = min (hit - budget div 2) (length text - budget);
                stop = min (start + budget) (length text)
            in (if start > 0 then [ellipsis] else [])
               @ take (stop - start) (drop start text)
               @ (if stop < length text then [ellipsis] else []))"

definition per_hit_budget :: "nat \<Rightarrow> nat \<Rightarrow> nat" where
  "per_hit_budget max_context_bytes n_hits =
     clamp 600 4000 (max_context_bytes div 2 div max n_hits 1)"

section \<open>What deduplication promises\<close>

definition is_keep :: "verdict \<Rightarrow> bool" where
  "is_keep v \<longleftrightarrow> (case v of Keep _ \<Rightarrow> True | Duplicate _ \<Rightarrow> False)"

fun absorbed_of :: "verdict \<Rightarrow> int list" where
  "absorbed_of (Keep ks) = ks"
| "absorbed_of (Duplicate k) = []"

text \<open>A later candidate repeats an earlier one: the same usable hash, or, when it has text, a near one.\<close>

definition repeats :: "candidate \<Rightarrow> candidate \<Rightarrow> bool" where
  "repeats a c \<longleftrightarrow>
     (usable_hash c \<noteq> None \<and> usable_hash a = usable_hash c)
     \<or> (trim (ca_text c) \<noteq> [] \<and> near_duplicate (simhash (ca_text a)) (simhash (ca_text c)))"

definition dedup_inv :: "candidate list \<Rightarrow> nat \<Rightarrow> dedup_state \<Rightarrow> bool" where
  "dedup_inv cs n st \<longleftrightarrow>
     (case st of (vs, kept, hashes) \<Rightarrow>
        length vs = n
        \<and> set kept = {(i, simhash (ca_text (cs ! i))) | i. i < n \<and> is_keep (vs ! i)}
        \<and> set hashes = {(i, h) | i h. i < n \<and> is_keep (vs ! i) \<and> usable_hash (cs ! i) = Some h}
        \<and> (\<forall>i<n. if is_keep (vs ! i) then \<forall>j<i. is_keep (vs ! j) \<longrightarrow> \<not> repeats (cs ! j) (cs ! i)
                 else \<exists>j<i. is_keep (vs ! j) \<and> vs ! i = Duplicate (ca_key (cs ! j))
                            \<and> repeats (cs ! j) (cs ! i))
        \<and> (\<Sum>v\<leftarrow>vs. mset (absorbed_of v))
            = mset (map (\<lambda>i. ca_key (cs ! i)) (filter (\<lambda>i. \<not> is_keep (vs ! i)) [0..<n])))"

lemma dupe_of_sound:
  assumes "dupe_of kept hashes c = Some j"
  shows "(\<exists>fp. (j, fp) \<in> set kept \<and> trim (ca_text c) \<noteq> [] \<and> near_duplicate fp (simhash (ca_text c)))
    \<or> (\<exists>h. (j, h) \<in> set hashes \<and> usable_hash c = Some h)"
proof (cases "map_option fst (Option.bind (usable_hash c) (\<lambda>h. find (\<lambda>(_, kh). kh = h) hashes))")
  case None
  then have "trim (ca_text c) \<noteq> []"
    and "map_option fst (find (\<lambda>(_, kfp). near_duplicate kfp (simhash (ca_text c))) kept) = Some j"
    using assms by (auto simp: dupe_of_def Let_def split: option.splits if_splits)
  then show ?thesis by (auto simp: find_Some_iff) (metis nth_mem)
next
  case (Some i)
  then obtain h k where h: "usable_hash c = Some h" "find (\<lambda>(_, kh). kh = h) hashes = Some (i, k)"
    by (auto split: bind_splits)
  then have "i = j" using assms by (simp add: dupe_of_def)
  moreover have "(i, k) \<in> set hashes \<and> k = h" using h(2) by (auto simp: find_Some_iff) (metis nth_mem)
  ultimately show ?thesis using h(1) by auto
qed

lemma dupe_of_None:
  assumes "dupe_of kept hashes c = None"
  shows "(\<forall>h. usable_hash c = Some h \<longrightarrow> h \<notin> snd ` set hashes)
    \<and> (trim (ca_text c) \<noteq> [] \<longrightarrow> (\<forall>(j, fp)\<in>set kept. \<not> near_duplicate fp (simhash (ca_text c))))"
proof -
  have "find (\<lambda>(_, kh). kh = h) hashes = None" if "usable_hash c = Some h" for h
    using assms that by (auto simp: dupe_of_def Let_def split: option.splits)
  moreover have "find (\<lambda>(_, kfp). near_duplicate kfp (simhash (ca_text c))) kept = None"
    if "trim (ca_text c) \<noteq> []"
    using assms that by (auto simp: dupe_of_def Let_def split: option.splits)
  ultimately show ?thesis by (fastforce simp: find_None_iff)
qed

lemma sum_list_update_add:
  fixes f :: "'a \<Rightarrow> 'b::comm_monoid_add"
  assumes "j < length xs"
  shows "(\<Sum>x\<leftarrow>xs[j := y]. f x) + f (xs ! j) = (\<Sum>x\<leftarrow>xs. f x) + f y"
proof -
  have "(\<Sum>x\<leftarrow>xs. f x) = (\<Sum>x\<leftarrow>take j xs. f x) + (f (xs ! j) + (\<Sum>x\<leftarrow>drop (Suc j) xs. f x))"
    by (subst id_take_nth_drop [OF assms]) simp
  moreover have "(\<Sum>x\<leftarrow>xs[j := y]. f x) = (\<Sum>x\<leftarrow>take j xs. f x) + (f y + (\<Sum>x\<leftarrow>drop (Suc j) xs. f x))"
    by (subst upd_conv_take_nth_drop [OF assms]) simp
  ultimately show ?thesis by (simp add: ac_simps)
qed

lemma dedup_invI:
  assumes "set kept = {(i, simhash (ca_text (cs ! i))) | i. i < n \<and> is_keep (vs ! i)}"
    and "set hashes = {(i, h) | i h. i < n \<and> is_keep (vs ! i) \<and> usable_hash (cs ! i) = Some h}"
    and "\<And>i. i < n \<Longrightarrow>
        (if is_keep (vs ! i) then \<forall>j<i. is_keep (vs ! j) \<longrightarrow> \<not> repeats (cs ! j) (cs ! i)
         else \<exists>j<i. is_keep (vs ! j) \<and> vs ! i = Duplicate (ca_key (cs ! j)) \<and> repeats (cs ! j) (cs ! i))"
    and "filter (\<lambda>i. \<not> is_keep (vs ! i)) [0..<n] = ds"
    and "length vs = n" and "(\<Sum>v\<leftarrow>vs. mset (absorbed_of v)) = mset (map (\<lambda>i. ca_key (cs ! i)) ds)"
  shows "dedup_inv cs n (vs, kept, hashes)"
  using assms unfolding dedup_inv_def prod.case by blast

lemma dedup_inv_step:
  assumes inv: "dedup_inv cs n st"
  shows "dedup_inv cs (Suc n) (dedup_step cs n st)"
proof -
  obtain vs kept hashes where st: "st = (vs, kept, hashes)" by (cases st)
  have len: "length vs = n"
    and kept: "set kept = {(i, simhash (ca_text (cs ! i))) | i. i < n \<and> is_keep (vs ! i)}"
    and hashes: "set hashes = {(i, h) | i h. i < n \<and> is_keep (vs ! i) \<and> usable_hash (cs ! i) = Some h}"
    and each: "\<And>i. i < n \<Longrightarrow>
        (if is_keep (vs ! i) then \<forall>j<i. is_keep (vs ! j) \<longrightarrow> \<not> repeats (cs ! j) (cs ! i)
         else \<exists>j<i. is_keep (vs ! j) \<and> vs ! i = Duplicate (ca_key (cs ! j)) \<and> repeats (cs ! j) (cs ! i))"
    and total: "(\<Sum>v\<leftarrow>vs. mset (absorbed_of v))
        = mset (map (\<lambda>i. ca_key (cs ! i)) (filter (\<lambda>i. \<not> is_keep (vs ! i)) [0..<n]))"
    using inv unfolding dedup_inv_def st by auto
  let ?c = "cs ! n"
  show ?thesis
  proof (cases "dupe_of kept hashes ?c")
    case None
    let ?vs = "vs @ [Keep []]"
    have nth: "i < n \<Longrightarrow> ?vs ! i = vs ! i" "?vs ! n = Keep []" for i
      using len by (simp_all add: nth_append)
    have new: "\<not> repeats (cs ! j) ?c" if j: "j < n" "is_keep (vs ! j)" for j
    proof
      assume r: "repeats (cs ! j) ?c"
      have "(j, simhash (ca_text (cs ! j))) \<in> set kept" using j unfolding kept by blast
      with dupe_of_None [OF None] r obtain h where h: "usable_hash ?c = Some h" "usable_hash (cs ! j) = Some h"
        unfolding repeats_def by auto
      then have "(j, h) \<in> set hashes" using j unfolding hashes by blast
      with dupe_of_None [OF None] h(1) show False by force
    qed
    have k: "is_keep (Keep [])" by (simp add: is_keep_def)
    have "set (kept @ [(n, simhash (ca_text ?c))])
        = {(i, simhash (ca_text (cs ! i))) | i. i < Suc n \<and> is_keep (?vs ! i)}"
      unfolding set_append kept by (auto simp: nth k less_Suc_eq)
    moreover have "set (case usable_hash ?c of None \<Rightarrow> hashes | Some h \<Rightarrow> hashes @ [(n, h)])
        = {(i, h) | i h. i < Suc n \<and> is_keep (?vs ! i) \<and> usable_hash (cs ! i) = Some h}"
      using hashes by (cases "usable_hash ?c") (auto simp: nth k less_Suc_eq)
    moreover have "if is_keep (?vs ! i) then \<forall>j<i. is_keep (?vs ! j) \<longrightarrow> \<not> repeats (cs ! j) (cs ! i)
         else \<exists>j<i. is_keep (?vs ! j) \<and> ?vs ! i = Duplicate (ca_key (cs ! j)) \<and> repeats (cs ! j) (cs ! i)"
      if "i < Suc n" for i
    proof (cases "i = n")
      case True
      then show ?thesis using new by (simp add: nth k)
    next
      case False
      then have i: "i < n" using that by simp
      have "?vs ! l = vs ! l" if "l \<le> i" for l using nth(1) [of l] i that by simp
      then show ?thesis using each [OF i] by (metis less_imp_le order_refl)
    qed
    moreover have "filter (\<lambda>i. \<not> is_keep (?vs ! i)) [0..<Suc n] = filter (\<lambda>i. \<not> is_keep (vs ! i)) [0..<n]"
      using nth k by (auto intro: filter_cong)
    ultimately have "dedup_inv cs (Suc n) (?vs, kept @ [(n, simhash (ca_text ?c))],
        case usable_hash ?c of None \<Rightarrow> hashes | Some h \<Rightarrow> hashes @ [(n, h)])"
      by (rule dedup_invI) (use len total in simp_all)
    then show ?thesis using None by (simp add: st dedup_step_def Let_def)
  next
    case (Some j)
    have "j < n \<and> is_keep (vs ! j) \<and> repeats (cs ! j) ?c"
      using dupe_of_sound [OF Some] unfolding kept hashes repeats_def by auto
    then have j: "j < n" "is_keep (vs ! j)" "repeats (cs ! j) ?c" by auto
    obtain ks where ks: "vs ! j = Keep ks" using j(2) by (auto simp: is_keep_def split: verdict.splits)
    let ?D = "Duplicate (ca_key (cs ! j))"
    let ?vs = "(vs @ [?D])[j := Keep (ks @ [ca_key ?c])]"
    have step: "dedup_step cs n st = (?vs, kept, hashes)"
      using Some j len ks by (simp add: dedup_step_def st Let_def nth_append absorb_def)
    have keep: "is_keep (?vs ! i) = (i < n \<and> is_keep (vs ! i))" if "i < Suc n" for i
      using that len j ks by (auto simp: nth_list_update nth_append is_keep_def less_Suc_eq)
    have dup: "\<not> is_keep (?vs ! i) \<Longrightarrow> ?vs ! i = (if i = n then ?D else vs ! i)" if "i < Suc n" for i
      using that len j ks by (auto simp: nth_list_update nth_append is_keep_def less_Suc_eq)
    have "set kept = {(i, simhash (ca_text (cs ! i))) | i. i < Suc n \<and> is_keep (?vs ! i)}"
      unfolding kept using keep by auto
    moreover have "set hashes = {(i, h) | i h. i < Suc n \<and> is_keep (?vs ! i) \<and> usable_hash (cs ! i) = Some h}"
      unfolding hashes using keep by auto
    moreover have "if is_keep (?vs ! i) then \<forall>l<i. is_keep (?vs ! l) \<longrightarrow> \<not> repeats (cs ! l) (cs ! i)
         else \<exists>l<i. is_keep (?vs ! l) \<and> ?vs ! i = Duplicate (ca_key (cs ! l)) \<and> repeats (cs ! l) (cs ! i)"
      if i: "i < Suc n" for i
    proof (cases "i = n")
      case True
      then show ?thesis using keep [of n] keep [of j] dup [of n] j by auto
    next
      case False
      then have "i < n" using i by simp
      moreover have "l < i \<Longrightarrow> is_keep (?vs ! l) = is_keep (vs ! l)" for l
        using keep [of l] \<open>i < n\<close> by simp
      ultimately show ?thesis
        using each [of i] keep [OF i] dup [OF i] False by (auto split: if_splits)
    qed
    moreover have "filter (\<lambda>i. \<not> is_keep (?vs ! i)) [0..<Suc n] = filter (\<lambda>i. \<not> is_keep (vs ! i)) [0..<n] @ [n]"
    proof -
      have "filter (\<lambda>i. \<not> is_keep (?vs ! i)) [0..<n] = filter (\<lambda>i. \<not> is_keep (vs ! i)) [0..<n]"
        using keep by (intro filter_cong) auto
      then show ?thesis using keep [of n] by simp
    qed
    moreover have "length ?vs = Suc n" using len by simp
    moreover have "(\<Sum>v\<leftarrow>?vs. mset (absorbed_of v)) 
        = mset (map (\<lambda>i. ca_key (cs ! i)) (filter (\<lambda>i. \<not> is_keep (vs ! i)) [0..<n] @ [n]))"
      using sum_list_update_add [of j "vs @ [?D]" "\<lambda>v. mset (absorbed_of v)" "Keep (ks @ [ca_key ?c])"] len j ks total
      by (simp add: nth_append)
    ultimately show ?thesis unfolding step by (rule dedup_invI)
  qed
qed

lemma dedup_inv_fold: "dedup_inv cs n (fold (dedup_step cs) [0..<n] ([], [], []))"
proof (induction n)
  case 0
  then show ?case by (simp add: dedup_inv_def)
next
  case (Suc n)
  then show ?case using dedup_inv_step [OF Suc] by simp
qed

text \<open>
  C23. Deduplication keeps the first of each group.  There is one verdict per candidate; a candidate
  called a duplicate repeats an earlier kept one, whose key it names; kept candidates never repeat an
  earlier kept one; and the keys recorded as absorbed are exactly the keys of the duplicates.
\<close>

theorem dedup_keeps_first_copies:
  "let vs = dedup cs in
     length vs = length cs
     \<and> list_all (\<lambda>i. case vs ! i of
           Duplicate k \<Rightarrow> (\<exists>j < i. is_keep (vs ! j) \<and> k = ca_key (cs ! j) \<and> repeats (cs ! j) (cs ! i))
         | Keep ks \<Rightarrow> \<not> (\<exists>j < i. is_keep (vs ! j) \<and> repeats (cs ! j) (cs ! i))) [0..<length cs]
     \<and> mset (concat (map absorbed_of vs))
         = mset (map (\<lambda>i. ca_key (cs ! i)) (filter (\<lambda>i. \<not> is_keep (vs ! i)) [0..<length cs]))"
proof -
  have "dedup_inv cs (length cs) (fold (dedup_step cs) [0..<length cs] ([], [], []))"
    by (rule dedup_inv_fold)
  then have vs: "length (dedup cs) = length cs"
    "\<And>i. i < length cs \<Longrightarrow>
        (if is_keep (dedup cs ! i) then \<forall>j<i. is_keep (dedup cs ! j) \<longrightarrow> \<not> repeats (cs ! j) (cs ! i)
         else \<exists>j<i. is_keep (dedup cs ! j) \<and> dedup cs ! i = Duplicate (ca_key (cs ! j))
                    \<and> repeats (cs ! j) (cs ! i))"
    "(\<Sum>v\<leftarrow>dedup cs. mset (absorbed_of v))
        = mset (map (\<lambda>i. ca_key (cs ! i)) (filter (\<lambda>i. \<not> is_keep (dedup cs ! i)) [0..<length cs]))"
    unfolding dedup_def by (cases "fold (dedup_step cs) [0..<length cs] ([], [], [])", auto simp: dedup_inv_def)+
  have "case dedup cs ! i of
           Duplicate k \<Rightarrow> (\<exists>j < i. is_keep (dedup cs ! j) \<and> k = ca_key (cs ! j) \<and> repeats (cs ! j) (cs ! i))
         | Keep ks \<Rightarrow> \<not> (\<exists>j < i. is_keep (dedup cs ! j) \<and> repeats (cs ! j) (cs ! i))"
    if "i < length cs" for i
    using vs(2) [OF that] by (cases "dedup cs ! i") (auto simp: is_keep_def)
  moreover have "mset (concat (map absorbed_of us)) = (\<Sum>v\<leftarrow>us. mset (absorbed_of v))" for us
    by (induction us) auto
  ultimately show ?thesis using vs(1,3) by (simp add: Let_def list_all_iff)
qed

text \<open>
  An excerpt is the text itself when it fits the budget; otherwise it is one contiguous window of
  exactly the budget's length, marked with an ellipsis at each side where text is missing, and the
  window holds the offset of the earliest match whenever that offset lies inside the text.
\<close>

theorem excerpt_is_a_window:
  "if length text \<le> budget then excerpt_around to_lower text terms budget = text
   else \<exists>start. start + budget \<le> length text
     \<and> excerpt_around to_lower text terms budget
         = (if 0 < start then [ellipsis] else []) @ take budget (drop start text)
           @ (if start + budget < length text then [ellipsis] else [])
     \<and> (case first_hit to_lower text terms of
          None \<Rightarrow> start = 0
        | Some hit \<Rightarrow> start \<le> hit \<and> \<not> (hit < length text \<and> 0 < budget \<and> start + budget \<le> hit))"
proof (cases "length text \<le> budget")
  case False
  show ?thesis
  proof (cases "first_hit to_lower text terms")
    case None
    with False show ?thesis by (auto simp: excerpt_around_def intro!: exI [of _ 0])
  next
    case (Some hit)
    let ?start = "min (hit - budget div 2) (length text - budget)"
    have le: "?start + budget \<le> length text" using False by linarith
    have "?start \<le> hit" by linarith
    moreover have "hit < ?start + budget" if "hit < length text" "0 < budget"
      using that False by linarith
    ultimately show ?thesis
      using False Some le
      by (intro if_not_P [THEN iffD2] exI [of _ ?start])
        (auto simp: excerpt_around_def Let_def min_absorb1)
  qed
qed (simp add: excerpt_around_def)

text \<open>
  The offset is one of the lowered text.  Where lowercasing lengthens the text before the match, as it
  does for U+0130, the window can miss the match.
\<close>

lemma excerpt_can_miss_the_match:
  "let to_lower = (\<lambda>s. concat (map (\<lambda>c. if c = 304 then [105, 775] else [c]) s));
       text = replicate 10 304 @ [120] @ replicate 20 98
   in first_hit to_lower text [[120]] = Some 20 \<and> 120 \<notin> set (excerpt_around to_lower text [[120]] 4)"
  by code_simp

lemma per_hit_budget_bounds:
  "600 \<le> per_hit_budget m n \<and> per_hit_budget m n \<le> 4000"
  by (simp add: per_hit_budget_def clamp_def)

end
