(* ===== verification/Coldness.thy ===== *)
theory Coldness
  imports Types
begin

text \<open>
  \<^verbatim>\<open>polis-core/src/coldness.rs\<close>: the interlock that decides whether a branch may be collapsed without
  review, the warmth rule, and the roll-up of per-node activity into subtree statistics.
\<close>

section \<open>Binary64 arithmetic\<close>

text \<open>
  \<^verbatim>\<open>x as f64\<close> and \<^verbatim>\<open>*\<close> round to nearest, ties to even, at 53 significant bits.  The values here are
  integers and one constant, so every number is an integer multiple of a fixed power of two and the
  rounding is one of integers; the magnitudes stay inside the normal range.
\<close>

fun bit_length :: "nat \<Rightarrow> nat" where
  "bit_length n = (if n = 0 then 0 else Suc (bit_length (n div 2)))"

declare bit_length.simps [simp del]

definition round_nat :: "nat \<Rightarrow> nat" where
  "round_nat n =
     (let k = bit_length n - 53; q = n div 2 ^ k; r = n mod 2 ^ k
      in if k = 0 then n
         else if 2 * r < 2 ^ k \<or> (2 * r = 2 ^ k \<and> even q) then q * 2 ^ k
         else (q + 1) * 2 ^ k)"

definition f64_round :: "int \<Rightarrow> int" where
  "f64_round i = (if i < 0 then - int (round_nat (nat (- i))) else int (round_nat (nat i)))"

lemma bit_length_bounds: "0 < n \<Longrightarrow> 2 ^ (bit_length n - 1) \<le> n \<and> n < 2 ^ bit_length n"
proof (induction n rule: bit_length.induct)
  case (1 n)
  show ?case
  proof (cases "n div 2 = 0")
    case True
    with 1 have "n = 1" by linarith
    then show ?thesis by (simp add: bit_length.simps)
  next
    case False
    then have IH: "2 ^ (bit_length (n div 2) - 1) \<le> n div 2" "n div 2 < 2 ^ bit_length (n div 2)"
      using 1 by auto
    have b: "bit_length n = Suc (bit_length (n div 2))" using 1 by (simp add: bit_length.simps [of n])
    have "0 < bit_length (n div 2)" using False by (simp add: bit_length.simps [of "n div 2"])
    then obtain m where m: "bit_length (n div 2) = Suc m" by (cases "bit_length (n div 2)") auto
    show ?thesis using IH unfolding b m by auto
  qed
qed

lemma round_nat_small: "n < 2 ^ 53 \<Longrightarrow> round_nat n = n"
proof -
  assume n: "n < 2 ^ 53"
  have "bit_length n \<le> 53"
  proof (rule ccontr)
    assume "\<not> bit_length n \<le> 53"
    then have "n \<noteq> 0" and "53 \<le> bit_length n - 1" by (cases "n = 0"; simp add: bit_length.simps [of 0])+
    then have "(2::nat) ^ 53 \<le> 2 ^ (bit_length n - 1)" by (intro power_increasing) simp_all
    also have "\<dots> \<le> n" using bit_length_bounds [of n] \<open>n \<noteq> 0\<close> by simp
    finally show False using n by simp
  qed
  then show ?thesis by (simp add: round_nat_def)
qed

lemma f64_round_small: "\<bar>i\<bar> < 2 ^ 53 \<Longrightarrow> f64_round i = i"
  by (auto simp: f64_round_def round_nat_small)

text \<open>The relative error of one rounding is at most \<open>2 ^ -53\<close>.\<close>

lemma upper_half: "d = p - r \<Longrightarrow> p \<le> 2 * r \<Longrightarrow> r \<le> p \<Longrightarrow> 2 * \<bar>d\<bar> \<le> p" for d p r :: int
  by simp

lemma round_nat_error: "2 ^ 53 * \<bar>int (round_nat n) - int n\<bar> \<le> int n"
proof (cases "bit_length n \<le> 53")
  case False
  let ?k = "bit_length n - 53"
  let ?q = "n div 2 ^ ?k" and ?r = "n mod 2 ^ ?k"
  have n: "n = ?q * 2 ^ ?k + ?r" by (rule div_mult_mod_eq [symmetric])
  have r: "?r < 2 ^ ?k" by simp
  have "n \<noteq> 0" using False by (cases "n = 0") (simp_all add: bit_length.simps [of 0])
  then have "2 ^ (bit_length n - 1) \<le> n" using bit_length_bounds [of n] by blast
  moreover have "bit_length n - 1 = 52 + ?k" using False by linarith
  ultimately have big: "(2::nat) ^ 52 * 2 ^ ?k \<le> n" by (simp only: power_add)
  have "2 * \<bar>int (round_nat n) - int n\<bar> \<le> int (2 ^ ?k)"
  proof (cases "2 * ?r < 2 ^ ?k \<or> (2 * ?r = 2 ^ ?k \<and> even ?q)")
    case True
    then have "round_nat n = ?q * 2 ^ ?k" using False by (simp add: round_nat_def Let_def)
    moreover have "int n = int (?q * 2 ^ ?k) + int ?r" by (subst n) simp
    ultimately have "\<bar>int (round_nat n) - int n\<bar> = int ?r" by simp
    moreover have "2 * ?r \<le> 2 ^ ?k" using True by linarith
    then have "2 * int ?r \<le> int (2 ^ ?k)" by linarith
    ultimately show ?thesis by simp
  next
    case c: False
    then have "round_nat n = (?q + 1) * 2 ^ ?k" using False by (simp add: round_nat_def Let_def)
    moreover have "int n = int (?q * 2 ^ ?k) + int ?r" by (subst n) simp
    ultimately have "int (round_nat n) - int n = int (2 ^ ?k) - int ?r" by (simp add: algebra_simps)
    moreover have "2 ^ ?k \<le> 2 * ?r" using c by linarith
    then have "int (2 ^ ?k) \<le> 2 * int ?r" by linarith
    moreover have "int ?r \<le> int (2 ^ ?k)" using r by linarith
    ultimately show ?thesis by (rule upper_half)
  qed
  then have "2 ^ 53 * \<bar>int (round_nat n) - int n\<bar> \<le> int (2 ^ 52 * 2 ^ ?k)" by simp
  also have "\<dots> \<le> int n" using big by (simp only: of_nat_le_iff)
  finally show ?thesis .
qed (simp add: round_nat_def)

lemma f64_round_error: "2 ^ 53 * \<bar>f64_round i - i\<bar> \<le> \<bar>i\<bar>"
  using round_nat_error [of "nat i"] round_nat_error [of "nat (- i)"]
  by (auto simp: f64_round_def abs_if split: if_splits)

section \<open>The interlock\<close>

record branch_stat =
  last_ts :: "int option"
  item_count :: int
  bs_pinned :: bool

record lake_envelope =
  oldest :: int
  newest :: int

definition span :: "lake_envelope \<Rightarrow> int" where
  "span env = max (newest env - oldest env) 0"

text \<open>\<^verbatim>\<open>0.34_f64\<close> is \<open>6124895493223875 / 2 ^ 54\<close>; \<open>fresh_slice\<close> is the rounded product, in units of \<open>2 ^ -54\<close>.\<close>

definition COLLAPSE_FRESH_FRACTION :: int where
  "COLLAPSE_FRESH_FRACTION = 6124895493223875"

definition fresh_slice :: "lake_envelope \<Rightarrow> int" where
  "fresh_slice env = f64_round (COLLAPSE_FRESH_FRACTION * f64_round (span env))"

definition auto_collapse_safe :: "branch_stat \<Rightarrow> lake_envelope \<Rightarrow> bool" where
  "auto_collapse_safe stat env =
     (if bs_pinned stat then False
      else case last_ts stat of
             None \<Rightarrow> False
           | Some ts \<Rightarrow>
               if span env \<le> 0 then False
               else fresh_slice env \<le> 2 ^ 54 * f64_round (max (newest env - ts) 0))"

definition is_warm :: "int option \<Rightarrow> lake_envelope \<Rightarrow> bool" where
  "is_warm last_recalled_at env =
     (case last_recalled_at of
        None \<Rightarrow> False
      | Some ts \<Rightarrow>
          if span env \<le> 0 then newest env \<le> ts
          else 2 ^ 54 * f64_round (newest env - ts) \<le> fresh_slice env)"

lemma pow53: "(2::int) ^ 53 = 9007199254740992" and pow54: "(2::int) ^ 54 = 18014398509481984"
  by simp_all

lemma fresh_slice_pos:
  assumes "span env = 1 \<or> span env = 2"
  shows "0 < fresh_slice env"
proof -
  have "2 ^ 53 * \<bar>fresh_slice env - COLLAPSE_FRESH_FRACTION * span env\<bar> \<le> \<bar>COLLAPSE_FRESH_FRACTION * span env\<bar>"
    using f64_round_error [of "COLLAPSE_FRESH_FRACTION * span env"] assms
    by (auto simp: fresh_slice_def f64_round_small)
  then have "\<bar>fresh_slice env - COLLAPSE_FRESH_FRACTION * span env\<bar> < COLLAPSE_FRESH_FRACTION"
    using assms by (auto simp: COLLAPSE_FRESH_FRACTION_def)
  with assms show ?thesis by (auto simp: COLLAPSE_FRESH_FRACTION_def abs_less_iff)
qed

lemma fresh_slice_close:
  assumes "span env < 2 ^ 53"
  shows "\<bar>100 * fresh_slice env - 34 * 2 ^ 54 * span env\<bar> < 100 * 2 ^ 54"
proof -
  let ?s = "span env" and ?p = "COLLAPSE_FRESH_FRACTION * span env"
  have s: "0 \<le> ?s" by (simp add: span_def)
  have rs: "f64_round ?s = ?s" using s assms by (intro f64_round_small) simp
  have fs: "fresh_slice env = f64_round ?p" by (simp add: fresh_slice_def rs)
  have "2 ^ 53 * \<bar>fresh_slice env - ?p\<bar> \<le> ?p"
    using f64_round_error [of ?p] s by (simp add: fs COLLAPSE_FRESH_FRACTION_def)
  then have "\<bar>fresh_slice env - ?p\<bar> \<le> 6124895493223875"
    using assms by (simp add: COLLAPSE_FRESH_FRACTION_def)
  moreover have p: "?p = 6124895493223875 * span env" by (simp add: COLLAPSE_FRESH_FRACTION_def)
  moreover have "100 * ?p - 34 * 2 ^ 54 * ?s = 44 * ?s" by (simp add: COLLAPSE_FRESH_FRACTION_def)
  ultimately show ?thesis using s assms unfolding pow53 pow54 by linarith
qed

text \<open>
  C24. The interlock around the one destructive automatic step.  For any lake whose history spans less
  than \<open>2 ^ 53\<close> milliseconds, a branch that passes is unpinned, has a datable activity and lies outside
  the freshest 34 percent of the span, up to a millisecond of float rounding; and one that is
  unpinned, dated and outside by that margin passes.
\<close>

theorem auto_collapse_interlock:
  assumes "span env < 2 ^ 53" and "newest env - ts < 2 ^ 53"
  shows "(auto_collapse_safe \<lparr>last_ts = Some ts, item_count = n, bs_pinned = p\<rparr> env \<longrightarrow>
            \<not> p \<and> 0 < span env \<and> 34 * span env - 100 < 100 * (newest env - ts))
       \<and> (\<not> p \<and> 0 < span env \<and> 34 * span env + 100 \<le> 100 * (newest env - ts) \<longrightarrow>
            auto_collapse_safe \<lparr>last_ts = Some ts, item_count = n, bs_pinned = p\<rparr> env)
       \<and> \<not> auto_collapse_safe \<lparr>last_ts = None, item_count = n, bs_pinned = p\<rparr> env"
proof -
  let ?age = "max (newest env - ts) 0"
  have age: "f64_round ?age = ?age" using assms(2) by (intro f64_round_small) simp
  note close = fresh_slice_close [OF assms(1)]
  have "34 * span env - 100 < 100 * (newest env - ts)"
    if "fresh_slice env \<le> 2 ^ 54 * ?age" "0 < span env"
  proof -
    have "34 * 2 ^ 54 * span env - 100 * 2 ^ 54 < 100 * (2 ^ 54 * ?age)" using close that(1) by linarith
    then have lt: "34 * span env - 100 < 100 * ?age" by simp
    show ?thesis
    proof (cases "0 \<le> newest env - ts")
      case True
      then show ?thesis using lt by simp
    next
      case False
      then have "fresh_slice env \<le> 0" and "34 * span env < 100" using that(1) lt by simp_all
      then have "span env = 1 \<or> span env = 2" using that(2) by linarith
      then have "0 < fresh_slice env"
        using fresh_slice_pos by auto
      with \<open>fresh_slice env \<le> 0\<close> show ?thesis by simp
    qed
  qed
  moreover have "fresh_slice env \<le> 2 ^ 54 * ?age"
    if "34 * span env + 100 \<le> 100 * (newest env - ts)"
  proof -
    have "100 * (newest env - ts) \<le> 100 * ?age" by (intro mult_left_mono) simp_all
    with that have "34 * span env + 100 \<le> 100 * ?age" by (rule order_trans)
    then have "2 ^ 54 * (34 * span env + 100) \<le> 2 ^ 54 * (100 * ?age)" by (intro mult_left_mono) simp_all
    then have "34 * 2 ^ 54 * span env + 100 * 2 ^ 54 \<le> 100 * (2 ^ 54 * ?age)" by (simp only: algebra_simps)
    then show ?thesis using close by linarith
  qed
  ultimately show ?thesis
    unfolding auto_collapse_safe_def branch_stat.select_convs option.case age by auto
qed

theorem auto_collapse_interlock_witness:
  "auto_collapse_safe \<lparr>last_ts = Some 10, item_count = 3, bs_pinned = False\<rparr> \<lparr>oldest = 0, newest = 1000\<rparr>"
  using auto_collapse_interlock [of "\<lparr>oldest = 0, newest = 1000\<rparr>" 10 3 False] by (simp add: span_def)

section \<open>Subtree statistics\<close>

type_synonym direct_activity = "rstr \<Rightarrow> (int \<times> int option) option"

fun later :: "int option \<Rightarrow> int option \<Rightarrow> int option" where
  "later (Some a) (Some b) = Some (max a b)"
| "later None b = b"
| "later a None = a"

definition merge_stat :: "branch_stat \<Rightarrow> branch_stat \<Rightarrow> branch_stat" where
  "merge_stat s cs =
     \<lparr>last_ts = later (last_ts s) (last_ts cs), item_count = item_count s + item_count cs,
      bs_pinned = bs_pinned s \<or> bs_pinned cs\<rparr>"

definition kids :: "class_node list \<Rightarrow> rstr \<Rightarrow> class_node list" where
  "kids nodes i = filter (\<lambda>n. cn_parent_id n = Some i) nodes"

definition pinned_of :: "class_node list \<Rightarrow> rstr \<Rightarrow> bool" where
  "pinned_of nodes i = (case find (\<lambda>n. cn_id n = i) (rev nodes) of None \<Rightarrow> False | Some n \<Rightarrow> cn_pinned n)"

definition direct_stat :: "direct_activity \<Rightarrow> rstr \<Rightarrow> bool \<Rightarrow> branch_stat" where
  "direct_stat direct i pinned =
     (let (count, ts) = (case direct i of None \<Rightarrow> (0, None) | Some d \<Rightarrow> d)
      in \<lparr>last_ts = ts, item_count = count, bs_pinned = pinned\<rparr>)"

text \<open>
  The recursion of \<^verbatim>\<open>roll\<close>, with \<open>levels = 64 - depth\<close>: at depth 64 the children are not visited.  The
  output map is threaded through, as the code's \<^verbatim>\<open>&mut out\<close>.
\<close>

type_synonym stats = "rstr \<Rightarrow> branch_stat option"

primrec roll ::
  "class_node list \<Rightarrow> direct_activity \<Rightarrow> nat \<Rightarrow> class_node \<Rightarrow> stats \<Rightarrow> branch_stat \<times> stats" where
  "roll nodes direct 0 n out =
     (let stat = direct_stat direct (cn_id n) (pinned_of nodes (cn_id n))
      in (stat, out(cn_id n \<mapsto> stat)))"
| "roll nodes direct (Suc levels) n out =
     (let so =
        fold (\<lambda>c so. let r = roll nodes direct levels c (snd so) in (merge_stat (fst so) (fst r), snd r))
          (kids nodes (cn_id n))
          (direct_stat direct (cn_id n) (pinned_of nodes (cn_id n)), out)
      in (fst so, (snd so)(cn_id n \<mapsto> fst so)))"

definition roll_roots :: "class_node list \<Rightarrow> direct_activity \<Rightarrow> stats" where
  "roll_roots nodes direct =
     fold (\<lambda>n out. if cn_parent_id n = None then snd (roll nodes direct 64 n out) else out)
       nodes Map.empty"

definition subtree_stats :: "class_node list \<Rightarrow> direct_activity \<Rightarrow> stats" where
  "subtree_stats nodes direct =
     fold (\<lambda>n out. case out (cn_id n) of
                      Some _ \<Rightarrow> out
                    | None \<Rightarrow> out(cn_id n \<mapsto> direct_stat direct (cn_id n) (cn_pinned n)))
       nodes (roll_roots nodes direct)"

definition subtree_stats_protected ::
  "class_node list \<Rightarrow> direct_activity \<Rightarrow> rstr set \<Rightarrow> stats" where
  "subtree_stats_protected nodes direct protected =
     subtree_stats (map (\<lambda>n. n\<lparr>cn_pinned := cn_id n \<in> protected\<rparr>) nodes) direct"

subsection \<open>The recursion without its output map\<close>

primrec branch :: "class_node list \<Rightarrow> direct_activity \<Rightarrow> nat \<Rightarrow> class_node \<Rightarrow> branch_stat" where
  "branch nodes direct 0 n = direct_stat direct (cn_id n) (pinned_of nodes (cn_id n))"
| "branch nodes direct (Suc levels) n =
     fold (\<lambda>c st. merge_stat st (branch nodes direct levels c)) (kids nodes (cn_id n))
       (direct_stat direct (cn_id n) (pinned_of nodes (cn_id n)))"

lemma roll_fold:
  assumes "\<And>c out. fst (f c out) = g c"
  shows "fold (\<lambda>c so. let r = f c (snd so) in (merge_stat (fst so) (fst r), snd r)) cs (st, out)
      = (fold (\<lambda>c st. merge_stat st (g c)) cs st, fold (\<lambda>c out. snd (f c out)) cs out)"
  using assms by (induction cs arbitrary: st out) (simp_all add: Let_def)

lemma roll_fst: "fst (roll nodes direct levels n out) = branch nodes direct levels n"
proof (induction levels arbitrary: n out)
  case (Suc levels)
  show ?case
    unfolding roll.simps branch.simps roll_fold [of "roll nodes direct levels", OF Suc] by (simp add: Let_def)
qed (simp add: Let_def)

lemma roll_snd:
  "snd (roll nodes direct (Suc levels) n out)
     = (fold (\<lambda>c out. snd (roll nodes direct levels c out)) (kids nodes (cn_id n)) out)
         (cn_id n \<mapsto> branch nodes direct (Suc levels) n)"
  unfolding roll.simps branch.simps roll_fold [of "roll nodes direct levels", OF roll_fst]
  by (simp add: Let_def)

lemma merge_fold_pinned:
  "bs_pinned (fold (\<lambda>c st. merge_stat st (g c)) cs st) \<longleftrightarrow> bs_pinned st \<or> (\<exists>c\<in>set cs. bs_pinned (g c))"
  by (induction cs arbitrary: st) (auto simp: merge_stat_def)

text \<open>\<open>below nodes m a n\<close>: \<open>n\<close> is reached from \<open>a\<close> by \<open>m\<close> steps to a child.\<close>

fun below :: "class_node list \<Rightarrow> nat \<Rightarrow> class_node \<Rightarrow> class_node \<Rightarrow> bool" where
  "below nodes 0 a n = (n = a)"
| "below nodes (Suc m) a n = list_ex (\<lambda>c. below nodes m c n) (kids nodes (cn_id a))"

lemma bs_pinned_direct [simp]: "bs_pinned (direct_stat direct i p) = p"
  by (simp add: direct_stat_def case_prod_beta)

lemma branch_pinned:
  "bs_pinned (branch nodes direct levels a) \<longleftrightarrow>
     (\<exists>m n. m \<le> levels \<and> below nodes m a n \<and> pinned_of nodes (cn_id n))"
proof (induction levels arbitrary: a)
  case (Suc levels)
  have "bs_pinned (branch nodes direct (Suc levels) a) \<longleftrightarrow>
      pinned_of nodes (cn_id a)
      \<or> (\<exists>c\<in>set (kids nodes (cn_id a)). \<exists>m n. m \<le> levels \<and> below nodes m c n \<and> pinned_of nodes (cn_id n))"
    by (simp add: merge_fold_pinned Suc)
  also have "\<dots> \<longleftrightarrow> (\<exists>m n. m \<le> Suc levels \<and> below nodes m a n \<and> pinned_of nodes (cn_id n))"
  proof
    assume "pinned_of nodes (cn_id a)
      \<or> (\<exists>c\<in>set (kids nodes (cn_id a)). \<exists>m n. m \<le> levels \<and> below nodes m c n \<and> pinned_of nodes (cn_id n))"
    then show "\<exists>m n. m \<le> Suc levels \<and> below nodes m a n \<and> pinned_of nodes (cn_id n)"
    proof
      assume "pinned_of nodes (cn_id a)"
      then show ?thesis by (intro exI [of _ 0] exI [of _ a]) simp
    next
      assume "\<exists>c\<in>set (kids nodes (cn_id a)). \<exists>m n. m \<le> levels \<and> below nodes m c n \<and> pinned_of nodes (cn_id n)"
      then obtain c m n where "c \<in> set (kids nodes (cn_id a))" "m \<le> levels" "below nodes m c n"
        "pinned_of nodes (cn_id n)" by blast
      then show ?thesis by (intro exI [of _ "Suc m"] exI [of _ n]) (auto simp: list_ex_iff)
    qed
  next
    assume "\<exists>m n. m \<le> Suc levels \<and> below nodes m a n \<and> pinned_of nodes (cn_id n)"
    then obtain m n where "m \<le> Suc levels" "below nodes m a n" "pinned_of nodes (cn_id n)" by blast
    then show "pinned_of nodes (cn_id a)
      \<or> (\<exists>c\<in>set (kids nodes (cn_id a)). \<exists>m n. m \<le> levels \<and> below nodes m c n \<and> pinned_of nodes (cn_id n))"
      by (cases m) (auto simp: list_ex_iff)
  qed
  finally show ?case .
qed (auto intro!: exI)

lemma below_snoc:
  "below nodes (Suc m) a n \<longleftrightarrow> (\<exists>p. below nodes m a p \<and> n \<in> set (kids nodes (cn_id p)))"
  by (induction m arbitrary: a) (auto simp: list_ex_iff)

lemma below_in: "below nodes m a n \<Longrightarrow> a \<in> set nodes \<Longrightarrow> n \<in> set nodes"
  by (cases m) (auto simp: below_snoc kids_def simp del: below.simps(2))

lemma same_id: "distinct (map cn_id nodes) \<Longrightarrow> a \<in> set nodes \<Longrightarrow> b \<in> set nodes \<Longrightarrow> cn_id a = cn_id b \<Longrightarrow> a = b"
  by (meson distinct_map inj_onD)

lemma depth_unique:
  assumes ids: "distinct (map cn_id nodes)"
    and r: "r \<in> set nodes" "cn_parent_id r = None" and q: "q \<in> set nodes" "cn_parent_id q = None"
  shows "below nodes k r a \<Longrightarrow> below nodes l q b \<Longrightarrow> cn_id a = cn_id b \<Longrightarrow> k = l \<and> a = b"
proof (induction k arbitrary: l a b)
  case 0
  have "a = b" using same_id [OF ids _ _ "0.prems"(3)] "0.prems"(1) below_in [OF "0.prems"(2) q(1)] r by simp
  with 0 r show ?case
    by (cases l) (auto simp: below_snoc kids_def simp del: below.simps(2))
next
  case (Suc k)
  have ab: "a = b"
    using same_id [OF ids _ _ Suc.prems(3)] below_in [OF Suc.prems(1) r(1)] below_in [OF Suc.prems(2) q(1)] by simp
  obtain p where p: "below nodes k r p" "cn_parent_id a = Some (cn_id p)"
    using Suc.prems(1) by (auto simp: below_snoc kids_def simp del: below.simps(2))
  show ?case
  proof (cases l)
    case 0
    then show ?thesis using Suc.prems(2) q ab p by simp
  next
    case l: (Suc l')
    then obtain p' where "below nodes l' q p'" "cn_parent_id b = Some (cn_id p')"
      using Suc.prems(2) by (auto simp: below_snoc kids_def simp del: below.simps(2))
    with p ab have "k = l'" using Suc.IH [of p l' p'] by simp
    with ab l show ?thesis by simp
  qed
qed

subsection \<open>What the output map holds\<close>

definition rolled :: "class_node list \<Rightarrow> direct_activity \<Rightarrow> nat \<Rightarrow> class_node \<Rightarrow> rstr \<Rightarrow> branch_stat \<Rightarrow> bool" where
  "rolled nodes direct levels n i s \<longleftrightarrow>
     (\<exists>m a. m \<le> levels \<and> below nodes m n a \<and> cn_id a = i \<and> s = branch nodes direct (levels - m) a)"

lemma fold_out_sound:
  assumes "\<And>c out i s. c \<in> set cs \<Longrightarrow> f c out i = Some s \<Longrightarrow> out i = Some s \<or> P c i s"
    and "fold f cs out i = Some s"
  shows "out i = Some s \<or> (\<exists>c\<in>set cs. P c i s)"
  using assms
proof (induction cs arbitrary: out)
  case (Cons c cs)
  from Cons.prems(2) have "fold f cs (f c out) i = Some s" by simp
  then have "f c out i = Some s \<or> (\<exists>c\<in>set cs. P c i s)"
    using Cons.IH Cons.prems(1) by (metis list.set_intros(2))
  with Cons.prems(1) show ?case by auto
qed simp

lemma fold_out_dom:
  assumes "\<And>c out. dom out \<subseteq> dom (f c out)"
  shows "dom out \<subseteq> dom (fold f cs out) \<and> (\<forall>c\<in>set cs. \<exists>out'. dom (f c out') \<subseteq> dom (fold f cs out))"
proof (induction cs arbitrary: out)
  case (Cons c cs)
  have "dom out \<subseteq> dom (f c out)" by (rule assms)
  with Cons [of "f c out"] show ?case by auto
qed simp

lemma roll_sound:
  "snd (roll nodes direct levels n out) i = Some s \<Longrightarrow> out i = Some s \<or> rolled nodes direct levels n i s"
proof (induction levels arbitrary: n out i s)
  case 0
  then show ?case by (auto simp: rolled_def Let_def split: if_splits intro!: exI [of _ n])
next
  case (Suc levels)
  show ?case
  proof (cases "i = cn_id n")
    case True
    then have "s = branch nodes direct (Suc levels) n" using Suc.prems unfolding roll_snd by simp
    with True show ?thesis unfolding rolled_def by (intro disjI2 exI [of _ 0] exI [of _ n]) simp
  next
    case False
    then have "fold (\<lambda>c out. snd (roll nodes direct levels c out)) (kids nodes (cn_id n)) out i = Some s"
      using Suc.prems unfolding roll_snd by simp
    then have "out i = Some s \<or> (\<exists>c\<in>set (kids nodes (cn_id n)). rolled nodes direct levels c i s)"
      by (rule fold_out_sound [rotated]) (rule Suc.IH)
    then show ?thesis
    proof
      assume "\<exists>c\<in>set (kids nodes (cn_id n)). rolled nodes direct levels c i s"
      then obtain c m a where "c \<in> set (kids nodes (cn_id n))" "m \<le> levels" "below nodes m c a"
        "cn_id a = i" "s = branch nodes direct (levels - m) a" by (auto simp: rolled_def)
      then have "rolled nodes direct (Suc levels) n i s"
        unfolding rolled_def by (intro exI [of _ "Suc m"] exI [of _ a]) (auto simp: list_ex_iff)
      then show ?thesis ..
    qed simp
  qed
qed

lemma roll_dom: "dom out \<subseteq> dom (snd (roll nodes direct levels n out))
    \<and> (\<forall>m a. m \<le> levels \<and> below nodes m n a \<longrightarrow> cn_id a \<in> dom (snd (roll nodes direct levels n out)))"
proof (induction levels arbitrary: n out)
  case 0
  then show ?case by (auto simp: Let_def)
next
  case (Suc levels)
  let ?f = "\<lambda>c out. snd (roll nodes direct levels c out)" and ?cs = "kids nodes (cn_id n)"
  have grow: "dom out \<subseteq> dom (?f c out)" for c out using Suc by blast
  note fd = fold_out_dom [of ?f, OF grow, of out ?cs]
  have "cn_id a \<in> dom (snd (roll nodes direct (Suc levels) n out))"
    if m: "m \<le> Suc levels" "below nodes m n a" for m a
  proof (cases m)
    case 0
    then show ?thesis using m unfolding roll_snd by simp
  next
    case (Suc m')
    then obtain c where c: "c \<in> set ?cs" "below nodes m' c a" "m' \<le> levels"
      using m by (auto simp: list_ex_iff)
    with fd obtain out' where "dom (?f c out') \<subseteq> dom (fold ?f ?cs out)" by blast
    moreover have "cn_id a \<in> dom (?f c out')" using Suc.IH c by blast
    ultimately show ?thesis unfolding roll_snd by auto
  qed
  moreover have "dom out \<subseteq> dom (snd (roll nodes direct (Suc levels) n out))"
    using fd unfolding roll_snd by auto
  ultimately show ?case by blast
qed

lemma roll_roots_branch:
  assumes ids: "distinct (map cn_id nodes)" and r: "r \<in> set nodes" "cn_parent_id r = None"
    and a: "below nodes k r a" "k \<le> 64"
  shows "roll_roots nodes direct (cn_id a) = Some (branch nodes direct (64 - k) a)"
proof -
  let ?f = "\<lambda>n out. if cn_parent_id n = None then snd (roll nodes direct 64 n out) else out"
  have grow: "dom out \<subseteq> dom (?f n out)" for n out using roll_dom by simp
  have "\<exists>out'. dom (?f r out') \<subseteq> dom (roll_roots nodes direct)"
    using fold_out_dom [of ?f, OF grow, of Map.empty nodes] r(1) unfolding roll_roots_def by blast
  then obtain out' where "dom (?f r out') \<subseteq> dom (roll_roots nodes direct)" by blast
  moreover have "cn_id a \<in> dom (?f r out')" using roll_dom a r(2) by simp
  ultimately obtain s where s: "roll_roots nodes direct (cn_id a) = Some s" by auto
  have "Map.empty (cn_id a) = Some s
      \<or> (\<exists>n\<in>set nodes. cn_parent_id n = None \<and> rolled nodes direct 64 n (cn_id a) s)"
    using s unfolding roll_roots_def
    by (rule fold_out_sound [rotated]) (auto split: if_splits dest: roll_sound)
  then obtain q m b where q: "q \<in> set nodes" "cn_parent_id q = None" "below nodes m q b" "cn_id b = cn_id a"
    "s = branch nodes direct (64 - m) b" by (auto simp: rolled_def)
  then have "k = m \<and> a = b" using depth_unique [OF ids r q(1,2) a(1) q(3)] by simp
  with s q(5) show ?thesis by simp
qed

lemma subtree_stats_rolled:
  "roll_roots nodes direct i = Some s \<Longrightarrow> subtree_stats nodes direct i = Some s"
proof -
  let ?f = "\<lambda>n out. case out (cn_id n) of Some _ \<Rightarrow> out
             | None \<Rightarrow> out(cn_id n \<mapsto> direct_stat direct (cn_id n) (cn_pinned n))"
  have step: "out i = Some s \<Longrightarrow> ?f n out i = Some s" for n out
    by (cases "cn_id n = i") (auto split: option.splits)
  have "out i = Some s \<Longrightarrow> fold ?f ns out i = Some s" for ns out
  proof (induction ns arbitrary: out)
    case (Cons n ns)
    have "?f n out i = Some s" using Cons.prems by (rule step)
    then have "fold ?f ns (?f n out) i = Some s" by (rule Cons.IH)
    then show ?case by (simp only: fold_simps)
  qed simp
  then show "roll_roots nodes direct i = Some s \<Longrightarrow> subtree_stats nodes direct i = Some s"
    by (simp add: subtree_stats_def)
qed

lemma pinned_of_node:
  "distinct (map cn_id nodes) \<Longrightarrow> n \<in> set nodes \<Longrightarrow> pinned_of nodes (cn_id n) = cn_pinned n"
proof -
  assume d: "distinct (map cn_id nodes)" and n: "n \<in> set nodes"
  have "find (\<lambda>m. cn_id m = cn_id n) (rev nodes) \<noteq> None" using n by (auto simp: find_None_iff)
  then obtain m where m: "find (\<lambda>m. cn_id m = cn_id n) (rev nodes) = Some m" by blast
  then have "m \<in> set (rev nodes)" and "cn_id m = cn_id n"
    unfolding find_Some_iff by (metis nth_mem, blast)
  then have "m = n" using same_id [OF d _ n] by simp
  with m show ?thesis by (simp add: pinned_of_def)
qed

text \<open>
  C25. A pin is an absolute veto, down to depth 64.  In a table with unique ids, the statistics of a
  node \<open>a\<close> that lies \<open>k\<close> levels below a root are pinned exactly when \<open>a\<close> or a descendant of it within the
  first 64 levels of the tree is pinned, and a pinned branch is never collapsed automatically.  Pins
  deeper than that do not reach their ancestors.
\<close>

theorem subtree_pins_are_exact:
  assumes "distinct (map cn_id nodes)" and "r \<in> set nodes" and "cn_parent_id r = None"
    and "below nodes k r a" and "k \<le> 64"
  shows "\<exists>s. subtree_stats nodes direct (cn_id a) = Some s
     \<and> (bs_pinned s \<longleftrightarrow> (\<exists>m n. k + m \<le> 64 \<and> below nodes m a n \<and> cn_pinned n))
     \<and> \<not> (bs_pinned s \<and> auto_collapse_safe s env)"
proof -
  let ?s = "branch nodes direct (64 - k) a"
  have "subtree_stats nodes direct (cn_id a) = Some ?s"
    by (intro subtree_stats_rolled roll_roots_branch [OF assms])
  moreover have "a \<in> set nodes" using below_in [OF assms(4,2)] .
  then have "pinned_of nodes (cn_id n) = cn_pinned n" if "below nodes m a n" for m n
    using pinned_of_node [OF assms(1)] below_in [OF that] by simp
  then have "bs_pinned ?s \<longleftrightarrow> (\<exists>m n. k + m \<le> 64 \<and> below nodes m a n \<and> cn_pinned n)"
    using assms(5) unfolding branch_pinned by (metis add.commute le_diff_conv2)
  ultimately show ?thesis by (auto simp: auto_collapse_safe_def)
qed

text \<open>A root with one pinned child.\<close>

definition plain_node :: "string \<Rightarrow> rstr option \<Rightarrow> bool \<Rightarrow> class_node" where
  "plain_node i p pin =
     \<lparr>cn_id = lit i, cn_parent_id = p, cn_kind = lit ''node'', cn_title = lit i, cn_summary = None,
      cn_project_path = None, cn_ip_name = None, cn_status = lit ''accepted'', cn_pinned = pin,
      cn_curated_by = None, cn_created_at = 0, cn_updated_at = 0\<rparr>"

definition two_nodes :: "class_node list" where
  "two_nodes = [plain_node ''a'' None False, plain_node ''b'' (Some (lit ''a'')) True]"

theorem subtree_pins_are_exact_witness:
  "\<exists>s. subtree_stats two_nodes Map.empty (lit ''a'') = Some s \<and> bs_pinned s"
proof -
  let ?a = "plain_node ''a'' None False" and ?b = "plain_node ''b'' (Some (lit ''a'')) True"
  have ids: "distinct (map cn_id two_nodes)" by code_simp
  have a: "?a \<in> set two_nodes" "cn_parent_id ?a = None" "below two_nodes 0 ?a ?a" "(0::nat) \<le> 64"
    by (simp_all add: two_nodes_def plain_node_def)
  have "below two_nodes 1 ?a ?b" and "cn_pinned ?b"
    by (simp_all add: list_ex_iff kids_def two_nodes_def plain_node_def)
  then have "\<exists>m n. 0 + m \<le> 64 \<and> below two_nodes m ?a n \<and> cn_pinned n"
    by (intro exI [of _ 1] exI [of _ ?b]) simp
  moreover have "cn_id ?a = lit ''a''" by (simp add: plain_node_def)
  ultimately show ?thesis using subtree_pins_are_exact [OF ids a, of Map.empty] by metis
qed

end
