(* ===== verification/Query.thy ===== *)
theory Query
  imports Prelude
begin

text \<open>
  \<^verbatim>\<open>polis-core/src/query.rs\<close>: planning a raw question into FTS5 match strings.  The Unicode tables of
  the standard library are the parameters \<open>to_lower\<close> (\<^verbatim>\<open>str::to_lowercase\<close>) and \<open>alnum\<close>
  (\<^verbatim>\<open>char::is_alphanumeric\<close>).
\<close>

section \<open>The planner\<close>

definition STOPWORDS :: "rstr list" where
  "STOPWORDS = map lit
    [''a'', ''about'', ''after'', ''all'', ''also'', ''am'', ''an'', ''and'', ''any'', ''are'', ''as'',
     ''at'', ''be'', ''been'', ''before'', ''being'', ''but'', ''by'', ''can'', ''did'', ''do'',
     ''does'', ''doing'', ''for'', ''from'', ''had'', ''has'', ''have'', ''how'', ''i'', ''if'', ''in'',
     ''into'', ''is'', ''it'', ''its'', ''just'', ''me'', ''my'', ''of'', ''on'', ''or'', ''our'',
     ''out'', ''over'', ''same'', ''she'', ''so'', ''some'', ''than'', ''that'', ''the'', ''their'',
     ''them'', ''then'', ''there'', ''these'', ''they'', ''this'', ''to'', ''too'', ''up'', ''was'',
     ''we'', ''were'', ''what'', ''when'', ''where'', ''which'', ''while'', ''who'', ''why'', ''will'',
     ''with'', ''would'', ''you'', ''your'']"

text \<open>\<^verbatim>\<open>_ - . / @\<close>\<close>

definition TOKEN_CHARS :: "uchar list" where
  "TOKEN_CHARS = [95, 45, 46, 47, 64]"

definition MAX_TERMS :: nat where
  "MAX_TERMS = 12"

definition MIN_PREFIX_LEN :: nat where
  "MIN_PREFIX_LEN = 4"

datatype match_stage = StageAnd | StageOr | StageLike

fun match_stage_as_str :: "match_stage \<Rightarrow> rstr" where
  "match_stage_as_str StageAnd = lit ''and''"
| "match_stage_as_str StageOr = lit ''or''"
| "match_stage_as_str StageLike = lit ''like''"

record fts_plan =
  and_match :: rstr
  or_match :: rstr
  phrases :: "rstr list"
  terms :: "rstr list"
  all_stopwords :: bool

fun match_for :: "fts_plan \<Rightarrow> match_stage \<Rightarrow> rstr option" where
  "match_for p StageAnd = Some (and_match p)"
| "match_for p StageOr = Some (or_match p)"
| "match_for p StageLike = None"

definition quote :: "rstr \<Rightarrow> rstr" where
  "quote t = [34] @ replace_char 34 [34, 34] t @ [34]"

definition is_token_char :: "uchar \<Rightarrow> bool" where
  "is_token_char c \<longleftrightarrow> c \<in> set TOKEN_CHARS"

definition ascii_alphabetic :: "uchar \<Rightarrow> bool" where
  "ascii_alphabetic c \<longleftrightarrow> 65 \<le> c \<and> c \<le> 90 \<or> 97 \<le> c \<and> c \<le> 122"

definition trim_token :: "(uchar \<Rightarrow> bool) \<Rightarrow> rstr \<Rightarrow> rstr" where
  "trim_token alnum t =
     (if starts_with t [45, 45] \<and> list_ex alnum t then trim_end_by is_token_char t
      else trim_by is_token_char t)"

definition lone_letter :: "rstr \<Rightarrow> bool" where
  "lone_letter t \<longleftrightarrow> byte_len t = 1 \<and> list_all ascii_alphabetic t \<and> t \<notin> set STOPWORDS"

definition tokenize :: "(rstr \<Rightarrow> rstr) \<Rightarrow> (uchar \<Rightarrow> bool) \<Rightarrow> rstr \<Rightarrow> rstr list" where
  "tokenize to_lower alnum raw =
     (let all = filter (list_ex alnum)
                  (map (trim_token alnum)
                    (split_by (\<lambda>c. \<not> alnum c \<and> \<not> is_token_char c) (to_lower raw)));
          kept = filter (\<lambda>t. \<not> lone_letter t) all
      in if kept = [] then all else kept)"

text \<open>
  \<^verbatim>\<open>extract_phrases\<close>: text outside quotes is kept, a closed nonempty quotation becomes a lowercased
  phrase, and anything else quoted is folded back in, trimmed.
\<close>

function extract_phrases :: "(rstr \<Rightarrow> rstr) \<Rightarrow> rstr \<Rightarrow> rstr list \<times> rstr" where
  "extract_phrases to_lower [] = ([], [])"
| "extract_phrases to_lower (c # s) =
     (if c \<noteq> 34
      then (let (ps, rest) = extract_phrases to_lower s in (ps, c # rest))
      else
        let body = takeWhile (\<lambda>d. d \<noteq> 34) s;
            after = dropWhile (\<lambda>d. d \<noteq> 34) s;
            phrase = trim body;
            (ps, rest) = extract_phrases to_lower (tl after)
        in if after \<noteq> [] \<and> phrase \<noteq> [] then (to_lower phrase # ps, rest)
           else (ps, phrase @ rest))"
  by pat_completeness auto
termination
proof (relation "measure (\<lambda>(l, s). length s)")
  fix to_lower :: "rstr \<Rightarrow> rstr" and c :: nat and s x xa xb :: rstr
  assume "xa = dropWhile (\<lambda>d. d \<noteq> 34) s"
  then have "length (tl xa) \<le> length s" using length_dropWhile_le [of "\<lambda>d. d \<noteq> 34" s] by simp
  then show "((to_lower, tl xa), to_lower, c # s) \<in> measure (\<lambda>(l, s). length s)" by simp
qed auto

definition term_part :: "rstr \<Rightarrow> rstr" where
  "term_part t = (if MIN_PREFIX_LEN \<le> length t then quote t @ [42] else quote t)"

definition plan_fts_query :: "(rstr \<Rightarrow> rstr) \<Rightarrow> (uchar \<Rightarrow> bool) \<Rightarrow> rstr \<Rightarrow> fts_plan option" where
  "plan_fts_query to_lower alnum raw =
     (let (ps, rest) = extract_phrases to_lower raw;
          tokens = tokenize to_lower alnum rest;
          content = filter (\<lambda>t. t \<notin> set STOPWORDS) tokens;
          all_stop = (content = [] \<and> tokens \<noteq> []);
          ts = take MAX_TERMS (remdups_adj (if all_stop then tokens else content))
      in if ts = [] \<and> ps = [] then None
         else Some \<lparr>and_match = join (lit '' AND '') (map quote ps @ map quote ts),
                    or_match = join (lit '' OR '') (map quote ps @ map term_part ts),
                    phrases = ps, terms = ts, all_stopwords = all_stop\<rparr>)"

definition plan_query_with_context ::
  "(rstr \<Rightarrow> rstr) \<Rightarrow> (uchar \<Rightarrow> bool) \<Rightarrow> rstr \<Rightarrow> rstr option \<Rightarrow> fts_plan option" where
  "plan_query_with_context to_lower alnum raw prior_user_text =
     (let plan = plan_fts_query to_lower alnum raw;
          thin = (case plan of None \<Rightarrow> True | Some p \<Rightarrow> length (terms p) < 2 \<or> all_stopwords p)
      in if \<not> thin then plan
         else case prior_user_text of
                None \<Rightarrow> plan
              | Some prior \<Rightarrow>
                  if trim prior = [] then plan
                  else case plan_fts_query to_lower alnum (raw @ [32] @ prior) of
                         None \<Rightarrow> plan | Some p \<Rightarrow> Some p)"

definition looks_literal :: "fts_plan \<Rightarrow> rstr \<Rightarrow> bool" where
  "looks_literal plan raw \<longleftrightarrow>
     list_ex (\<lambda>p. 3 \<le> length p) (phrases plan)
     \<or> list_ex (\<lambda>t. starts_with (trim_start_by (\<lambda>c. c = 96 \<or> c = 39 \<or> c = 40) t) [45, 45])
         (split_whitespace (trim raw))
     \<or> contains (trim raw) [58, 58]
     \<or> list_ex (\<lambda>t. 3 \<le> length t
                     \<and> list_ex (\<lambda>c. is_token_char c \<or> c = 35 \<or> c = 40)
                         (take (length t - 2) (drop 1 t)))
         (terms plan)"

section \<open>Reading a match string back\<close>

text \<open>
  The FTS5 query grammar on the strings the planner can emit: string literals in double quotes, in
  which a doubled quote stands for one, each with an optional trailing \<open>*\<close>, joined by one operator.
  The reader is the specification: what it returns is what the index is asked for.
\<close>

fun scan_literal :: "rstr \<Rightarrow> (rstr \<times> rstr) option" where
  "scan_literal [] = None"
| "scan_literal (c # s) =
     (if c = 34
      then (case s of
              d # s' \<Rightarrow> if d = 34 then map_option (\<lambda>(t, r). (34 # t, r)) (scan_literal s') else Some ([], s)
            | [] \<Rightarrow> Some ([], []))
      else map_option (\<lambda>(t, r). (c # t, r)) (scan_literal s))"

fun read_item :: "rstr \<Rightarrow> ((rstr \<times> bool) \<times> rstr) option" where
  "read_item [] = None"
| "read_item (c # s) =
     (if c \<noteq> 34 then None
      else case scan_literal s of
             None \<Rightarrow> None
           | Some (t, r) \<Rightarrow>
               (case r of d # r' \<Rightarrow> if d = 42 then Some ((t, True), r') else Some ((t, False), r)
                        | [] \<Rightarrow> Some ((t, False), [])))"

text \<open>A list of items separated by the operator \<open>sep\<close>; the fuel is the length of the text.\<close>

fun read_items :: "nat \<Rightarrow> rstr \<Rightarrow> rstr \<Rightarrow> (rstr \<times> bool) list option" where
  "read_items 0 sep s = None"
| "read_items (Suc n) sep s =
     (case read_item s of
        None \<Rightarrow> None
      | Some (x, r) \<Rightarrow>
          if r = [] then Some [x]
          else if starts_with r sep then map_option ((#) x) (read_items n sep (drop (length sep) r))
          else None)"

lemma scan_literal_quoted:
  "r = [] \<or> hd r \<noteq> 34 \<Longrightarrow> scan_literal (replace_char 34 [34, 34] t @ 34 # r) = Some (t, r)"
proof (induction t)
  case Nil
  then show ?case by (cases r) (auto simp: replace_char_def)
next
  case (Cons c t)
  then show ?case by (auto simp: replace_char_def)
qed

lemma read_item_quote:
  assumes "r = [] \<or> (hd r \<noteq> 34 \<and> hd r \<noteq> 42)"
  shows "read_item (quote t @ r) = Some ((t, False), r)"
    and "read_item (quote t @ 42 # r) = Some ((t, True), r)"
  using assms scan_literal_quoted [of r t] scan_literal_quoted [of "42 # r" t]
  by (auto simp: quote_def split: list.splits)

lemma read_items_join:
  assumes sep: "sep \<noteq> []" "hd sep \<noteq> 34" "hd sep \<noteq> 42"
    and part: "\<And>x. x \<in> set xs \<Longrightarrow> part x = quote (name x) @ (if star x then [42] else [])"
  shows "xs \<noteq> [] \<Longrightarrow> length xs \<le> n \<Longrightarrow>
    read_items n sep (join sep (map part xs)) = Some (map (\<lambda>x. (name x, star x)) xs)"
  using part
proof (induction xs arbitrary: n)
  case (Cons x xs)
  obtain m where n: "n = Suc m" using Cons.prems by (cases n) auto
  have px: "part x = quote (name x) @ (if star x then [42] else [])" using Cons.prems by simp
  show ?case
  proof (cases "xs = []")
    case True
    then show ?thesis
      using read_item_quote [of "[]" "name x"] px by (simp add: n)
  next
    case False
    let ?rest = "sep @ join sep (map part xs)"
    have j: "join sep (map part (x # xs)) = part x @ ?rest" using False by (simp add: join_Cons)
    have "?rest = [] \<or> (hd ?rest \<noteq> 34 \<and> hd ?rest \<noteq> 42)" using sep by simp
    then have item: "read_item (part x @ ?rest) = Some ((name x, star x), ?rest)"
      using read_item_quote [of ?rest "name x"] by (auto simp: px)
    have "read_items m sep (join sep (map part xs)) = Some (map (\<lambda>x. (name x, star x)) xs)"
      using Cons.IH [of m] False Cons.prems n by simp
    moreover have "starts_with ?rest sep" by (auto simp: starts_with_iff)
    ultimately show ?thesis unfolding j n using sep by (simp add: item)
  qed
qed simp

text \<open>What a planned query asks the index for, in each stage.\<close>

definition asks :: "rstr \<Rightarrow> rstr \<Rightarrow> (rstr \<times> bool) list option" where
  "asks sep s = read_items (length s) sep s"

lemma length_join_le: "(\<And>x. x \<in> set xs \<Longrightarrow> x \<noteq> []) \<Longrightarrow> length xs \<le> length (join sep xs)"
proof (induction xs)
  case (Cons x xs)
  then have "1 \<le> length x" "length xs \<le> length (join sep xs)" by (auto simp: Suc_le_eq)
  then show ?case by (auto simp: join_Cons)
qed simp

lemma asks_join:
  assumes "sep \<noteq> []" "hd sep \<noteq> 34" "hd sep \<noteq> 42" and "xs \<noteq> []"
    and "\<And>x. x \<in> set xs \<Longrightarrow> part x = quote (name x) @ (if star x then [42] else [])"
  shows "asks sep (join sep (map part xs)) = Some (map (\<lambda>x. (name x, star x)) xs)"
proof -
  have "length (map part xs) \<le> length (join sep (map part xs))"
    using assms(5) by (intro length_join_le) (auto simp: quote_def)
  then show ?thesis unfolding asks_def by (intro read_items_join assms) simp_all
qed

section \<open>Properties\<close>

lemma tokens_alnum: "t \<in> set (tokenize to_lower alnum raw) \<Longrightarrow> list_ex alnum t"
  by (auto simp: tokenize_def Let_def split: if_splits)

lemma and_asks:
  assumes "ps @ ts \<noteq> []"
  shows "asks (lit '' AND '') (join (lit '' AND '') (map quote ps @ map quote ts))
      = Some (map (\<lambda>t. (t, False)) (ps @ ts))"
  using asks_join [of "lit '' AND ''" "ps @ ts" quote "\<lambda>t. t" "\<lambda>t. False"] assms
  by (simp add: lit_def)

lemma or_asks:
  assumes "ps @ ts \<noteq> []"
  shows "asks (lit '' OR '') (join (lit '' OR '') (map quote ps @ map term_part ts))
      = Some (map (\<lambda>t. (t, False)) ps @ map (\<lambda>t. (t, MIN_PREFIX_LEN \<le> length t)) ts)"
proof -
  let ?xs = "map (\<lambda>t. (t, False)) ps @ map (\<lambda>t. (t, MIN_PREFIX_LEN \<le> length t)) ts"
  let ?part = "\<lambda>(t, b). quote t @ (if b then [42] else [])"
  have eq: "map ?part ?xs = map quote ps @ map term_part ts" by (simp add: term_part_def)
  have "asks (lit '' OR '') (join (lit '' OR '') (map ?part ?xs)) = Some (map (\<lambda>x. (fst x, snd x)) ?xs)"
    using assms by (intro asks_join) (auto simp: lit_def)
  then show ?thesis unfolding eq by simp
qed

text \<open>
  C26. A planned query can only match literally.  Whatever the user typed, reading the planner's match
  strings back by the index's grammar yields exactly the phrases and terms, as literals: in the first
  stage joined by AND without wildcards, in the second joined by OR with a prefix wildcard exactly on
  the terms of four characters or more.  At most twelve terms are asked for, each with an
  alphanumeric character, stopwords only when nothing else survives; and there is no plan exactly
  when there is no phrase and no token.
\<close>

theorem planned_query_matches_literally:
  "case plan_fts_query to_lower alnum raw of
     None \<Rightarrow> fst (extract_phrases to_lower raw) = []
             \<and> tokenize to_lower alnum (snd (extract_phrases to_lower raw)) = []
   | Some p \<Rightarrow>
       asks (lit '' AND '') (and_match p) = Some (map (\<lambda>t. (t, False)) (phrases p @ terms p))
       \<and> asks (lit '' OR '') (or_match p)
           = Some (map (\<lambda>t. (t, False)) (phrases p) @ map (\<lambda>t. (t, 4 \<le> length t)) (terms p))
       \<and> phrases p @ terms p \<noteq> [] \<and> length (terms p) \<le> 12
       \<and> list_all (list_ex alnum) (terms p)
       \<and> list_all (\<lambda>t. t \<in> set STOPWORDS \<longleftrightarrow> all_stopwords p) (terms p)"
proof -
  obtain ps rest where e: "extract_phrases to_lower raw = (ps, rest)" by fastforce
  let ?tokens = "tokenize to_lower alnum rest"
  let ?content = "filter (\<lambda>t. t \<notin> set STOPWORDS) ?tokens"
  let ?all = "?content = [] \<and> ?tokens \<noteq> []"
  define ts where "ts = take MAX_TERMS (remdups_adj (if ?all then ?tokens else ?content))"
  have plan: "plan_fts_query to_lower alnum raw =
      (if ts = [] \<and> ps = [] then None
       else Some \<lparr>and_match = join (lit '' AND '') (map quote ps @ map quote ts),
                  or_match = join (lit '' OR '') (map quote ps @ map term_part ts),
                  phrases = ps, terms = ts, all_stopwords = ?all\<rparr>)"
    unfolding plan_fts_query_def e ts_def Let_def prod.case by (rule refl)
  have sub: "t \<in> set ts \<Longrightarrow> t \<in> set (if ?all then ?tokens else ?content)" for t
    unfolding ts_def by (metis in_set_takeD remdups_adj_set)
  have al: "list_all (list_ex alnum) ts"
    using sub tokens_alnum by (fastforce simp: list_all_iff split: if_splits)
  have stop: "list_all (\<lambda>t. t \<in> set STOPWORDS \<longleftrightarrow> ?all) ts"
    using sub by (fastforce simp: list_all_iff filter_empty_conv split: if_splits)
  have len: "length ts \<le> 12" by (simp add: ts_def MAX_TERMS_def)
  show ?thesis
  proof (cases "ts = [] \<and> ps = []")
    case True
    then have "(if ?all then ?tokens else ?content) = []" by (auto simp: ts_def MAX_TERMS_def split: if_splits)
    then have "?tokens = []" by (auto split: if_splits)
    with True show ?thesis unfolding plan e by simp
  next
    case False
    then have ne: "ps @ ts \<noteq> []" by auto
    show ?thesis
      unfolding plan if_not_P [OF False] option.case fts_plan.select_convs
      using and_asks [OF ne] or_asks [OF ne] ne al stop len by (simp add: MIN_PREFIX_LEN_def)
  qed
qed

text \<open>
  A question that stands on its own is never diluted with the previous turn: with two or more
  content terms the contextual plan is the plain plan; context can only replace a thin plan, and it
  never loses one.
\<close>

theorem context_only_helps_fragments:
  "let plan = plan_fts_query to_lower alnum raw; ctx = plan_query_with_context to_lower alnum raw prior
   in (case plan of
         None \<Rightarrow> True
       | Some p \<Rightarrow> ctx \<noteq> None \<and> (if 2 \<le> length (terms p) \<and> \<not> all_stopwords p then ctx = plan else True))
      \<and> (if prior = None then ctx = plan else True)"
  by (auto simp: plan_query_with_context_def Let_def split: option.splits)

text \<open>An unbalanced quote: the words on its two sides are fused into one token.\<close>

lemma unbalanced_quote_fuses_words:
  "extract_phrases (\<lambda>s. s) (lit ''5'' @ [34] @ lit '' screen'') = ([], lit ''5screen'')"
  by code_simp

end
