(* ===== verification/Pack.thy ===== *)
theory Pack
  imports Coldness Query "HOL-Library.Sublist"
begin

text \<open>
  \<^verbatim>\<open>polis-core/src/pack.rs\<close>: the answer pack, its byte budget, rank fusion over the retrieval arms and
  the evidence block rendered from it.
\<close>

section \<open>Small bounds\<close>

definition MAX_CONTEXT_BYTES :: nat where
  "MAX_CONTEXT_BYTES = 60000"

fun budget_loop :: "nat \<Rightarrow> nat \<Rightarrow> rstr option list \<Rightarrow> nat" where
  "budget_loop budget keep [] = keep"
| "budget_loop budget keep (body # bodies) =
     (let cost = 120 + (case body of None \<Rightarrow> 0 | Some b \<Rightarrow> byte_len b)
      in if keep > 0 \<and> cost > budget then keep
         else budget_loop (budget - cost) (keep + 1) bodies)"

definition budgeted_item_count :: "rstr option list \<Rightarrow> nat" where
  "budgeted_item_count bodies = budget_loop MAX_CONTEXT_BYTES 0 bodies"

definition ANSWER_PACK_LIMIT :: int where
  "ANSWER_PACK_LIMIT = 20"

definition ANSWER_PACK_LIMIT_MAX :: int where
  "ANSWER_PACK_LIMIT_MAX = 60"

definition clamp_answer_pack_limit :: "int option \<Rightarrow> int" where
  "clamp_answer_pack_limit raw =
     clamp 1 ANSWER_PACK_LIMIT_MAX (case raw of None \<Rightarrow> ANSWER_PACK_LIMIT | Some n \<Rightarrow> n)"

section \<open>The pack\<close>

datatype arm = ArmNode | ArmNote | ArmLexical | ArmGrep | ArmSemantic | ArmShared | ArmClaim | ArmNeighbor

fun arm_as_str :: "arm \<Rightarrow> rstr" where
  "arm_as_str ArmNode = lit ''node''"
| "arm_as_str ArmNote = lit ''note''"
| "arm_as_str ArmLexical = lit ''lexical''"
| "arm_as_str ArmGrep = lit ''grep''"
| "arm_as_str ArmSemantic = lit ''semantic''"
| "arm_as_str ArmShared = lit ''shared''"
| "arm_as_str ArmClaim = lit ''claim''"
| "arm_as_str ArmNeighbor = lit ''neighbor''"

record arm_hit =
  ah_arm :: arm
  ah_rank :: nat
  ah_score :: f64_bits

record pack_link =
  pl_link :: class_link
  pl_label :: "rstr option"
  pl_superseded_by :: "int option"

record pack_node =
  pn_node :: class_node
  pn_children :: "class_node list"
  pn_grandchildren :: "class_node list"
  pn_links :: "pack_link list"
  pn_observations :: "class_observation list"

record pack_prompt_hit =
  pp_item :: lake_item
  pp_superseded_by :: "int option"
  pp_duplicate_of :: "int list"
  pp_stage :: rstr
  pp_arms :: "arm_hit list"

record arm_coverage =
  ac_arm :: arm
  ac_ran :: bool
  ac_hits :: nat
  ac_absent_because :: "rstr option"

record foreign_hit =
  fh_chain_id :: rstr
  fh_source :: rstr
  fh_seq :: int
  fh_role :: rstr
  fh_redaction :: rstr
  fh_text :: "rstr option"
  fh_project :: "rstr option"
  fh_arms :: "arm_hit list"
  fh_score :: f64_bits

definition cite :: "foreign_hit \<Rightarrow> rstr" where
  "cite h = fh_chain_id h @ [58] @ show_int (fh_seq h)"

record index_readiness =
  ix_model :: "rstr option"
  ix_eligible_sources :: nat
  ix_indexed_sources :: nat
  ix_pending_sources :: nat

record retrieval_report =
  rr_version :: rstr
  rr_candidate_limit :: nat
  rr_candidates_considered :: nat
  rr_candidates_returned :: nat
  rr_snapshot_hash :: rstr
  rr_continuation :: "rstr option"
  rr_trace_id :: "rstr option"
  rr_errors :: "rstr list"
  rr_timings_us :: "(rstr \<times> nat) list"
  rr_index :: index_readiness

record answer_pack =
  ap_head_seq :: int
  ap_query :: "rstr option"
  ap_node :: "pack_node option"
  ap_matched_nodes :: "class_node list"
  ap_notes :: "user_note list"
  ap_prompt_hits :: "pack_prompt_hit list"
  ap_browse_hits :: "browse_hit list"
  ap_grep_hits :: "grep_hit list"
  ap_arm_coverage :: "arm_coverage list"
  ap_truncated :: "rstr list"
  ap_shared_hits :: "foreign_hit list"
  ap_retrieval :: retrieval_report
  ap_claims :: "claim list"

section \<open>The byte budget\<close>

definition clip_line :: "rstr \<Rightarrow> nat \<Rightarrow> rstr" where
  "clip_line s limit =
     (let one = replace_char 10 [32] s
      in if length one \<le> limit then one else take limit one @ [8230])"

text \<open>The eleven lists the budget trims, in the order of the \<^verbatim>\<open>steps\<close> table.\<close>

datatype part =
  BrowseHits | PromptHits | Links | GrepHits | Claims | SharedHits | MatchedNodes | Observations
  | Grandchildren | Children | Notes

definition parts :: "part list" where
  "parts = [BrowseHits, PromptHits, Links, GrepHits, Claims, SharedHits, MatchedNodes, Observations,
            Grandchildren, Children, Notes]"

fun part_name :: "part \<Rightarrow> rstr" where
  "part_name BrowseHits = lit ''browseHits''"
| "part_name PromptHits = lit ''promptHits''"
| "part_name Links = lit ''links''"
| "part_name GrepHits = lit ''grepHits''"
| "part_name Claims = lit ''claims''"
| "part_name SharedHits = lit ''sharedHits''"
| "part_name MatchedNodes = lit ''matchedNodes''"
| "part_name Observations = lit ''observations''"
| "part_name Grandchildren = lit ''grandchildren''"
| "part_name Children = lit ''children''"
| "part_name Notes = lit ''notes''"

definition node_len :: "(pack_node \<Rightarrow> 'a list) \<Rightarrow> answer_pack \<Rightarrow> nat" where
  "node_len f p = (case ap_node p of None \<Rightarrow> 0 | Some n \<Rightarrow> length (f n))"

fun part_len :: "part \<Rightarrow> answer_pack \<Rightarrow> nat" where
  "part_len BrowseHits p = length (ap_browse_hits p)"
| "part_len PromptHits p = length (ap_prompt_hits p)"
| "part_len Links p = node_len pn_links p"
| "part_len GrepHits p = length (ap_grep_hits p)"
| "part_len Claims p = length (ap_claims p)"
| "part_len SharedHits p = length (ap_shared_hits p)"
| "part_len MatchedNodes p = length (ap_matched_nodes p)"
| "part_len Observations p = node_len pn_observations p"
| "part_len Grandchildren p = node_len pn_grandchildren p"
| "part_len Children p = node_len pn_children p"
| "part_len Notes p = length (ap_notes p)"

text \<open>\<^verbatim>\<open>truncate(len - n)\<close> of the list, which keeps its front.\<close>

definition cut :: "nat \<Rightarrow> 'a list \<Rightarrow> 'a list" where
  "cut n xs = take (length xs - n) xs"

fun part_drop :: "part \<Rightarrow> nat \<Rightarrow> answer_pack \<Rightarrow> answer_pack" where
  "part_drop BrowseHits n p = p\<lparr>ap_browse_hits := cut n (ap_browse_hits p)\<rparr>"
| "part_drop PromptHits n p = p\<lparr>ap_prompt_hits := cut n (ap_prompt_hits p)\<rparr>"
| "part_drop Links n p = p\<lparr>ap_node := map_option (\<lambda>d. d\<lparr>pn_links := cut n (pn_links d)\<rparr>) (ap_node p)\<rparr>"
| "part_drop GrepHits n p = p\<lparr>ap_grep_hits := cut n (ap_grep_hits p)\<rparr>"
| "part_drop Claims n p = p\<lparr>ap_claims := cut n (ap_claims p)\<rparr>"
| "part_drop SharedHits n p = p\<lparr>ap_shared_hits := cut n (ap_shared_hits p)\<rparr>"
| "part_drop MatchedNodes n p = p\<lparr>ap_matched_nodes := cut n (ap_matched_nodes p)\<rparr>"
| "part_drop Observations n p =
     p\<lparr>ap_node := map_option (\<lambda>d. d\<lparr>pn_observations := cut n (pn_observations d)\<rparr>) (ap_node p)\<rparr>"
| "part_drop Grandchildren n p =
     p\<lparr>ap_node := map_option (\<lambda>d. d\<lparr>pn_grandchildren := cut n (pn_grandchildren d)\<rparr>) (ap_node p)\<rparr>"
| "part_drop Children n p =
     p\<lparr>ap_node := map_option (\<lambda>d. d\<lparr>pn_children := cut n (pn_children d)\<rparr>) (ap_node p)\<rparr>"
| "part_drop Notes n p = p\<lparr>ap_notes := cut n (ap_notes p)\<rparr>"

definition push_truncated :: "rstr \<Rightarrow> answer_pack \<Rightarrow> answer_pack" where
  "push_truncated name p = p\<lparr>ap_truncated := ap_truncated p @ [name]\<rparr>"

definition note_truncated :: "rstr \<Rightarrow> answer_pack \<Rightarrow> answer_pack" where
  "note_truncated name p = (if name \<in> set (ap_truncated p) then p else push_truncated name p)"

definition ARM_FLOOR :: nat where
  "ARM_FLOOR = 1"

lemma length_cut [simp]: "length (cut n xs) = length xs - n"
  by (simp add: cut_def)

lemma part_len_drop: "part_len x (part_drop y n p) = (if x = y then part_len x p - n else part_len x p)"
  by (cases y; cases x) (simp_all add: node_len_def split: option.splits)

text \<open>
  Pass one's loop on one list: while the pack is too big and the list is above its floor, a quarter of
  the excess is dropped, at least one entry.  \<open>size_of\<close> is the length of the serialised pack.
\<close>

function trim_to_floor :: "(answer_pack \<Rightarrow> nat) \<Rightarrow> nat \<Rightarrow> part \<Rightarrow> answer_pack \<Rightarrow> bool \<times> answer_pack" where
  "trim_to_floor size_of max_bytes x p =
     (if size_of p > max_bytes \<and> part_len x p > ARM_FLOOR
      then let over = part_len x p - ARM_FLOOR
           in (True, snd (trim_to_floor size_of max_bytes x (part_drop x (min (max (over div 4) 1) over) p)))
      else (False, p))"
  by pat_completeness auto
termination
  by (relation "measure (\<lambda>(s, m, x, p). part_len x p)") (auto simp: part_len_drop ARM_FLOOR_def)

declare trim_to_floor.simps [simp del]

fun pass_one :: "(answer_pack \<Rightarrow> nat) \<Rightarrow> nat \<Rightarrow> part list \<Rightarrow> answer_pack \<Rightarrow> answer_pack" where
  "pass_one size_of max_bytes [] p = p"
| "pass_one size_of max_bytes (x # xs) p =
     (let (was_cut, q) = trim_to_floor size_of max_bytes x p;
          r = (if was_cut then note_truncated (part_name x) q else q)
      in if size_of r \<le> max_bytes then r else pass_one size_of max_bytes xs r)"

text \<open>Pass two's loop: the floor gives, one entry at a time.\<close>

function drain :: "(answer_pack \<Rightarrow> nat) \<Rightarrow> nat \<Rightarrow> part \<Rightarrow> answer_pack \<Rightarrow> answer_pack" where
  "drain size_of max_bytes x p =
     (if size_of p > max_bytes \<and> part_len x p > 0
      then drain size_of max_bytes x (note_truncated (part_name x) (part_drop x 1 p))
      else p)"
  by pat_completeness auto
termination
proof (relation "measure (\<lambda>(s, m, x, p). part_len x p)")
  fix size_of :: "answer_pack \<Rightarrow> nat" and max_bytes x p
  assume "size_of p > max_bytes \<and> part_len x p > 0"
  moreover have "part_len x (note_truncated name q) = part_len x q" for name q
    by (cases x) (simp_all add: note_truncated_def push_truncated_def node_len_def)
  ultimately show "((size_of, max_bytes, x, note_truncated (part_name x) (part_drop x 1 p)),
      size_of, max_bytes, x, p) \<in> measure (\<lambda>(s, m, x, p). part_len x p)"
    by (simp add: part_len_drop)
qed simp

declare drain.simps [simp del]

fun pass_two :: "(answer_pack \<Rightarrow> nat) \<Rightarrow> nat \<Rightarrow> part list \<Rightarrow> answer_pack \<Rightarrow> answer_pack" where
  "pass_two size_of max_bytes [] p = p"
| "pass_two size_of max_bytes (x # xs) p =
     (let q = drain size_of max_bytes x p
      in if size_of q \<le> max_bytes then q else pass_two size_of max_bytes xs q)"

text \<open>What is left is metadata: the node, the query, and the clipping of diagnostics.\<close>

definition clip_metadata :: "answer_pack \<Rightarrow> answer_pack" where
  "clip_metadata p =
     p\<lparr>ap_arm_coverage :=
         map (\<lambda>a. a\<lparr>ac_absent_because := map_option (\<lambda>s. clip_line s 120) (ac_absent_because a)\<rparr>)
           (ap_arm_coverage p),
       ap_retrieval := (ap_retrieval p)
         \<lparr>rr_errors := map (\<lambda>s. clip_line s 120) (take 8 (rr_errors (ap_retrieval p)))\<rparr>\<rparr>"

definition strip_metadata :: "(answer_pack \<Rightarrow> nat) \<Rightarrow> nat \<Rightarrow> answer_pack \<Rightarrow> answer_pack" where
  "strip_metadata size_of max_bytes p =
     (let q = (if size_of p > max_bytes \<and> ap_node p \<noteq> None
               then push_truncated (lit ''node'') (p\<lparr>ap_node := None\<rparr>) else p);
          r = (if size_of q > max_bytes \<and> ap_query q \<noteq> None
               then push_truncated (lit ''query'') (q\<lparr>ap_query := None\<rparr>) else q)
      in if size_of r > max_bytes then clip_metadata r else r)"

definition enforce_pack_budget_bytes :: "(answer_pack \<Rightarrow> nat) \<Rightarrow> nat \<Rightarrow> answer_pack \<Rightarrow> answer_pack" where
  "enforce_pack_budget_bytes size_of max_bytes p =
     (if size_of p \<le> max_bytes then p
      else
        let q = pass_one size_of max_bytes parts p
        in if size_of q \<le> max_bytes then q
           else
             let r = pass_two size_of max_bytes parts q
             in if size_of r \<le> max_bytes then r else strip_metadata size_of max_bytes r)"

definition enforce_pack_budget :: "(answer_pack \<Rightarrow> nat) \<Rightarrow> answer_pack \<Rightarrow> answer_pack" where
  "enforce_pack_budget size_of p = enforce_pack_budget_bytes size_of MAX_CONTEXT_BYTES p"


subsection \<open>What trimming does\<close>

text \<open>
  A list is only ever shortened from its end, the node's own row is only ever dropped whole, and a
  shortened list is named in \<^verbatim>\<open>truncated\<close>.
\<close>

definition node_fronts :: "pack_node \<Rightarrow> pack_node \<Rightarrow> bool" where
  "node_fronts d e \<longleftrightarrow> pn_node e = pn_node d \<and> prefix (pn_children e) (pn_children d)
     \<and> prefix (pn_grandchildren e) (pn_grandchildren d) \<and> prefix (pn_links e) (pn_links d)
     \<and> prefix (pn_observations e) (pn_observations d)"

definition only_fronts :: "answer_pack \<Rightarrow> answer_pack \<Rightarrow> bool" where
  "only_fronts p q \<longleftrightarrow> ap_head_seq q = ap_head_seq p \<and> ap_query q \<in> {None, ap_query p}
     \<and> (case ap_node q of None \<Rightarrow> True
        | Some e \<Rightarrow> (case ap_node p of None \<Rightarrow> False | Some d \<Rightarrow> node_fronts d e))
     \<and> prefix (ap_matched_nodes q) (ap_matched_nodes p) \<and> prefix (ap_notes q) (ap_notes p)
     \<and> prefix (ap_prompt_hits q) (ap_prompt_hits p) \<and> prefix (ap_browse_hits q) (ap_browse_hits p)
     \<and> prefix (ap_grep_hits q) (ap_grep_hits p) \<and> prefix (ap_shared_hits q) (ap_shared_hits p)
     \<and> prefix (ap_claims q) (ap_claims p) \<and> prefix (ap_truncated p) (ap_truncated q)"

definition names_cuts :: "answer_pack \<Rightarrow> answer_pack \<Rightarrow> bool" where
  "names_cuts p q \<longleftrightarrow>
     (\<forall>x. part_len x q \<le> part_len x p \<and> (part_len x q < part_len x p \<longrightarrow> part_name x \<in> set (ap_truncated q)))"

lemma cut_cut [simp]: "cut m (cut n xs) = cut (n + m) xs"
  by (simp add: cut_def)

lemma cut_0 [simp]: "cut 0 xs = xs"
  by (simp add: cut_def)

lemma prefix_cut: "prefix (cut n xs) xs"
  by (simp add: cut_def take_is_prefix)

lemma prefix_cutI: "prefix xs ys \<Longrightarrow> prefix (cut n xs) ys"
  using prefix_cut prefix_order.trans by blast

lemma part_drop_drop [simp]: "part_drop x m (part_drop x n p) = part_drop x (n + m) p"
  by (cases x) (simp_all add: option.map_comp comp_def)

lemma push_truncated_parts [simp]: "part_len x (push_truncated name p) = part_len x p"
  by (cases x) (simp_all add: push_truncated_def node_len_def)

lemma note_truncated_parts [simp]: "part_len x (note_truncated name p) = part_len x p"
  by (simp add: note_truncated_def)

lemma note_truncated_set [simp]: "set (ap_truncated (note_truncated name p)) = insert name (set (ap_truncated p))"
  by (auto simp: note_truncated_def push_truncated_def)

lemma part_drop_truncated [simp]: "ap_truncated (part_drop x n p) = ap_truncated p"
  by (cases x) simp_all

lemma part_drop_note [simp]:
  "part_drop x n (note_truncated name p) = note_truncated name (part_drop x n p)"
  by (cases x) (simp_all add: note_truncated_def push_truncated_def)

lemma note_note [simp]: "note_truncated name (note_truncated name p) = note_truncated name p"
  by (simp add: note_truncated_def push_truncated_def)

lemma only_fronts_refl [simp]: "only_fronts p p"
  by (auto simp: only_fronts_def node_fronts_def split: option.splits)

lemma only_fronts_note: "only_fronts p q \<Longrightarrow> only_fronts p (note_truncated name q)"
  by (auto simp: only_fronts_def note_truncated_def push_truncated_def intro: prefix_prefix)

lemma only_fronts_drop: "only_fronts p q \<Longrightarrow> only_fronts p (part_drop x n q)"
  by (cases x)
    (auto simp: only_fronts_def node_fronts_def intro: prefix_cutI split: option.splits)

definition fair_trim :: "answer_pack \<Rightarrow> answer_pack \<Rightarrow> bool" where
  "fair_trim p q \<longleftrightarrow> only_fronts p q \<and> names_cuts p q"

lemma fair_trim_refl: "fair_trim p p"
  by (simp add: fair_trim_def names_cuts_def)

lemma fair_trim_step:
  assumes "fair_trim p q"
  shows "fair_trim p (note_truncated (part_name x) (part_drop x n q))"
  using assms unfolding fair_trim_def names_cuts_def
  by (auto intro!: only_fronts_note only_fronts_drop simp: part_len_drop le_diff_conv
      intro: trans_le_add1)

lemma part_drop_0: "part_drop x 0 p = p"
  by (cases x) (simp_all add: option.map_ident_strong)

lemma trim_to_floor_form:
  "trim_to_floor size_of m x p = (b, q) \<Longrightarrow>
     (if b then part_len x q < part_len x p else q = p) \<and> (\<exists>k. q = part_drop x k p)
     \<and> (size_of q \<le> m \<or> part_len x q \<le> 1)"
proof (induction size_of m x p arbitrary: b q rule: trim_to_floor.induct)
  case (1 size_of m x p)
  show ?case
  proof (cases "size_of p > m \<and> part_len x p > ARM_FLOOR")
    case False
    then have "b = False" "q = p" using 1(2) by (auto simp: trim_to_floor.simps [of size_of m x p])
    moreover have "p = part_drop x 0 p" by (simp add: part_drop_0)
    ultimately show ?thesis using False by (auto simp: ARM_FLOOR_def)
  next
    case True
    define n where "n = min (max ((part_len x p - ARM_FLOOR) div 4) 1) (part_len x p - ARM_FLOOR)"
    have n: "0 < n" "n < part_len x p" using True by (auto simp: n_def ARM_FLOOR_def)
    obtain b' where t: "trim_to_floor size_of m x (part_drop x n p) = (b', q)" and b: "b"
      using 1(2) True unfolding trim_to_floor.simps [of size_of m x p] n_def Let_def
      by (cases "trim_to_floor size_of m x (part_drop x n p)") (auto simp: n_def)
    have IH: "(if b' then part_len x q < part_len x (part_drop x n p) else q = part_drop x n p)
        \<and> (\<exists>k. q = part_drop x k (part_drop x n p)) \<and> (size_of q \<le> m \<or> part_len x q \<le> 1)"
      unfolding n_def by (rule 1(1) [OF True refl t [unfolded n_def]])
    then have "part_len x q < part_len x p" using n by (auto simp: part_len_drop split: if_splits)
    with IH b show ?thesis by auto
  qed
qed

lemma trim_to_floor_keeps: "0 < part_len x p \<Longrightarrow> 0 < part_len x (snd (trim_to_floor size_of m x p))"
proof (induction size_of m x p rule: trim_to_floor.induct)
  case (1 size_of m x p)
  then show ?case
    by (subst trim_to_floor.simps) (auto simp: Let_def ARM_FLOOR_def part_len_drop)
qed

lemma drain_form:
  "(drain size_of m x p = p \<or> (\<exists>k. drain size_of m x p = note_truncated (part_name x) (part_drop x k p)))
   \<and> (size_of (drain size_of m x p) \<le> m \<or> part_len x (drain size_of m x p) = 0)"
proof (induction size_of m x p rule: drain.induct)
  case (1 size_of m x p)
  let ?p = "note_truncated (part_name x) (part_drop x 1 p)"
  show ?case
  proof (cases "size_of p > m \<and> part_len x p > 0")
    case True
    then have d: "drain size_of m x p = drain size_of m x ?p" by (subst drain.simps) simp
    have "(\<exists>k. drain size_of m x p = note_truncated (part_name x) (part_drop x k p))"
      using 1 [OF True] unfolding d by auto
    then show ?thesis using 1 [OF True] unfolding d by auto
  next
    case False
    then have "drain size_of m x p = p" by (subst drain.simps) auto
    then show ?thesis using False by auto
  qed
qed

lemma pass_one_fair:
  "fair_trim p q \<Longrightarrow> fair_trim p (pass_one size_of m xs q)"
proof (induction xs arbitrary: q)
  case (Cons x xs)
  obtain b r where t: "trim_to_floor size_of m x q = (b, r)" by fastforce
  let ?r = "if b then note_truncated (part_name x) r else r"
  have "fair_trim p ?r"
    using trim_to_floor_form [OF t] fair_trim_step [OF Cons.prems] Cons.prems by (cases b) auto
  then show ?case using Cons.IH t by (simp add: Let_def)
qed simp

lemma pass_two_fair:
  "fair_trim p q \<Longrightarrow> fair_trim p (pass_two size_of m xs q)"
proof (induction xs arbitrary: q)
  case (Cons x xs)
  have "fair_trim p (drain size_of m x q)"
    using drain_form [of size_of m x q] Cons.prems fair_trim_step [OF Cons.prems] by metis
  then show ?case using Cons.IH by (simp add: Let_def)
qed simp

lemma pass_one_others: "x \<notin> set xs \<Longrightarrow> part_len x (pass_one size_of m xs q) = part_len x q"
proof (induction xs arbitrary: q)
  case (Cons y xs)
  obtain b r where t: "trim_to_floor size_of m y q = (b, r)" by fastforce
  have "part_len x (if b then note_truncated (part_name y) r else r) = part_len x q"
    using trim_to_floor_form [OF t] Cons.prems by (auto simp: part_len_drop)
  with Cons.IH Cons.prems t show ?case by (simp add: Let_def)
qed simp

lemma pass_one_keeps: "0 < part_len x q \<Longrightarrow> 0 < part_len x (pass_one size_of m xs q)"
proof (induction xs arbitrary: q)
  case (Cons y xs)
  obtain b r where t: "trim_to_floor size_of m y q = (b, r)" by fastforce
  have "0 < part_len x (if b then note_truncated (part_name y) r else r)"
  proof (cases "x = y")
    case True
    then show ?thesis using trim_to_floor_keeps [of x q size_of m] t Cons.prems by simp
  next
    case False
    then show ?thesis using trim_to_floor_form [OF t] Cons.prems by (auto simp: part_len_drop)
  qed
  with Cons.IH t show ?case by (simp add: Let_def)
qed simp

text \<open>Pass one leaves a list above its floor only when it has cut it.\<close>

lemma pass_one_floor:
  assumes "distinct xs" and "size_of (pass_one size_of m xs q) > m" and "x \<in> set xs"
  shows "part_len x (pass_one size_of m xs q) \<le> 1
     \<or> part_len x (pass_one size_of m xs q) < part_len x q"
  using assms
proof (induction xs arbitrary: q)
  case (Cons y xs)
  obtain b r where t: "trim_to_floor size_of m y q = (b, r)" by fastforce
  let ?r = "if b then note_truncated (part_name y) r else r"
  have big: "size_of ?r > m" and eq: "pass_one size_of m (y # xs) q = pass_one size_of m xs ?r"
    using Cons.prems(2) t by (auto simp: Let_def split: if_splits)
  note form = trim_to_floor_form [OF t]
  show ?case
  proof (cases "x = y")
    case True
    then have "part_len x (pass_one size_of m xs ?r) = part_len x ?r"
      using Cons.prems(1) by (intro pass_one_others) simp
    moreover have "part_len x ?r \<le> 1 \<or> part_len x ?r < part_len x q"
      using form big True by (cases b) auto
    ultimately show ?thesis unfolding eq by simp
  next
    case False
    then have "part_len x ?r = part_len x q" using form by (auto simp: part_len_drop)
    then show ?thesis
      using Cons.IH [of ?r] Cons.prems False unfolding eq by simp
  qed
qed simp

lemma pass_two_others: "x \<notin> set xs \<Longrightarrow> part_len x (pass_two size_of m xs q) = part_len x q"
proof (induction xs arbitrary: q)
  case (Cons y xs)
  have "part_len x (drain size_of m y q) = part_len x q"
    using drain_form [of size_of m y q] Cons.prems by (auto simp: part_len_drop)
  with Cons show ?case by (simp add: Let_def)
qed simp

lemma pass_two_empties:
  assumes "distinct xs" and "size_of (pass_two size_of m xs q) > m" and "x \<in> set xs"
  shows "part_len x (pass_two size_of m xs q) = 0"
  using assms
proof (induction xs arbitrary: q)
  case (Cons y xs)
  let ?r = "drain size_of m y q"
  have big: "size_of ?r > m" and eq: "pass_two size_of m (y # xs) q = pass_two size_of m xs ?r"
    using Cons.prems(2) by (auto simp: Let_def split: if_splits)
  show ?case
  proof (cases "x = y")
    case True
    then have "part_len x (pass_two size_of m xs ?r) = part_len x ?r"
      using Cons.prems(1) by (intro pass_two_others) simp
    then show ?thesis using drain_form [of size_of m y q] big True unfolding eq by auto
  next
    case False
    then show ?thesis using Cons.IH [of ?r] Cons.prems unfolding eq by simp
  qed
qed simp

lemma parts_distinct [simp]: "distinct parts" and parts_all [simp]: "x \<in> set parts"
  by (code_simp, cases x, simp_all add: parts_def)

text \<open>The node goes only when its lists are already empty, so no list shrinks unnamed.\<close>

lemma strip_metadata_fair:
  assumes "fair_trim p q" and "\<And>x. part_len x q = 0" and "size_of q > m"
  shows "fair_trim p (strip_metadata size_of m q)
     \<and> (\<forall>x. part_len x (strip_metadata size_of m q) = 0)
     \<and> (size_of (strip_metadata size_of m q) \<le> m
        \<or> ap_node (strip_metadata size_of m q) = None \<and> ap_query (strip_metadata size_of m q) = None)"
proof -
  define q1 where "q1 = (if ap_node q \<noteq> None then push_truncated (lit ''node'') (q\<lparr>ap_node := None\<rparr>) else q)"
  define q2 where "q2 = (if size_of q1 > m \<and> ap_query q1 \<noteq> None
    then push_truncated (lit ''query'') (q1\<lparr>ap_query := None\<rparr>) else q1)"
  define q3 where "q3 = (if size_of q2 > m then clip_metadata q2 else q2)"
  have eq: "strip_metadata size_of m q = q3"
    using assms(3) by (simp add: strip_metadata_def q1_def q2_def q3_def Let_def)
  have drop_node: "part_len x (r\<lparr>ap_node := None\<rparr>) \<le> part_len x r"
    and drop_query: "part_len x (r\<lparr>ap_query := None\<rparr>) = part_len x r"
    and clip: "part_len x (clip_metadata r) = part_len x r" for x r
    by (cases x; simp add: node_len_def clip_metadata_def)+
  have z1: "part_len x q1 = 0" for x
    using assms(2) [of x] drop_node [of x q] by (auto simp: q1_def)
  then have z2: "part_len x q2 = 0" for x by (auto simp: q2_def drop_query)
  then have z3: "part_len x q3 = 0" for x by (simp add: q3_def clip)
  have fronts: "only_fronts p q1" "only_fronts p q2" "only_fronts p q3"
  proof -
    show 1: "only_fronts p q1"
      using assms(1) by (auto simp: q1_def fair_trim_def only_fronts_def push_truncated_def intro: prefix_prefix)
    show 2: "only_fronts p q2"
      using 1 by (auto simp: q2_def only_fronts_def push_truncated_def intro: prefix_prefix)
    show "only_fronts p q3"
      using 2 by (auto simp: q3_def only_fronts_def clip_metadata_def)
  qed
  have "set (ap_truncated q) \<subseteq> set (ap_truncated q3)"
    by (auto simp: q1_def q2_def q3_def push_truncated_def clip_metadata_def)
  then have "names_cuts p q3"
    using assms(1,2) z3 unfolding fair_trim_def names_cuts_def by auto
  moreover have "size_of q3 \<le> m \<or> ap_node q3 = None \<and> ap_query q3 = None"
  proof -
    have "ap_node q1 = None" by (simp add: q1_def push_truncated_def)
    moreover have "size_of q2 \<le> m \<or> ap_query q2 = None" by (auto simp: q2_def push_truncated_def)
    moreover have "ap_node q2 = ap_node q1" by (simp add: q2_def push_truncated_def)
    ultimately show ?thesis by (auto simp: q3_def clip_metadata_def)
  qed
  ultimately show ?thesis using fronts(3) z3 unfolding eq fair_trim_def by auto
qed

text \<open>
  C27. The byte budget.  For any way of measuring the serialised pack: the trimmed pack fits the budget
  unless everything that can be dropped was dropped; every list is a front part of the original and
  the head, the query and the node row are kept or dropped whole; every shortened list is named in
  \<^verbatim>\<open>truncated\<close>; and no list is emptied while another, untouched, still holds more than one entry.
\<close>

theorem pack_budget_is_fair:
  "let q = enforce_pack_budget_bytes size_of max_bytes p in
     (size_of q \<le> max_bytes
      \<or> list_all (\<lambda>x. part_len x q = 0) parts \<and> ap_node q = None \<and> ap_query q = None)
     \<and> only_fronts p q
     \<and> set (map part_name (filter (\<lambda>x. part_len x q < part_len x p) parts)) \<subseteq> set (ap_truncated q)
     \<and> (if list_ex (\<lambda>x. 0 < part_len x p \<and> part_len x q = 0) parts
        then list_all (\<lambda>y. part_len y q \<le> 1 \<or> part_len y q < part_len y p) parts else True)"
proof -
  define q1 where "q1 = pass_one size_of max_bytes parts p"
  define q2 where "q2 = pass_two size_of max_bytes parts q1"
  define q where "q = enforce_pack_budget_bytes size_of max_bytes p"
  have f1: "fair_trim p q1" unfolding q1_def by (intro pass_one_fair fair_trim_refl)
  have f2: "fair_trim p q2" unfolding q2_def by (intro pass_two_fair f1)
  have fair: "fair_trim p q
      \<and> (size_of q \<le> max_bytes \<or> (\<forall>x. part_len x q = 0) \<and> ap_node q = None \<and> ap_query q = None)
      \<and> ((\<exists>x. 0 < part_len x p \<and> part_len x q = 0) \<longrightarrow> (\<forall>y. part_len y q \<le> 1 \<or> part_len y q < part_len y p))"
  proof (cases "size_of p \<le> max_bytes \<or> size_of q1 \<le> max_bytes")
    case True
    then have q: "q = p \<or> q = q1" and small: "size_of q \<le> max_bytes"
      by (auto simp: q_def enforce_pack_budget_bytes_def q1_def Let_def)
    have "part_len x q \<noteq> 0" if "0 < part_len x p" for x
      using q pass_one_keeps [OF that] that by (auto simp: q1_def)
    moreover have "fair_trim p q" using q f1 fair_trim_refl by blast
    ultimately show ?thesis using small by blast
  next
    case False
    then have q: "q = (if size_of q2 \<le> max_bytes then q2 else strip_metadata size_of max_bytes q2)"
      by (simp add: q_def enforce_pack_budget_bytes_def q1_def q2_def Let_def)
    have floor: "part_len y q1 \<le> 1 \<or> part_len y q1 < part_len y p" for y
      using False unfolding q1_def by (intro pass_one_floor) simp_all
    have "fair_trim q1 q2" unfolding q2_def by (intro pass_two_fair fair_trim_refl)
    then have le: "part_len y q2 \<le> part_len y q1" for y by (simp add: fair_trim_def names_cuts_def)
    show ?thesis
    proof (cases "size_of q2 \<le> max_bytes")
      case True
      have "part_len y q2 \<le> 1 \<or> part_len y q2 < part_len y p" for y
        using floor [of y] le [of y] by linarith
      then show ?thesis using q f2 True by simp
    next
      case big: False
      have "part_len x q2 = 0" for x
        using big unfolding q2_def by (intro pass_two_empties) simp_all
      then show ?thesis using strip_metadata_fair [OF f2, where size_of = size_of and m = max_bytes] big q by simp
    qed
  qed
  then show ?thesis
    unfolding q_def [symmetric] Let_def fair_trim_def names_cuts_def by (auto simp: list_all_iff list_ex_iff)
qed

text \<open>
  The name pushed into \<^verbatim>\<open>truncated\<close> counts towards the budget but is pushed after the list's loop
  ended, so the floor of one list can give while another list is still above it.  Here the size is
  ten per entry and five per name.
\<close>

definition plain_hit :: browse_hit where
  "plain_hit = \<lparr>bh_id = 0, bh_seq = None, bh_ts = 0, bh_url = [], bh_title = None, bh_snippet = [],
     bh_score = 0, bh_stage = [], bh_shot_key = None, bh_caption = None\<rparr>"

definition plain_note :: user_note where
  "plain_note = \<lparr>un_id = 0, un_seq = None, un_target_kind = [], un_target_id = None, un_text = [],
     un_starred = False, un_created_at = 0, un_updated_at = 0\<rparr>"

definition plain_pack :: answer_pack where
  "plain_pack = \<lparr>ap_head_seq = 0, ap_query = None, ap_node = None, ap_matched_nodes = [], ap_notes = [],
     ap_prompt_hits = [], ap_browse_hits = [], ap_grep_hits = [], ap_arm_coverage = [],
     ap_truncated = [], ap_shared_hits = [],
     ap_retrieval = \<lparr>rr_version = [], rr_candidate_limit = 0, rr_candidates_considered = 0,
       rr_candidates_returned = 0, rr_snapshot_hash = [], rr_continuation = None, rr_trace_id = None,
       rr_errors = [], rr_timings_us = [],
       rr_index = \<lparr>ix_model = None, ix_eligible_sources = 0, ix_indexed_sources = 0, ix_pending_sources = 0\<rparr>\<rparr>,
     ap_claims = []\<rparr>"

definition simple_size :: "answer_pack \<Rightarrow> nat" where
  "simple_size p = 10 * (length (ap_browse_hits p) + length (ap_notes p)) + 5 * length (ap_truncated p)"

lemma floor_can_give_early:
  "let q = enforce_pack_budget_bytes simple_size 42
             (plain_pack\<lparr>ap_browse_hits := [plain_hit], ap_notes := replicate 5 plain_note\<rparr>)
   in part_len BrowseHits q = 0 \<and> part_len Notes q = 3"
  by code_simp

end
