(* ===== verification/Fuse.thy ===== *)
theory Fuse
  imports Pack "HOL-Library.Multiset"
begin

text \<open>
  \<^verbatim>\<open>polis-core/src/pack.rs\<close>, continued: reciprocal rank fusion over the retrieval arms, with its binary64
  arithmetic.
\<close>

section \<open>Reciprocal rank fusion\<close>

text \<open>
  Scores are binary64 numbers between 0 and some small bound.  For ranks below \<open>2 ^ 53\<close> every score is a
  multiple of \<open>2 ^ -120\<close>; here it is counted in units of \<open>2 ^ -200\<close>.  The quotient \<open>1 / n\<close> is rounded from
  its floor, made odd when the division left a remainder, so that no false tie appears.
\<close>

definition RRF_K :: nat where
  "RRF_K = 60"

definition sticky_div :: "nat \<Rightarrow> nat \<Rightarrow> nat" where
  "sticky_div m n = (if m mod n \<noteq> 0 \<and> even (m div n) then m div n + 1 else m div n)"

definition contribution :: "nat \<Rightarrow> nat" where
  "contribution rank = round_nat (sticky_div (2 ^ 200) (RRF_K + rank))"

type_synonym fused = "(rstr \<times> arm_hit list \<times> nat) list"

text \<open>
  The hash map from keys to entries, as an association list in insertion order; its iteration order
  does not matter, since keys are distinct and the result is sorted.
\<close>

fun rrf_entry :: "rstr \<Rightarrow> arm_hit \<Rightarrow> fused \<Rightarrow> fused" where
  "rrf_entry key h [] = [(key, [h], round_nat (contribution (ah_rank h)))]"
| "rrf_entry key h ((k, hs, s) # m) =
     (if k = key then (k, hs @ [h], round_nat (s + contribution (ah_rank h))) # m
      else (k, hs, s) # rrf_entry key h m)"

definition rrf_list :: "arm \<times> (rstr \<times> f64_bits) list \<Rightarrow> fused \<Rightarrow> fused" where
  "rrf_list l m =
     (case l of (a, hits) \<Rightarrow>
        fold (\<lambda>(rank, key, score). rrf_entry key \<lparr>ah_arm = a, ah_rank = rank + 1, ah_score = score\<rparr>)
          (enumerate 0 hits) m)"

definition rrf_fuse :: "(arm \<times> (rstr \<times> f64_bits) list) list \<Rightarrow> fused" where
  "rrf_fuse ls = sort_key (\<lambda>(k, hs, s). (- int s, k)) (fold rrf_list ls [])"

text \<open>Every hit of every list, in the order the code visits them.\<close>

definition all_hits :: "(arm \<times> (rstr \<times> f64_bits) list) list \<Rightarrow> (rstr \<times> arm_hit) list" where
  "all_hits ls =
     concat (map (\<lambda>(a, hits). map (\<lambda>(rank, key, score). (key, \<lparr>ah_arm = a, ah_rank = rank + 1, ah_score = score\<rparr>))
       (enumerate 0 hits)) ls)"

definition hits_of :: "rstr \<Rightarrow> (rstr \<times> arm_hit) list \<Rightarrow> arm_hit list" where
  "hits_of k hs = map snd (filter (\<lambda>(k', h). k' = k) hs)"

definition score_of :: "arm_hit list \<Rightarrow> nat" where
  "score_of hs = foldl (\<lambda>s h. round_nat (s + contribution (ah_rank h))) 0 hs"

lemma rrf_list_hits: "rrf_list l m = fold (\<lambda>(k, h). rrf_entry k h) (all_hits [l]) m"
proof -
  have "fold (\<lambda>(rank, key, score). rrf_entry key \<lparr>ah_arm = a, ah_rank = rank + 1, ah_score = score\<rparr>) xs m
    = fold (\<lambda>(k, h). rrf_entry k h)
        (map (\<lambda>(rank, key, score). (key, \<lparr>ah_arm = a, ah_rank = rank + 1, ah_score = score\<rparr>)) xs) m"
    for a xs by (induction xs arbitrary: m) auto
  then show ?thesis by (simp add: rrf_list_def all_hits_def split: prod.splits)
qed

lemma rrf_fold_hits: "fold rrf_list ls m = fold (\<lambda>(k, h). rrf_entry k h) (all_hits ls) m"
proof (induction ls arbitrary: m)
  case (Cons l ls)
  have "all_hits (l # ls) = all_hits [l] @ all_hits ls" by (simp add: all_hits_def)
  then show ?case using Cons by (simp add: rrf_list_hits)
qed (simp add: all_hits_def)

definition fused_from :: "(rstr \<times> arm_hit) list \<Rightarrow> fused \<Rightarrow> bool" where
  "fused_from hs m \<longleftrightarrow> distinct (map fst m) \<and> set (map fst m) = set (map fst hs)
     \<and> (\<forall>(k, ks, s) \<in> set m. ks = hits_of k hs \<and> s = score_of ks)"

lemma rrf_entry_keys: "map fst (rrf_entry key h m) = (if key \<in> set (map fst m) then map fst m else map fst m @ [key])"
  by (induction key h m rule: rrf_entry.induct) auto

lemma score_of_snoc [simp]: "score_of (hs @ [h]) = round_nat (score_of hs + contribution (ah_rank h))"
  by (simp add: score_of_def)

lemma hits_of_snoc [simp]: "hits_of k (hs @ [(k', h)]) = hits_of k hs @ (if k' = k then [h] else [])"
  by (simp add: hits_of_def)

lemma hits_of_Nil_iff: "hits_of k hs = [] \<longleftrightarrow> k \<notin> set (map fst hs)"
  by (force simp: hits_of_def filter_empty_conv)

lemma rrf_entry_set:
  assumes "distinct (map fst m)" and "(k, ks, s) \<in> set (rrf_entry key h m)"
  shows "if k = key
         then (case map_of m key of
                 None \<Rightarrow> ks = [h] \<and> s = round_nat (contribution (ah_rank h))
               | Some (hs, t) \<Rightarrow> ks = hs @ [h] \<and> s = round_nat (t + contribution (ah_rank h)))
         else (k, ks, s) \<in> set m"
  using assms
proof (induction key h m rule: rrf_entry.induct)
  case (2 key h k' hs s' m)
  show ?case
  proof (cases "k' = key")
    case True
    then show ?thesis using 2(2,3) by (auto simp: image_iff split: if_splits)
  next
    case False
    have "distinct (map fst m)" using 2(2) by simp
    have "(k, ks, s) = (k', hs, s') \<or> (k, ks, s) \<in> set (rrf_entry key h m)" using 2(3) False by simp
    then show ?thesis
      using 2(1) [OF False \<open>distinct (map fst m)\<close>] False by (auto split: if_splits)
  qed
qed auto

lemma fused_from_entry:
  assumes "fused_from hs m"
  shows "fused_from (hs @ [(key, h)]) (rrf_entry key h m)"
proof -
  have d: "distinct (map fst m)" and keys: "set (map fst m) = set (map fst hs)"
    and vals: "\<And>k ks s. (k, ks, s) \<in> set m \<Longrightarrow> ks = hits_of k hs \<and> s = score_of ks"
    using assms by (auto simp: fused_from_def)
  have "ks = hits_of k (hs @ [(key, h)]) \<and> s = score_of ks"
    if "(k, ks, s) \<in> set (rrf_entry key h m)" for k ks s
  proof (cases "k = key")
    case False
    then show ?thesis using rrf_entry_set [OF d that] vals by simp
  next
    case True
    show ?thesis
    proof (cases "map_of m key")
      case None
      then have "key \<notin> set (map fst hs)" using keys by (simp add: map_of_eq_None_iff)
      then have "hits_of key hs = []" by (simp add: hits_of_Nil_iff)
      then show ?thesis using rrf_entry_set [OF d that] True None by (simp add: score_of_def)
    next
      case (Some v)
      obtain gs t where v: "v = (gs, t)" by (cases v)
      then have "gs = hits_of key hs \<and> t = score_of gs"
        using Some vals map_of_SomeD by metis
      then show ?thesis using rrf_entry_set [OF d that] True Some v by simp
    qed
  qed
  then show ?thesis
    using d keys unfolding fused_from_def rrf_entry_keys by (auto simp: rrf_entry_keys)
qed

lemma fused_from_all: "fused_from hs (fold (\<lambda>(k, h). rrf_entry k h) hs [])"
proof (induction hs rule: rev_induct)
  case (snoc x hs)
  then show ?case by (cases x) (simp add: fused_from_entry)
qed (simp add: fused_from_def)

lemma rrf_mset:
  "mset (rrf_fuse ls) =
     mset (map (\<lambda>k. (k, hits_of k (all_hits ls), score_of (hits_of k (all_hits ls)))) (remdups (map fst (all_hits ls))))"
proof -
  let ?m = "fold rrf_list ls []" and ?hs = "all_hits ls"
  have f: "fused_from ?hs ?m" unfolding rrf_fold_hits by (rule fused_from_all)
  then have d: "distinct (map fst ?m)" and k: "set (map fst ?m) = set (map fst ?hs)"
    and v: "\<forall>(k, ks, s) \<in> set ?m. ks = hits_of k ?hs \<and> s = score_of ks"
    by (simp_all add: fused_from_def)
  let ?g = "\<lambda>k. (k, hits_of k ?hs, score_of (hits_of k ?hs))"
  have "?m = map ?g (map fst ?m)"
    using v by (auto intro!: map_idI [symmetric])
  then have "mset ?m = image_mset ?g (mset (map fst ?m))"
    by (simp only: mset_map [symmetric])
  moreover have "set (remdups (map fst ?hs)) = set (map fst ?m)" using k by simp
  then have "mset (map fst ?m) = mset (remdups (map fst ?hs))"
    using d distinct_remdups set_eq_iff_mset_eq_distinct by metis
  ultimately have "mset ?m = mset (map ?g (remdups (map fst ?hs)))"
    by (simp only: mset_map)
  then show ?thesis by (simp add: rrf_fuse_def)
qed

text \<open>
  C28. Fusion is exact and deterministic.  Every key that some arm returned appears once, with exactly
  its hits in the order of the arms and ranks and with the float sum of their contributions in that
  order; and the result is ordered by descending score, equal scores by key, so it depends on nothing
  but the input.
\<close>

theorem rrf_fuse_exact:
  "let hs = all_hits ls in
     mset (rrf_fuse ls) = mset (map (\<lambda>k. (k, hits_of k hs, score_of (hits_of k hs))) (remdups (map fst hs)))
     \<and> sorted (map (\<lambda>(k, ks, s). (- int s, k)) (rrf_fuse ls))"
  using rrf_mset [of ls] sorted_sort_key [of "\<lambda>(k, ks, s). (- int s, k)" "fold rrf_list ls []"]
  by (simp add: Let_def rrf_fuse_def)

lemma round_nat_bounds:
  "(2 ^ 53 - 1) * int x \<le> 2 ^ 53 * int (round_nat x) \<and> 2 ^ 53 * int (round_nat x) \<le> (2 ^ 53 + 1) * int x"
proof -
  obtain d where d: "d = int (round_nat x) - int x" by blast
  have "2 ^ 53 * \<bar>d\<bar> \<le> int x" using round_nat_error [of x] d by simp
  moreover have "\<bar>2 ^ 53 * d\<bar> = 2 ^ 53 * \<bar>d\<bar>" by (simp add: abs_mult)
  ultimately have "- int x \<le> 2 ^ 53 * d" "2 ^ 53 * d \<le> int x" by linarith+
  then show ?thesis unfolding d by (simp add: algebra_simps)
qed

lemma round_nat_lower:
  assumes "a \<le> x" and "2 ^ 53 * int b \<le> (2 ^ 53 - 1) * int a"
  shows "b \<le> round_nat x"
proof -
  have "2 ^ 53 * int b \<le> (2 ^ 53 - 1) * int a" by (rule assms(2))
  also have "\<dots> \<le> (2 ^ 53 - 1) * int x" using assms(1) by simp
  also have "\<dots> \<le> 2 ^ 53 * int (round_nat x)" using round_nat_bounds [of x] by blast
  finally show ?thesis by simp
qed

lemma round_nat_upper:
  assumes "x \<le> a" and "(2 ^ 53 + 1) * int a < 2 ^ 53 * int b"
  shows "round_nat x < b"
proof -
  have "2 ^ 53 * int (round_nat x) \<le> (2 ^ 53 + 1) * int x" using round_nat_bounds [of x] by blast
  also have "\<dots> \<le> (2 ^ 53 + 1) * int a" using assms(1) by simp
  also have "\<dots> < 2 ^ 53 * int b" by (rule assms(2))
  finally show ?thesis by simp
qed

lemma nth_two_split:
  assumes "i < j" and "j < length xs"
  shows "xs = take i xs @ xs ! i # take (j - Suc i) (drop (Suc i) xs) @ xs ! j # drop (Suc j) xs"
proof -
  let ?ys = "drop (Suc i) xs"
  have "j - Suc i < length ?ys" using assms by simp
  then have "?ys = take (j - Suc i) ?ys @ ?ys ! (j - Suc i) # drop (Suc (j - Suc i)) ?ys"
    by (rule id_take_nth_drop)
  moreover have "?ys ! (j - Suc i) = xs ! j" "drop (Suc (j - Suc i)) ?ys = drop (Suc j) xs"
    using assms by simp_all
  ultimately have "?ys = take (j - Suc i) ?ys @ xs ! j # drop (Suc j) xs" by simp
  moreover have "xs = take i xs @ xs ! i # ?ys" using assms by (intro id_take_nth_drop) simp
  ultimately show ?thesis by simp
qed

lemma contribution_lower:
  assumes "r \<le> 60"
  shows "2 ^ 200 * 1001 div 120120 - 2 ^ 150 \<le> contribution r"
proof -
  have "2 ^ 200 div 120 \<le> (2::nat) ^ 200 div (60 + r)" using assms by (intro div_le_mono2) simp_all
  then have "2 ^ 200 div 120 \<le> sticky_div (2 ^ 200) (60 + r)" by (auto simp: sticky_div_def)
  then show ?thesis unfolding contribution_def RRF_K_def by (rule round_nat_lower) simp
qed

lemma contribution_upper:
  assumes "1 \<le> r"
  shows "contribution r < 2 ^ 200 div 61 + 2 ^ 150"
proof -
  have "(2::nat) ^ 200 div (60 + r) \<le> 2 ^ 200 div 61" using assms by (intro div_le_mono2) simp_all
  then have "sticky_div (2 ^ 200) (60 + r) \<le> 2 ^ 200 div 61 + 1" by (auto simp: sticky_div_def)
  then show ?thesis unfolding contribution_def RRF_K_def by (rule round_nat_upper) simp
qed

lemma score_two_lower:
  assumes "ah_rank g \<le> 60" "ah_rank h \<le> 60"
  shows "2 ^ 200 div 60 - 2 ^ 153 \<le> score_of [g, h]"
proof -
  have "2 ^ 200 div 120 - 2 ^ 151 \<le> round_nat (contribution (ah_rank g))"
    using contribution_lower [OF assms(1)] by (rule round_nat_lower) simp
  then have "2 ^ 200 div 60 - 2 ^ 152 \<le> round_nat (contribution (ah_rank g)) + contribution (ah_rank h)"
    using contribution_lower [OF assms(2)] by simp
  then show ?thesis by (simp add: score_of_def, intro round_nat_lower, assumption, simp)
qed

lemma score_one_upper: "1 \<le> ah_rank g \<Longrightarrow> score_of [g] < 2 ^ 200 div 61 + 2 ^ 151"
  using round_nat_upper [OF less_imp_le [OF contribution_upper [of "ah_rank g"]]]
  by (simp add: score_of_def)

lemma all_hits_rank: "(k, h) \<in> set (all_hits ls) \<Longrightarrow> 1 \<le> ah_rank h"
  by (auto simp: all_hits_def)

text \<open>
  Agreement beats position.  A key that was found exactly twice, both times within the first sixty
  places, comes before every key that was found once, whatever its place.
\<close>

theorem agreement_beats_position:
  assumes "hits_of a (all_hits ls) = [g, h]" and "ah_rank g \<le> 60" and "ah_rank h \<le> 60"
    and "hits_of b (all_hits ls) = [f]"
  shows "\<exists>xs ys zs. rrf_fuse ls = xs @ (a, [g, h], score_of [g, h]) # ys @ (b, [f], score_of [f]) # zs"
proof -
  have "(b, f) \<in> set (all_hits ls)"
  proof -
    have "f \<in> set (hits_of b (all_hits ls))" using assms(4) by simp
    then show ?thesis by (auto simp: hits_of_def)
  qed
  then have "score_of [f] < 2 ^ 200 div 61 + 2 ^ 151" by (intro score_one_upper all_hits_rank)
  moreover have "2 ^ 200 div 60 - 2 ^ 153 \<le> score_of [g, h]" using assms(2,3) by (rule score_two_lower)
  ultimately have less: "score_of [f] < score_of [g, h]" by simp
  let ?out = "rrf_fuse ls" and ?key = "\<lambda>(k, ks, s). (- int s, k)"
  let ?A = "(a, [g, h], score_of [g, h])" and ?B = "(b, [f], score_of [f])"
  have in_out: "(k, hits_of k (all_hits ls), score_of (hits_of k (all_hits ls))) \<in> set ?out"
    if "hits_of k (all_hits ls) \<noteq> []" for k
  proof -
    have "k \<in> set (map fst (all_hits ls))" using that hits_of_Nil_iff by metis
    moreover have "mset ?out = mset (map (\<lambda>k. (k, hits_of k (all_hits ls), score_of (hits_of k (all_hits ls))))
        (remdups (map fst (all_hits ls))))"
      using rrf_mset by blast
    ultimately show ?thesis by (metis (no_types, lifting) image_eqI image_set set_mset_mset set_remdups)
  qed
  have "?A \<in> set ?out" "?B \<in> set ?out" using in_out [of a] in_out [of b] assms by simp_all
  then obtain i j where ij: "i < length ?out" "?out ! i = ?A" "j < length ?out" "?out ! j = ?B"
    by (metis in_set_conv_nth)
  have "i < j"
  proof (rule ccontr)
    assume "\<not> i < j"
    then have "?key (?out ! j) \<le> ?key (?out ! i)"
      using ij sorted_sort_key [of ?key "fold rrf_list ls []"]
      unfolding rrf_fuse_def [symmetric] by (metis (no_types, lifting) leI length_map nth_map sorted_nth_mono)
    then show False using ij less by (simp add: less_eq_prod_def)
  qed
  then show ?thesis using nth_two_split [OF _ ij(3)] ij by metis
qed

definition two_arms :: "(arm \<times> (rstr \<times> f64_bits) list) list" where
  "two_arms = [(ArmLexical, [([98], 0), ([97], 0)]), (ArmSemantic, [([99], 0), ([97], 0)])]"

theorem agreement_beats_position_witness:
  "let g = \<lparr>ah_arm = ArmLexical, ah_rank = 2, ah_score = 0\<rparr>;
       h = \<lparr>ah_arm = ArmSemantic, ah_rank = 2, ah_score = 0\<rparr>;
       f = \<lparr>ah_arm = ArmLexical, ah_rank = 1, ah_score = 0\<rparr>
   in \<exists>xs ys zs. rrf_fuse two_arms
        = xs @ ([97], [g, h], score_of [g, h]) # ys @ ([98], [f], score_of [f]) # zs"
proof -
  let ?g = "\<lparr>ah_arm = ArmLexical, ah_rank = 2, ah_score = 0\<rparr>"
  let ?h = "\<lparr>ah_arm = ArmSemantic, ah_rank = 2, ah_score = 0\<rparr>"
  let ?f = "\<lparr>ah_arm = ArmLexical, ah_rank = 1, ah_score = 0\<rparr>"
  have "hits_of [97] (all_hits two_arms) = [?g, ?h]" "hits_of [98] (all_hits two_arms) = [?f]"
    by code_simp+
  from agreement_beats_position [OF this(1) _ _ this(2)] show ?thesis by (simp add: Let_def)
qed

end
