(* ===== verification/Calendar.thy ===== *)
theory Calendar
  imports Prelude
begin

text \<open>
  \<^verbatim>\<open>ymd_hm\<close> of \<^verbatim>\<open>polis-core/src/pack.rs\<close>: the civil date and minute (UTC) of a Unix millisecond, and its
  agreement with the Gregorian calendar counted from month lengths and leap years.
\<close>

section \<open>The code\<close>

text \<open>Days since 1970-01-01 to year, month and day.  All divisions of the code are of positive numbers.\<close>

definition civil_from_days :: "int \<Rightarrow> int \<times> int \<times> int" where
  "civil_from_days days =
     (let z = days + 719468;
          era = z div 146097;
          doe = z mod 146097;
          yoe = (doe - doe div 1460 + doe div 36524 - doe div 146096) div 365;
          y = yoe + era * 400;
          doy = doe - (365 * yoe + yoe div 4 - yoe div 100);
          mp = (5 * doy + 2) div 153;
          d = doy - (153 * mp + 2) div 5 + 1;
          mo = (if mp < 10 then mp + 3 else mp - 9)
      in (if mo \<le> 2 then y + 1 else y, mo, d))"

text \<open>\<^verbatim>\<open>{:04}\<close> and \<^verbatim>\<open>{:02}\<close>: zeros between the sign and the digits, up to the width.\<close>

definition pad_int :: "nat \<Rightarrow> int \<Rightarrow> rstr" where
  "pad_int w i =
     (let s = show_int i; zeros = replicate (w - length s) 48
      in if i < 0 then 45 # zeros @ tl s else zeros @ s)"

definition ymd_hm :: "int \<Rightarrow> rstr" where
  "ymd_hm ms =
     (let secs = ms div 1000;
          days = secs div 86400;
          rem = secs mod 86400;
          h = rem div 3600;
          m = rem mod 3600 div 60
      in case civil_from_days days of (y, mo, d) \<Rightarrow>
           pad_int 4 y @ [45] @ pad_int 2 mo @ [45] @ pad_int 2 d @ [32] @ pad_int 2 h @ [58] @ pad_int 2 m)"

section \<open>The calendar\<close>

definition is_leap :: "int \<Rightarrow> bool" where
  "is_leap y \<longleftrightarrow> y mod 4 = 0 \<and> (y mod 100 \<noteq> 0 \<or> y mod 400 = 0)"

definition month_length :: "int \<Rightarrow> int \<Rightarrow> int" where
  "month_length y m =
     (if m = 2 then (if is_leap y then 29 else 28) else if m \<in> {4, 6, 9, 11} then 30 else 31)"

definition valid_date :: "int \<Rightarrow> int \<Rightarrow> int \<Rightarrow> bool" where
  "valid_date y m d \<longleftrightarrow> 1 \<le> m \<and> m \<le> 12 \<and> 1 \<le> d \<and> d \<le> month_length y m"

text \<open>Leap years before year \<open>y\<close>, and the days from 1970-01-01 to a date.\<close>

definition leaps_before :: "int \<Rightarrow> int" where
  "leaps_before y = (y - 1) div 4 - (y - 1) div 100 + (y - 1) div 400"

definition days_of_date :: "int \<Rightarrow> int \<Rightarrow> int \<Rightarrow> int" where
  "days_of_date y m d =
     365 * (y - 1970) + leaps_before y - leaps_before 1970
     + sum_list (map (month_length y) [1..m - 1]) + d - 1"

lemma div_pred:
  assumes "0 < (n::int)"
  shows "y div n = (y - 1) div n + (if y mod n = 0 then 1 else 0)"
proof (cases "y mod n = 0")
  case True
  then have y: "y = n * (y div n)" using mult_div_mod_eq [of n y] by simp
  have "(y - 1) div n = y div n - 1"
    by (rule int_div_pos_eq [of _ _ _ "n - 1"]) (use y assms in \<open>simp_all add: algebra_simps\<close>)
  with True show ?thesis by simp
next
  case False
  have r: "0 \<le> y mod n" "y mod n < n" using assms by simp_all
  have "(y - 1) div n = y div n"
    by (rule int_div_pos_eq [of _ _ _ "y mod n - 1"])
      (use mult_div_mod_eq [of n y] r False in \<open>linarith\<close>)+
  with False show ?thesis by simp
qed

lemma leap_count:
  "(p400 \<Longrightarrow> p100) \<Longrightarrow> (p100 \<Longrightarrow> p4) \<Longrightarrow>
   a4 = b4 + (if p4 then 1 else 0) \<Longrightarrow> a100 = b100 + (if p100 then 1 else 0) \<Longrightarrow>
   a400 = b400 + (if p400 then 1 else 0) \<Longrightarrow>
   a4 - a100 + a400 = b4 - b100 + b400 + (if p4 \<and> (\<not> p100 \<or> p400) then 1 else (0::int))"
  by (cases p4; cases p100; cases p400) simp_all

lemma leaps_before_Suc: "leaps_before (y + 1) = leaps_before y + (if is_leap y then 1 else 0)"
proof -
  have d: "(4::int) dvd 100" "(100::int) dvd 400" by simp_all
  have "y mod 100 = 0 \<Longrightarrow> y mod 4 = 0" "y mod 400 = 0 \<Longrightarrow> y mod 100 = 0"
    unfolding mod_eq_0_iff_dvd using d [THEN dvd_trans] by blast+
  note m = this
  have pos: "0 < (4::int)" "0 < (100::int)" "0 < (400::int)" by simp_all
  show ?thesis
    unfolding leaps_before_def is_leap_def add_diff_cancel_right'
    by (rule leap_count [OF m(2) m(1) div_pred [OF pos(1)] div_pred [OF pos(2)] div_pred [OF pos(3)]])
qed

text \<open>The reference is a calendar: each day follows the previous one.\<close>

definition next_date :: "int \<times> int \<times> int \<Rightarrow> int \<times> int \<times> int" where
  "next_date = (\<lambda>(y, m, d).
     if d < month_length y m then (y, m, d + 1)
     else if m < 12 then (y, m + 1, 1) else (y + 1, 1, 1))"

lemma month_cases: "1 \<le> m \<Longrightarrow> m \<le> 12 \<Longrightarrow> m \<in> {1, 2, 3, 4, 5, 6, 7, 8, 9, 10, 11, 12}" for m :: int
  by simp presburger

definition days_before_month :: "int \<Rightarrow> int \<Rightarrow> int" where
  "days_before_month y m =
     (if m = 1 then 0 else if m = 2 then 31
      else (if is_leap y then 1 else 0)
        + (if m = 3 then 59 else if m = 4 then 90 else if m = 5 then 120 else if m = 6 then 151
           else if m = 7 then 181 else if m = 8 then 212 else if m = 9 then 243 else if m = 10 then 273
           else if m = 11 then 304 else 334))"

lemma months_upto:
  assumes "m \<in> {1, 2, 3, 4, 5, 6, 7, 8, 9, 10, 11, 12}"
  shows "sum_list (map (month_length y) [1..m - 1]) = days_before_month y m"
  using assms
  by (elim insertE emptyE) (simp_all add: days_before_month_def month_length_def upto.simps [of 1])

lemma days_before_next:
  assumes "m \<in> {1, 2, 3, 4, 5, 6, 7, 8, 9, 10, 11, 12}" and "m < 12"
  shows "days_before_month y (m + 1) = days_before_month y m + month_length y m"
  using assms by (elim insertE emptyE) (simp_all add: days_before_month_def month_length_def)

lemma days_of_next_date:
  assumes v: "valid_date y m d" and "next_date (y, m, d) = (y', m', d')"
  shows "valid_date y' m' d' \<and> days_of_date y' m' d' = days_of_date y m d + 1"
proof -
  have m: "m \<in> {1, 2, 3, 4, 5, 6, 7, 8, 9, 10, 11, 12}"
    using v by (intro month_cases) (simp_all add: valid_date_def)
  have pos: "28 \<le> month_length a b" for a b by (simp add: month_length_def)
  consider "d < month_length y m" | "d = month_length y m" "m < 12" | "d = month_length y m" "m = 12"
    using v by (fastforce simp: valid_date_def)
  then show ?thesis
  proof cases
    case 1
    then show ?thesis using assms by (auto simp: next_date_def valid_date_def days_of_date_def)
  next
    case 2
    then have m': "m + 1 \<in> {1, 2, 3, 4, 5, 6, 7, 8, 9, 10, 11, 12}"
      using v by (intro month_cases) (simp_all add: valid_date_def)
    have "y' = y" "m' = m + 1" "d' = 1" using 2 assms(2) by (simp_all add: next_date_def)
    then show ?thesis
      using 2 v \<open>d' = 1\<close> days_before_next [OF m 2(2), of y] pos [of y "m + 1"]
      unfolding days_of_date_def months_upto [OF m] \<open>y' = y\<close> \<open>m' = m + 1\<close> months_upto [OF m']
      by (simp add: valid_date_def)
  next
    case 3
    have "y' = y + 1" "m' = 1" "d' = 1" using 3 assms(2) by (simp_all add: next_date_def)
    then show ?thesis
      using 3 pos [of "y + 1" 1] leaps_before_Suc [of y]
      unfolding days_of_date_def months_upto [OF m]
      by (simp add: valid_date_def days_before_month_def month_length_def)
  qed
qed

section \<open>The date formula\<close>

text \<open>
  The formula counts years from March and eras of 400 years.  Inside an era it is checked year by year,
  and inside a year day by day; between the checkpoints the divisions are monotone.
\<close>

definition year_of_era :: "int \<Rightarrow> int" where
  "year_of_era doe = (doe - doe div 1460 + doe div 36524 - doe div 146096) div 365"

definition year_start :: "int \<Rightarrow> int" where
  "year_start y = (if y = 400 then 146097 else 365 * y + y div 4 - y div 100)"

lemma div_add_le: "0 < n \<Longrightarrow> 0 \<le> d \<Longrightarrow> (x + d) div n \<le> x div n + d" for n d x :: int
proof -
  assume n: "0 < n" "0 \<le> d"
  then have "x + d \<le> x + d * n" by (simp add: mult_le_cancel_left1)
  then have "(x + d) div n \<le> (x + d * n) div n" using n by (intro zdiv_mono1)
  with n show ?thesis by simp
qed

lemma quarter_mono: "a \<le> b \<Longrightarrow> a - a div 4 \<le> b - b div 4" for a b :: int
  using div_add_le [of 4 "b - a" a] by simp

lemma year_of_era_mono:
  assumes "a \<le> b"
  shows "year_of_era a \<le> year_of_era b"
proof -
  have "a - a div 1460 \<le> b - b div 1460" using div_add_le [of 1460 "b - a" a] assms by simp
  moreover have "c div 146096 = c div 36524 div 4" for c :: int
    using zdiv_zmult2_eq [of 4 c 36524] by simp
  then have "a div 36524 - a div 146096 \<le> b div 36524 - b div 146096"
    using quarter_mono [of "a div 36524" "b div 36524"] zdiv_mono1 [OF assms, of 36524] by simp
  ultimately have "a - a div 1460 + (a div 36524 - a div 146096) \<le> b - b div 1460 + (b div 36524 - b div 146096)"
    by (rule add_mono)
  then have "a - a div 1460 + a div 36524 - a div 146096 \<le> b - b div 1460 + b div 36524 - b div 146096"
    by (simp only: add_diff_eq)
  then show ?thesis unfolding year_of_era_def by (rule zdiv_mono1) simp
qed

definition year_ok :: "int \<Rightarrow> bool" where
  "year_ok y \<longleftrightarrow>
     year_of_era (year_start y) = y \<and> year_of_era (year_start (y + 1) - 1) = y
     \<and> year_start (y + 1) = year_start y + 365 + (if is_leap (y + 1) then 1 else 0)
     \<and> year_start y = 365 * y + y div 4 - y div 100"

lemmas year_eval = year_ok_def year_of_era_def year_start_def is_leap_def

lemma years_checked:
  "list_all year_ok [0..99]" "list_all year_ok [100..199]"
  "list_all year_ok [200..299]" "list_all year_ok [300..399]"
  by (simp_all add: year_eval upto.simps [of 0] upto.simps [of 1])

lemma year_ok: "0 \<le> y \<Longrightarrow> y < 400 \<Longrightarrow> year_ok y"
proof -
  assume "0 \<le> y" "y < 400"
  then have "y \<in> set [0..99] \<or> y \<in> set [100..199] \<or> y \<in> set [200..299] \<or> y \<in> set [300..399]"
    unfolding set_upto atLeastAtMost_iff by linarith
  then show ?thesis using years_checked unfolding list_all_iff by blast
qed

lemma step_between:
  fixes S :: "nat \<Rightarrow> int"
  shows "S 0 \<le> x \<Longrightarrow> x < S n \<Longrightarrow> \<exists>k<n. S k \<le> x \<and> x < S (Suc k)"
proof (induction n)
  case (Suc n)
  then show ?case by (cases "x < S n") (auto simp: not_less intro: less_SucI)
qed simp

lemma year_of_era_exact:
  assumes "0 \<le> doe" and "doe < 146097"
  shows "0 \<le> year_of_era doe \<and> year_of_era doe < 400
     \<and> (let y = year_of_era doe; doy = doe - (365 * y + y div 4 - y div 100)
        in 0 \<le> doy \<and> doy < 365 + (if is_leap (y + 1) then 1 else 0))"
proof -
  have "year_start (int 0) \<le> doe" "doe < year_start (int 400)" using assms by (simp_all add: year_start_def)
  then obtain k where k: "k < 400" "year_start (int k) \<le> doe" "doe < year_start (int (Suc k))"
    using step_between [of "\<lambda>n. year_start (int n)" doe 400] by blast
  define y where "y = int k"
  have "year_ok y" using k(1) by (intro year_ok) (simp_all add: y_def)
  then have c: "year_of_era (year_start y) = y" "year_of_era (year_start (y + 1) - 1) = y"
    "year_start (y + 1) = year_start y + 365 + (if is_leap (y + 1) then 1 else 0)"
    "year_start y = 365 * y + y div 4 - y div 100"
    unfolding year_ok_def by blast+
  have b: "year_start y \<le> doe" "doe \<le> year_start (y + 1) - 1"
    using k(2,3) by (simp_all add: y_def algebra_simps)
  then have "year_of_era doe = y"
    using year_of_era_mono [OF b(1)] year_of_era_mono [OF b(2)] c(1,2) by simp
  then show ?thesis using b c(3,4) k(1) by (simp add: Let_def y_def)
qed

text \<open>Days of a year that begins in March: the month number, the day, and the days before the month.\<close>

definition march_days :: "int \<Rightarrow> int" where
  "march_days mp =
     (if mp = 0 then 0 else if mp = 1 then 31 else if mp = 2 then 61 else if mp = 3 then 92
      else if mp = 4 then 122 else if mp = 5 then 153 else if mp = 6 then 184 else if mp = 7 then 214
      else if mp = 8 then 245 else if mp = 9 then 275 else if mp = 10 then 306 else 337)"

lemma days_checked:
  "list_all (\<lambda>doy. let mp = (5 * doy + 2) div 153; d = doy - (153 * mp + 2) div 5 + 1
     in 0 \<le> mp \<and> mp \<le> 11 \<and> 1 \<le> d \<and> march_days mp + d - 1 = doy
        \<and> d \<le> (if mp = 11 then (if doy = 365 then 29 else 28)
               else if mp = 1 \<or> mp = 3 \<or> mp = 6 \<or> mp = 8 then 30 else 31))
   [0..365]"
  by (simp add: upto.simps [of 0] upto.simps [of 1] march_days_def)

lemma march_year:
  assumes "0 \<le> doy" and "doy < 366"
  shows "let mp = (5 * doy + 2) div 153; d = doy - (153 * mp + 2) div 5 + 1
     in 0 \<le> mp \<and> mp \<le> 11 \<and> 1 \<le> d \<and> march_days mp + d - 1 = doy
        \<and> d \<le> (if mp = 11 then (if doy = 365 then 29 else 28)
               else if mp = 1 \<or> mp = 3 \<or> mp = 6 \<or> mp = 8 then 30 else 31)"
  using days_checked assms unfolding list_all_iff by simp

lemma leap_era: "is_leap (y + era * 400) \<longleftrightarrow> is_leap y"
proof -
  have "(y + era * 400) mod n = y mod n" if "n dvd 400" for n :: int
    using that by (metis dvd_mult mod_add_right_eq mod_0_imp_dvd add.right_neutral dvd_imp_mod_0)
  then show ?thesis by (simp add: is_leap_def)
qed

lemma leaps_era:
  assumes "0 \<le> y" and "y < 400"
  shows "leaps_before (y + era * 400 + 1) = era * 97 + y div 4 - y div 100"
proof -
  have e: "y + era * 400 = y + era * 100 * 4" "y + era * 400 = y + era * 4 * 100" by simp_all
  have "(y + era * 400) div 4 = era * 100 + y div 4" unfolding e(1) by (rule div_mult_self1) simp
  moreover have "(y + era * 400) div 100 = era * 4 + y div 100" unfolding e(2) by (rule div_mult_self1) simp
  moreover have "(y + era * 400) div 400 = era + y div 400" by (rule div_mult_self1) simp
  moreover have "y div 400 = 0" using assms by simp
  ultimately have "(y + era * 400) div 4 - (y + era * 400) div 100 + (y + era * 400) div 400
      = era * 100 + y div 4 - (era * 4 + y div 100) + (era + 0)" by (simp only:)
  then show ?thesis unfolding leaps_before_def by (simp add: algebra_simps)
qed

lemma leaps_1970: "leaps_before 1970 = 477"
  by (simp add: leaps_before_def)

lemma civil_from_days_correct:
  "case civil_from_days days of (y, m, d) \<Rightarrow> valid_date y m d \<and> days_of_date y m d = days"
proof -
  define z era doe yoe doy mp d m
    where "z = days + 719468" and "era = z div 146097" and "doe = z mod 146097"
      and "yoe = year_of_era doe" and "doy = doe - (365 * yoe + yoe div 4 - yoe div 100)"
      and "mp = (5 * doy + 2) div 153" and "d = doy - (153 * mp + 2) div 5 + 1"
      and "m = (if mp < 10 then mp + 3 else mp - 9)"
  note defs = this
  define Y where "Y = yoe + era * 400"
  define y where "y = (if m \<le> 2 then Y + 1 else Y)"
  have civil: "civil_from_days days = (y, m, d)"
    unfolding civil_from_days_def Let_def defs Y_def y_def year_of_era_def by (rule refl)
  have z: "z = era * 146097 + doe" unfolding era_def doe_def by simp
  have doe: "0 \<le> doe" "doe < 146097" unfolding doe_def by simp_all
  have yoe: "0 \<le> yoe" "yoe < 400" and doy: "0 \<le> doy" "doy < 365 + (if is_leap (yoe + 1) then 1 else 0)"
    using year_of_era_exact [OF doe] by (simp_all add: Let_def yoe_def doy_def)
  have "doy < 366" using doy(2) by (simp split: if_splits)
  then have mp: "0 \<le> mp" "mp \<le> 11" and d: "1 \<le> d" "march_days mp + d - 1 = doy"
    "d \<le> (if mp = 11 then (if doy = 365 then 29 else 28)
               else if mp = 1 \<or> mp = 3 \<or> mp = 6 \<or> mp = 8 then 30 else 31)"
    using march_year [OF doy(1)] unfolding Let_def mp_def [symmetric] d_def [symmetric] by blast+
  have leap: "is_leap (Y + 1) \<longleftrightarrow> is_leap (yoe + 1)"
    using leap_era [of "yoe + 1" era] by (simp add: Y_def algebra_simps)
  have total: "days = 365 * Y + (leaps_before (Y + 1) + doy) - 719468"
    using z leaps_era [OF yoe, of era] by (simp add: z_def doy_def Y_def algebra_simps)
  have "mp \<in> {0, 1, 2, 3, 4, 5, 6, 7, 8, 9, 10, 11}" using mp by simp presburger
  then have m: "m \<in> {1, 2, 3, 4, 5, 6, 7, 8, 9, 10, 11, 12}"
    and len: "d \<le> month_length y m"
    and before: "(if m \<le> 2 then 365 + days_before_month y m
                  else days_before_month y m - (if is_leap Y then 1 else 0)) = march_days mp + 59"
    using d(3) doy(2) leap
    by (elim insertE emptyE; simp add: m_def y_def month_length_def march_days_def days_before_month_def
        split: if_splits)+
  have "valid_date y m d" using m len d(1) by (auto simp: valid_date_def)
  moreover have "days_of_date y m d = days"
    unfolding days_of_date_def months_upto [OF m] leaps_1970 total d(2) [symmetric]
    using before leaps_before_Suc [of Y] by (simp add: y_def split: if_splits)
  ultimately show ?thesis by (simp add: civil)
qed

section \<open>The whole calendar\<close>

definition day_of_year :: "int \<Rightarrow> int \<Rightarrow> int \<Rightarrow> int" where
  "day_of_year y m d = days_before_month y m + d - 1"

lemma valid_month: "valid_date y m d \<Longrightarrow> m \<in> {1, 2, 3, 4, 5, 6, 7, 8, 9, 10, 11, 12}"
  by (rule month_cases) (simp_all add: valid_date_def)

lemma days_of_date_year:
  "valid_date y m d \<Longrightarrow> days_of_date y m d = 365 * (y - 1970) + leaps_before y - 477 + day_of_year y m d"
  by (simp add: days_of_date_def months_upto [OF valid_month] leaps_1970 day_of_year_def)

lemma day_of_year_bounds:
  assumes "valid_date y m d"
  shows "0 \<le> day_of_year y m d \<and> day_of_year y m d < 365 + (if is_leap y then 1 else 0)"
  using valid_month [OF assms] assms
  by (elim insertE emptyE)
    (auto simp: valid_date_def day_of_year_def days_before_month_def month_length_def split: if_splits)

lemma year_begin_mono: "365 * a + leaps_before a + 365 * int n \<le> 365 * (a + int n) + leaps_before (a + int n)"
proof (induction n)
  case (Suc n)
  have e: "a + int (Suc n) = a + int n + 1" by simp
  show ?case using Suc leaps_before_Suc [of "a + int n"] unfolding e by (simp split: if_splits)
qed simp

lemma day_of_year_inject:
  assumes "valid_date y m d" "valid_date y m' d'" "day_of_year y m d = day_of_year y m' d'"
  shows "m = m' \<and> d = d'"
proof -
  have step: "days_before_month y a + month_length y a \<le> days_before_month y b"
    if "a < b" "a \<in> {1, 2, 3, 4, 5, 6, 7, 8, 9, 10, 11, 12}" "b \<in> {1, 2, 3, 4, 5, 6, 7, 8, 9, 10, 11, 12}"
    for a b :: int
    using that by (elim insertE emptyE) (simp_all add: days_before_month_def month_length_def)
  have "\<not> m < m'" and "\<not> m' < m"
    using step [of m m'] step [of m' m] valid_month [OF assms(1)] valid_month [OF assms(2)] assms
    by (auto simp: valid_date_def day_of_year_def)
  then show ?thesis using assms(3) by (simp add: day_of_year_def)
qed

lemma days_of_date_inject:
  assumes "valid_date y m d" "valid_date y' m' d'" "days_of_date y m d = days_of_date y' m' d'"
  shows "(y, m, d) = (y', m', d')"
proof -
  have less: "days_of_date a b c < days_of_date a' b' c'"
    if "a < a'" "valid_date a b c" "valid_date a' b' c'" for a b c a' b' c'
  proof -
    have "365 * (a + 1) + leaps_before (a + 1) \<le> 365 * a' + leaps_before a'"
      using year_begin_mono [of "a + 1" "nat (a' - a - 1)"] that(1) by simp
    then show ?thesis
      using day_of_year_bounds [OF that(2)] day_of_year_bounds [OF that(3)] leaps_before_Suc [of a]
      unfolding days_of_date_year [OF that(2)] days_of_date_year [OF that(3)] by (simp split: if_splits)
  qed
  have y: "y = y'" using less [of y y'] less [of y' y] assms by (metis linorder_neqE_linordered_idom less_irrefl)
  have "day_of_year y m d = day_of_year y m' d'"
    using assms(3) unfolding days_of_date_year [OF assms(1)] days_of_date_year [OF assms(2)] by (simp add: y)
  then show ?thesis using day_of_year_inject assms(1,2) y by blast
qed

text \<open>
  C29. The printed date is the calendar's.  For every timestamp, before 1970 too, the three numbers are
  a valid Gregorian date that lies exactly that many days after 1970-01-01 when counted by leap years
  and month lengths, the next day's numbers are the next calendar day, and the hour and minute are
  those of the milliseconds that remain of the day.
\<close>

theorem ymd_hm_follows_the_calendar:
  "let days = ms div 86400000; msecs = ms mod 86400000; (y, m, d) = civil_from_days days in
     valid_date y m d \<and> days_of_date y m d = days
     \<and> civil_from_days (days + 1) = next_date (y, m, d)
     \<and> ymd_hm ms = pad_int 4 y @ lit ''-'' @ pad_int 2 m @ lit ''-'' @ pad_int 2 d @ lit '' ''
         @ pad_int 2 (msecs div 3600000) @ lit '':'' @ pad_int 2 (msecs div 60000 mod 60)
     \<and> 0 \<le> msecs div 3600000 \<and> msecs div 3600000 < 24"
proof -
  define days where "days = ms div 86400000"
  define msecs where "msecs = ms mod 86400000"
  obtain y m d where c: "civil_from_days days = (y, m, d)" by (cases "civil_from_days days")
  have v: "valid_date y m d" "days_of_date y m d = days"
    using civil_from_days_correct [of days] c by simp_all
  obtain y' m' d' where n: "next_date (y, m, d) = (y', m', d')" by (cases "next_date (y, m, d)")
  obtain a b e where c': "civil_from_days (days + 1) = (a, b, e)" by (cases "civil_from_days (days + 1)")
  have "valid_date a b e" "days_of_date a b e = days + 1"
    using civil_from_days_correct [of "days + 1"] c' by simp_all
  then have next_day: "civil_from_days (days + 1) = next_date (y, m, d)"
    using days_of_next_date [OF v(1) n] v(2) days_of_date_inject unfolding c' n by metis
  have r: "0 \<le> msecs" "msecs < 86400000" unfolding msecs_def by simp_all
  have ms: "ms = days * 86400000 + msecs" unfolding days_def msecs_def by simp
  have "ms div 1000 = days * 86400 + msecs div 1000"
    unfolding ms using div_mult_self1 [of 1000 msecs "days * 86400"] by (simp add: add.commute)
  moreover have "0 \<le> msecs div 1000" "msecs div 1000 < 86400"
    using r by (simp_all add: int_div_less_self div_less_iff_less_mult)
  ultimately have days: "ms div 1000 div 86400 = days" and rem: "ms div 1000 mod 86400 = msecs div 1000"
    by simp_all
  have h: "msecs div 1000 div 3600 = msecs div 3600000" "msecs div 1000 div 60 = msecs div 60000"
    by (simp_all add: zdiv_zmult2_eq [symmetric])
  have "msecs div 1000 mod (60 * 60) = 60 * (msecs div 1000 div 60 mod 60) + msecs div 1000 mod 60"
    by (rule zmod_zmult2_eq) simp
  then have minute: "msecs div 1000 mod 3600 div 60 = msecs div 60000 mod 60"
    by (simp add: h(2))
  have "ymd_hm ms = pad_int 4 y @ lit ''-'' @ pad_int 2 m @ lit ''-'' @ pad_int 2 d @ lit '' ''
         @ pad_int 2 (msecs div 3600000) @ lit '':'' @ pad_int 2 (msecs div 60000 mod 60)"
    unfolding ymd_hm_def Let_def days rem c prod.case minute h(1) by (simp add: lit_def)
  moreover have "0 \<le> msecs div 3600000" "msecs div 3600000 < 24"
    using r by (simp_all add: div_less_iff_less_mult pos_imp_zdiv_nonneg_iff)
  ultimately show ?thesis
    unfolding days_def [symmetric] msecs_def [symmetric] Let_def c prod.case using v next_day by blast
qed

end
