(* ===== verification/Render.thy ===== *)
theory Render
  imports Pack
begin

text \<open>
  The evidence block of \<^verbatim>\<open>polis-core/src/pack.rs\<close>: the answer pack rendered into a prompt, clipped to
  a byte budget at a line boundary.  \<open>to_lower\<close> stands for \<^verbatim>\<open>str::to_lowercase\<close>, \<open>show_f64\<close> for
  \<^verbatim>\<open>f64::to_string\<close>.
\<close>

definition INLINE_PACK_MAX_BYTES :: nat where
  "INLINE_PACK_MAX_BYTES = 12000"

definition INLINE_PACK_LIMIT :: int where
  "INLINE_PACK_LIMIT = 8"

definition INLINE_BODY_CHARS :: nat where
  "INLINE_BODY_CHARS = 400"

section \<open>Pieces of lines\<close>

abbreviation nl :: rstr where "nl \<equiv> [10]"
abbreviation dash :: rstr where "dash \<equiv> [8212]"
abbreviation dot :: rstr where "dot \<equiv> [183]"
abbreviation dquote :: rstr where "dquote \<equiv> [34]"

definition opt_or :: "rstr option \<Rightarrow> rstr \<Rightarrow> rstr" where
  "opt_or s d = (case s of None \<Rightarrow> d | Some t \<Rightarrow> t)"

definition seq_or_0 :: "int option \<Rightarrow> rstr" where
  "seq_or_0 s = show_int (case s of None \<Rightarrow> 0 | Some i \<Rightarrow> i)"

definition superseded_tag :: "int option \<Rightarrow> rstr" where
  "superseded_tag s = (case s of None \<Rightarrow> [] | Some i \<Rightarrow> lit '' [superseded by #'' @ show_int i @ lit '']'')"

text \<open>A titled list of lines, absent when the list is empty.\<close>

definition block :: "rstr \<Rightarrow> ('a \<Rightarrow> rstr) \<Rightarrow> 'a list \<Rightarrow> rstr \<Rightarrow> rstr" where
  "block title line xs tail = (if xs = [] then [] else title @ nl @ concat (map line xs) @ tail)"

section \<open>The sections of the block\<close>

definition resolved_line :: "(rstr \<Rightarrow> rstr) \<Rightarrow> rstr list \<Rightarrow> pack_node option \<Rightarrow> rstr" where
  "resolved_line to_lower ts node =
     (case node of
        None \<Rightarrow> lit ''Resolved: no class matched '' @ dash @ lit '' the lexical evidence below still stands.'' @ nl
      | Some n \<Rightarrow>
          let title = cn_title (pn_node n);
              basis = (case find (contains (to_lower title)) ts of
                         None \<Rightarrow> []
                       | Some t \<Rightarrow> lit '' (matched '' @ dquote @ t @ dquote @ lit '' in the title)'')
          in lit ''Resolved: [['' @ title @ lit '']]'' @ basis @ lit ''.'' @ nl)"

definition header_lines :: "(rstr \<Rightarrow> rstr) \<Rightarrow> rstr list \<Rightarrow> answer_pack \<Rightarrow> rstr" where
  "header_lines to_lower ts p =
     lit ''PREFETCHED EVIDENCE '' @ dash @ lit '' assembled server-side from your question at seq ''
       @ show_int (ap_head_seq p) @ lit ''.'' @ nl
     @ lit ''Searched: '' @ join (lit '', '') ts @ lit ''.'' @ nl
     @ resolved_line to_lower ts (ap_node p)
     @ (if ap_truncated p = [] then []
        else lit ''TRIMMED: '' @ join (lit '', '') (ap_truncated p) @ lit ''.'' @ nl)
     @ lit ''If this answers the question, ANSWER '' @ dash @ lit '' do not curl.'' @ nl
     @ lit ''Curl the answer-pack ONLY when this block is empty on the subject you need, names ''
     @ lit ''a node you want to descend into, or says it was TRIMMED.'' @ nl @ nl"

definition note_line :: "user_note \<Rightarrow> rstr" where
  "note_line n =
     lit ''- '' @ (if un_starred n then [9733, 32] else []) @ lit ''#'' @ seq_or_0 (un_seq n) @ lit '' ''
     @ clip_line (un_text n) INLINE_BODY_CHARS @ nl"

definition link_line :: "pack_link \<Rightarrow> rstr" where
  "link_line l =
     lit ''- ''
     @ (if cl_target_kind (pl_link l)
           \<in> set [lit ''prompt'', lit ''decision'', lit ''ledger'', lit ''resolution'', lit ''approval'',
                  lit ''review_verdict'']
        then lit ''#'' @ cl_target_id (pl_link l)
        else cl_target_kind (pl_link l) @ lit '':'' @ cl_target_id (pl_link l))
     @ lit '' '' @ clip_line (opt_or (pl_label l) (lit ''(no preview)'')) 160
     @ superseded_tag (pl_superseded_by l) @ nl"

definition observation_line :: "class_observation \<Rightarrow> rstr" where
  "observation_line o' =
     lit ''- '' @ clip_line (co_summary o') 200 @ lit '' [sources: ''
     @ join (lit '', '') (map (\<lambda>q. lit ''#'' @ show_int q) (co_cite_seqs o')) @ lit '']'' @ nl"

definition node_section :: "pack_node \<Rightarrow> rstr" where
  "node_section n =
     (if pn_children n = [] then []
      else lit ''Children of [['' @ cn_title (pn_node n) @ lit '']]: ''
        @ join ([32] @ dot @ [32]) (map cn_title (pn_children n)) @ nl @ nl)
     @ block (lit ''FILED UNDER IT:'') link_line (pn_links n) nl
     @ block (lit ''OBSERVATIONS (patterns, not facts '' @ dash @ lit '' label them as such):'')
         observation_line (pn_observations n) nl"

definition prompt_line :: "pack_prompt_hit \<Rightarrow> rstr" where
  "prompt_line h =
     lit ''- #'' @ show_int (li_seq (pp_item h))
     @ superseded_tag (pp_superseded_by h)
     @ (if pp_duplicate_of h = [] then []
        else lit '' [+'' @ show_int (int (length (pp_duplicate_of h))) @ lit '' near-identical]'')
     @ (if pp_arms h = [] then []
        else lit '' ('' @ join (lit ''+'') (map (\<lambda>a. arm_as_str (ah_arm a)) (pp_arms h)) @ lit '')'')
     @ lit '' ['' @ opt_or (li_role (pp_item h)) (lit ''unknown'')
     @ lit ''; session '' @ opt_or (li_session_id (pp_item h)) (lit ''unknown'')
     @ lit ''; ts '' @ show_int (li_ts (pp_item h)) @ lit ''] ''
     @ clip_line (opt_or (li_body (pp_item h)) []) INLINE_BODY_CHARS @ nl"

text \<open>\<^verbatim>\<open>{:?}\<close> of the two field-less enums prints the variant's name.\<close>

fun debug_role :: "claim_role \<Rightarrow> rstr" where
  "debug_role ClaimUser = lit ''User''"
| "debug_role ClaimAssistant = lit ''Assistant''"
| "debug_role ClaimAgent = lit ''Agent''"
| "debug_role ClaimSystem = lit ''System''"
| "debug_role ClaimTool = lit ''Tool''"

fun debug_predicate :: "claim_predicate \<Rightarrow> rstr" where
  "debug_predicate Preference = lit ''Preference''"
| "debug_predicate ProjectConfiguration = lit ''ProjectConfiguration''"
| "debug_predicate SelectedTechnology = lit ''SelectedTechnology''"
| "debug_predicate Constraint = lit ''Constraint''"
| "debug_predicate DecisionClaim = lit ''Decision''"
| "debug_predicate Relationship = lit ''Relationship''"

definition claim_line :: "(f64_bits \<Rightarrow> rstr) \<Rightarrow> claim \<Rightarrow> rstr" where
  "claim_line show_f64 c =
     (let a = cl_assertion c;
          citations = join (lit '', '')
            (map (\<lambda>s. cs_chain_id s @ lit '':'' @ show_int (cs_seq s) @ lit '' ('' @ debug_role (cs_role s) @ lit '')'')
              (cw_sources a))
      in lit ''- '' @ clip_line (cw_subject a) 100 @ [32] @ dot @ [32] @ debug_predicate (cw_predicate a)
         @ lit '': '' @ clip_line (supporting_text show_f64 (cw_value a)) INLINE_BODY_CHARS
         @ lit '' [valid from '' @ show_int (cw_valid_from a)
         @ lit ''; recorded '' @ show_int (cl_recorded_at c) @ lit ''; sources '' @ citations @ lit '']''
         @ (if cl_unresolved_alternatives c = [] then []
            else lit '' CONFLICT: '' @ join (lit '', '') (cl_unresolved_alternatives c)) @ nl)"

definition page_line :: "browse_hit \<Rightarrow> rstr" where
  "page_line b =
     lit ''- #'' @ seq_or_0 (bh_seq b) @ lit '' '' @ clip_line (opt_or (bh_title b) []) 100
     @ [32] @ dash @ [32] @ bh_url b @ [32] @ dot @ [32] @ clip_line (bh_snippet b) INLINE_BODY_CHARS @ nl"

definition grep_line :: "grep_hit \<Rightarrow> rstr" where
  "grep_line g =
     lit ''- #'' @ seq_or_0 (gh_seq g) @ lit '' '' @ gh_label g @ lit '' '' @ clip_line (gh_excerpt g) 160 @ nl"

definition shared_line :: "foreign_hit \<Rightarrow> rstr" where
  "shared_line h =
     lit ''- ['' @ fh_source h @ lit ''] '' @ cite h @ lit '' ('' @ fh_redaction h @ lit '') ''
     @ clip_line (opt_or (fh_text h) (lit ''[body not shared]'')) INLINE_BODY_CHARS @ nl"

text \<open>The whole block, before clipping.\<close>

definition evidence_text ::
  "(rstr \<Rightarrow> rstr) \<Rightarrow> (f64_bits \<Rightarrow> rstr) \<Rightarrow> rstr list \<Rightarrow> answer_pack \<Rightarrow> rstr" where
  "evidence_text to_lower show_f64 ts p =
     header_lines to_lower ts p
     @ block (lit ''ANNOTATIONS (recorded notes; authorship not inferred):'') note_line (ap_notes p) nl
     @ (case ap_node p of None \<Rightarrow> [] | Some n \<Rightarrow> node_section n)
     @ block (lit ''PROMPTS:'') prompt_line (ap_prompt_hits p) nl
     @ block (lit ''CITED CLAIMS (derived assertions; alternatives remain unresolved):'')
         (claim_line show_f64) (ap_claims p) []
     @ block (lit ''PAGES:'') page_line (ap_browse_hits p) nl
     @ block (lit ''LITERAL MATCHES:'') grep_line (ap_grep_hits p) nl
     @ block (lit ''SHARED (third-party, from peers '' @ dash @ lit '' not the user'' @ [39] @ lit ''s own words):'')
         shared_line (ap_shared_hits p) nl"

section \<open>Clipping\<close>

text \<open>
  The number of characters that start before byte \<open>limit\<close>; \<^verbatim>\<open>char_indices().take_while().last()\<close> is the
  start of the last of them, so the cut keeps one character fewer.
\<close>

fun chars_before :: "nat \<Rightarrow> rstr \<Rightarrow> nat" where
  "chars_before limit [] = 0"
| "chars_before limit (c # s) = (if limit = 0 then 0 else Suc (chars_before (limit - length (utf8_char c)) s))"

fun rfind_char :: "'a \<Rightarrow> 'a list \<Rightarrow> nat option" where
  "rfind_char c [] = None"
| "rfind_char c (x # xs) =
     (case rfind_char c xs of Some i \<Rightarrow> Some (Suc i) | None \<Rightarrow> if x = c then Some 0 else None)"

fun pop_to :: "nat \<Rightarrow> rstr \<Rightarrow> rstr" where
  "pop_to limit s = (if byte_len s > limit \<and> s \<noteq> [] then pop_to limit (butlast s) else s)"

declare pop_to.simps [simp del]

definition clip_notice :: rstr where
  "clip_notice = nl @ lit ''[evidence clipped to budget]'' @ nl"

definition clip_block :: "nat \<Rightarrow> rstr \<Rightarrow> rstr" where
  "clip_block max_bytes s =
     (if byte_len s > max_bytes
      then let cut = chars_before (max_bytes - 80) s - 1;
               keep = (case rfind_char 10 (take cut s) of None \<Rightarrow> cut | Some i \<Rightarrow> i);
               t = take keep s;
               u = (if byte_len clip_notice \<le> max_bytes then t @ clip_notice else t)
           in pop_to max_bytes u
      else s)"

definition no_evidence :: "answer_pack \<Rightarrow> bool" where
  "no_evidence p \<longleftrightarrow> ap_node p = None \<and> ap_notes p = [] \<and> ap_prompt_hits p = [] \<and> ap_browse_hits p = []
     \<and> ap_grep_hits p = [] \<and> ap_shared_hits p = [] \<and> ap_claims p = []"

definition render_answer_pack_block ::
  "(rstr \<Rightarrow> rstr) \<Rightarrow> (f64_bits \<Rightarrow> rstr) \<Rightarrow> answer_pack \<Rightarrow> fts_plan option \<Rightarrow> nat \<Rightarrow> rstr option" where
  "render_answer_pack_block to_lower show_f64 p plan max_bytes =
     (let ts = (case plan of None \<Rightarrow> [] | Some q \<Rightarrow> terms q);
          no_phrases = (case plan of None \<Rightarrow> True | Some q \<Rightarrow> phrases q = [])
      in if ts = [] \<and> no_phrases then None
         else if no_evidence p then None
         else Some (clip_block max_bytes (evidence_text to_lower show_f64 ts p)))"

definition prefetch_status_label :: "rstr option \<Rightarrow> nat \<Rightarrow> rstr" where
  "prefetch_status_label node hits =
     (case node of
        Some title \<Rightarrow>
          if hits = 0 then lit ''read '' @ title @ [8230]
          else lit ''read '' @ title @ lit '' + '' @ show_int (int hits) @ lit '' items'' @ [8230]
      | None \<Rightarrow>
          if hits = 0 then lit ''nothing matched '' @ dash @ lit '' asking anyway'' @ [8230]
          else lit ''read '' @ show_int (int hits) @ lit '' items'' @ [8230])"

section \<open>What the clip keeps\<close>

lemma chars_before_bytes: "k < chars_before limit s \<Longrightarrow> byte_len (take k s) < limit"
proof (induction limit s arbitrary: k rule: chars_before.induct)
  case (2 limit c s)
  then have limit: "0 < limit" by (auto split: if_splits)
  show ?case
  proof (cases k)
    case 0
    then show ?thesis using limit by (simp add: byte_len_def)
  next
    case (Suc j)
    then have "byte_len (take j s) < limit - length (utf8_char c)"
      using 2 limit by auto
    then show ?thesis using Suc by (simp add: byte_len_def)
  qed
qed simp

lemma chars_before_le: "chars_before limit s \<le> length s"
  by (induction limit s rule: chars_before.induct) auto

lemma rfind_char_Some: "rfind_char c xs = Some i \<Longrightarrow> i < length xs \<and> xs ! i = c \<and> c \<notin> set (drop (Suc i) xs)"
proof (induction xs arbitrary: i)
  case (Cons x xs)
  have none: "c \<notin> set xs" if "rfind_char c xs = None" using that by (induction xs) (auto split: option.splits if_splits)
  show ?case using Cons none by (cases "rfind_char c xs") (auto split: if_splits)
qed simp

lemma rfind_char_None: "rfind_char c xs = None \<longleftrightarrow> c \<notin> set xs"
  by (induction xs) (auto split: option.splits)

lemma pop_to_fits: "byte_len (pop_to limit s) \<le> limit"
proof (induction limit s rule: pop_to.induct)
  case (1 limit s)
  then show ?case by (subst pop_to.simps) (auto simp: byte_len_def)
qed

lemma pop_to_id: "byte_len s \<le> limit \<Longrightarrow> pop_to limit s = s"
  by (simp add: pop_to.simps)

lemma byte_len_take_mono: "j \<le> k \<Longrightarrow> byte_len (take j s) \<le> byte_len (take k s)"
proof -
  assume "j \<le> k"
  then have "take k s = take j s @ take (k - j) (drop j s)"
    by (metis add_diff_inverse_nat not_less take_add)
  then show ?thesis by simp
qed

lemma clip_notice_bytes: "byte_len clip_notice = 30"
  by code_simp

lemma in_chars_before:
  "k < length s \<Longrightarrow> byte_len (take k s) < limit \<Longrightarrow> k < chars_before limit s"
proof (induction limit s arbitrary: k rule: chars_before.induct)
  case (2 limit c s)
  then show ?case by (cases k) (auto simp: byte_len_def)
qed simp

text \<open>
  What a clipped text is: a prefix that leaves room for the notice, ending before the last line break
  among the characters that fit, or after all of them when none is a line break.
\<close>

lemma clip_block_spec:
  assumes "max_bytes < byte_len s" and "110 \<le> max_bytes"
  defines "n \<equiv> chars_before (max_bytes - 80) s - 1"
  shows "\<exists>k < length s. clip_block max_bytes s = take k s @ clip_notice
     \<and> byte_len (take k s) + 80 \<le> max_bytes
     \<and> (if 10 \<in> set (take n s)
        then k < n \<and> s ! k = 10 \<and> 10 \<notin> set (drop (Suc k) (take n s)) else k = n)"
proof -
  define keep where "keep = (case rfind_char 10 (take n s) of None \<Rightarrow> n | Some i \<Rightarrow> i)"
  have "s \<noteq> []" using assms(1) by (auto simp: byte_len_def)
  then have "0 < chars_before (max_bytes - 80) s" using assms(2) by (cases s) auto
  then have cut: "n < chars_before (max_bytes - 80) s" by (simp add: n_def)
  then have "n < length s" using chars_before_le [of "max_bytes - 80" s] by simp
  have keep: "keep \<le> n" "if 10 \<in> set (take n s)
      then keep < n \<and> s ! keep = 10 \<and> 10 \<notin> set (drop (Suc keep) (take n s)) else keep = n"
    using rfind_char_Some [of 10 "take n s"] rfind_char_None [of 10 "take n s"]
    by (auto simp: keep_def split: option.splits)
  have "byte_len (take keep s) < max_bytes - 80"
    using byte_len_take_mono [OF keep(1), of s] chars_before_bytes [OF cut] by simp
  then have small: "byte_len (take keep s) + 80 \<le> max_bytes" using assms(2) by simp
  have "clip_block max_bytes s = pop_to max_bytes (take keep s @ clip_notice)"
    unfolding clip_block_def Let_def n_def [symmetric] keep_def [symmetric]
    using assms(1,2) by (simp add: clip_notice_bytes)
  moreover have "byte_len (take keep s @ clip_notice) \<le> max_bytes"
    using small by (simp add: clip_notice_bytes)
  ultimately have "clip_block max_bytes s = take keep s @ clip_notice" by (simp add: pop_to_id)
  moreover have "keep < length s" using keep(1) \<open>n < length s\<close> by simp
  ultimately show ?thesis using keep(2) small by blast
qed

text \<open>The first line of the block is short: it grows with nothing but the head's digits.\<close>

definition first_line :: "answer_pack \<Rightarrow> rstr" where
  "first_line p =
     lit ''PREFETCHED EVIDENCE '' @ dash @ lit '' assembled server-side from your question at seq ''
     @ show_int (ap_head_seq p) @ lit ''.''"

lemma evidence_first_line:
  "\<exists>rest. evidence_text to_lower show_f64 ts p = first_line p @ 10 # rest"
  by (simp add: evidence_text_def header_lines_def first_line_def)

lemma first_line_bytes: "byte_len (first_line p) = byte_len (show_int (ap_head_seq p)) + 73"
proof -
  have "byte_len (lit ''PREFETCHED EVIDENCE '') = 20" "byte_len dash = 3"
    "byte_len (lit '' assembled server-side from your question at seq '') = 49" "byte_len (lit ''.'') = 1"
    by code_simp+
  then show ?thesis by (simp add: first_line_def del: append.simps)
qed

lemma cut_has_first_line:
  assumes "max_bytes < byte_len (l @ 10 # rest)" and "byte_len l + 81 < max_bytes"
  shows "10 \<in> set (take (chars_before (max_bytes - 80) (l @ 10 # rest) - 1) (l @ 10 # rest))"
proof -
  let ?s = "l @ 10 # rest"
  have "byte_len (take (Suc (length l)) ?s) = byte_len l + 1"
    by (simp add: byte_len_def)
  moreover have "rest \<noteq> []" using assms by (auto simp: byte_len_def)
  then have "Suc (length l) < length ?s" by simp
  ultimately have "Suc (length l) < chars_before (max_bytes - 80) ?s"
    using assms(2) by (intro in_chars_before) auto
  then show ?thesis by (simp add: take_Cons')
qed

text \<open>
  C30. The evidence block is honest about itself.  There is no block exactly when the query had no term
  and no phrase to search for or the pack holds nothing; a block never exceeds its byte budget; one
  that fits is complete; and, for any budget of 110 bytes or more, one that does not fit is a prefix
  of the text followed by a line that says so.  The prefix ends at the last line break among the
  characters that start at least 80 bytes before the budget's end, which exists whenever the budget
  is 160 bytes more than the head's number is long; below that the text may be cut inside its first
  line, and below 110 bytes only the bound is promised.
\<close>

theorem evidence_block_is_honest:
  "let full = evidence_text to_lower show_f64 (case plan of None \<Rightarrow> [] | Some q \<Rightarrow> terms q) p;
       nothing = (no_evidence p \<or> (case plan of None \<Rightarrow> True | Some q \<Rightarrow> terms q = [] \<and> phrases q = []));
       n = chars_before (max_bytes - 80) full - 1 in
   case render_answer_pack_block to_lower show_f64 p plan max_bytes of
     None \<Rightarrow> nothing
   | Some s \<Rightarrow>
       \<not> nothing \<and> byte_len s \<le> max_bytes
       \<and> (if byte_len full \<le> max_bytes then s = full
          else if max_bytes < 110 then True
          else \<exists>k < length full. s = take k full @ clip_notice
                 \<and> (if 10 \<in> set (take n full)
                    then full ! k = 10 \<and> k < n \<and> 10 \<notin> set (drop (Suc k) (take n full))
                    else k = n \<and> max_bytes < byte_len (show_int (ap_head_seq p)) + 160))"
proof -
  let ?ts = "case plan of None \<Rightarrow> [] | Some q \<Rightarrow> terms q"
  obtain full where full: "full = evidence_text to_lower show_f64 ?ts p" by blast
  have fits: "byte_len (clip_block max_bytes full) \<le> max_bytes"
    by (simp add: clip_block_def Let_def pop_to_fits)
  have "10 \<in> set (take (chars_before (max_bytes - 80) full - 1) full)"
    if "\<not> byte_len full \<le> max_bytes" "\<not> max_bytes < byte_len (show_int (ap_head_seq p)) + 160"
    using evidence_first_line [of to_lower show_f64 ?ts p] that
    using cut_has_first_line [of max_bytes "first_line p"] by (fastforce simp: full first_line_bytes)
  then have "\<exists>k < length full. clip_block max_bytes full = take k full @ clip_notice
      \<and> (let n = chars_before (max_bytes - 80) full - 1 in
         if 10 \<in> set (take n full)
         then full ! k = 10 \<and> k < n \<and> 10 \<notin> set (drop (Suc k) (take n full))
         else k = n \<and> max_bytes < byte_len (show_int (ap_head_seq p)) + 160)"
    if "\<not> byte_len full \<le> max_bytes" "\<not> max_bytes < 110"
    using clip_block_spec [of max_bytes full] that by (fastforce simp: Let_def)
  moreover have "clip_block max_bytes full = full" if "byte_len full \<le> max_bytes"
    using that by (simp add: clip_block_def)
  ultimately show ?thesis
    using fits unfolding full [symmetric] Let_def render_answer_pack_block_def
    by (cases plan) auto
qed

end
