(* ===== verification/Foreign.thy ===== *)
theory Foreign
  imports Types Identity Chain
begin

text \<open>
  \<^verbatim>\<open>polis-store/src/foreign.rs\<close>: what a peer's verified segments leave behind.  The state is the
  \<^verbatim>\<open>foreign_*\<close> tables, the embeddings and \<^verbatim>\<open>polis_meta\<close>; every operation is one SQL statement or one
  transaction.  The forget registry is a file beside the database: a line written to it stays
  when the transaction is rolled back.  Columns that only record an import time are left out, and so
  are the full-text index, which SQLite derives from the prompt table, and its ranked search.
\<close>

section \<open>Rows\<close>

definition TOMBSTONE :: rstr where
  "TOMBSTONE = lit ''[forgotten]''"

record foreign_chain =
  fc_chain_id :: rstr
  fc_human_id :: rstr
  fc_device_name :: "rstr option"
  fc_display_name :: "rstr option"
  fc_head_seq :: int
  fc_head_hash :: rstr
  fc_forked :: bool
  fc_fork_detail :: "rstr option"
  fc_first_import_at :: int
  fc_last_import_at :: int

record foreign_prompt_input =
  fpi_seq :: int
  fpi_prompt_id :: int
  fpi_role :: rstr
  fpi_body_hash :: rstr
  fpi_redaction :: rstr
  fpi_text :: "rstr option"
  fpi_project :: "rstr option"

record foreign_prompt_row =
  fp_id :: int
  fp_chain_id :: rstr
  fp_seq :: int
  fp_prompt_id :: int
  fp_role :: rstr
  fp_body_hash :: rstr
  fp_redaction :: rstr
  fp_text :: "rstr option"
  fp_project :: "rstr option"
  fp_tombstoned :: bool

record foreign_note_input =
  fni_note_id :: int
  fni_seq :: "int option"
  fni_target_kind :: rstr
  fni_target_id :: "rstr option"
  fni_text :: rstr
  fni_created_at :: int

text \<open>A stored note; \<open>fn_rowid\<close> is SQLite's implicit row number, which its embeddings name.\<close>

record foreign_note_row =
  fn_rowid :: int
  fn_chain_id :: rstr
  fn_note_id :: int
  fn_seq :: "int option"
  fn_target_kind :: rstr
  fn_target_id :: "rstr option"
  fn_text :: rstr
  fn_created_at :: int

record foreign_redaction_input =
  fri_event_seq :: int
  fri_target_chain :: rstr
  fri_target_seq :: int

record foreign_redaction_row =
  fr_chain_id :: rstr
  fr_event_seq :: int
  fr_target_chain :: rstr
  fr_target_seq :: int

record foreign_class_node =
  fcn_chain_id :: rstr
  fcn_node_id :: rstr
  fcn_parent_id :: "rstr option"
  fcn_kind :: rstr
  fcn_title :: rstr
  fcn_summary :: "rstr option"

record foreign_class_link =
  fcl_chain_id :: rstr
  fcl_node_id :: rstr
  fcl_target_kind :: rstr
  fcl_target_id :: rstr

record trust_entry =
  te_principal_id :: rstr
  te_pubkey :: rstr
  te_fingerprint :: rstr
  te_source :: rstr
  te_display_name :: "rstr option"
  te_added_at :: int

record subscription_row =
  sr_id :: int
  sr_principal :: "rstr option"
  sr_project :: "rstr option"
  sr_class :: "rstr option"
  sr_created_at :: int

record embedding_row =
  em_target_kind :: rstr
  em_target_id :: int
  em_chunk_ix :: int
  em_char_start :: int
  em_char_len :: int
  em_dim :: int
  em_scale :: f64_bits
  em_vec :: "byte list"
  em_model :: rstr
  em_source_hash :: rstr

record imported_rows =
  ir_events :: nat
  ir_prompts :: nat
  ir_notes :: nat
  ir_principals :: nat
  ir_tombstoned :: nat
  ir_redactions :: nat

definition no_rows :: imported_rows where
  "no_rows = \<lparr>ir_events = 0, ir_prompts = 0, ir_notes = 0, ir_principals = 0, ir_tombstoned = 0,
     ir_redactions = 0\<rparr>"

section \<open>The tables\<close>

text \<open>\<^verbatim>\<open>db_prompt_seq\<close> is the \<^verbatim>\<open>AUTOINCREMENT\<close> counter of the prompt table: a deleted id is not reused.\<close>

record foreign_db =
  db_chains :: "foreign_chain list"
  db_events :: "(rstr \<times> ledger_event_row) list"
  db_prompts :: "foreign_prompt_row list"
  db_prompt_seq :: int
  db_notes :: "foreign_note_row list"
  db_principals :: "(rstr \<times> principal_card) list"
  db_redactions :: "foreign_redaction_row list"
  db_acks :: "(rstr \<times> int) list"
  db_org_acks :: "((rstr \<times> rstr) \<times> int) list"
  db_trust :: "trust_entry list"
  db_subscriptions :: "subscription_row list"
  db_subscription_seq :: int
  db_class_nodes :: "foreign_class_node list"
  db_class_links :: "foreign_class_link list"
  db_embeddings :: "embedding_row list"
  db_meta :: "rstr \<rightharpoonup> rstr"

datatype store_error = InvalidParameter rstr | MarkerIo

section \<open>Chains\<close>

definition get_foreign_chain :: "foreign_db \<Rightarrow> rstr \<Rightarrow> foreign_chain option" where
  "get_foreign_chain db c = find (\<lambda>r. fc_chain_id r = c) (db_chains db)"

definition list_foreign_chains :: "foreign_db \<Rightarrow> foreign_chain list" where
  "list_foreign_chains db = sort_key (\<lambda>r. (- fc_last_import_at r, fc_chain_id r)) (db_chains db)"

definition update_chain :: "rstr \<Rightarrow> (foreign_chain \<Rightarrow> foreign_chain) \<Rightarrow> foreign_db \<Rightarrow> foreign_db" where
  "update_chain c f db = db\<lparr>db_chains := map (\<lambda>r. if fc_chain_id r = c then f r else r) (db_chains db)\<rparr>"

definition mark_foreign_forked :: "rstr \<Rightarrow> rstr \<Rightarrow> foreign_db \<Rightarrow> bool \<times> foreign_db" where
  "mark_foreign_forked c detail db =
     (get_foreign_chain db c \<noteq> None,
      update_chain c (\<lambda>r. r\<lparr>fc_forked := True, fc_fork_detail := Some detail\<rparr>) db)"

definition clear_foreign_fork :: "rstr \<Rightarrow> foreign_db \<Rightarrow> bool \<times> foreign_db" where
  "clear_foreign_fork c db =
     (get_foreign_chain db c \<noteq> None,
      update_chain c (\<lambda>r. r\<lparr>fc_forked := False, fc_fork_detail := None\<rparr>) db)"

definition forget_foreign_chain :: "rstr \<Rightarrow> foreign_db \<Rightarrow> nat \<times> foreign_db" where
  "forget_foreign_chain c db =
     (let gone_prompts = map fp_id (filter (\<lambda>p. fp_chain_id p = c) (db_prompts db));
          gone_notes = map fn_rowid (filter (\<lambda>n. fn_chain_id n = c) (db_notes db));
          keep_prompts = filter (\<lambda>p. fp_chain_id p \<noteq> c) (db_prompts db);
          keep_notes = filter (\<lambda>n. fn_chain_id n \<noteq> c) (db_notes db);
          keep_events = filter (\<lambda>(k, e). k \<noteq> c) (db_events db);
          keep_principals = filter (\<lambda>(k, p). k \<noteq> c) (db_principals db);
          keep_redactions = filter (\<lambda>r. fr_chain_id r \<noteq> c) (db_redactions db);
          keep_acks = filter (\<lambda>(k, a). k \<noteq> c) (db_acks db);
          keep_chains = filter (\<lambda>r. fc_chain_id r \<noteq> c) (db_chains db)
      in ((length (db_prompts db) - length keep_prompts) + (length (db_notes db) - length keep_notes)
          + (length (db_events db) - length keep_events) + (length (db_principals db) - length keep_principals)
          + (length (db_redactions db) - length keep_redactions) + (length (db_acks db) - length keep_acks)
          + (length (db_chains db) - length keep_chains),
          db\<lparr>db_embeddings := filter (\<lambda>e.
               \<not> (em_target_kind e = lit ''foreign_prompt'' \<and> em_target_id e \<in> set gone_prompts)
               \<and> \<not> (em_target_kind e = lit ''foreign_note'' \<and> em_target_id e \<in> set gone_notes)) (db_embeddings db),
             db_prompts := keep_prompts, db_notes := keep_notes, db_events := keep_events,
             db_principals := keep_principals, db_redactions := keep_redactions, db_acks := keep_acks,
             db_chains := keep_chains\<rparr>))"

definition foreign_event_hash :: "foreign_db \<Rightarrow> rstr \<Rightarrow> int \<Rightarrow> rstr option" where
  "foreign_event_hash db c s =
     map_option (\<lambda>(k, e). entry_hash e) (find (\<lambda>(k, e). k = c \<and> ev_seq e = s) (db_events db))"

definition list_foreign_events :: "foreign_db \<Rightarrow> rstr \<Rightarrow> int \<Rightarrow> int \<Rightarrow> ledger_event_row list" where
  "list_foreign_events db c from_seq limit =
     sql_limit limit (sort_key ev_seq (map snd (filter (\<lambda>(k, e). k = c \<and> from_seq \<le> ev_seq e) (db_events db))))"

section \<open>Forgetting\<close>

text \<open>The marker of a forgotten capture, in \<^verbatim>\<open>polis_meta\<close> and as a line of the registry file.\<close>

definition marker_key :: "rstr \<Rightarrow> int \<Rightarrow> rstr" where
  "marker_key c s = lit ''polis.foreignForgotten.'' @ c @ [46] @ show_int s"

definition marker_line :: "rstr \<Rightarrow> int \<Rightarrow> rstr" where
  "marker_line c s = lit ''foreign_capture:'' @ c @ [58] @ show_int s"

definition is_hexdigit :: "uchar \<Rightarrow> bool" where
  "is_hexdigit c \<longleftrightarrow> is_digit c \<or> 65 \<le> c \<and> c \<le> 70 \<or> 97 \<le> c \<and> c \<le> 102"

definition capture_identity_ok :: "rstr \<Rightarrow> int \<Rightarrow> bool" where
  "capture_identity_ok c s \<longleftrightarrow> byte_len c = 64 \<and> list_all is_hexdigit c \<and> 0 < s"

text \<open>
  SQLite's \<^verbatim>\<open>CAST(text AS INTEGER)\<close>: leading spaces, an optional sign, the longest run of digits; no
  digits give 0.
\<close>

definition sql_space :: "uchar \<Rightarrow> bool" where
  "sql_space c \<longleftrightarrow> c = 32 \<or> 9 \<le> c \<and> c \<le> 13"

definition sql_cast_int :: "rstr \<Rightarrow> int" where
  "sql_cast_int s =
     (case dropWhile sql_space s of
        [] \<Rightarrow> 0
      | c # t \<Rightarrow>
          if c = 45 then - int (digits_value (takeWhile is_digit t))
          else if c = 43 then int (digits_value (takeWhile is_digit t))
          else int (digits_value (takeWhile is_digit (c # t))))"

definition note_event :: "rstr \<Rightarrow> rstr \<times> ledger_event_row \<Rightarrow> bool" where
  "note_event c ke \<longleftrightarrow> fst ke = c \<and> ev_kind (snd ke) = lit ''note'' \<and> ev_ref_kind (snd ke) = Some (lit ''none'')"

text \<open>The rows a redaction of \<open>(c, s)\<close> selects: the version it names, or any version of the same note.\<close>

definition note_selected :: "foreign_db \<Rightarrow> rstr \<Rightarrow> int \<Rightarrow> foreign_note_row \<Rightarrow> bool" where
  "note_selected db c s n \<longleftrightarrow>
     fn_chain_id n = c \<and>
     (fn_seq n = Some s \<or>
      list_ex (\<lambda>ke. note_event c ke \<and> ev_seq (snd ke) = s
        \<and> (case ev_ref_id (snd ke) of None \<Rightarrow> False | Some r \<Rightarrow> fn_note_id n = sql_cast_int r)) (db_events db))"

text \<open>
  State of a transaction: the tables and the registry file.  \<open>disk\<close> says whether appending a line to the
  registry and syncing it succeeds; a database in memory has no registry (\<open>reg = None\<close>).
\<close>

record txn =
  tx_db :: foreign_db
  tx_reg :: "rstr list option"
  tx_out :: imported_rows

definition persist_forget_marker ::
  "(rstr \<Rightarrow> bool) \<Rightarrow> rstr \<Rightarrow> rstr list option \<Rightarrow> store_error + rstr list option" where
  "persist_forget_marker disk line reg =
     (case reg of
        None \<Rightarrow> Inr None
      | Some ls \<Rightarrow> if disk line then Inr (Some (ls @ [line])) else Inl MarkerIo)"

definition bury :: "rstr \<Rightarrow> int \<Rightarrow> foreign_db \<Rightarrow> nat \<times> foreign_db" where
  "bury c s db =
     (let hit = (\<lambda>p. fp_chain_id p = c \<and> fp_seq p = s);
          ids = map fp_id (filter hit (db_prompts db));
          sel = note_selected db c s;
          rows = map fn_rowid (filter sel (db_notes db))
      in (length (filter (\<lambda>p. hit p \<and> \<not> fp_tombstoned p) (db_prompts db))
          + length (filter (\<lambda>n. sel n \<and> fn_text n \<noteq> []) (db_notes db)),
          db\<lparr>db_meta := (db_meta db)(marker_key c s \<mapsto> lit ''1''),
             db_prompts := map (\<lambda>p. if hit p \<and> \<not> fp_tombstoned p
               then p\<lparr>fp_text := Some TOMBSTONE, fp_redaction := lit ''stub'', fp_tombstoned := True\<rparr> else p)
               (db_prompts db),
             db_embeddings := filter (\<lambda>e.
               \<not> (em_target_kind e = lit ''foreign_prompt'' \<and> em_target_id e \<in> set ids)
               \<and> \<not> (em_target_kind e = lit ''foreign_note'' \<and> em_target_id e \<in> set rows)) (db_embeddings db),
             db_notes := map (\<lambda>n. if sel n then n\<lparr>fn_text := []\<rparr> else n) (db_notes db)\<rparr>))"

definition tombstone_locked ::
  "(rstr \<Rightarrow> bool) \<Rightarrow> rstr \<Rightarrow> int \<Rightarrow> foreign_db \<Rightarrow> rstr list option
     \<Rightarrow> store_error + (nat \<times> foreign_db \<times> rstr list option)" where
  "tombstone_locked disk c s db reg =
     (if \<not> capture_identity_ok c s then Inl (InvalidParameter (lit ''invalid foreign capture identity''))
      else
        case (if db_meta db (marker_key c s) = None then persist_forget_marker disk (marker_line c s) reg
              else Inr reg) of
          Inl e \<Rightarrow> Inl e
        | Inr reg' \<Rightarrow> (case bury c s db of (n, db') \<Rightarrow> Inr (n, db', reg')))"

definition capture_tombstoned :: "foreign_db \<Rightarrow> rstr \<Rightarrow> int \<Rightarrow> bool" where
  "capture_tombstoned db c s \<longleftrightarrow>
     list_ex (\<lambda>r. fr_chain_id r = fr_target_chain r \<and> fr_target_chain r = c \<and> fr_target_seq r = s)
       (db_redactions db)
     \<or> db_meta db (marker_key c s) \<noteq> None"

definition note_tombstoned :: "foreign_db \<Rightarrow> rstr \<Rightarrow> int \<Rightarrow> int \<Rightarrow> bool" where
  "note_tombstoned db c note_id s \<longleftrightarrow>
     capture_tombstoned db c s
     \<or> list_ex (\<lambda>ke. note_event c ke \<and> ev_ref_id (snd ke) = Some (show_int note_id)
          \<and> capture_tombstoned db c (ev_seq (snd ke))) (db_events db)"

section \<open>Importing a segment\<close>

text \<open>A step either goes on or fails; the rest of the list is skipped after a failure.\<close>

fun run_steps :: "('x \<Rightarrow> txn \<Rightarrow> txn \<times> store_error option) \<Rightarrow> 'x list \<Rightarrow> txn \<Rightarrow> txn \<times> store_error option" where
  "run_steps f [] t = (t, None)"
| "run_steps f (x # xs) t =
     (case f x t of (t', Some e) \<Rightarrow> (t', Some e) | (t', None) \<Rightarrow> run_steps f xs t')"

definition and_then ::
  "(txn \<Rightarrow> txn \<times> store_error option) \<Rightarrow> (txn \<Rightarrow> txn \<times> store_error option) \<Rightarrow> txn \<Rightarrow> txn \<times> store_error option" where
  "and_then f g t = (case f t of (t', Some e) \<Rightarrow> (t', Some e) | (t', None) \<Rightarrow> g t')"

definition tx_tombstone :: "(rstr \<Rightarrow> bool) \<Rightarrow> rstr \<Rightarrow> int \<Rightarrow> txn \<Rightarrow> txn \<times> store_error option" where
  "tx_tombstone disk c s t =
     (case tombstone_locked disk c s (tx_db t) (tx_reg t) of
        Inl e \<Rightarrow> (t, Some e)
      | Inr (n, db, reg) \<Rightarrow>
          (t\<lparr>tx_db := db, tx_reg := reg,
             tx_out := (tx_out t)\<lparr>ir_tombstoned := ir_tombstoned (tx_out t) + n\<rparr>\<rparr>, None))"

definition import_event :: "rstr \<Rightarrow> ledger_event_row \<Rightarrow> txn \<Rightarrow> txn \<times> store_error option" where
  "import_event c e t =
     (if foreign_event_hash (tx_db t) c (ev_seq e) \<noteq> None then (t, None)
      else (t\<lparr>tx_db := (tx_db t)\<lparr>db_events := db_events (tx_db t) @ [(c, e)]\<rparr>,
              tx_out := (tx_out t)\<lparr>ir_events := ir_events (tx_out t) + 1\<rparr>\<rparr>, None))"

definition has_prompt :: "foreign_db \<Rightarrow> rstr \<Rightarrow> int \<Rightarrow> bool" where
  "has_prompt db c s \<longleftrightarrow> list_ex (\<lambda>p. fp_chain_id p = c \<and> fp_seq p = s) (db_prompts db)"

definition insert_prompt :: "rstr \<Rightarrow> foreign_prompt_input \<Rightarrow> foreign_db \<Rightarrow> foreign_db" where
  "insert_prompt c p db =
     db\<lparr>db_prompt_seq := db_prompt_seq db + 1,
        db_prompts := db_prompts db @
          [\<lparr>fp_id = db_prompt_seq db + 1, fp_chain_id = c, fp_seq = fpi_seq p, fp_prompt_id = fpi_prompt_id p,
            fp_role = fpi_role p, fp_body_hash = fpi_body_hash p, fp_redaction = fpi_redaction p,
            fp_text = fpi_text p, fp_project = fpi_project p, fp_tombstoned = False\<rparr>]\<rparr>"

definition import_prompt ::
  "(rstr \<Rightarrow> bool) \<Rightarrow> rstr \<Rightarrow> foreign_prompt_input \<Rightarrow> txn \<Rightarrow> txn \<times> store_error option" where
  "import_prompt disk c p t =
     (let t' = (if has_prompt (tx_db t) c (fpi_seq p) then t
                else t\<lparr>tx_db := insert_prompt c p (tx_db t),
                       tx_out := (tx_out t)\<lparr>ir_prompts := ir_prompts (tx_out t) + 1\<rparr>\<rparr>)
      in if capture_tombstoned (tx_db t') c (fpi_seq p) then tx_tombstone disk c (fpi_seq p) t'
         else (t', None))"

definition find_note :: "foreign_db \<Rightarrow> rstr \<Rightarrow> int \<Rightarrow> foreign_note_row option" where
  "find_note db c note_id = find (\<lambda>n. fn_chain_id n = c \<and> fn_note_id n = note_id) (db_notes db)"

definition next_rowid :: "foreign_note_row list \<Rightarrow> int" where
  "next_rowid ns = fold (\<lambda>n m. max m (fn_rowid n)) ns 0 + 1"

text \<open>The upsert: a new note is inserted, a stored one replaced by a strictly newer version.\<close>

definition upsert_note :: "rstr \<Rightarrow> foreign_note_input \<Rightarrow> int \<Rightarrow> rstr \<Rightarrow> foreign_db \<Rightarrow> nat \<times> foreign_db" where
  "upsert_note c n s text db =
     (case find_note db c (fni_note_id n) of
        None \<Rightarrow>
          (1, db\<lparr>db_notes := db_notes db @
                [\<lparr>fn_rowid = next_rowid (db_notes db), fn_chain_id = c, fn_note_id = fni_note_id n, fn_seq = Some s,
                  fn_target_kind = fni_target_kind n, fn_target_id = fni_target_id n, fn_text = text,
                  fn_created_at = fni_created_at n\<rparr>]\<rparr>)
      | Some old \<Rightarrow>
          if s > (case fn_seq old of None \<Rightarrow> 0 | Some i \<Rightarrow> i)
          then (1, db\<lparr>db_notes := map (\<lambda>m. if fn_chain_id m = c \<and> fn_note_id m = fni_note_id n
                 then m\<lparr>fn_seq := Some s, fn_target_kind := fni_target_kind n,
                        fn_target_id := fni_target_id n, fn_text := text, fn_created_at := fni_created_at n\<rparr>
                 else m) (db_notes db)\<rparr>)
          else (0, db))"

definition import_note ::
  "(rstr \<Rightarrow> bool) \<Rightarrow> rstr \<Rightarrow> foreign_note_input \<Rightarrow> txn \<Rightarrow> txn \<times> store_error option" where
  "import_note disk c n t =
     (case fni_seq n of
        None \<Rightarrow> (t, Some (InvalidParameter (lit ''foreign notes require a source ledger sequence'')))
      | Some s \<Rightarrow>
          let db = tx_db t;
              old_seq = (case find_note db c (fni_note_id n) of None \<Rightarrow> None | Some m \<Rightarrow> fn_seq m);
              blocked = note_tombstoned db c (fni_note_id n) s
                \<or> (case old_seq of None \<Rightarrow> False | Some old \<Rightarrow> capture_tombstoned db c old)
          in case upsert_note c n s (if blocked then [] else fni_text n) db of (k, db') \<Rightarrow>
               let t' = t\<lparr>tx_db := db', tx_out := (tx_out t)\<lparr>ir_notes := ir_notes (tx_out t) + k\<rparr>\<rparr>
               in if blocked then tx_tombstone disk c s t' else (t', None))"

definition import_principal :: "rstr \<Rightarrow> principal_card \<Rightarrow> txn \<Rightarrow> txn \<times> store_error option" where
  "import_principal c p t =
     (if list_ex (\<lambda>(k, q). pc_principal_id q = pc_principal_id p) (db_principals (tx_db t)) then (t, None)
      else (t\<lparr>tx_db := (tx_db t)\<lparr>db_principals := db_principals (tx_db t) @ [(c, p)]\<rparr>,
              tx_out := (tx_out t)\<lparr>ir_principals := ir_principals (tx_out t) + 1\<rparr>\<rparr>, None))"

definition import_redaction ::
  "(rstr \<Rightarrow> bool) \<Rightarrow> rstr \<Rightarrow> foreign_redaction_input \<Rightarrow> txn \<Rightarrow> txn \<times> store_error option" where
  "import_redaction disk c r t =
     (if fri_target_chain r \<noteq> c
      then (t, Some (InvalidParameter (lit ''a foreign chain may redact only its own captures'')))
      else
        let db = tx_db t;
            known = list_ex (\<lambda>q. fr_chain_id q = c \<and> fr_event_seq q = fri_event_seq r) (db_redactions db);
            t' = (if known then t
                  else t\<lparr>tx_db := db\<lparr>db_redactions := db_redactions db @
                           [\<lparr>fr_chain_id = c, fr_event_seq = fri_event_seq r, fr_target_chain = fri_target_chain r,
                             fr_target_seq = fri_target_seq r\<rparr>]\<rparr>,
                         tx_out := (tx_out t)\<lparr>ir_redactions := ir_redactions (tx_out t) + 1\<rparr>\<rparr>)
        in tx_tombstone disk (fri_target_chain r) (fri_target_seq r) t')"

definition or_else :: "'a option \<Rightarrow> 'a option \<Rightarrow> 'a option" where
  "or_else a b = (case a of None \<Rightarrow> b | Some x \<Rightarrow> Some x)"

definition upsert_chain :: "foreign_chain \<Rightarrow> foreign_db \<Rightarrow> foreign_db" where
  "upsert_chain ch db =
     (if get_foreign_chain db (fc_chain_id ch) = None then db\<lparr>db_chains := db_chains db @ [ch]\<rparr>
      else update_chain (fc_chain_id ch) (\<lambda>old.
        old\<lparr>fc_human_id := fc_human_id ch,
            fc_device_name := or_else (fc_device_name ch) (fc_device_name old),
            fc_display_name := or_else (fc_display_name ch) (fc_display_name old),
            fc_head_seq := max (fc_head_seq old) (fc_head_seq ch),
            fc_head_hash := (if fc_head_seq ch \<ge> fc_head_seq old then fc_head_hash ch else fc_head_hash old),
            fc_last_import_at := fc_last_import_at ch\<rparr>) db)"

definition import_rows ::
  "(rstr \<Rightarrow> bool) \<Rightarrow> rstr \<Rightarrow> ledger_event_row list \<Rightarrow> foreign_prompt_input list \<Rightarrow> foreign_note_input list
     \<Rightarrow> principal_card list \<Rightarrow> foreign_redaction_input list \<Rightarrow> txn \<Rightarrow> txn \<times> store_error option" where
  "import_rows disk c events prompts notes principals redactions =
     and_then (run_steps (import_event c) events)
       (and_then (run_steps (import_prompt disk c) prompts)
         (and_then (run_steps (import_note disk c) notes)
           (and_then (run_steps (import_principal c) principals)
             (run_steps (import_redaction disk c) redactions))))"

text \<open>All or nothing for the tables; the registry keeps what was written to it.\<close>

definition import_foreign_segment ::
  "(rstr \<Rightarrow> bool) \<Rightarrow> foreign_chain \<Rightarrow> ledger_event_row list \<Rightarrow> foreign_prompt_input list
     \<Rightarrow> foreign_note_input list \<Rightarrow> principal_card list \<Rightarrow> foreign_redaction_input list
     \<Rightarrow> foreign_db \<Rightarrow> rstr list option \<Rightarrow> (store_error + imported_rows) \<times> foreign_db \<times> rstr list option" where
  "import_foreign_segment disk ch events prompts notes principals redactions db reg =
     (case import_rows disk (fc_chain_id ch) events prompts notes principals redactions
             \<lparr>tx_db = db, tx_reg = reg, tx_out = no_rows\<rparr> of
        (t, Some e) \<Rightarrow> (Inl e, db, tx_reg t)
      | (t, None) \<Rightarrow> (Inr (tx_out t), upsert_chain ch (tx_db t), tx_reg t))"

definition tombstone_foreign_capture ::
  "(rstr \<Rightarrow> bool) \<Rightarrow> rstr \<Rightarrow> int \<Rightarrow> foreign_db \<Rightarrow> rstr list option
     \<Rightarrow> (store_error + bool) \<times> foreign_db \<times> rstr list option" where
  "tombstone_foreign_capture disk c s db reg =
     (case tombstone_locked disk c s db reg of
        Inl e \<Rightarrow> (Inl e, db, reg)
      | Inr (n, db', reg') \<Rightarrow> (Inr (0 < n), db', reg'))"

section \<open>Reads\<close>

definition foreign_prompt :: "foreign_db \<Rightarrow> rstr \<Rightarrow> int \<Rightarrow> foreign_prompt_row option" where
  "foreign_prompt db c s = find (\<lambda>p. fp_chain_id p = c \<and> fp_seq p = s) (db_prompts db)"

definition foreign_prompt_by_id :: "foreign_db \<Rightarrow> int \<Rightarrow> foreign_prompt_row option" where
  "foreign_prompt_by_id db i = find (\<lambda>p. fp_id p = i) (db_prompts db)"

definition list_foreign_prompts :: "foreign_db \<Rightarrow> rstr \<Rightarrow> int \<Rightarrow> foreign_prompt_row list" where
  "list_foreign_prompts db c limit =
     sql_limit limit (sort_key fp_seq (filter (\<lambda>p. fp_chain_id p = c) (db_prompts db)))"

definition foreign_embedding_backlog ::
  "foreign_db \<Rightarrow> rstr \<Rightarrow> int \<Rightarrow> (rstr \<times> int \<times> rstr \<times> rstr) list" where
  "foreign_embedding_backlog db model limit =
     sql_limit limit
       (map (\<lambda>p. (lit ''foreign_prompt'', fp_id p, (case fp_text p of None \<Rightarrow> [] | Some t \<Rightarrow> t), fp_body_hash p))
         (sort_key fp_id (filter (\<lambda>p. \<not> fp_tombstoned p \<and> fp_text p \<noteq> None \<and> fp_text p \<noteq> Some []
            \<and> \<not> list_ex (\<lambda>e. em_target_kind e = lit ''foreign_prompt'' \<and> em_target_id e = fp_id p
                 \<and> em_model e = model \<and> em_source_hash e = fp_body_hash p) (db_embeddings db))
           (db_prompts db))))"

definition embeddings_for_prompt :: "foreign_db \<Rightarrow> int \<Rightarrow> embedding_row list" where
  "embeddings_for_prompt db pid =
     sort_key (\<lambda>e. (em_model e, em_chunk_ix e))
       (filter (\<lambda>e. em_target_kind e = lit ''prompt'' \<and> em_target_id e = pid) (db_embeddings db))"

definition store_foreign_embedding_raw :: "embedding_row \<Rightarrow> foreign_db \<Rightarrow> foreign_db" where
  "store_foreign_embedding_raw e db =
     (let e' = e\<lparr>em_target_kind := lit ''foreign_prompt''\<rparr>
      in db\<lparr>db_embeddings :=
           filter (\<lambda>x. \<not> (em_target_kind x = em_target_kind e' \<and> em_target_id x = em_target_id e'
             \<and> em_chunk_ix x = em_chunk_ix e' \<and> em_model x = em_model e')) (db_embeddings db) @ [e']\<rparr>)"

definition foreign_counts :: "foreign_db \<Rightarrow> nat \<times> nat \<times> nat \<times> nat \<times> nat" where
  "foreign_counts db =
     (length (db_chains db), length (filter fc_forked (db_chains db)), length (db_events db),
      length (db_prompts db), length (filter fp_tombstoned (db_prompts db)))"

section \<open>Trust, subscriptions, acknowledgements\<close>

definition trust_get :: "foreign_db \<Rightarrow> rstr \<Rightarrow> trust_entry option" where
  "trust_get db i = find (\<lambda>e. te_principal_id e = i) (db_trust db)"

definition trust_list :: "foreign_db \<Rightarrow> trust_entry list" where
  "trust_list db = sort_key (\<lambda>e. (te_added_at e, te_principal_id e)) (db_trust db)"

text \<open>Insert only: a trusted key is never overwritten.\<close>

definition trust_set :: "trust_entry \<Rightarrow> foreign_db \<Rightarrow> bool \<times> foreign_db" where
  "trust_set e db =
     (if trust_get db (te_principal_id e) = None then (True, db\<lparr>db_trust := db_trust db @ [e]\<rparr>) else (False, db))"

definition trust_remove :: "rstr \<Rightarrow> foreign_db \<Rightarrow> bool \<times> foreign_db" where
  "trust_remove i db =
     (trust_get db i \<noteq> None, db\<lparr>db_trust := filter (\<lambda>e. te_principal_id e \<noteq> i) (db_trust db)\<rparr>)"

definition subscriptions :: "foreign_db \<Rightarrow> subscription_row list" where
  "subscriptions db = sort_key sr_id (db_subscriptions db)"

definition subscribe ::
  "rstr option \<Rightarrow> rstr option \<Rightarrow> rstr option \<Rightarrow> int \<Rightarrow> foreign_db \<Rightarrow> int \<times> foreign_db" where
  "subscribe p project cls now db =
     (let i = db_subscription_seq db + 1
      in (i, db\<lparr>db_subscription_seq := i,
           db_subscriptions := db_subscriptions db @
             [\<lparr>sr_id = i, sr_principal = p, sr_project = project, sr_class = cls, sr_created_at = now\<rparr>]\<rparr>))"

definition unsubscribe :: "int \<Rightarrow> foreign_db \<Rightarrow> bool \<times> foreign_db" where
  "unsubscribe i db =
     (list_ex (\<lambda>r. sr_id r = i) (db_subscriptions db),
      db\<lparr>db_subscriptions := filter (\<lambda>r. sr_id r \<noteq> i) (db_subscriptions db)\<rparr>)"

text \<open>Both acknowledgement tables keep the largest sequence number seen for their key.\<close>

definition max_upsert :: "'k \<Rightarrow> int \<Rightarrow> ('k \<times> int) list \<Rightarrow> ('k \<times> int) list" where
  "max_upsert k v m =
     (if map_of m k = None then m @ [(k, v)]
      else map (\<lambda>(j, w). if j = k then (j, max w v) else (j, w)) m)"

definition set_foreign_ack :: "rstr \<Rightarrow> int \<Rightarrow> foreign_db \<Rightarrow> foreign_db" where
  "set_foreign_ack c s db = db\<lparr>db_acks := max_upsert c s (db_acks db)\<rparr>"

definition foreign_acks :: "foreign_db \<Rightarrow> (rstr \<times> int) list" where
  "foreign_acks db = sort_key fst (db_acks db)"

definition record_org_ack :: "rstr \<Rightarrow> rstr \<Rightarrow> int \<Rightarrow> foreign_db \<Rightarrow> foreign_db" where
  "record_org_ack acker c s db = db\<lparr>db_org_acks := max_upsert (acker, c) s (db_org_acks db)\<rparr>"

definition org_acks :: "foreign_db \<Rightarrow> rstr option \<Rightarrow> (rstr \<times> rstr \<times> int) list" where
  "org_acks db c =
     (let rows = map (\<lambda>((a, k), s). (a, k, s)) (db_org_acks db)
      in case c of
           Some k \<Rightarrow> sort_key (\<lambda>(a, j, s). a) (filter (\<lambda>(a, j, s). j = k) rows)
         | None \<Rightarrow> sort_key (\<lambda>(a, j, s). (j, a)) rows)"

definition list_foreign_redactions :: "foreign_db \<Rightarrow> foreign_redaction_row list" where
  "list_foreign_redactions db = sort_key (\<lambda>r. - fr_event_seq r) (db_redactions db)"

section \<open>A peer's catalogue\<close>

text \<open>\<^verbatim>\<open>INSERT OR REPLACE\<close> deletes the row it replaces and inserts at the end.\<close>

definition replace_node :: "foreign_class_node \<Rightarrow> foreign_class_node list \<Rightarrow> foreign_class_node list" where
  "replace_node n ns =
     filter (\<lambda>m. \<not> (fcn_chain_id m = fcn_chain_id n \<and> fcn_node_id m = fcn_node_id n)) ns @ [n]"

definition ignore_link :: "foreign_class_link \<Rightarrow> foreign_class_link list \<Rightarrow> foreign_class_link list" where
  "ignore_link l ls = (if l \<in> set ls then ls else ls @ [l])"

definition import_foreign_tree ::
  "rstr \<Rightarrow> foreign_class_node list \<Rightarrow> foreign_class_link list \<Rightarrow> foreign_db \<Rightarrow> (nat \<times> nat) \<times> foreign_db" where
  "import_foreign_tree c nodes links db =
     ((length nodes, length links),
      db\<lparr>db_class_nodes := fold (\<lambda>n. replace_node (n\<lparr>fcn_chain_id := c\<rparr>)) nodes
             (filter (\<lambda>n. fcn_chain_id n \<noteq> c) (db_class_nodes db)),
         db_class_links := fold (\<lambda>l. ignore_link (l\<lparr>fcl_chain_id := c\<rparr>)) links
             (filter (\<lambda>l. fcl_chain_id l \<noteq> c) (db_class_links db))\<rparr>)"

definition list_foreign_class_nodes :: "foreign_db \<Rightarrow> rstr \<Rightarrow> foreign_class_node list" where
  "list_foreign_class_nodes db c = sort_key fcn_title (filter (\<lambda>n. fcn_chain_id n = c) (db_class_nodes db))"

definition list_foreign_class_links :: "foreign_db \<Rightarrow> rstr \<Rightarrow> rstr \<Rightarrow> foreign_class_link list" where
  "list_foreign_class_links db c i =
     sort_key fcl_target_id (filter (\<lambda>l. fcl_chain_id l = c \<and> fcl_node_id l = i) (db_class_links db))"

definition foreign_class_titles_for :: "foreign_db \<Rightarrow> rstr \<Rightarrow> int \<Rightarrow> (rstr \<times> rstr) list" where
  "foreign_class_titles_for db c s =
     sort_key snd
       (concat (map (\<lambda>l. map (\<lambda>n. (fcl_chain_id l, fcn_title n))
           (filter (\<lambda>n. fcn_chain_id n = fcl_chain_id l \<and> fcn_node_id n = fcl_node_id l) (db_class_nodes db)))
         (filter (\<lambda>l. fcl_chain_id l = c \<and> fcl_target_id l = show_int s
                   \<or> fcl_target_id l = c @ [58] @ show_int s) (db_class_links db))))"

section \<open>Forgotten stays forgotten\<close>

lemma marker_key_inject [simp]: "marker_key c s = marker_key c' s' \<longleftrightarrow> c = c' \<and> s = s'"
proof
  assume "marker_key c s = marker_key c' s'"
  then have "rev (c @ [46] @ show_int s) = rev (c' @ [46] @ show_int s')"
    unfolding marker_key_def by simp
  then have "rev (show_int s) @ 46 # rev c = rev (show_int s') @ 46 # rev c'" by simp
  moreover have "\<forall>x\<in>set (rev (show_int i)). int_char x" for i using show_int_chars by auto
  moreover have "\<not> int_char 46" by (simp add: int_char_def is_digit_def)
  ultimately have "rev (show_int s) = rev (show_int s') \<and> 46 # rev c = 46 # rev c'"
    by (intro stopped_append_inject [of _ _ _ _ _ _ int_char])
  then show "c = c' \<and> s = s'" by simp
qed simp

definition marked :: "foreign_db \<Rightarrow> rstr \<Rightarrow> int \<Rightarrow> bool" where
  "marked db c s \<longleftrightarrow> db_meta db (marker_key c s) \<noteq> None"

text \<open>
  The invariant, with one capture exempted: a redaction row has its marker, a marked prompt is a
  tombstone, a marked note is empty.
\<close>

definition buried_but :: "(rstr \<times> int) set \<Rightarrow> foreign_db \<Rightarrow> bool" where
  "buried_but X db \<longleftrightarrow>
     (\<forall>r\<in>set (db_redactions db). fr_chain_id r = fr_target_chain r
        \<longrightarrow> (fr_target_chain r, fr_target_seq r) \<in> X \<or> marked db (fr_target_chain r) (fr_target_seq r))
     \<and> (\<forall>p\<in>set (db_prompts db). marked db (fp_chain_id p) (fp_seq p)
          \<longrightarrow> (fp_chain_id p, fp_seq p) \<in> X \<or> fp_tombstoned p)
     \<and> (\<forall>p\<in>set (db_prompts db). fp_tombstoned p \<longrightarrow> fp_text p = Some TOMBSTONE)
     \<and> (\<forall>n\<in>set (db_notes db). \<forall>s. fn_seq n = Some s \<and> marked db (fn_chain_id n) s
          \<longrightarrow> (fn_chain_id n, s) \<in> X \<or> fn_text n = [])"

abbreviation buried :: "foreign_db \<Rightarrow> bool" where
  "buried \<equiv> buried_but {}"

lemma buried_weaken: "buried db \<Longrightarrow> buried_but X db"
  by (auto simp: buried_but_def)

lemma buriedD:
  assumes "buried db"
  shows "capture_tombstoned db c s \<longleftrightarrow> marked db c s"
    and "p \<in> set (db_prompts db) \<Longrightarrow> marked db (fp_chain_id p) (fp_seq p) \<Longrightarrow> fp_tombstoned p"
    and "p \<in> set (db_prompts db) \<Longrightarrow> fp_tombstoned p \<Longrightarrow> fp_text p = Some TOMBSTONE"
    and "n \<in> set (db_notes db) \<Longrightarrow> fn_seq n = Some i \<Longrightarrow> marked db (fn_chain_id n) i \<Longrightarrow> fn_text n = []"
  using assms unfolding buried_but_def capture_tombstoned_def list_ex_iff marked_def by auto

lemma buried_tables:
  assumes "buried_but X db" and "db_prompts db' = db_prompts db" "db_notes db' = db_notes db"
    and "db_redactions db' = db_redactions db" "db_meta db' = db_meta db"
  shows "buried_but X db'"
  using assms by (simp add: buried_but_def marked_def)

lemma buried_unexempt:
  assumes b: "buried_but {(c, s)} db" and "\<not> capture_tombstoned db c s"
  shows "buried db"
proof -
  have m: "\<not> marked db c s"
    and r: "\<not> (fr_chain_id r = fr_target_chain r \<and> (fr_target_chain r, fr_target_seq r) = (c, s))"
    if "r \<in> set (db_redactions db)" for r
    using assms(2) that by (auto simp: capture_tombstoned_def marked_def list_ex_iff)
  have m: "\<not> marked db c s" using assms(2) by (simp add: capture_tombstoned_def marked_def)
  show ?thesis
    unfolding buried_but_def
  proof (intro conjI ballI allI impI)
    show "(fr_target_chain q, fr_target_seq q) \<in> {} \<or> marked db (fr_target_chain q) (fr_target_seq q)"
      if "q \<in> set (db_redactions db)" "fr_chain_id q = fr_target_chain q" for q
      using b r [OF that(1)] that unfolding buried_but_def by blast
  qed (use b m in \<open>auto simp: buried_but_def\<close>)
qed

lemma bury_marked: "marked (snd (bury c s db)) c' s' \<longleftrightarrow> (c', s') = (c, s) \<or> marked db c' s'"
  by (auto simp: bury_def marked_def Let_def)

lemma bury_buried:
  assumes "buried_but {(c, s)} db"
  shows "buried (snd (bury c s db))"
proof -
  let ?db = "snd (bury c s db)"
  have prompts: "db_prompts ?db = map (\<lambda>p. if (fp_chain_id p = c \<and> fp_seq p = s) \<and> \<not> fp_tombstoned p
      then p\<lparr>fp_text := Some TOMBSTONE, fp_redaction := lit ''stub'', fp_tombstoned := True\<rparr> else p) (db_prompts db)"
    and note_rows: "db_notes ?db = map (\<lambda>n. if note_selected db c s n then n\<lparr>fn_text := []\<rparr> else n) (db_notes db)"
    and reds: "db_redactions ?db = db_redactions db"
    by (simp_all add: bury_def Let_def)
  have sel: "note_selected db c s n" if "fn_chain_id n = c" "fn_seq n = Some s" for n
    using that by (simp add: note_selected_def)
  have R: "\<forall>r\<in>set (db_redactions db). fr_chain_id r = fr_target_chain r
        \<longrightarrow> (fr_target_chain r, fr_target_seq r) = (c, s) \<or> marked db (fr_target_chain r) (fr_target_seq r)"
    and P: "\<forall>p\<in>set (db_prompts db). marked db (fp_chain_id p) (fp_seq p)
          \<longrightarrow> (fp_chain_id p, fp_seq p) = (c, s) \<or> fp_tombstoned p"
    and T: "\<forall>p\<in>set (db_prompts db). fp_tombstoned p \<longrightarrow> fp_text p = Some TOMBSTONE"
    and N: "\<forall>n\<in>set (db_notes db). \<forall>i. fn_seq n = Some i \<and> marked db (fn_chain_id n) i
          \<longrightarrow> (fn_chain_id n, i) = (c, s) \<or> fn_text n = []"
    using assms unfolding buried_but_def by blast+
  have N': "note_selected db c s n \<or> fn_text n = []"
    if "n \<in> set (db_notes db)" "fn_seq n = Some i" "marked db (fn_chain_id n) i" for n i
    using N sel [of n] that by blast
  show ?thesis
    unfolding buried_but_def prompts note_rows reds bury_marked
  proof (intro conjI ballI allI impI)
    show "(fr_target_chain r, fr_target_seq r) \<in> {} \<or>
        (fr_target_chain r, fr_target_seq r) = (c, s) \<or> marked db (fr_target_chain r) (fr_target_seq r)"
      if "r \<in> set (db_redactions db)" "fr_chain_id r = fr_target_chain r" for r
      using R that by blast
  qed (use P T N' sel in \<open>auto split: if_splits\<close>)
qed

lemma tombstone_locked_buried:
  assumes "tombstone_locked disk c s db reg = Inr (n, db', reg')" and "buried_but {(c, s)} db"
  shows "buried db' \<and> marked db' c s \<and> (\<forall>c' s'. marked db c' s' \<longrightarrow> marked db' c' s')"
proof -
  have "db' = snd (bury c s db)"
    using assms(1) by (auto simp: tombstone_locked_def split: if_splits sum.splits prod.splits)
  then show ?thesis using bury_buried [OF assms(2)] bury_marked by auto
qed

text \<open>A step that succeeds keeps the invariant and every marker.\<close>

definition safe_step :: "(txn \<Rightarrow> txn \<times> store_error option) \<Rightarrow> bool" where
  "safe_step f \<longleftrightarrow> (\<forall>t t'. f t = (t', None) \<and> buried (tx_db t) \<longrightarrow>
     buried (tx_db t') \<and> (\<forall>c s. marked (tx_db t) c s \<longrightarrow> marked (tx_db t') c s))"

lemma safe_stepI:
  "(\<And>t t'. f t = (t', None) \<Longrightarrow> buried (tx_db t) \<Longrightarrow>
     buried (tx_db t') \<and> (\<forall>c s. marked (tx_db t) c s \<longrightarrow> marked (tx_db t') c s)) \<Longrightarrow> safe_step f"
  unfolding safe_step_def by blast

lemma safe_stepD:
  "safe_step f \<Longrightarrow> f t = (t', None) \<Longrightarrow> buried (tx_db t) \<Longrightarrow>
     buried (tx_db t') \<and> (\<forall>c s. marked (tx_db t) c s \<longrightarrow> marked (tx_db t') c s)"
  unfolding safe_step_def by blast

lemma and_then_None: "and_then f g t = (t', None) \<longleftrightarrow> (\<exists>u. f t = (u, None) \<and> g u = (t', None))"
  by (auto simp: and_then_def split: prod.splits option.splits)

lemma safe_and_then: "safe_step f \<Longrightarrow> safe_step g \<Longrightarrow> safe_step (and_then f g)"
  by (rule safe_stepI) (auto simp: and_then_None dest!: safe_stepD)

lemma safe_run_steps:
  assumes "\<And>x. safe_step (f x)"
  shows "safe_step (run_steps f xs)"
proof (induction xs)
  case (Cons x xs)
  have "run_steps f (x # xs) = and_then (f x) (run_steps f xs)"
    by (rule ext) (simp add: and_then_def)
  then show ?case using safe_and_then [OF assms Cons] by simp
qed (simp add: safe_step_def)

lemma tx_tombstone_None:
  assumes "tx_tombstone disk c s t = (t', None)" and "buried_but {(c, s)} (tx_db t)"
  shows "buried (tx_db t') \<and> marked (tx_db t') c s \<and> (\<forall>a b. marked (tx_db t) a b \<longrightarrow> marked (tx_db t') a b)"
proof -
  obtain n db reg where r: "tombstone_locked disk c s (tx_db t) (tx_reg t) = Inr (n, db, reg)" "tx_db t' = db"
    using assms(1) by (auto simp: tx_tombstone_def split: sum.splits prod.splits)
  show ?thesis using tombstone_locked_buried [OF r(1) assms(2)] r(2) by simp
qed

lemma safe_tombstone: "safe_step (tx_tombstone disk c s)"
  by (rule safe_stepI) (meson tx_tombstone_None buried_weaken)

lemma safe_import_event: "safe_step (import_event c e)"
  by (rule safe_stepI) (auto simp: import_event_def marked_def elim: buried_tables split: if_splits)

lemma safe_import_principal: "safe_step (import_principal c p)"
  by (rule safe_stepI) (auto simp: import_principal_def marked_def elim: buried_tables split: if_splits)

lemma insert_prompt_buried:
  assumes "buried db"
  shows "buried_but {(c, fpi_seq p)} (insert_prompt c p db)"
  using assms unfolding buried_but_def insert_prompt_def marked_def by auto

lemma safe_import_prompt: "safe_step (import_prompt disk c p)"
proof (rule safe_stepI)
  fix t t' assume step: "import_prompt disk c p t = (t', None)" and ok: "buried (tx_db t)"
  define u where "u = (if has_prompt (tx_db t) c (fpi_seq p) then t
    else t\<lparr>tx_db := insert_prompt c p (tx_db t), tx_out := (tx_out t)\<lparr>ir_prompts := ir_prompts (tx_out t) + 1\<rparr>\<rparr>)"
  have u: "buried_but {(c, fpi_seq p)} (tx_db u)"
    using insert_prompt_buried [OF ok] buried_weaken [OF ok] by (simp add: u_def)
  have m: "marked (tx_db u) a b \<longleftrightarrow> marked (tx_db t) a b" for a b
    by (simp add: u_def insert_prompt_def marked_def)
  show "buried (tx_db t') \<and> (\<forall>a b. marked (tx_db t) a b \<longrightarrow> marked (tx_db t') a b)"
  proof (cases "capture_tombstoned (tx_db u) c (fpi_seq p)")
    case True
    then have "tx_tombstone disk c (fpi_seq p) u = (t', None)"
      using step by (simp add: import_prompt_def u_def [symmetric] Let_def)
    then show ?thesis using tx_tombstone_None [OF _ u] m by blast
  next
    case False
    then have "t' = u" using step by (simp add: import_prompt_def u_def [symmetric] Let_def)
    then show ?thesis using buried_unexempt [OF u False] m by simp
  qed
qed

lemma find_note_Some: "find_note db c i = Some n \<Longrightarrow> n \<in> set (db_notes db) \<and> fn_chain_id n = c"
  by (auto simp: find_note_def find_Some_iff)

lemma upsert_note_buried:
  assumes b: "buried db" and u: "upsert_note c n s text db = (k, db')"
    and "text = [] \<or> \<not> marked db c s"
  shows "buried db' \<and> (\<forall>a i. marked db' a i \<longleftrightarrow> marked db a i)"
proof -
  have meta: "db_meta db' = db_meta db" and reds: "db_redactions db' = db_redactions db"
    and prompts: "db_prompts db' = db_prompts db"
    and new: "\<And>m. m \<in> set (db_notes db') \<Longrightarrow>
      m \<in> set (db_notes db) \<or> fn_chain_id m = c \<and> fn_seq m = Some s \<and> fn_text m = text"
    using u by (auto simp: upsert_note_def split: option.splits if_splits)
  have "fn_text m = []" if "m \<in> set (db_notes db')" "fn_seq m = Some i" "marked db' (fn_chain_id m) i" for m i
    using new [OF that(1)] that(2,3) assms(3) buriedD(4) [OF b, of m i] meta by (auto simp: marked_def)
  moreover have "\<forall>a i. marked db' a i \<longleftrightarrow> marked db a i" by (simp add: marked_def meta)
  ultimately show ?thesis
    using b unfolding buried_but_def prompts reds by auto
qed

lemma safe_import_note: "safe_step (import_note disk c n)"
proof (rule safe_stepI)
  fix t t' assume step: "import_note disk c n t = (t', None)" and ok: "buried (tx_db t)"
  obtain s where s: "fni_seq n = Some s" using step by (cases "fni_seq n") (simp_all add: import_note_def)
  define blocked where "blocked \<longleftrightarrow> note_tombstoned (tx_db t) c (fni_note_id n) s
    \<or> (case (case find_note (tx_db t) c (fni_note_id n) of None \<Rightarrow> None | Some m \<Rightarrow> fn_seq m) of
         None \<Rightarrow> False | Some old \<Rightarrow> capture_tombstoned (tx_db t) c old)"
  obtain k db where u: "upsert_note c n s (if blocked then [] else fni_text n) (tx_db t) = (k, db)" by fastforce
  define v where "v = t\<lparr>tx_db := db, tx_out := (tx_out t)\<lparr>ir_notes := ir_notes (tx_out t) + k\<rparr>\<rparr>"
  have t': "(if blocked then tx_tombstone disk c s v else (v, None)) = (t', None)"
    using step s u by (cases blocked) (simp_all add: import_note_def blocked_def [symmetric] v_def Let_def)
  have "marked (tx_db t) c s \<Longrightarrow> blocked"
    by (simp add: blocked_def note_tombstoned_def capture_tombstoned_def marked_def)
  then have "(if blocked then [] else fni_text n) = [] \<or> \<not> marked (tx_db t) c s" by auto
  from upsert_note_buried [OF ok u this]
  have v: "buried (tx_db v)" "\<And>a i. marked (tx_db v) a i \<longleftrightarrow> marked (tx_db t) a i"
    by (simp_all add: v_def)
  then show "buried (tx_db t') \<and> (\<forall>a i. marked (tx_db t) a i \<longrightarrow> marked (tx_db t') a i)"
    using t' safe_stepD [OF safe_tombstone, of disk c s v t'] by (auto split: if_splits)
qed

lemma import_redaction_None:
  assumes step: "import_redaction disk c r t = (t', None)" and ok: "buried (tx_db t)"
  shows "buried (tx_db t') \<and> marked (tx_db t') c (fri_target_seq r)
     \<and> (\<forall>a i. marked (tx_db t) a i \<longrightarrow> marked (tx_db t') a i)"
proof -
  let ?known = "list_ex (\<lambda>q. fr_chain_id q = c \<and> fr_event_seq q = fri_event_seq r) (db_redactions (tx_db t))"
  define u where "u = (if ?known then t
    else t\<lparr>tx_db := (tx_db t)\<lparr>db_redactions := db_redactions (tx_db t) @
             [\<lparr>fr_chain_id = c, fr_event_seq = fri_event_seq r, fr_target_chain = fri_target_chain r,
               fr_target_seq = fri_target_seq r\<rparr>]\<rparr>,
           tx_out := (tx_out t)\<lparr>ir_redactions := ir_redactions (tx_out t) + 1\<rparr>\<rparr>)"
  have c: "fri_target_chain r = c" and s: "tx_tombstone disk c (fri_target_seq r) u = (t', None)"
    using step by (auto simp: import_redaction_def u_def Let_def split: if_splits)
  have "buried_but {(c, fri_target_seq r)} (tx_db u)"
    using ok by (auto simp: u_def buried_but_def marked_def c)
  from tx_tombstone_None [OF s this] show ?thesis by (auto simp: u_def marked_def)
qed

lemma safe_import_redaction: "safe_step (import_redaction disk c r)"
  by (rule safe_stepI) (use import_redaction_None in blast)

lemma safe_import_rows: "safe_step (import_rows disk c es ps ns cs rs)"
  unfolding import_rows_def
  by (intro safe_and_then safe_run_steps safe_import_event safe_import_prompt safe_import_note
      safe_import_principal safe_import_redaction)

subsection \<open>The registry\<close>

text \<open>Every marker has its line in the registry file, and the file only grows, also across rollbacks.\<close>

definition registered :: "foreign_db \<Rightarrow> rstr list option \<Rightarrow> bool" where
  "registered db reg \<longleftrightarrow>
     (case reg of None \<Rightarrow> True | Some ls \<Rightarrow> \<forall>c s. marked db c s \<longrightarrow> marker_line c s \<in> set ls)"

definition reg_le :: "rstr list option \<Rightarrow> rstr list option \<Rightarrow> bool" where
  "reg_le r r' \<longleftrightarrow> (case (r, r') of (None, None) \<Rightarrow> True | (Some a, Some b) \<Rightarrow> set a \<subseteq> set b | _ \<Rightarrow> False)"

lemma reg_le_refl [simp]: "reg_le r r"
  by (simp add: reg_le_def split: option.splits)

lemma reg_le_trans: "reg_le a b \<Longrightarrow> reg_le b c \<Longrightarrow> reg_le a c"
  by (auto simp: reg_le_def split: option.splits)

lemma registered_meta: "db_meta db' = db_meta db \<Longrightarrow> registered db' r \<longleftrightarrow> registered db r"
  by (cases r) (simp_all add: registered_def marked_def)

lemma registered_mono: "registered db r \<Longrightarrow> reg_le r r' \<Longrightarrow> registered db r'"
  by (auto simp: registered_def reg_le_def split: option.splits)

definition logged_step :: "(txn \<Rightarrow> txn \<times> store_error option) \<Rightarrow> bool" where
  "logged_step f \<longleftrightarrow> (\<forall>t. registered (tx_db t) (tx_reg t) \<longrightarrow>
     registered (tx_db (fst (f t))) (tx_reg (fst (f t))) \<and> reg_le (tx_reg t) (tx_reg (fst (f t))))"

lemma logged_same:
  assumes "\<And>t. tx_reg (fst (f t)) = tx_reg t" and "\<And>t. db_meta (tx_db (fst (f t))) = db_meta (tx_db t)"
  shows "logged_step f"
  unfolding logged_step_def assms registered_meta [OF assms(2)] by simp

lemma logged_and_then: "logged_step f \<Longrightarrow> logged_step g \<Longrightarrow> logged_step (and_then f g)"
proof -
  assume f: "logged_step f" and g: "logged_step g"
  have "registered (tx_db (fst (and_then f g t))) (tx_reg (fst (and_then f g t)))
      \<and> reg_le (tx_reg t) (tx_reg (fst (and_then f g t)))"
    if ok: "registered (tx_db t) (tx_reg t)" for t
  proof -
    obtain u e where u: "f t = (u, e)" by fastforce
    have 1: "registered (tx_db u) (tx_reg u)" "reg_le (tx_reg t) (tx_reg u)"
      using f ok u unfolding logged_step_def by (metis fst_conv)+
    then have "registered (tx_db (fst (g u))) (tx_reg (fst (g u)))" "reg_le (tx_reg u) (tx_reg (fst (g u)))"
      using g unfolding logged_step_def by blast+
    then show ?thesis using u 1 reg_le_trans by (cases e) (auto simp: and_then_def)
  qed
  then show ?thesis by (simp add: logged_step_def)
qed

lemma logged_run_steps:
  assumes "\<And>x. logged_step (f x)"
  shows "logged_step (run_steps f xs)"
proof (induction xs)
  case (Cons x xs)
  have "run_steps f (x # xs) = and_then (f x) (run_steps f xs)"
    by (rule ext) (simp add: and_then_def)
  then show ?case using logged_and_then [OF assms Cons] by simp
qed (simp add: logged_step_def)

lemma tombstone_locked_logged:
  assumes "tombstone_locked disk c s db reg = Inr (n, db', reg')" and "registered db reg"
  shows "registered db' reg' \<and> reg_le reg reg'"
proof -
  have m: "marked db' a i \<longleftrightarrow> (a, i) = (c, s) \<or> marked db a i" for a i
    using assms(1) bury_marked [of c s db a i]
    by (auto simp: tombstone_locked_def split: if_splits sum.splits prod.splits)
  have "reg' = reg \<and> (marked db c s \<or> reg = None) \<or> (\<exists>ls. reg = Some ls \<and> reg' = Some (ls @ [marker_line c s]))"
    using assms(1)
    by (auto simp: tombstone_locked_def persist_forget_marker_def marked_def
        split: if_splits sum.splits prod.splits option.splits)
  then show ?thesis
    using assms(2) m by (auto simp: registered_def reg_le_def split: option.splits)
qed

lemma logged_tombstone: "logged_step (tx_tombstone disk c s)"
  unfolding logged_step_def tx_tombstone_def
  by (auto split: sum.splits prod.splits dest: tombstone_locked_logged)

lemma logged_import_prompt: "logged_step (import_prompt disk c p)"
proof -
  define ins where "ins t = (if has_prompt (tx_db t) c (fpi_seq p) then t
    else t\<lparr>tx_db := insert_prompt c p (tx_db t), tx_out := (tx_out t)\<lparr>ir_prompts := ir_prompts (tx_out t) + 1\<rparr>\<rparr>)"
    for t :: txn
  have "import_prompt disk c p = and_then (\<lambda>t. (ins t, None))
      (\<lambda>u. if capture_tombstoned (tx_db u) c (fpi_seq p) then tx_tombstone disk c (fpi_seq p) u else (u, None))"
    by (rule ext) (simp add: import_prompt_def and_then_def ins_def [symmetric] Let_def)
  moreover have "logged_step (\<lambda>t. (ins t, None))"
    by (rule logged_same) (simp_all add: ins_def insert_prompt_def)
  moreover have "logged_step (\<lambda>u. if capture_tombstoned (tx_db u) c (fpi_seq p)
      then tx_tombstone disk c (fpi_seq p) u else (u, None))"
    using logged_tombstone by (simp add: logged_step_def)
  ultimately show ?thesis by (simp add: logged_and_then)
qed

lemma upsert_note_meta: "upsert_note c n s text db = (k, db') \<Longrightarrow> db_meta db' = db_meta db"
  by (auto simp: upsert_note_def split: option.splits if_splits)

lemma logged_import_note: "logged_step (import_note disk c n)"
proof -
  have "registered (tx_db (fst (import_note disk c n t))) (tx_reg (fst (import_note disk c n t)))
      \<and> reg_le (tx_reg t) (tx_reg (fst (import_note disk c n t)))"
    if ok: "registered (tx_db t) (tx_reg t)" for t
  proof (cases "fni_seq n")
    case (Some s)
    define blocked where "blocked \<longleftrightarrow> note_tombstoned (tx_db t) c (fni_note_id n) s
      \<or> (case (case find_note (tx_db t) c (fni_note_id n) of None \<Rightarrow> None | Some m \<Rightarrow> fn_seq m) of
           None \<Rightarrow> False | Some old \<Rightarrow> capture_tombstoned (tx_db t) c old)"
    obtain k db where u: "upsert_note c n s (if blocked then [] else fni_text n) (tx_db t) = (k, db)" by fastforce
    define v where "v = t\<lparr>tx_db := db, tx_out := (tx_out t)\<lparr>ir_notes := ir_notes (tx_out t) + k\<rparr>\<rparr>"
    have "import_note disk c n t = (if blocked then tx_tombstone disk c s v else (v, None))"
      using Some u by (cases blocked) (simp_all add: import_note_def blocked_def [symmetric] v_def Let_def)
    moreover have "registered (tx_db v) (tx_reg v)" "tx_reg v = tx_reg t"
      using ok registered_meta [OF upsert_note_meta [OF u]] by (simp_all add: v_def)
    ultimately show ?thesis
      using logged_tombstone [of disk c s] unfolding logged_step_def by (cases blocked) (metis reg_le_refl fst_conv)+
  qed (use ok in \<open>simp add: import_note_def\<close>)
  then show ?thesis by (simp add: logged_step_def)
qed

lemma logged_import_redaction: "logged_step (import_redaction disk c r)"
proof -
  define ins where "ins t =
    (if list_ex (\<lambda>q. fr_chain_id q = c \<and> fr_event_seq q = fri_event_seq r) (db_redactions (tx_db t)) then t
     else t\<lparr>tx_db := (tx_db t)\<lparr>db_redactions := db_redactions (tx_db t) @
             [\<lparr>fr_chain_id = c, fr_event_seq = fri_event_seq r, fr_target_chain = fri_target_chain r,
               fr_target_seq = fri_target_seq r\<rparr>]\<rparr>,
           tx_out := (tx_out t)\<lparr>ir_redactions := ir_redactions (tx_out t) + 1\<rparr>\<rparr>)"
    for t :: txn
  have "logged_step (\<lambda>t. (ins t, None))" by (rule logged_same) (simp_all add: ins_def)
  then have "logged_step (and_then (\<lambda>t. (ins t, None)) (tx_tombstone disk (fri_target_chain r) (fri_target_seq r)))"
    using logged_tombstone by (rule logged_and_then)
  then show ?thesis
    unfolding logged_step_def
    by (auto simp: import_redaction_def and_then_def ins_def [symmetric] Let_def)
qed

lemma logged_import_rows: "logged_step (import_rows disk c es ps ns cs rs)"
  unfolding import_rows_def
  by (intro logged_and_then logged_run_steps logged_import_prompt logged_import_note logged_import_redaction
      logged_same) (simp_all add: import_event_def import_principal_def)

subsection \<open>Any sequence of operations\<close>

datatype foreign_op =
  OpImport foreign_chain "ledger_event_row list" "foreign_prompt_input list" "foreign_note_input list"
    "principal_card list" "foreign_redaction_input list"
| OpTombstone rstr int
| OpForget rstr
| OpMark rstr rstr
| OpClear rstr
| OpTrust trust_entry
| OpUntrust rstr
| OpSubscribe "rstr option" "rstr option" "rstr option" int
| OpUnsubscribe int
| OpAck rstr int
| OpOrgAck rstr rstr int
| OpTree rstr "foreign_class_node list" "foreign_class_link list"
| OpEmbed embedding_row

type_synonym foreign_store = "foreign_db \<times> rstr list option"

fun apply_op :: "(rstr \<Rightarrow> bool) \<Rightarrow> foreign_op \<Rightarrow> foreign_store \<Rightarrow> foreign_store" where
  "apply_op disk (OpImport ch es ps ns cs rs) (db, reg) = snd (import_foreign_segment disk ch es ps ns cs rs db reg)"
| "apply_op disk (OpTombstone c s) (db, reg) = snd (tombstone_foreign_capture disk c s db reg)"
| "apply_op disk (OpForget c) (db, reg) = (snd (forget_foreign_chain c db), reg)"
| "apply_op disk (OpMark c d) (db, reg) = (snd (mark_foreign_forked c d db), reg)"
| "apply_op disk (OpClear c) (db, reg) = (snd (clear_foreign_fork c db), reg)"
| "apply_op disk (OpTrust e) (db, reg) = (snd (trust_set e db), reg)"
| "apply_op disk (OpUntrust i) (db, reg) = (snd (trust_remove i db), reg)"
| "apply_op disk (OpSubscribe p j k now) (db, reg) = (snd (subscribe p j k now db), reg)"
| "apply_op disk (OpUnsubscribe i) (db, reg) = (snd (unsubscribe i db), reg)"
| "apply_op disk (OpAck c s) (db, reg) = (set_foreign_ack c s db, reg)"
| "apply_op disk (OpOrgAck a c s) (db, reg) = (record_org_ack a c s db, reg)"
| "apply_op disk (OpTree c ns ls) (db, reg) = (snd (import_foreign_tree c ns ls db), reg)"
| "apply_op disk (OpEmbed e) (db, reg) = (store_foreign_embedding_raw e db, reg)"

definition apply_ops :: "(rstr \<Rightarrow> bool) \<Rightarrow> foreign_op list \<Rightarrow> foreign_store \<Rightarrow> foreign_store" where
  "apply_ops disk ops st = fold (apply_op disk) ops st"

definition empty_foreign_db :: foreign_db where
  "empty_foreign_db = \<lparr>db_chains = [], db_events = [], db_prompts = [], db_prompt_seq = 0, db_notes = [],
     db_principals = [], db_redactions = [], db_acks = [], db_org_acks = [], db_trust = [],
     db_subscriptions = [], db_subscription_seq = 0, db_class_nodes = [], db_class_links = [],
     db_embeddings = [], db_meta = Map.empty\<rparr>"

lemma upsert_chain_tables:
  "db_prompts (upsert_chain ch db) = db_prompts db" "db_notes (upsert_chain ch db) = db_notes db"
  "db_redactions (upsert_chain ch db) = db_redactions db" "db_meta (upsert_chain ch db) = db_meta db"
  by (simp_all add: upsert_chain_def update_chain_def)

lemma import_foreign_segment_safe:
  assumes "buried db" and "registered db reg"
    and "import_foreign_segment disk ch es ps ns cs rs db reg = (res, db', reg')"
  shows "buried db' \<and> registered db' reg' \<and> reg_le reg reg' \<and> (\<forall>c s. marked db c s \<longrightarrow> marked db' c s)"
proof -
  let ?t = "\<lparr>tx_db = db, tx_reg = reg, tx_out = no_rows\<rparr>"
  obtain t e where t: "import_rows disk (fc_chain_id ch) es ps ns cs rs ?t = (t, e)" by fastforce
  have "registered (tx_db t) (tx_reg t) \<and> reg_le reg (tx_reg t)"
    using logged_import_rows [of disk "fc_chain_id ch" es ps ns cs rs] assms(2) t
    unfolding logged_step_def by (metis fst_conv txn.select_convs(1,2))
  then have log: "registered (tx_db t) (tx_reg t)" "reg_le reg (tx_reg t)" by simp_all
  show ?thesis
  proof (cases e)
    case None
    then have "buried (tx_db t) \<and> (\<forall>c s. marked db c s \<longrightarrow> marked (tx_db t) c s)"
      using safe_stepD [OF safe_import_rows, of disk "fc_chain_id ch" es ps ns cs rs ?t t] t assms(1) by simp
    moreover have "db' = upsert_chain ch (tx_db t)" "reg' = tx_reg t"
      using assms(3) t None by (simp_all add: import_foreign_segment_def)
    ultimately show ?thesis
      using log buried_tables [of "{}" "tx_db t" db'] registered_meta [of db' "tx_db t"]
      by (simp add: upsert_chain_tables marked_def)
  next
    case (Some x)
    then have "db' = db" "reg' = tx_reg t" using assms(3) t by (simp_all add: import_foreign_segment_def)
    then show ?thesis using assms(1,2) log registered_mono by blast
  qed
qed

lemma tombstone_capture_safe:
  assumes "buried db" and "registered db reg"
    and "tombstone_foreign_capture disk c s db reg = (res, db', reg')"
  shows "buried db' \<and> registered db' reg' \<and> reg_le reg reg' \<and> (\<forall>a i. marked db a i \<longrightarrow> marked db' a i)"
  using assms tombstone_locked_buried [OF _ buried_weaken [OF assms(1)]] tombstone_locked_logged [OF _ assms(2)]
  by (auto simp: tombstone_foreign_capture_def split: sum.splits prod.splits)

lemma subset_ball: "A \<subseteq> B \<Longrightarrow> \<forall>x\<in>B. P x \<Longrightarrow> \<forall>x\<in>A. P x"
  by blast

lemma buried_subtables:
  assumes b: "buried_but X db" and p: "set (db_prompts db') \<subseteq> set (db_prompts db)"
    and n: "set (db_notes db') \<subseteq> set (db_notes db)" and r: "set (db_redactions db') \<subseteq> set (db_redactions db)"
    and m: "db_meta db' = db_meta db"
  shows "buried_but X db'"
proof -
  have mk: "marked db' c s = marked db c s" for c s by (simp add: marked_def m)
  note bs = b [unfolded buried_but_def]
  show ?thesis unfolding buried_but_def mk
  proof (intro conjI)
    show "\<forall>y\<in>set (db_redactions db'). fr_chain_id y = fr_target_chain y
        \<longrightarrow> (fr_target_chain y, fr_target_seq y) \<in> X \<or> marked db (fr_target_chain y) (fr_target_seq y)"
      by (rule subset_ball [OF r]) (rule bs [THEN conjunct1])
    show "\<forall>y\<in>set (db_prompts db'). marked db (fp_chain_id y) (fp_seq y)
        \<longrightarrow> (fp_chain_id y, fp_seq y) \<in> X \<or> fp_tombstoned y"
      by (rule subset_ball [OF p]) (rule bs [THEN conjunct2, THEN conjunct1])
    show "\<forall>y\<in>set (db_prompts db'). fp_tombstoned y \<longrightarrow> fp_text y = Some TOMBSTONE"
      by (rule subset_ball [OF p]) (rule bs [THEN conjunct2, THEN conjunct2, THEN conjunct1])
    show "\<forall>y\<in>set (db_notes db'). \<forall>s. fn_seq y = Some s \<and> marked db (fn_chain_id y) s
        \<longrightarrow> (fn_chain_id y, s) \<in> X \<or> fn_text y = []"
      by (rule subset_ball [OF n]) (rule bs [THEN conjunct2, THEN conjunct2, THEN conjunct2])
  qed
qed

lemma forget_chain_safe:
  assumes "buried db"
  shows "buried (snd (forget_foreign_chain c db)) \<and> db_meta (snd (forget_foreign_chain c db)) = db_meta db"
proof -
  let ?d = "snd (forget_foreign_chain c db)"
  have t: "set (db_prompts ?d) \<subseteq> set (db_prompts db)" "set (db_notes ?d) \<subseteq> set (db_notes db)"
    "set (db_redactions ?d) \<subseteq> set (db_redactions db)" "db_meta ?d = db_meta db"
    by (simp_all add: forget_foreign_chain_def Let_def)
  show ?thesis by (rule conjI [OF buried_subtables [OF assms t] t(4)])
qed

lemma apply_op_safe:
  assumes "buried db" and "registered db reg" and "apply_op disk x (db, reg) = (db', reg')"
  shows "buried db' \<and> registered db' reg' \<and> reg_le reg reg' \<and> (\<forall>c s. marked db c s \<longrightarrow> marked db' c s)"
proof -
  have same: ?thesis
    if "db_prompts db' = db_prompts db" "db_notes db' = db_notes db" "db_redactions db' = db_redactions db"
      "db_meta db' = db_meta db" "reg' = reg"
    using that assms(1,2) buried_tables [of "{}" db db'] registered_meta [of db' db] by (simp add: marked_def)
  show ?thesis
  proof (cases x)
    case (OpImport ch es ps ns cs rs)
    then show ?thesis
      using import_foreign_segment_safe [OF assms(1,2)] assms(3) by (metis apply_op.simps(1) prod.collapse snd_conv)
  next
    case (OpTombstone c s)
    then show ?thesis
      using tombstone_capture_safe [OF assms(1,2)] assms(3) by (metis apply_op.simps(2) prod.collapse snd_conv)
  next
    case (OpForget c)
    then show ?thesis
      using forget_chain_safe [OF assms(1), of c] assms(2,3) registered_meta [of db' db] by (auto simp: marked_def)
  qed (rule same; use assms(3) in \<open>auto simp: mark_foreign_forked_def clear_foreign_fork_def update_chain_def
      trust_set_def trust_remove_def subscribe_def unsubscribe_def set_foreign_ack_def record_org_ack_def
      import_foreign_tree_def store_foreign_embedding_raw_def Let_def split: if_splits\<close>)+
qed

lemma apply_ops_safe:
  assumes "buried db" and "registered db reg" and "apply_ops disk ops (db, reg) = (db', reg')"
  shows "buried db' \<and> registered db' reg' \<and> reg_le reg reg' \<and> (\<forall>c s. marked db c s \<longrightarrow> marked db' c s)"
  using assms
proof (induction ops arbitrary: db reg)
  case (Cons x xs)
  obtain db1 reg1 where 1: "apply_op disk x (db, reg) = (db1, reg1)" by fastforce
  then have "apply_ops disk xs (db1, reg1) = (db', reg')" using Cons.prems(3) by (simp add: apply_ops_def)
  then show ?case
    using Cons.IH [of db1 reg1] apply_op_safe [OF Cons.prems(1,2) 1] reg_le_trans by blast
qed (simp add: apply_ops_def)

lemma empty_safe: "buried empty_foreign_db \<and> registered empty_foreign_db reg"
  by (auto simp: buried_but_def registered_def marked_def empty_foreign_db_def split: option.splits)

text \<open>A redaction that is imported, and a tombstone that is set, take effect.\<close>

lemma import_redaction_marks:
  assumes "buried db" and "import_foreign_segment disk ch es ps ns cs rs db reg = (Inr out, db', reg')"
    and "r \<in> set rs"
  shows "marked db' (fc_chain_id ch) (fri_target_seq r)"
proof -
  let ?t = "\<lparr>tx_db = db, tx_reg = reg, tx_out = no_rows\<rparr>"
  let ?c = "fc_chain_id ch"
  obtain t where t: "import_rows disk ?c es ps ns cs rs ?t = (t, None)" and db': "db' = upsert_chain ch (tx_db t)"
    using assms(2) by (auto simp: import_foreign_segment_def split: prod.splits option.splits)
  define front where "front = and_then (run_steps (import_event ?c) es)
    (and_then (run_steps (import_prompt disk ?c) ps)
      (and_then (run_steps (import_note disk ?c) ns) (run_steps (import_principal ?c) cs)))"
  have assoc: "and_then f (and_then g h) = and_then (and_then f g) h" for f g h
    by (rule ext) (auto simp: and_then_def split: prod.splits option.splits)
  have "import_rows disk ?c es ps ns cs rs = and_then front (run_steps (import_redaction disk ?c) rs)"
    by (simp add: import_rows_def front_def assoc)
  then obtain u where u: "front ?t = (u, None)" "run_steps (import_redaction disk ?c) rs u = (t, None)"
    using t by (auto simp: and_then_None)
  have "safe_step front"
    unfolding front_def
    by (intro safe_and_then safe_run_steps safe_import_event safe_import_prompt safe_import_note safe_import_principal)
  then have "buried (tx_db u)" using safe_stepD u(1) assms(1) by fastforce
  then have "marked (tx_db t) ?c (fri_target_seq r)" using u(2) assms(3)
  proof (induction rs arbitrary: u)
    case (Cons x xs)
    obtain v where v: "import_redaction disk ?c x u = (v, None)" "run_steps (import_redaction disk ?c) xs v = (t, None)"
      using Cons.prems(2) by (auto split: prod.splits option.splits)
    note x = import_redaction_None [OF v(1) Cons.prems(1)]
    show ?case
    proof (cases "r = x")
      case True
      have "safe_step (run_steps (import_redaction disk ?c) xs)"
        by (intro safe_run_steps safe_import_redaction)
      then show ?thesis
        using safe_stepD [of "run_steps (import_redaction disk ?c) xs" v t] v(2) x True by blast
    next
      case False
      then show ?thesis using Cons.IH [OF _ v(2)] x Cons.prems(3) by simp
    qed
  qed simp
  then show ?thesis by (simp add: db' marked_def upsert_chain_tables)
qed

text \<open>
  C31. What a peer forgets stays forgotten.  Once a capture of a foreign chain is tombstoned, no later
  sequence of operations on the foreign tables brings its text back: not a replay of the segment that
  carried it, not purging and importing the chain again, not a failed import.  Its prompt row is the
  tombstone, every note of that event is empty, and the registry beside the database holds its line,
  so a restored backup can suppress it again.
\<close>

theorem forgotten_stays_forgotten:
  assumes "capture_tombstoned (fst (apply_ops disk past (empty_foreign_db, Some []))) c s"
  shows "case apply_ops disk (past @ future) (empty_foreign_db, Some []) of (db, reg) \<Rightarrow>
     capture_tombstoned db c s
     \<and> (case foreign_prompt db c s of None \<Rightarrow> True | Some p \<Rightarrow> fp_tombstoned p \<and> fp_text p = Some TOMBSTONE)
     \<and> filter (\<lambda>n. fn_chain_id n = c \<and> fn_seq n = Some s \<and> fn_text n \<noteq> []) (db_notes db) = []
     \<and> (case reg of None \<Rightarrow> False | Some ls \<Rightarrow> marker_line c s \<in> set ls)"
proof -
  obtain db1 reg1 where 1: "apply_ops disk past (empty_foreign_db, Some []) = (db1, reg1)" by fastforce
  obtain db reg where 2: "apply_ops disk future (db1, reg1) = (db, reg)" by fastforce
  have s1: "buried db1" "registered db1 reg1" "reg_le (Some []) reg1"
    using apply_ops_safe [OF _ _ 1] empty_safe by blast+
  note s2 = apply_ops_safe [OF s1(1,2) 2]
  have "marked db1 c s" using assms buriedD(1) [OF s1(1)] by (simp add: 1)
  then have m: "marked db c s" using s2 by blast
  have b: "buried db" and r: "registered db reg" "reg_le (Some []) reg"
    using s2 s1(3) reg_le_trans by blast+
  have "fp_tombstoned p \<and> fp_text p = Some TOMBSTONE" if "foreign_prompt db c s = Some p" for p
    using that m buriedD(2,3) [OF b, of p] by (auto simp: foreign_prompt_def find_Some_iff)
  moreover have "fn_text n = []" if "n \<in> set (db_notes db)" "fn_chain_id n = c" "fn_seq n = Some s" for n
    using that m buriedD(4) [OF b, of n s] by simp
  moreover have "case reg of None \<Rightarrow> False | Some ls \<Rightarrow> marker_line c s \<in> set ls"
    using r m by (auto simp: registered_def reg_le_def split: option.splits)
  moreover have "apply_ops disk (past @ future) (empty_foreign_db, Some []) = (db, reg)"
    using 1 2 by (simp add: apply_ops_def)
  ultimately show ?thesis
    using buriedD(1) [OF b] m by (auto simp: filter_empty_conv split: option.splits)
qed

definition replayed_prompt :: foreign_op where
  "replayed_prompt = OpImport
     \<lparr>fc_chain_id = replicate 64 97, fc_human_id = [], fc_device_name = None, fc_display_name = None,
      fc_head_seq = 7, fc_head_hash = [], fc_forked = False, fc_fork_detail = None,
      fc_first_import_at = 0, fc_last_import_at = 0\<rparr>
     [] [\<lparr>fpi_seq = 7, fpi_prompt_id = 1, fpi_role = [], fpi_body_hash = [], fpi_redaction = lit ''full'',
          fpi_text = Some (lit ''secret''), fpi_project = None\<rparr>] [] [] []"

theorem forgotten_stays_forgotten_witness:
  "case apply_ops (\<lambda>l. True) ([OpTombstone (replicate 64 97) 7] @ [replayed_prompt]) (empty_foreign_db, Some []) of
     (db, reg) \<Rightarrow> capture_tombstoned db (replicate 64 97) 7"
proof -
  have "capture_tombstoned (fst (apply_ops (\<lambda>l. True) [OpTombstone (replicate 64 97) 7] (empty_foreign_db, Some [])))
      (replicate 64 97) 7"
    by code_simp
  from forgotten_stays_forgotten [OF this, of "[replayed_prompt]"] show ?thesis by (auto split: prod.splits)
qed

end
