(* ===== verification/Envelope.thy ===== *)
theory Envelope
  imports Chain Bundle Identity
begin

text \<open>
  \<^verbatim>\<open>polis-memory/src/envelope.rs\<close> and the hex and signature helpers of \<^verbatim>\<open>polis-memory/src/identity.rs\<close>:
  the signed segment, the body policy of an export, and the verification of a segment from its bytes.
  Ed25519 (\<open>ed\<close>: public key, message, signature), the SHA-256 function and the two serde serialisations are
  parameters.
\<close>

section \<open>Hexadecimal text\<close>

text \<open>
  \<^verbatim>\<open>hex_decode\<close> slices the text two bytes at a time.  A slice that would split a character panics, so the
  result says whether the call returned.
\<close>

datatype 'a run = Panics | Returns 'a

definition hex_nibble :: "uchar \<Rightarrow> nat option" where
  "hex_nibble c =
     (if is_digit c then Some (c - 48)
      else if 97 \<le> c \<and> c \<le> 102 then Some (c - 87)
      else if 65 \<le> c \<and> c \<le> 70 then Some (c - 55) else None)"

text \<open>\<^verbatim>\<open>u8::from_str_radix(_, 16)\<close> on two ASCII characters; a leading plus sign is accepted.\<close>

definition hex_byte :: "uchar \<Rightarrow> uchar \<Rightarrow> byte option" where
  "hex_byte c d =
     (case hex_nibble d of
        None \<Rightarrow> None
      | Some lo \<Rightarrow> if c = 43 then Some lo
                   else (case hex_nibble c of None \<Rightarrow> None | Some hi \<Rightarrow> Some (16 * hi + lo)))"

fun hex_pairs :: "rstr \<Rightarrow> byte list option run" where
  "hex_pairs [] = Returns (Some [])"
| "hex_pairs (c # s) =
     (if 128 \<le> c then (if c < 2048 then Returns None else Panics)
      else case s of
             [] \<Rightarrow> Returns None
           | d # t \<Rightarrow>
               if 128 \<le> d then Panics
               else (case hex_byte c d of
                       None \<Rightarrow> Returns None
                     | Some b \<Rightarrow> (case hex_pairs t of
                                    Panics \<Rightarrow> Panics
                                  | Returns None \<Rightarrow> Returns None
                                  | Returns (Some bs) \<Rightarrow> Returns (Some (b # bs)))))"

definition hex_decode :: "rstr \<Rightarrow> byte list option run" where
  "hex_decode s =
     (let t = trim s in if byte_len t mod 2 \<noteq> 0 then Returns None else hex_pairs t)"

definition hex_encode :: "byte list \<Rightarrow> rstr" where
  "hex_encode bs = concat (map (\<lambda>b. [hex_digit (b div 16), hex_digit (b mod 16)]) bs)"

section \<open>Signatures\<close>

definition ed_verify :: "(byte list \<Rightarrow> byte list \<Rightarrow> byte list \<Rightarrow> bool) \<Rightarrow> byte list \<Rightarrow> byte list \<Rightarrow> byte list \<Rightarrow> bool" where
  "ed_verify ed pk msg sig \<longleftrightarrow> length pk = 32 \<and> length sig = 64 \<and> ed pk msg sig"

definition verify_hex ::
  "(byte list \<Rightarrow> byte list \<Rightarrow> byte list \<Rightarrow> bool) \<Rightarrow> rstr \<Rightarrow> byte list \<Rightarrow> rstr \<Rightarrow> bool run" where
  "verify_hex ed pk_hex msg sig_hex =
     (case (hex_decode pk_hex, hex_decode sig_hex) of
        (Returns (Some pk), Returns (Some sig)) \<Rightarrow> Returns (ed_verify ed pk msg sig)
      | (Returns _, Returns _) \<Rightarrow> Returns False
      | _ \<Rightarrow> Panics)"

section \<open>The envelope\<close>

definition ENVELOPE_SCHEMA :: rstr where
  "ENVELOPE_SCHEMA = lit ''polis.bundle/2''"

record segment =
  sg_from_seq :: int
  sg_to_seq :: int
  sg_prev_hash_at_from :: rstr
  sg_head_hash :: rstr

datatype bodies = BodiesAuto | BodiesFull | BodiesGist | BodiesStub

definition ascii_lower :: "rstr \<Rightarrow> rstr" where
  "ascii_lower s = map (\<lambda>c. if 65 \<le> c \<and> c \<le> 90 then c + 32 else c) s"

definition bodies_parse :: "rstr \<Rightarrow> bodies option" where
  "bodies_parse s =
     (let t = ascii_lower (trim s)
      in if t = lit ''auto'' then Some BodiesAuto
         else if t = lit ''full'' then Some BodiesFull
         else if t = lit ''gist'' then Some BodiesGist
         else if t = lit ''stub'' then Some BodiesStub else None)"

record policy =
  py_roles :: "rstr list"
  py_bodies :: bodies
  py_tree :: bool
  py_browse :: bool

definition policy_default :: policy where
  "policy_default = \<lparr>py_roles = [lit ''user''], py_bodies = BodiesAuto, py_tree = False, py_browse = False\<rparr>"

record principal_pair =
  pair_device :: principal_card
  pair_human :: principal_card

record header =
  hd_schema :: rstr
  hd_chain_id :: rstr
  hd_principal :: principal_pair
  hd_org_id :: "rstr option"
  hd_segment :: segment
  hd_policy :: policy
  hd_payload_sha256 :: rstr
  hd_exported_at :: int

datatype redaction = RFull | RGist | RStub

record payload_prompt =
  ep_id :: int
  ep_role :: rstr
  ep_body_hash :: rstr
  ep_redaction :: redaction
  ep_text :: "rstr option"
  ep_project :: "rstr option"

record payload_vector =
  pv_prompt_id :: int
  pv_model :: rstr
  pv_dim :: int
  pv_chunk_ix :: int
  pv_char_start :: int
  pv_char_len :: int
  pv_scale :: f64_bits
  pv_vec_hex :: rstr

record redaction_payload =
  rp_chain_id :: rstr
  rp_seq :: int
  rp_event_seq :: int

definition redaction_payload_json :: "redaction_payload \<Rightarrow> rstr" where
  "redaction_payload_json r =
     lit ''{'' @ json_str (lit ''chainId'') @ lit '':'' @ json_str (rp_chain_id r) @ lit '',''
     @ json_str (lit ''seq'') @ lit '':'' @ json_int (rp_seq r) @ lit ''}''"

definition redaction_payload_hash :: "sha_fn \<Rightarrow> redaction_payload \<Rightarrow> rstr" where
  "redaction_payload_hash sha r = sha (utf8 (redaction_payload_json r))"

record payload_class_node =
  pcn_id :: rstr
  pcn_parent_id :: "rstr option"
  pcn_kind :: rstr
  pcn_title :: rstr
  pcn_summary :: "rstr option"

record payload_class_link =
  pcl_node_id :: rstr
  pcl_target_kind :: rstr
  pcl_target_id :: rstr

record payload =
  pay_events :: "ledger_event_row list"
  pay_prompts :: "payload_prompt list"
  pay_notes :: "bundle_note list"
  pay_principals :: "principal_card list"
  pay_aliases :: "(rstr \<times> rstr) list"
  pay_binds :: "bind_payload list"
  pay_vectors :: "payload_vector list"
  pay_redactions :: "redaction_payload list"
  pay_acks :: "(rstr \<times> int) list"
  pay_tree :: "payload_class_node list"
  pay_tree_links :: "payload_class_link list"

record envelope =
  en_header :: header
  en_signature :: rstr
  en_payload :: payload

section \<open>What an export may carry\<close>

definition gist_or_stub :: "bool \<Rightarrow> redaction" where
  "gist_or_stub has_gist = (if has_gist then RGist else RStub)"

definition decide :: "policy \<Rightarrow> rstr \<Rightarrow> rstr \<Rightarrow> bool \<Rightarrow> bool \<Rightarrow> redaction" where
  "decide p role visibility has_body has_gist =
     (if role \<notin> set (py_roles p) then RStub
      else case py_bodies p of
             BodiesFull \<Rightarrow> if has_body then RFull else gist_or_stub has_gist
           | BodiesGist \<Rightarrow> gist_or_stub has_gist
           | BodiesStub \<Rightarrow> RStub
           | BodiesAuto \<Rightarrow>
               if role = lit ''user'' \<and> visibility = lit ''org'' \<and> has_body then RFull else RStub)"

section \<open>Verification from the bytes alone\<close>

datatype verify_error =
  ESchema rstr | IdMismatch | DeviceMismatch | BadSignature | NoBind | BadBindSignature | PayloadHash
  | EventHash int | Linkage int | ESegment rstr | BindHashMismatch int | BodyHash int | Continuity rstr
  | RedactionHashMismatch int

record verified =
  vf_chain_id :: rstr
  vf_human :: rstr
  vf_device_name :: rstr
  vf_from_seq :: int
  vf_to_seq :: int
  vf_head_hash :: rstr
  vf_events :: nat
  vf_prompts :: nat
  vf_full_bodies :: nat
  vf_binds :: nat

text \<open>Step 1 and 2: the human is their key, the device derives from it and is the chain.\<close>

definition human_ok :: "sha_fn \<Rightarrow> byte list \<Rightarrow> header \<Rightarrow> bool" where
  "human_ok sha pubkey h \<longleftrightarrow>
     principal_id sha pubkey = pc_principal_id (pair_human (hd_principal h))
     \<and> pc_kind (pair_human (hd_principal h)) = Human"

definition device_ok :: "sha_fn \<Rightarrow> byte list \<Rightarrow> rstr \<Rightarrow> header \<Rightarrow> bool" where
  "device_ok sha pubkey name h \<longleftrightarrow>
     (let d = pair_device (hd_principal h)
      in pc_kind d = Device
         \<and> pc_parent_id d = Some (pc_principal_id (pair_human (hd_principal h)))
         \<and> device_id sha pubkey name = pc_principal_id d
         \<and> pc_principal_id d = hd_chain_id h)"

text \<open>Step 6: every event recomputes and links, and the segment is what the header says.\<close>

fun event_error :: "sha_fn \<Rightarrow> rstr \<Rightarrow> int \<Rightarrow> ledger_event_row list \<Rightarrow> verify_error option" where
  "event_error sha prev prev_seq [] = None"
| "event_error sha prev prev_seq (e # es) =
     (if ev_seq e \<noteq> prev_seq + 1 then Some (ESegment (lit ''gap before seq '' @ show_int (ev_seq e)))
      else if prev_hash e \<noteq> prev then Some (Linkage (ev_seq e))
      else if compute_entry_hash sha (prev_hash e) (canonical_of e) \<noteq> entry_hash e then Some (EventHash (ev_seq e))
      else event_error sha (entry_hash e) (ev_seq e) es)"

definition segment_error :: "sha_fn \<Rightarrow> segment \<Rightarrow> ledger_event_row list \<Rightarrow> verify_error option" where
  "segment_error sha g es =
     (if es = [] then Some (ESegment (lit ''no events''))
      else if ev_seq (hd es) \<noteq> sg_from_seq g \<or> ev_seq (last es) \<noteq> sg_to_seq g
      then Some (ESegment (lit ''events span '' @ show_int (ev_seq (hd es)) @ lit ''..'' @ show_int (ev_seq (last es))
             @ lit '' but the header says '' @ show_int (sg_from_seq g) @ lit ''..'' @ show_int (sg_to_seq g)))
      else if prev_hash (hd es) \<noteq> sg_prev_hash_at_from g then Some (Linkage (ev_seq (hd es)))
      else case event_error sha (prev_hash (hd es)) (ev_seq (hd es) - 1) es of
             Some e \<Rightarrow> Some e
           | None \<Rightarrow>
               if entry_hash (last es) \<noteq> sg_head_hash g
               then Some (ESegment (lit ''head hash disagrees with the last event'')) else None)"

text \<open>Step 7: bind and redaction events commit to payloads the envelope carries.\<close>

definition bind_events :: "header \<Rightarrow> ledger_event_row list \<Rightarrow> ledger_event_row list" where
  "bind_events h es =
     filter (\<lambda>e. ev_kind e = event_kind_as_str EkPrincipalBind \<and> ev_ref_id e = Some (hd_chain_id h)) es"

definition redaction_events :: "ledger_event_row list \<Rightarrow> ledger_event_row list" where
  "redaction_events es = filter (\<lambda>e. ev_kind e = event_kind_as_str EkRedaction) es"

definition commitment_error ::
  "sha_fn \<Rightarrow> header \<Rightarrow> payload \<Rightarrow> ledger_event_row list \<Rightarrow> verify_error option" where
  "commitment_error sha h p es =
     (case find (\<lambda>e. \<not> list_ex (\<lambda>b. bind_payload_hash sha b = ev_payload_hash e) (pay_binds p)) (bind_events h es) of
        Some e \<Rightarrow> Some (BindHashMismatch (ev_seq e))
      | None \<Rightarrow>
          (case find (\<lambda>e. \<not> list_ex (\<lambda>r. rp_event_seq r = ev_seq e
                 \<and> redaction_payload_hash sha r = ev_payload_hash e) (pay_redactions p)) (redaction_events es) of
             Some e \<Rightarrow> Some (RedactionHashMismatch (ev_seq e))
           | None \<Rightarrow> None))"

text \<open>Step 8: a full body hashes to its hash, and a prompt event carries its row's hash.\<close>

definition body_ok :: "sha_fn \<Rightarrow> ledger_event_row list \<Rightarrow> payload_prompt \<Rightarrow> bool" where
  "body_ok sha es p \<longleftrightarrow>
     (case ep_text p of
        None \<Rightarrow> True
      | Some t \<Rightarrow> if ep_redaction p = RFull then sha (utf8 t) = ep_body_hash p else True)
     \<and> (case find (\<lambda>e. ev_kind e = lit ''prompt'' \<and> ev_prompt_id e = Some (ep_id p)) es of
          None \<Rightarrow> True
        | Some e \<Rightarrow> ev_payload_hash e = ep_body_hash p)"

definition is_full_body :: "payload_prompt \<Rightarrow> bool" where
  "is_full_body p \<longleftrightarrow> ep_redaction p = RFull \<and> ep_text p \<noteq> None"

definition body_error :: "sha_fn \<Rightarrow> ledger_event_row list \<Rightarrow> payload_prompt list \<Rightarrow> verify_error option" where
  "body_error sha es ps =
     map_option (\<lambda>p. BodyHash (ep_id p)) (find (\<lambda>p. \<not> body_ok sha es p) ps)"

definition verify_payload :: "sha_fn \<Rightarrow> rstr \<Rightarrow> envelope \<Rightarrow> verify_error + verified" where
  "verify_payload sha name env =
     (let h = en_header env; p = en_payload env; es = sort_key ev_seq (pay_events p)
      in case segment_error sha (hd_segment h) es of
           Some e \<Rightarrow> Inl e
         | None \<Rightarrow>
             (case commitment_error sha h p es of
                Some e \<Rightarrow> Inl e
              | None \<Rightarrow>
                  (case body_error sha es (pay_prompts p) of
                     Some e \<Rightarrow> Inl e
                   | None \<Rightarrow>
                       Inr \<lparr>vf_chain_id = hd_chain_id h, vf_human = pc_principal_id (pair_human (hd_principal h)),
                            vf_device_name = name, vf_from_seq = sg_from_seq (hd_segment h),
                            vf_to_seq = sg_to_seq (hd_segment h), vf_head_hash = sg_head_hash (hd_segment h),
                            vf_events = length es, vf_prompts = length (pay_prompts p),
                            vf_full_bodies = length (filter is_full_body (pay_prompts p)),
                            vf_binds = length (pay_binds p)\<rparr>)))"

text \<open>Step 5: a bind for this chain, signed by the same key.\<close>

definition verify_bind ::
  "(byte list \<Rightarrow> byte list \<Rightarrow> byte list \<Rightarrow> bool) \<Rightarrow> rstr \<Rightarrow> envelope \<Rightarrow> verify_error option run" where
  "verify_bind ed pubkey_hex env =
     (let h = en_header env
      in case find (\<lambda>b. bd_chain_id b = hd_chain_id h) (pay_binds (en_payload env)) of
           None \<Rightarrow> Returns (Some NoBind)
         | Some b \<Rightarrow>
             if pc_principal_id (bd_device b) \<noteq> hd_chain_id h
                \<or> pc_principal_id (bd_human b) \<noteq> pc_principal_id (pair_human (hd_principal h))
             then Returns (Some NoBind)
             else (case verify_hex ed pubkey_hex (bind_message (bd_chain_id b) (bd_head_hash b)) (bd_signature b) of
                     Panics \<Rightarrow> Panics
                   | Returns ok \<Rightarrow> Returns (if ok then None else Some BadBindSignature)))"

definition verify ::
  "(byte list \<Rightarrow> byte list \<Rightarrow> byte list \<Rightarrow> bool) \<Rightarrow> sha_fn \<Rightarrow> (header \<Rightarrow> rstr) \<Rightarrow> (payload \<Rightarrow> rstr)
     \<Rightarrow> envelope \<Rightarrow> (verify_error + verified) run" where
  "verify ed sha header_line payload_json env =
     (let h = en_header env
      in if hd_schema h \<noteq> ENVELOPE_SCHEMA then Returns (Inl (ESchema (hd_schema h)))
         else case pc_pubkey (pair_human (hd_principal h)) of
           None \<Rightarrow> Returns (Inl IdMismatch)
         | Some pubkey_hex \<Rightarrow>
             (case hex_decode pubkey_hex of
                Panics \<Rightarrow> Panics
              | Returns None \<Rightarrow> Returns (Inl IdMismatch)
              | Returns (Some pubkey) \<Rightarrow>
                  if \<not> human_ok sha pubkey h then Returns (Inl IdMismatch)
                  else case pc_display_name (pair_device (hd_principal h)) of
                    None \<Rightarrow> Returns (Inl DeviceMismatch)
                  | Some name \<Rightarrow>
                      if \<not> device_ok sha pubkey name h then Returns (Inl DeviceMismatch)
                      else case verify_hex ed pubkey_hex (utf8 (header_line h)) (en_signature env) of
                        Panics \<Rightarrow> Panics
                      | Returns False \<Rightarrow> Returns (Inl BadSignature)
                      | Returns True \<Rightarrow>
                          if sha (utf8 (payload_json (en_payload env))) \<noteq> hd_payload_sha256 h
                          then Returns (Inl PayloadHash)
                          else case verify_bind ed pubkey_hex env of
                            Panics \<Rightarrow> Panics
                          | Returns (Some e) \<Rightarrow> Returns (Inl e)
                          | Returns None \<Rightarrow> Returns (verify_payload sha name env)))"

section \<open>What an accepted envelope is\<close>

lemma event_error_None:
  "event_error sha prev i es = None \<longleftrightarrow>
     linked sha prev es \<and> map ev_seq es = [i + 1..i + int (length es)]"
proof (induction es arbitrary: prev i)
  case (Cons e es)
  have up: "[i + 1..i + int (length (e # es))] = (i + 1) # [i + 2..i + 1 + int (length es)]"
    by (subst upto_rec1) (simp_all add: algebra_simps)
  show ?case
    using Cons.IH [of "entry_hash e" "ev_seq e"] unfolding up by (auto simp: algebra_simps)
qed simp

text \<open>The events of a segment: numbered without a gap, linked from the stated hash to the stated head.\<close>

definition segment_ok :: "sha_fn \<Rightarrow> segment \<Rightarrow> ledger_event_row list \<Rightarrow> bool" where
  "segment_ok sha g es \<longleftrightarrow>
     es \<noteq> [] \<and> map ev_seq es = [sg_from_seq g..sg_to_seq g]
     \<and> linked sha (sg_prev_hash_at_from g) es \<and> chain_head (sg_prev_hash_at_from g) es = sg_head_hash g"

lemma upto_ends: "xs = [a..b] \<Longrightarrow> xs \<noteq> [] \<Longrightarrow> hd xs = a \<and> last xs = b \<and> int (length xs) = b - a + 1"
proof -
  assume xs: "xs = [a..b]" "xs \<noteq> []"
  then have ab: "a \<le> b" by (cases "a \<le> b") simp_all
  have "hd xs = a" unfolding xs(1) upto_rec1 [OF ab] by simp
  moreover have "last xs = b" unfolding xs(1) upto_rec2 [OF ab] by simp
  moreover have "int (length xs) = b - a + 1" using ab by (simp add: xs(1))
  ultimately show ?thesis by simp
qed

lemma segment_error_None: "segment_error sha g es = None \<longleftrightarrow> segment_ok sha g es"
proof (cases "es = []")
  case ne: False
  let ?from = "sg_from_seq g" and ?to = "sg_to_seq g" and ?p = "sg_prev_hash_at_from g"
  have hd_map: "hd (map ev_seq es) = ev_seq (hd es)" and last_map: "last (map ev_seq es) = ev_seq (last es)"
    using ne by (simp_all add: hd_map last_map)
  have err: "segment_error sha g es = None \<longleftrightarrow>
      ev_seq (hd es) = ?from \<and> ev_seq (last es) = ?to \<and> prev_hash (hd es) = ?p
      \<and> linked sha ?p es \<and> map ev_seq es = [?from..?from - 1 + int (length es)] \<and> entry_hash (last es) = sg_head_hash g"
    using ne event_error_None [of sha ?p "?from - 1" es]
    by (auto simp: segment_error_def split: option.splits if_splits)
  show ?thesis
  proof
    assume "segment_error sha g es = None"
    then have e: "ev_seq (last es) = ?to" "linked sha ?p es" "entry_hash (last es) = sg_head_hash g"
      "map ev_seq es = [?from..?from - 1 + int (length es)]" by (simp_all add: err)
    then have "?from - 1 + int (length es) = ?to"
      using upto_ends [OF e(4)] ne last_map by simp
    then show "segment_ok sha g es" using e ne by (simp add: segment_ok_def chain_head_def)
  next
    assume ok: "segment_ok sha g es"
    then have m: "map ev_seq es = [?from..?to]" and l: "linked sha ?p es" "entry_hash (last es) = sg_head_hash g"
      using ne by (simp_all add: segment_ok_def chain_head_def)
    have "prev_hash (hd es) = ?p" using l(1) ne by (cases es) auto
    moreover have "ev_seq (hd es) = ?from" "ev_seq (last es) = ?to" "?from - 1 + int (length es) = ?to"
      using upto_ends [OF m] ne hd_map last_map by simp_all
    ultimately show "segment_error sha g es = None" using m l by (simp add: err)
  qed
qed (simp add: segment_error_def segment_ok_def)

text \<open>The specification: what it takes to be accepted.\<close>

definition signed_by ::
  "(byte list \<Rightarrow> byte list \<Rightarrow> byte list \<Rightarrow> bool) \<Rightarrow> byte list \<Rightarrow> byte list \<Rightarrow> rstr \<Rightarrow> bool" where
  "signed_by ed pubkey msg sig_hex \<longleftrightarrow>
     (case hex_decode sig_hex of Returns (Some sig) \<Rightarrow> ed_verify ed pubkey msg sig | _ \<Rightarrow> False)"

definition bound_chain ::
  "(byte list \<Rightarrow> byte list \<Rightarrow> byte list \<Rightarrow> bool) \<Rightarrow> byte list \<Rightarrow> envelope \<Rightarrow> bool" where
  "bound_chain ed pubkey env \<longleftrightarrow>
     (case find (\<lambda>b. bd_chain_id b = hd_chain_id (en_header env)) (pay_binds (en_payload env)) of
        None \<Rightarrow> False
      | Some b \<Rightarrow> pc_principal_id (bd_device b) = hd_chain_id (en_header env)
          \<and> pc_principal_id (bd_human b) = pc_principal_id (pair_human (hd_principal (en_header env)))
          \<and> signed_by ed pubkey (bind_message (bd_chain_id b) (bd_head_hash b)) (bd_signature b))"

definition commits :: "sha_fn \<Rightarrow> envelope \<Rightarrow> ledger_event_row list \<Rightarrow> bool" where
  "commits sha env es \<longleftrightarrow>
     list_all (\<lambda>e. list_ex (\<lambda>b. bind_payload_hash sha b = ev_payload_hash e) (pay_binds (en_payload env)))
       (bind_events (en_header env) es)
     \<and> list_all (\<lambda>e. list_ex (\<lambda>r. rp_event_seq r = ev_seq e \<and> redaction_payload_hash sha r = ev_payload_hash e)
         (pay_redactions (en_payload env))) (redaction_events es)"

definition accepted ::
  "(byte list \<Rightarrow> byte list \<Rightarrow> byte list \<Rightarrow> bool) \<Rightarrow> sha_fn \<Rightarrow> (header \<Rightarrow> rstr) \<Rightarrow> (payload \<Rightarrow> rstr)
     \<Rightarrow> rstr \<Rightarrow> byte list \<Rightarrow> rstr \<Rightarrow> envelope \<Rightarrow> bool" where
  "accepted ed sha header_line payload_json pubkey_hex pubkey name env \<longleftrightarrow>
     (let h = en_header env; p = en_payload env; es = sort_key ev_seq (pay_events p)
      in hd_schema h = ENVELOPE_SCHEMA
         \<and> pc_pubkey (pair_human (hd_principal h)) = Some pubkey_hex \<and> hex_decode pubkey_hex = Returns (Some pubkey)
         \<and> human_ok sha pubkey h
         \<and> pc_display_name (pair_device (hd_principal h)) = Some name \<and> device_ok sha pubkey name h
         \<and> signed_by ed pubkey (utf8 (header_line h)) (en_signature env)
         \<and> sha (utf8 (payload_json p)) = hd_payload_sha256 h
         \<and> bound_chain ed pubkey env
         \<and> segment_ok sha (hd_segment h) es \<and> commits sha env es
         \<and> list_all (body_ok sha es) (pay_prompts p))"

lemma find_not_all: "find (\<lambda>x. \<not> P x) xs = None \<longleftrightarrow> list_all P xs"
  by (auto simp: find_None_iff list_all_iff)

lemma commitment_error_None:
  "commitment_error sha (en_header env) (en_payload env) es = None \<longleftrightarrow> commits sha env es"
  unfolding commitment_error_def commits_def
  by (simp add: find_not_all [symmetric] split: option.splits)

lemma body_error_None: "body_error sha es ps = None \<longleftrightarrow> list_all (body_ok sha es) ps"
  by (simp add: body_error_def find_not_all)

lemma verify_hex_True:
  "hex_decode k = Returns (Some pk) \<Longrightarrow> verify_hex ed k msg sig = Returns True \<longleftrightarrow> signed_by ed pk msg sig"
  by (auto simp: verify_hex_def signed_by_def split: run.splits option.splits)

lemma verify_bind_None:
  "hex_decode k = Returns (Some pk) \<Longrightarrow> verify_bind ed k env = Returns None \<longleftrightarrow> bound_chain ed pk env"
  unfolding verify_bind_def bound_chain_def Let_def
  by (auto simp: verify_hex_True [symmetric] split: option.splits run.splits)

lemma verify_payload_Inr:
  "verify_payload sha name env = Inr v \<longleftrightarrow>
     (let h = en_header env; p = en_payload env; es = sort_key ev_seq (pay_events p)
      in segment_ok sha (hd_segment h) es \<and> commits sha env es \<and> list_all (body_ok sha es) (pay_prompts p)
         \<and> v = \<lparr>vf_chain_id = hd_chain_id h, vf_human = pc_principal_id (pair_human (hd_principal h)),
               vf_device_name = name, vf_from_seq = sg_from_seq (hd_segment h),
               vf_to_seq = sg_to_seq (hd_segment h), vf_head_hash = sg_head_hash (hd_segment h),
               vf_events = length es, vf_prompts = length (pay_prompts p),
               vf_full_bodies = length (filter is_full_body (pay_prompts p)), vf_binds = length (pay_binds p)\<rparr>)"
  unfolding verify_payload_def Let_def
  by (auto simp: segment_error_None [symmetric] commitment_error_None [symmetric] body_error_None [symmetric]
      split: option.splits)

text \<open>
  C32. The verifier accepts exactly the well-signed, well-linked envelopes.  From the bytes alone, an
  envelope is accepted if and only if its schema is the known one; the human's id is the hash of their
  key and the device's id derives from it and is the chain; the header and the chain's bind are signed
  with that key; the payload is the one signed; its events are numbered from the first to the last of
  the stated segment and every hash and link recomputes up to the stated head; every bind and redaction
  event commits to a payload that is carried; and every full body and prompt event has its hash.
\<close>

theorem verify_accepts_exactly:
  "(\<exists>v. verify ed sha header_line payload_json env = Returns (Inr v)) \<longleftrightarrow>
     (\<exists>pubkey_hex pubkey name. accepted ed sha header_line payload_json pubkey_hex pubkey name env)"
proof -
  have "(\<exists>v. verify ed sha header_line payload_json env = Returns (Inr v)) \<longleftrightarrow>
      (\<exists>k pk name. let h = en_header env in hd_schema h = ENVELOPE_SCHEMA
         \<and> pc_pubkey (pair_human (hd_principal h)) = Some k \<and> hex_decode k = Returns (Some pk)
         \<and> human_ok sha pk h \<and> pc_display_name (pair_device (hd_principal h)) = Some name
         \<and> device_ok sha pk name h
         \<and> verify_hex ed k (utf8 (header_line h)) (en_signature env) = Returns True
         \<and> sha (utf8 (payload_json (en_payload env))) = hd_payload_sha256 h
         \<and> verify_bind ed k env = Returns None \<and> (\<exists>v. verify_payload sha name env = Inr v))"
    unfolding verify_def Let_def by (auto split: option.splits run.splits bool.splits if_splits)
  also have "\<dots> \<longleftrightarrow> (\<exists>k pk name. accepted ed sha header_line payload_json k pk name env)"
    unfolding accepted_def Let_def verify_payload_Inr
    using verify_hex_True verify_bind_None by (intro ex_cong1) blast
  finally show ?thesis .
qed

section \<open>Hexadecimal text, both ways\<close>

lemma hex_nibble_digit: "n < 16 \<Longrightarrow> hex_nibble (hex_digit n) = Some n \<and> hex_digit n < 128 \<and> hex_digit n \<noteq> 43
    \<and> \<not> is_whitespace (hex_digit n)"
  by (auto simp: hex_nibble_def hex_digit_def is_digit_def is_whitespace_def)

lemma hex_pairs_encode: "(\<forall>b\<in>set bs. b < 256) \<Longrightarrow> hex_pairs (hex_encode bs) = Returns (Some bs)"
proof (induction bs)
  case (Cons b bs)
  then have b: "b div 16 < 16" "b mod 16 < 16" by (simp_all add: less_mult_imp_div_less)
  have "hex_byte (hex_digit (b div 16)) (hex_digit (b mod 16)) = Some b"
    using hex_nibble_digit [OF b(1)] hex_nibble_digit [OF b(2)] by (simp add: hex_byte_def)
  then show ?case
    using Cons hex_nibble_digit [OF b(1)] hex_nibble_digit [OF b(2)] by (simp add: hex_encode_def)
qed (simp add: hex_encode_def)

lemma hex_round_trip:
  assumes "\<forall>b\<in>set bs. b < 256"
  shows "hex_decode (hex_encode bs) = Returns (Some bs)"
proof -
  have chars: "c < 128 \<and> \<not> is_whitespace c" if c: "c \<in> set (hex_encode bs)" for c
  proof -
    obtain b where "b \<in> set bs" "c = hex_digit (b div 16) \<or> c = hex_digit (b mod 16)"
      using c by (auto simp: hex_encode_def)
    moreover have "b div 16 < 16" "b mod 16 < 16"
      using assms \<open>b \<in> set bs\<close> by (simp_all add: less_mult_imp_div_less)
    ultimately show ?thesis using hex_nibble_digit by blast
  qed
  have trim: "trim (hex_encode bs) = hex_encode bs"
  proof (cases "hex_encode bs")
    case (Cons x xs)
    then have "\<not> is_whitespace x" "\<not> is_whitespace (last (x # xs))"
      using chars [of x] chars [of "last (x # xs)"] by auto
    then show ?thesis by (simp add: Cons trim_def trim_by_def trim_start_by_def trim_end_by_id)
  qed (simp add: trim_def trim_by_def trim_start_by_def trim_end_by_def)
  have "utf8 (hex_encode bs) = hex_encode bs" using chars by (intro utf8_ascii) blast
  then have "byte_len (hex_encode bs) = 2 * length bs"
    by (simp add: byte_len_def hex_encode_def length_concat comp_def sum_list_triv)
  then show ?thesis using hex_pairs_encode [OF assms] by (simp add: hex_decode_def trim)
qed

text \<open>
  Text a peer controls reaches \<^verbatim>\<open>hex_decode\<close> before any signature is checked.  A two-byte character at an
  odd offset makes it panic, and a plus sign is read as a digit.
\<close>

lemma hex_decode_can_panic: "hex_decode [97, 233, 98] = Panics"
  by code_simp

lemma hex_decode_takes_a_plus_sign: "hex_decode (lit ''+f'') = Returns (Some [15])"
  by code_simp

section \<open>Continuity with the local chain\<close>

text \<open>
  \<^verbatim>\<open>verify_against\<close>: a segment of a chain this store writes must sit on the local rows and agree with them.
  \<open>ours\<close> says that the chain id is a device among the local principals.
\<close>

fun local_error :: "ledger_event_row list \<Rightarrow> ledger_event_row list \<Rightarrow> verify_error option" where
  "local_error local [] = None"
| "local_error local (r # rs) =
     (case find (\<lambda>l. ev_seq l = ev_seq r) local of
        None \<Rightarrow> local_error local rs
      | Some l \<Rightarrow>
          if entry_hash l = entry_hash r then local_error local rs
          else Some (Continuity (lit ''seq '' @ show_int (ev_seq r) @ lit '' differs: local '' @ entry_hash l
                 @ lit '' vs envelope '' @ entry_hash r @ [32, 8212] @ lit '' forked'')))"

definition before_error :: "ledger_event_row list \<Rightarrow> segment \<Rightarrow> verify_error option" where
  "before_error rows g =
     (if sg_from_seq g > 1
      then (case list_ledger_events_asc (sg_from_seq g - 2) 1 rows of
              [] \<Rightarrow> Some (Continuity (lit ''this store has no seq '' @ show_int (sg_from_seq g - 1)))
            | b # bs \<Rightarrow>
                if entry_hash b = sg_prev_hash_at_from g then None
                else Some (Continuity (lit ''seq '' @ show_int (ev_seq b) @ lit '' here has hash '' @ entry_hash b
                       @ lit '', the envelope links onto '' @ sg_prev_hash_at_from g @ [32, 8212] @ lit '' forked'')))
      else None)"

definition verify_against ::
  "(byte list \<Rightarrow> byte list \<Rightarrow> byte list \<Rightarrow> bool) \<Rightarrow> sha_fn \<Rightarrow> (header \<Rightarrow> rstr) \<Rightarrow> (payload \<Rightarrow> rstr)
     \<Rightarrow> bool \<Rightarrow> ledger_event_row list \<Rightarrow> envelope \<Rightarrow> (verify_error + verified) run" where
  "verify_against ed sha header_line payload_json ours rows env =
     (case verify ed sha header_line payload_json env of
        Panics \<Rightarrow> Panics
      | Returns (Inl e) \<Rightarrow> Returns (Inl e)
      | Returns (Inr v) \<Rightarrow>
          if \<not> ours then Returns (Inr v)
          else
            let g = hd_segment (en_header env);
                local = list_ledger_events_asc (sg_from_seq g - 1) (int (length (pay_events (en_payload env)))) rows
            in case before_error rows g of
                 Some e \<Rightarrow> Returns (Inl e)
               | None \<Rightarrow>
                   (case local_error local (sort_key ev_seq (pay_events (en_payload env))) of
                      Some e \<Rightarrow> Returns (Inl e)
                    | None \<Rightarrow> Returns (Inr v)))"

end
