(* ===== verification/Sharing.thy ===== *)
theory Sharing
  imports Foreign Envelope
begin

text \<open>
  \<^verbatim>\<open>polis-memory/src/sharing.rs\<close>: the import of one envelope.  After \<open>verify\<close> come the payload checks, the
  trust in the human's key, the subscriptions, the continuity with the copy of the chain already held,
  and then one transaction that writes the rows; vectors, acknowledgements and the peer's catalogue
  follow.  Store calls that only read cannot fail here; the import transaction can.
\<close>

section \<open>Options, outcomes, errors\<close>

record import_options =
  io_tofu :: bool
  io_force :: bool
  io_local_model :: "rstr option"

datatype import_outcome = Appended nat | NoOp | OwnChain

record import_report =
  rep_outcome :: import_outcome
  rep_chain_id :: rstr
  rep_human :: rstr
  rep_source :: rstr
  rep_from_seq :: int
  rep_to_seq :: int
  rep_rows :: imported_rows
  rep_vectors_kept :: nat
  rep_vectors_discarded :: nat
  rep_trusted_now :: "rstr option"
  rep_verified :: verified
  rep_tree :: "nat \<times> nat"

datatype import_error =
  EVerify verify_error | NotTrusted rstr rstr | KeyChanged rstr rstr rstr | Forked rstr
  | ForkedBefore rstr | Gap rstr | NotSubscribed rstr | EStore store_error

section \<open>Payload checks\<close>

definition redaction_witnessed :: "sha_fn \<Rightarrow> header \<Rightarrow> payload \<Rightarrow> redaction_payload \<Rightarrow> bool" where
  "redaction_witnessed sha h p r \<longleftrightarrow>
     rp_chain_id r = hd_chain_id h
     \<and> list_ex (\<lambda>e. ev_seq e = rp_event_seq r \<and> ev_kind e = event_kind_as_str EkRedaction
          \<and> ev_payload_hash e = redaction_payload_hash sha r) (pay_events p)"

definition note_target_matches :: "bundle_note \<Rightarrow> ledger_event_row \<Rightarrow> bool" where
  "note_target_matches n e \<longleftrightarrow>
     (if un_target_kind n = lit ''none''
      then ev_ref_kind e = Some (lit ''none'') \<and> ev_ref_id e = Some (show_int (un_id n))
      else ev_ref_kind e = Some (un_target_kind n) \<and> ev_ref_id e = un_target_id n)"

definition note_body_matches :: "sha_fn \<Rightarrow> bundle_note \<Rightarrow> ledger_event_row \<Rightarrow> bool" where
  "note_body_matches sha n e \<longleftrightarrow>
     list_ex (\<lambda>action. decision_payload_hash sha [(lit ''action'', action), (lit ''text'', un_text n)]
                = ev_payload_hash e) [lit ''note'', lit ''star'', lit ''unstar'']"

definition note_witnessed :: "sha_fn \<Rightarrow> payload \<Rightarrow> bundle_note \<Rightarrow> bool" where
  "note_witnessed sha p n \<longleftrightarrow>
     (case un_seq n of
        None \<Rightarrow> False
      | Some s \<Rightarrow>
          (case find (\<lambda>e. ev_seq e = s \<and> ev_kind e = event_kind_as_str EkNote) (pay_events p) of
             None \<Rightarrow> False
           | Some e \<Rightarrow> note_target_matches n e \<and> note_body_matches sha n e))"

definition payload_error :: "sha_fn \<Rightarrow> envelope \<Rightarrow> import_error option" where
  "payload_error sha env =
     (let h = en_header env; p = en_payload env
      in case find (\<lambda>r. \<not> redaction_witnessed sha h p r) (pay_redactions p) of
           Some r \<Rightarrow> Some (EVerify (RedactionHashMismatch (rp_event_seq r)))
         | None \<Rightarrow>
             (case find (\<lambda>n. \<not> note_witnessed sha p n) (pay_notes p) of
                Some n \<Rightarrow> Some (EVerify (ESchema (lit ''note '' @ show_int (un_id n)
                             @ lit '' does not match its source event'')))
              | None \<Rightarrow> None))"

section \<open>Trust and subscriptions\<close>

definition eq_ignore_ascii_case :: "rstr \<Rightarrow> rstr \<Rightarrow> bool" where
  "eq_ignore_ascii_case a b \<longleftrightarrow> ascii_lower a = ascii_lower b"

definition subscription_matches :: "subscription_row \<Rightarrow> rstr \<Rightarrow> rstr option \<Rightarrow> bool" where
  "subscription_matches row human display_name \<longleftrightarrow>
     (case sr_principal row of
        None \<Rightarrow> True
      | Some q \<Rightarrow>
          let p = trim q
          in if p = [] then True
             else human = p \<or> starts_with human (ascii_lower p) \<or> fingerprint human = ascii_lower p
               \<or> (case display_name of None \<Rightarrow> False | Some d \<Rightarrow> eq_ignore_ascii_case d p))"

text \<open>
  Either the key is already trusted, or it is trusted now on first use, or the import stops.  The message
  of a changed key decodes the stored key, which can panic.
\<close>

definition check_trust ::
  "sha_fn \<Rightarrow> import_options \<Rightarrow> principal_card \<Rightarrow> int \<Rightarrow> foreign_db
     \<Rightarrow> (import_error + rstr option \<times> foreign_db) run" where
  "check_trust sha opts human now db =
     (let pid = pc_principal_id human;
          pubkey_hex = (case pc_pubkey human of None \<Rightarrow> [] | Some k \<Rightarrow> k)
      in case trust_get db pid of
           Some t \<Rightarrow>
             if te_pubkey t = pubkey_hex then Returns (Inr (None, db))
             else (case hex_decode (te_pubkey t) of
                     Panics \<Rightarrow> Panics
                   | Returns bs \<Rightarrow>
                       Returns (Inl (KeyChanged pid
                         (fingerprint (principal_id sha (case bs of None \<Rightarrow> [] | Some b \<Rightarrow> b))) (fingerprint pid))))
         | None \<Rightarrow>
             if \<not> io_tofu opts then Returns (Inl (NotTrusted pid (fingerprint pid)))
             else Returns (Inr (Some (fingerprint pid),
                    snd (trust_set \<lparr>te_principal_id = pid, te_pubkey = pubkey_hex, te_fingerprint = fingerprint pid,
                           te_source = lit ''tofu'', te_display_name = pc_display_name human, te_added_at = now\<rparr> db))))"

section \<open>Continuity\<close>

text \<open>The first event at a number we hold whose hash is not the one we hold.\<close>

definition overlap_conflict :: "foreign_db \<Rightarrow> rstr \<Rightarrow> int \<Rightarrow> ledger_event_row list \<Rightarrow> ledger_event_row option" where
  "overlap_conflict db c head es =
     find (\<lambda>e. case foreign_event_hash db c (ev_seq e) of None \<Rightarrow> False | Some ours \<Rightarrow> ours \<noteq> entry_hash e)
       (filter (\<lambda>e. ev_seq e \<le> head) es)"

definition fork :: "rstr \<Rightarrow> rstr \<Rightarrow> foreign_db \<Rightarrow> (import_error + int \<times> int) \<times> foreign_db" where
  "fork c detail db = (Inl (Forked detail), snd (mark_foreign_forked c detail db))"

text \<open>On success: the time of the first import and the first number that is new to us.\<close>

definition continuity ::
  "header \<Rightarrow> ledger_event_row list \<Rightarrow> int \<Rightarrow> foreign_db \<Rightarrow> (import_error + int \<times> int) \<times> foreign_db" where
  "continuity h es now db =
     (let c = hd_chain_id h; g = hd_segment h
      in case get_foreign_chain db c of
           None \<Rightarrow>
             if sg_from_seq g \<noteq> 1
             then (Inl (Gap (lit ''first segment of chain '' @ fingerprint c
                     @ lit '' must start at seq 1, this one starts at '' @ show_int (sg_from_seq g))), db)
             else (Inr (now, 1), db)
         | Some ch \<Rightarrow>
             if fc_forked ch
             then (Inl (ForkedBefore (case fc_fork_detail ch of None \<Rightarrow> [] | Some d \<Rightarrow> d)), db)
             else if sg_from_seq g > fc_head_seq ch + 1
             then (Inl (Gap (lit ''we hold chain '' @ fingerprint c @ lit '' up to seq '' @ show_int (fc_head_seq ch)
                     @ lit '', the segment starts at '' @ show_int (sg_from_seq g) @ [32, 8212]
                     @ lit '' fetch the segments between first'')), db)
             else (case overlap_conflict db c (fc_head_seq ch) es of
                     Some e \<Rightarrow>
                       fork c (lit ''seq '' @ show_int (ev_seq e) @ lit '' here has hash ''
                         @ (case foreign_event_hash db c (ev_seq e) of None \<Rightarrow> [] | Some ours \<Rightarrow> ours)
                         @ lit '', the segment carries '' @ entry_hash e @ [32, 8212]
                         @ lit '' the peer rewrote history'') db
                   | None \<Rightarrow>
                       if sg_from_seq g = fc_head_seq ch + 1 \<and> sg_prev_hash_at_from g \<noteq> fc_head_hash ch
                       then fork c (lit ''the segment links onto '' @ sg_prev_hash_at_from g
                              @ lit '' but our head at seq '' @ show_int (fc_head_seq ch) @ lit '' is ''
                              @ fc_head_hash ch) db
                       else (Inr (fc_first_import_at ch, fc_head_seq ch + 1), db)))"

section \<open>The rows of a segment\<close>

text \<open>The number of the last prompt event of each prompt id.\<close>

definition prompt_seq_by_id :: "ledger_event_row list \<Rightarrow> int \<rightharpoonup> int" where
  "prompt_seq_by_id es =
     fold (\<lambda>e m. if ev_kind e = lit ''prompt''
                 then (case ev_prompt_id e of None \<Rightarrow> m | Some pid \<Rightarrow> m(pid \<mapsto> ev_seq e)) else m) es Map.empty"

fun redaction_str :: "redaction \<Rightarrow> rstr" where
  "redaction_str RFull = lit ''full''"
| "redaction_str RGist = lit ''gist''"
| "redaction_str RStub = lit ''stub''"

definition keeps_body :: "rstr list \<Rightarrow> payload_prompt \<Rightarrow> bool" where
  "keeps_body projects p \<longleftrightarrow>
     projects = [] \<or> (case ep_project p of None \<Rightarrow> False | Some pp \<Rightarrow> list_ex (\<lambda>f. pp = f \<or> starts_with pp f) projects)"

definition prompt_input :: "rstr list \<Rightarrow> (int \<rightharpoonup> int) \<Rightarrow> payload_prompt \<Rightarrow> foreign_prompt_input option" where
  "prompt_input projects seqs p =
     (case seqs (ep_id p) of
        None \<Rightarrow> None
      | Some s \<Rightarrow>
          let keep = keeps_body projects p
          in Some \<lparr>fpi_seq = s, fpi_prompt_id = ep_id p, fpi_role = ep_role p, fpi_body_hash = ep_body_hash p,
                fpi_redaction = (if keep then redaction_str (ep_redaction p) else lit ''stub''),
                fpi_text = (if keep then ep_text p else None), fpi_project = ep_project p\<rparr>)"

definition note_input :: "bundle_note \<Rightarrow> foreign_note_input" where
  "note_input n = \<lparr>fni_note_id = un_id n, fni_seq = un_seq n, fni_target_kind = un_target_kind n,
     fni_target_id = un_target_id n, fni_text = un_text n, fni_created_at = un_created_at n\<rparr>"

definition redaction_input :: "redaction_payload \<Rightarrow> foreign_redaction_input" where
  "redaction_input r = \<lparr>fri_event_seq = rp_event_seq r, fri_target_chain = rp_chain_id r, fri_target_seq = rp_seq r\<rparr>"

definition note_inputs :: "ledger_event_row list \<Rightarrow> payload \<Rightarrow> foreign_note_input list" where
  "note_inputs es p =
     map note_input (filter (\<lambda>n. case un_seq n of None \<Rightarrow> False | Some s \<Rightarrow> s \<in> set (map ev_seq es)) (pay_notes p))"

definition redaction_inputs :: "ledger_event_row list \<Rightarrow> payload \<Rightarrow> foreign_redaction_input list" where
  "redaction_inputs es p =
     map redaction_input (filter (\<lambda>r. rp_event_seq r \<in> set (map ev_seq es)) (pay_redactions p))"

section \<open>Vectors, acknowledgements, catalogue\<close>

text \<open>A vector is kept for a live text of the same model; undecodable bytes are discarded, or panic.\<close>

definition import_vector ::
  "import_options \<Rightarrow> rstr \<Rightarrow> (int \<rightharpoonup> int) \<Rightarrow> payload_vector \<Rightarrow> nat \<times> nat \<times> foreign_db \<Rightarrow> (nat \<times> nat \<times> foreign_db) run" where
  "import_vector opts c seqs v st =
     (case st of (kept, discarded, db) \<Rightarrow>
        case seqs (pv_prompt_id v) of
          None \<Rightarrow> Returns st
        | Some s \<Rightarrow>
            (case foreign_prompt db c s of
               None \<Rightarrow> Returns st
             | Some row \<Rightarrow>
                 if io_local_model opts \<noteq> Some (pv_model v) \<or> fp_tombstoned row \<or> fp_text row = None
                 then Returns (kept, discarded + 1, db)
                 else (case hex_decode (pv_vec_hex v) of
                         Panics \<Rightarrow> Panics
                       | Returns None \<Rightarrow> Returns (kept, discarded + 1, db)
                       | Returns (Some bytes) \<Rightarrow>
                           Returns (kept + 1, discarded,
                             store_foreign_embedding_raw
                               \<lparr>em_target_kind = lit ''foreign_prompt'', em_target_id = fp_id row,
                                em_chunk_ix = pv_chunk_ix v, em_char_start = pv_char_start v,
                                em_char_len = pv_char_len v, em_dim = pv_dim v, em_scale = pv_scale v,
                                em_vec = bytes, em_model = pv_model v, em_source_hash = fp_body_hash row\<rparr> db))))"

text \<open>The vectors one by one; a panic keeps what was stored before it.\<close>

fun import_vectors ::
  "import_options \<Rightarrow> rstr \<Rightarrow> (int \<rightharpoonup> int) \<Rightarrow> payload_vector list \<Rightarrow> nat \<times> nat \<times> foreign_db
     \<Rightarrow> bool \<times> nat \<times> nat \<times> foreign_db" where
  "import_vectors opts c seqs [] st = (True, st)"
| "import_vectors opts c seqs (v # vs) st =
     (case import_vector opts c seqs v st of
        Panics \<Rightarrow> (False, st)
      | Returns st' \<Rightarrow> import_vectors opts c seqs vs st')"

definition import_ack ::
  "(rstr \<Rightarrow> principal_kind option) \<Rightarrow> rstr \<Rightarrow> rstr \<times> int \<Rightarrow> foreign_db \<Rightarrow> foreign_db" where
  "import_ack kinds c ack db =
     (case ack of (k, s) \<Rightarrow>
        record_org_ack c k s (if kinds k = Some Device then set_foreign_ack c s db else db))"

definition tree_node :: "payload_class_node \<Rightarrow> foreign_class_node" where
  "tree_node n = \<lparr>fcn_chain_id = [], fcn_node_id = pcn_id n, fcn_parent_id = pcn_parent_id n, fcn_kind = pcn_kind n,
     fcn_title = pcn_title n, fcn_summary = pcn_summary n\<rparr>"

definition tree_link :: "payload_class_link \<Rightarrow> foreign_class_link" where
  "tree_link l = \<lparr>fcl_chain_id = [], fcl_node_id = pcl_node_id l, fcl_target_kind = pcl_target_kind l,
     fcl_target_id = pcl_target_id l\<rparr>"

section \<open>The import\<close>

text \<open>
  What surrounds one import: the crypto and serialisation parameters, the local principals, the local
  ledger, the clock, and whether the registry file can be written.
\<close>

record import_env =
  ie_ed :: "byte list \<Rightarrow> byte list \<Rightarrow> byte list \<Rightarrow> bool"
  ie_sha :: sha_fn
  ie_header_line :: "header \<Rightarrow> rstr"
  ie_payload_json :: "payload \<Rightarrow> rstr"
  ie_kinds :: "rstr \<Rightarrow> principal_kind option"
  ie_ledger :: "ledger_event_row list"
  ie_now :: int
  ie_disk :: "rstr \<Rightarrow> bool"

definition source_label :: "rstr \<Rightarrow> rstr option \<Rightarrow> rstr" where
  "source_label c display_name =
     lit ''shared:'' @ (case display_name of
        None \<Rightarrow> fingerprint c
      | Some n \<Rightarrow> if trim n = [] then fingerprint c else n)"

text \<open>After continuity: the transaction, then the three follow-ups.\<close>

definition import_checked ::
  "import_env \<Rightarrow> import_options \<Rightarrow> rstr list \<Rightarrow> verified \<Rightarrow> rstr option \<Rightarrow> int \<times> int \<Rightarrow> envelope \<Rightarrow> foreign_store
     \<Rightarrow> (import_error + import_report) run \<times> foreign_store" where
  "import_checked ie opts projects v trusted first_start env st =
     (case first_start of (first_import_at, start_seq) \<Rightarrow>
        let h = en_header env; p = en_payload env; c = hd_chain_id h;
            human = pair_human (hd_principal h);
            es = sort_key ev_seq (pay_events p);
            new_events = filter (\<lambda>e. start_seq \<le> ev_seq e) es;
            seqs = prompt_seq_by_id es;
            ch = \<lparr>fc_chain_id = c, fc_human_id = pc_principal_id human,
                  fc_device_name = pc_display_name (pair_device (hd_principal h)),
                  fc_display_name = pc_display_name human,
                  fc_head_seq = ev_seq (last es), fc_head_hash = entry_hash (last es), fc_forked = False,
                  fc_fork_detail = None, fc_first_import_at = first_import_at, fc_last_import_at = ie_now ie\<rparr>
        in if es = [] then (Returns (Inl (Gap (lit ''empty segment''))), st)
           else case import_foreign_segment (ie_disk ie) ch new_events
                       (List.map_filter (prompt_input projects seqs) (pay_prompts p)) (note_inputs es p)
                       (pay_principals p) (redaction_inputs es p) (fst st) (snd st) of
             (Inl e, st') \<Rightarrow> (Returns (Inl (EStore e)), st')
           | (Inr rows, (db, reg)) \<Rightarrow>
               (case import_vectors opts c seqs (pay_vectors p) (0, 0, db) of (ok, kept, discarded, db1) \<Rightarrow>
                  if \<not> ok then (Panics, (db1, reg))
                  else
                    let db2 = fold (import_ack (ie_kinds ie) c) (pay_acks p) db1;
                        (tree, db3) = (if new_events \<noteq> [] \<and> pay_tree p \<noteq> []
                          then import_foreign_tree c (map tree_node (pay_tree p)) (map tree_link (pay_tree_links p)) db2
                          else ((0, 0), db2))
                    in (Returns (Inr \<lparr>rep_outcome = (if new_events = [] then NoOp else Appended (length new_events)),
                          rep_chain_id = c, rep_human = pc_principal_id human,
                          rep_source = source_label c (pc_display_name human),
                          rep_from_seq = sg_from_seq (hd_segment h), rep_to_seq = sg_to_seq (hd_segment h),
                          rep_rows = rows, rep_vectors_kept = kept, rep_vectors_discarded = discarded,
                          rep_trusted_now = trusted, rep_verified = v, rep_tree = tree\<rparr>), (db3, reg))))"

definition own_report :: "verified \<Rightarrow> header \<Rightarrow> import_report" where
  "own_report v h = \<lparr>rep_outcome = OwnChain, rep_chain_id = hd_chain_id h,
     rep_human = pc_principal_id (pair_human (hd_principal h)), rep_source = lit ''own'',
     rep_from_seq = sg_from_seq (hd_segment h), rep_to_seq = sg_to_seq (hd_segment h), rep_rows = no_rows,
     rep_vectors_kept = 0, rep_vectors_discarded = 0, rep_trusted_now = None, rep_verified = v, rep_tree = (0, 0)\<rparr>"

definition import_envelope ::
  "import_env \<Rightarrow> import_options \<Rightarrow> envelope \<Rightarrow> foreign_store
     \<Rightarrow> (import_error + import_report) run \<times> foreign_store" where
  "import_envelope ie opts env st =
     (case verify (ie_ed ie) (ie_sha ie) (ie_header_line ie) (ie_payload_json ie) env of
        Panics \<Rightarrow> (Panics, st)
      | Returns (Inl e) \<Rightarrow> (Returns (Inl (EVerify e)), st)
      | Returns (Inr v) \<Rightarrow>
          let h = en_header env; c = hd_chain_id h; human = pair_human (hd_principal h)
          in case payload_error (ie_sha ie) env of
            Some e \<Rightarrow> (Returns (Inl e), st)
          | None \<Rightarrow>
              if ie_kinds ie c = Some Device
              then (case verify_against (ie_ed ie) (ie_sha ie) (ie_header_line ie) (ie_payload_json ie) True
                           (ie_ledger ie) env of
                      Panics \<Rightarrow> (Panics, st)
                    | Returns (Inl e) \<Rightarrow> (Returns (Inl (EVerify e)), st)
                    | Returns (Inr w) \<Rightarrow> (Returns (Inr (own_report v h)), st))
              else case check_trust (ie_sha ie) opts human (ie_now ie) (fst st) of
                Panics \<Rightarrow> (Panics, st)
              | Returns (Inl e) \<Rightarrow> (Returns (Inl e), st)
              | Returns (Inr (trusted, db)) \<Rightarrow>
                  let subs = subscriptions db;
                      matching = filter (\<lambda>r. subscription_matches r (pc_principal_id human) (pc_display_name human)) subs;
                      projects = filter (\<lambda>p. trim p \<noteq> []) (List.map_filter sr_project matching)
                  in if subs \<noteq> [] \<and> matching = [] \<and> \<not> io_force opts
                     then (Returns (Inl (NotSubscribed (pc_principal_id human))), (db, snd st))
                     else case continuity h (sort_key ev_seq (pay_events (en_payload env))) (ie_now ie) db of
                       (Inl e, db') \<Rightarrow> (Returns (Inl e), (db', snd st))
                     | (Inr fs, db') \<Rightarrow> import_checked ie opts projects v trusted fs env (db', snd st))"

section \<open>The events an import adds\<close>

abbreviation same_chains :: "foreign_db \<Rightarrow> foreign_db \<Rightarrow> bool" where
  "same_chains db db' \<equiv> db_events db' = db_events db \<and> db_chains db' = db_chains db"

definition keeps_chains :: "(txn \<Rightarrow> txn \<times> store_error option) \<Rightarrow> bool" where
  "keeps_chains f \<longleftrightarrow> (\<forall>t. same_chains (tx_db t) (tx_db (fst (f t))))"

lemma keeps_and_then: "keeps_chains f \<Longrightarrow> keeps_chains g \<Longrightarrow> keeps_chains (and_then f g)"
  unfolding keeps_chains_def and_then_def
  by (auto split: prod.splits option.splits) (metis fst_conv)+

lemma keeps_run_steps: "(\<And>x. keeps_chains (f x)) \<Longrightarrow> keeps_chains (run_steps f xs)"
proof (induction xs)
  case (Cons x xs)
  have "run_steps f (x # xs) = and_then (f x) (run_steps f xs)"
    by (rule ext) (simp add: and_then_def)
  then show ?case using Cons keeps_and_then by simp
qed (simp add: keeps_chains_def)

lemma keeps_tombstone: "keeps_chains (tx_tombstone disk c s)"
  by (auto simp: keeps_chains_def tx_tombstone_def tombstone_locked_def bury_def Let_def
      split: sum.splits prod.splits if_splits)

lemma tx_tombstone_chains: "same_chains (tx_db t) (tx_db (fst (tx_tombstone disk c s t)))"
  using keeps_tombstone unfolding keeps_chains_def by blast

lemma keeps_import_prompt: "keeps_chains (import_prompt disk c p)"
  unfolding keeps_chains_def import_prompt_def Let_def
  using tx_tombstone_chains by (auto simp: insert_prompt_def)

lemma upsert_note_chains: "upsert_note c n s text db = (k, db') \<Longrightarrow> same_chains db db'"
  by (auto simp: upsert_note_def split: option.splits if_splits)

lemma keeps_import_note: "keeps_chains (import_note disk c n)"
  unfolding keeps_chains_def import_note_def Let_def
  using tx_tombstone_chains by (auto dest!: upsert_note_chains split: option.splits prod.splits)

lemma keeps_import_principal: "keeps_chains (import_principal c p)"
  by (simp add: keeps_chains_def import_principal_def)

lemma keeps_import_redaction: "keeps_chains (import_redaction disk c r)"
  unfolding keeps_chains_def import_redaction_def Let_def
  using tx_tombstone_chains by auto

definition held :: "foreign_db \<Rightarrow> rstr \<Rightarrow> ledger_event_row list" where
  "held db c = map snd (filter (\<lambda>(k, e). k = c) (db_events db))"

lemma foreign_event_hash_held:
  "foreign_event_hash db c s = map_option entry_hash (find (\<lambda>e. ev_seq e = s) (held db c))"
proof -
  have "map_option (\<lambda>(k, e). entry_hash e) (find (\<lambda>(k, e). k = c \<and> ev_seq e = s) xs)
      = map_option entry_hash (find (\<lambda>e. ev_seq e = s) (map snd (filter (\<lambda>(k, e). k = c) xs)))"
    for xs :: "(rstr \<times> ledger_event_row) list"
  proof (induction xs)
    case (Cons x xs)
    obtain k e where x: "x = (k, e)" by (cases x)
    show ?case using Cons unfolding x by (cases "k = c"; cases "ev_seq e = s") simp_all
  qed simp
  then show ?thesis by (simp add: foreign_event_hash_def held_def)
qed

lemma foreign_event_hash_None: "foreign_event_hash db c s = None \<longleftrightarrow> s \<notin> set (map ev_seq (held db c))"
  by (auto simp: foreign_event_hash_held find_None_iff)

lemma import_events_append:
  assumes "distinct (map ev_seq es)" and "set (map ev_seq es) \<inter> set (map ev_seq (held (tx_db t) c)) = {}"
  shows "\<exists>t'. run_steps (import_event c) es t = (t', None)
     \<and> db_events (tx_db t') = db_events (tx_db t) @ map (Pair c) es \<and> db_chains (tx_db t') = db_chains (tx_db t)"
  using assms
proof (induction es arbitrary: t)
  case (Cons e es)
  obtain t1 where t1: "import_event c e t = (t1, None)" "db_events (tx_db t1) = db_events (tx_db t) @ [(c, e)]"
    "db_chains (tx_db t1) = db_chains (tx_db t)"
    using Cons.prems(2) by (auto simp: import_event_def foreign_event_hash_None)
  have "held (tx_db t1) c = held (tx_db t) c @ [e]" by (simp add: held_def t1(2))
  then have "set (map ev_seq es) \<inter> set (map ev_seq (held (tx_db t1) c)) = {}"
    using Cons.prems by auto
  then show ?case using Cons.IH [of t1] Cons.prems(1) t1 by auto
qed simp

text \<open>A store import of events that are all new: either it fails and changes no table, or it appends them.\<close>

lemma import_segment_events:
  assumes "distinct (map ev_seq es)" and "set (map ev_seq es) \<inter> set (map ev_seq (held db (fc_chain_id ch))) = {}"
    and "import_foreign_segment disk ch es ps ns cs rs db reg = (res, db', reg')"
  shows "(case res of
            Inl x \<Rightarrow> db' = db
          | Inr out \<Rightarrow> db_events db' = db_events db @ map (Pair (fc_chain_id ch)) es
              \<and> db_chains db' = db_chains (upsert_chain ch db))"
proof -
  let ?c = "fc_chain_id ch" and ?t = "\<lparr>tx_db = db, tx_reg = reg, tx_out = no_rows\<rparr>"
  obtain t1 where t1: "run_steps (import_event ?c) es ?t = (t1, None)"
    "db_events (tx_db t1) = db_events db @ map (Pair ?c) es" "db_chains (tx_db t1) = db_chains db"
    using import_events_append [of es ?t ?c] assms(1,2) by auto
  define rest where "rest = and_then (run_steps (import_prompt disk ?c) ps)
    (and_then (run_steps (import_note disk ?c) ns)
      (and_then (run_steps (import_principal ?c) cs) (run_steps (import_redaction disk ?c) rs)))"
  have "keeps_chains rest"
    unfolding rest_def
    by (intro keeps_and_then keeps_run_steps keeps_import_prompt keeps_import_note keeps_import_principal
        keeps_import_redaction)
  moreover have rows: "import_rows disk ?c es ps ns cs rs ?t = rest t1"
    using t1(1) by (simp add: import_rows_def rest_def [symmetric] and_then_def)
  ultimately have "same_chains (tx_db t1) (tx_db (fst (rest t1)))" unfolding keeps_chains_def by blast
  then have same: "db_events (tx_db (fst (rest t1))) = db_events db @ map (Pair ?c) es"
    "db_chains (tx_db (fst (rest t1))) = db_chains db" using t1 by simp_all
  obtain t2 err where r: "rest t1 = (t2, err)" by (cases "rest t1")
  show ?thesis
  proof (cases err)
    case (Some x)
    then show ?thesis using assms(3) by (auto simp: import_foreign_segment_def rows r)
  next
    case None
    then have "res = Inr (tx_out t2)" "db' = upsert_chain ch (tx_db t2)"
      using assms(3) by (simp_all add: import_foreign_segment_def rows r)
    then show ?thesis using same r
      by (simp add: upsert_chain_def update_chain_def get_foreign_chain_def)
  qed
qed

section \<open>The held chains\<close>

text \<open>
  What the store promises of a chain it holds: its events are numbered from 1 to the recorded head
  without a gap, every hash and link recomputes, and the recorded head hash is the hash of the last.
\<close>

definition chain_ok :: "sha_fn \<Rightarrow> foreign_db \<Rightarrow> rstr \<Rightarrow> bool" where
  "chain_ok sha db c \<longleftrightarrow>
     (case get_foreign_chain db c of
        None \<Rightarrow> held db c = []
      | Some ch \<Rightarrow>
          held db c \<noteq> [] \<and> map ev_seq (held db c) = [1..fc_head_seq ch]
          \<and> linked sha (prev_hash (hd (held db c))) (held db c) \<and> entry_hash (last (held db c)) = fc_head_hash ch)"

definition chains_ok :: "sha_fn \<Rightarrow> foreign_db \<Rightarrow> bool" where
  "chains_ok sha db \<longleftrightarrow> distinct (map fc_chain_id (db_chains db)) \<and> (\<forall>c. chain_ok sha db c)"

lemma chain_ok_cong:
  "held db' k = held db k \<Longrightarrow> get_foreign_chain db' k = get_foreign_chain db k
     \<Longrightarrow> chain_ok sha db' k = chain_ok sha db k"
  by (simp only: chain_ok_def)

lemma held_same: "db_events db' = db_events db \<Longrightarrow> held db' c = held db c"
  by (simp add: held_def)

lemma chains_ok_same:
  assumes "same_chains db db'"
  shows "chains_ok sha db' = chains_ok sha db"
proof -
  have h: "held db' c = held db c" "get_foreign_chain db' c = get_foreign_chain db c" for c
    using assms by (simp_all add: held_def get_foreign_chain_def)
  show ?thesis unfolding chains_ok_def chain_ok_def h by (simp add: assms)
qed

lemma get_update_chain:
  assumes "\<And>r. fc_chain_id (f r) = fc_chain_id r"
  shows "get_foreign_chain (update_chain c f db) k
    = (if k = c then map_option f (get_foreign_chain db k) else get_foreign_chain db k)"
proof -
  have "find (\<lambda>r. fc_chain_id r = k) (map (\<lambda>r. if fc_chain_id r = c then f r else r) xs)
      = (if k = c then map_option f (find (\<lambda>r. fc_chain_id r = k) xs) else find (\<lambda>r. fc_chain_id r = k) xs)" for xs
    using assms by (induction xs) auto
  then show ?thesis by (simp add: get_foreign_chain_def update_chain_def)
qed

lemma update_chain_ids:
  "(\<And>r. fc_chain_id (f r) = fc_chain_id r) \<Longrightarrow>
     map fc_chain_id (db_chains (update_chain c f db)) = map fc_chain_id (db_chains db)"
  by (simp add: update_chain_def)

lemma update_chain_ok:
  assumes "chains_ok sha db" and "\<And>r. fc_chain_id (f r) = fc_chain_id r"
    and "\<And>r. fc_head_seq (f r) = fc_head_seq r" and "\<And>r. fc_head_hash (f r) = fc_head_hash r"
  shows "chains_ok sha (update_chain c f db)"
proof -
  have "held (update_chain c f db) k = held db k" for k by (simp add: held_def update_chain_def)
  then have "chain_ok sha (update_chain c f db) k = chain_ok sha db k" for k
    using assms(2-4) by (auto simp: chain_ok_def get_update_chain split: option.splits)
  then show ?thesis using assms(1,2) by (simp add: chains_ok_def update_chain_ids)
qed

lemma mark_fork_ok: "chains_ok sha db \<Longrightarrow> chains_ok sha (snd (mark_foreign_forked c d db))"
  by (simp add: mark_foreign_forked_def update_chain_ok)

lemma clear_fork_ok: "chains_ok sha db \<Longrightarrow> chains_ok sha (snd (clear_foreign_fork c db))"
  by (simp add: clear_foreign_fork_def update_chain_ok)

lemma filter_other: "filter (\<lambda>(j, e). j = k) (filter (\<lambda>(j, e). j \<noteq> c) xs)
    = (if k = c then [] else filter (\<lambda>(j, e). j = k) xs)"
proof (induction xs)
  case (Cons x xs)
  then show ?case by (cases x; cases "k = c"; cases "fst x = c") auto
qed simp

lemma find_other: "find (\<lambda>r. g r = k) (filter (\<lambda>r. g r \<noteq> c) xs)
    = (if k = c then None else find (\<lambda>r. g r = k) xs)"
proof (induction xs)
  case (Cons x xs)
  then show ?case by (cases "k = c"; cases "g x = c") auto
qed simp

lemma forget_chain_held:
  "held (snd (forget_foreign_chain c db)) k = (if k = c then [] else held db k)"
  "get_foreign_chain (snd (forget_foreign_chain c db)) k = (if k = c then None else get_foreign_chain db k)"
  unfolding held_def get_foreign_chain_def forget_foreign_chain_def Let_def
  using filter_other [of k c "db_events db"] find_other [of fc_chain_id k c "db_chains db"] by simp_all

lemma forget_chain_ok:
  assumes "chains_ok sha db"
  shows "chains_ok sha (snd (forget_foreign_chain c db))"
proof -
  have "chain_ok sha (snd (forget_foreign_chain c db)) k" for k
  proof (cases "k = c")
    case True
    then show ?thesis by (simp add: chain_ok_def forget_chain_held)
  next
    case False
    then show ?thesis
      using assms chain_ok_cong [of "snd (forget_foreign_chain c db)" k db]
      by (simp add: chains_ok_def forget_chain_held)
  qed
  moreover have "distinct (map fc_chain_id (filter (\<lambda>r. fc_chain_id r \<noteq> c) (db_chains db)))"
    using assms by (simp add: chains_ok_def distinct_map_filter)
  moreover have "db_chains (snd (forget_foreign_chain c db)) = filter (\<lambda>r. fc_chain_id r \<noteq> c) (db_chains db)"
    by (simp add: forget_foreign_chain_def Let_def)
  ultimately show ?thesis by (simp add: chains_ok_def)
qed

subsection \<open>Splitting a segment at the held head\<close>

lemma sorted_split: "sorted (map f xs) \<Longrightarrow> xs = filter (\<lambda>x. f x \<le> k) xs @ filter (\<lambda>x. k + 1 \<le> f x) xs"
  for f :: "'a \<Rightarrow> int"
proof (induction xs)
  case (Cons x xs)
  show ?case
  proof (cases "f x \<le> k")
    case True
    then show ?thesis using Cons by simp
  next
    case False
    then have "\<forall>y\<in>set (x # xs). k + 1 \<le> f y" using Cons.prems by auto
    then have "filter (\<lambda>x. f x \<le> k) (x # xs) = []" "filter (\<lambda>x. k + 1 \<le> f x) (x # xs) = x # xs"
      by (auto simp: filter_empty_conv filter_id_conv)
    then show ?thesis by simp
  qed
qed simp

lemma filter_upto_le: "filter (\<lambda>x. x \<le> k) [a..b] = [a..min b k]" for a b k :: int
  by (rule sorted_distinct_set_unique) (auto simp: sorted_wrt_filter)

lemma filter_upto_ge: "filter (\<lambda>x. k \<le> x) [a..b] = [max a k..b]" for a b k :: int
  by (rule sorted_distinct_set_unique) (auto simp: sorted_wrt_filter)

lemma upto_append: "0 \<le> a \<Longrightarrow> a \<le> b \<Longrightarrow> [1..a] @ [a + 1..b] = [1..b]"
  using upto_split2 [of 1 a b] by (cases "a = 0") simp_all

lemma map_filter_key: "map f (filter (\<lambda>x. P (f x)) xs) = filter P (map f xs)"
  by (simp add: filter_map o_def)

lemma held_head_hash:
  assumes "chain_ok sha db c" and "get_foreign_chain db c = Some ch"
  shows "foreign_event_hash db c (fc_head_seq ch) = Some (fc_head_hash ch) \<and> 1 \<le> fc_head_seq ch"
proof -
  let ?es = "held db c"
  have es: "?es \<noteq> []" "map ev_seq ?es = [1..fc_head_seq ch]" "entry_hash (last ?es) = fc_head_hash ch"
    using assms by (simp_all add: chain_ok_def)
  have l: "last ?es \<in> set ?es" "ev_seq (last ?es) = fc_head_seq ch" "1 \<le> fc_head_seq ch"
  proof -
    show "last ?es \<in> set ?es" using es(1) by simp
    have u: "last (map ev_seq ?es) = fc_head_seq ch \<and> int (length (map ev_seq ?es)) = fc_head_seq ch"
      using upto_ends [OF es(2)] es(1) by simp
    then show "ev_seq (last ?es) = fc_head_seq ch" using es(1) by (simp add: last_map)
    have "0 < length ?es" using es(1) by simp
    then show "1 \<le> fc_head_seq ch" using u by (metis length_map of_nat_0_less_iff zless_imp_add1_zle add_0)
  qed
  have d: "distinct (map ev_seq ?es)" by (simp add: es(2))
  obtain e where e: "find (\<lambda>e. ev_seq e = fc_head_seq ch) ?es = Some e"
    using l by (cases "find (\<lambda>e. ev_seq e = fc_head_seq ch) ?es") (auto simp: find_None_iff)
  then have "e \<in> set ?es" "ev_seq e = fc_head_seq ch" by (auto simp: find_Some_iff)
  then have "e = last ?es" using d l by (metis distinct_map inj_onD)
  then show ?thesis using e es l by (simp add: foreign_event_hash_held)
qed

subsection \<open>What an import adds\<close>

lemma continuity_None:
  assumes "get_foreign_chain db (hd_chain_id h) = None"
  shows "continuity h es now db = (Inr (now, 1), db) \<and> sg_from_seq (hd_segment h) = 1
    \<or> (\<exists>e. continuity h es now db = (Inl (Gap e), db))"
  using assms by (simp add: continuity_def Let_def)

lemma continuity_Some:
  assumes ch: "get_foreign_chain db (hd_chain_id h) = Some ch"
  shows "continuity h es now db = (Inr (fc_first_import_at ch, fc_head_seq ch + 1), db)
      \<and> sg_from_seq (hd_segment h) \<le> fc_head_seq ch + 1
      \<and> overlap_conflict db (hd_chain_id h) (fc_head_seq ch) es = None
      \<and> (sg_from_seq (hd_segment h) = fc_head_seq ch + 1 \<longrightarrow> sg_prev_hash_at_from (hd_segment h) = fc_head_hash ch)
    \<or> (\<exists>e. (\<forall>d. e \<noteq> Forked d) \<and> continuity h es now db = (Inl e, db))
    \<or> (\<exists>e d. continuity h es now db = (Inl (Forked d), snd (mark_foreign_forked (hd_chain_id h) d db)))"
proof (cases "fc_forked ch \<or> sg_from_seq (hd_segment h) > fc_head_seq ch + 1")
  case True
  then have "\<exists>e. (\<forall>d. e \<noteq> Forked d) \<and> continuity h es now db = (Inl e, db)"
    using ch by (cases "fc_forked ch") (simp_all add: continuity_def Let_def)
  then show ?thesis by blast
next
  case ok: False
  show ?thesis
  proof (cases "overlap_conflict db (hd_chain_id h) (fc_head_seq ch) es")
    case (Some e)
    then show ?thesis using ok ch by (simp add: continuity_def Let_def fork_def)
  next
    case None
    then show ?thesis using ok ch by (simp add: continuity_def Let_def fork_def)
  qed
qed

lemma continuity_Inr:
  assumes "continuity h es now db = (Inr (first, start), db')"
  shows "db' = db \<and> (case get_foreign_chain db (hd_chain_id h) of
       None \<Rightarrow> sg_from_seq (hd_segment h) = 1 \<and> start = 1
     | Some ch \<Rightarrow> start = fc_head_seq ch + 1 \<and> sg_from_seq (hd_segment h) \<le> fc_head_seq ch + 1
         \<and> overlap_conflict db (hd_chain_id h) (fc_head_seq ch) es = None
         \<and> (sg_from_seq (hd_segment h) = fc_head_seq ch + 1 \<longrightarrow> sg_prev_hash_at_from (hd_segment h) = fc_head_hash ch))"
proof (cases "get_foreign_chain db (hd_chain_id h)")
  case None
  then show ?thesis using continuity_None [OF None, of es now] assms by auto
next
  case (Some ch)
  then show ?thesis using continuity_Some [OF Some, of es now] assms by simp
qed

text \<open>The mark of a fork on the chain.\<close>

definition marked_forked :: "foreign_db \<Rightarrow> rstr \<Rightarrow> bool" where
  "marked_forked db c \<longleftrightarrow> (case get_foreign_chain db c of None \<Rightarrow> False | Some ch \<Rightarrow> fc_forked ch)"

lemma continuity_Inl:
  assumes "continuity h es now db = (Inl e, db')"
  shows "db' = db \<and> (\<forall>d. e \<noteq> Forked d)
    \<or> (\<exists>d. db' = snd (mark_foreign_forked (hd_chain_id h) d db)) \<and> marked_forked db' (hd_chain_id h)"
proof (cases "get_foreign_chain db (hd_chain_id h)")
  case None
  then show ?thesis using continuity_None [OF None, of es now] assms by auto
next
  case (Some ch)
  then have "marked_forked (snd (mark_foreign_forked (hd_chain_id h) d db)) (hd_chain_id h)" for d
    by (simp add: marked_forked_def mark_foreign_forked_def get_update_chain)
  then show ?thesis using continuity_Some [OF Some, of es now] assms by auto
qed

text \<open>The new events of a segment that passed the continuity check continue the held ones.\<close>

definition continues :: "sha_fn \<Rightarrow> ledger_event_row list \<Rightarrow> ledger_event_row list \<Rightarrow> bool" where
  "continues sha old new \<longleftrightarrow>
     map ev_seq new = [int (length old) + 1..int (length old) + int (length new)]
     \<and> linked sha (if old = [] then prev_hash (hd new) else entry_hash (last old)) new"

lemma segment_continues:
  assumes ok: "chain_ok sha db c" and seg: "segment_ok sha (hd_segment h) es" and c: "c = hd_chain_id h"
    and cont: "continuity h es now db = (Inr (first, start), db')"
  defines "new \<equiv> filter (\<lambda>e. start \<le> ev_seq e) es"
  shows "continues sha (held db c) new
     \<and> (new \<noteq> [] \<longrightarrow> last new = last es \<and> int (length (held db c)) < ev_seq (last es))
     \<and> (new = [] \<longrightarrow> held db c \<noteq> [] \<and> ev_seq (last es) \<le> int (length (held db c))
          \<and> (ev_seq (last es) = int (length (held db c)) \<longrightarrow> entry_hash (last es) = entry_hash (last (held db c))))"
proof -
  let ?from = "sg_from_seq (hd_segment h)" and ?to = "sg_to_seq (hd_segment h)"
    and ?p = "sg_prev_hash_at_from (hd_segment h)"
  have es: "es \<noteq> []" "map ev_seq es = [?from..?to]" "linked sha ?p es"
    using seg by (simp_all add: segment_ok_def)
  have to: "ev_seq (last es) = ?to" "?from \<le> ?to"
  proof -
    have "last (map ev_seq es) = ?to \<and> int (length (map ev_seq es)) = ?to - ?from + 1"
      using upto_ends [OF es(2)] es(1) by simp
    moreover have "1 \<le> int (length (map ev_seq es))" using es(1) by (cases es) simp_all
    ultimately show "ev_seq (last es) = ?to" "?from \<le> ?to" using es(1) by (simp_all add: last_map)
  qed
  note ct = continuity_Inr [OF cont, folded c]
  show ?thesis
  proof (cases "get_foreign_chain db c")
    case None
    then have "held db c = []" "start = 1" "?from = 1" using ct ok by (simp_all add: chain_ok_def)
    moreover from this have "\<forall>e\<in>set es. 1 \<le> ev_seq e"
      using es(2) by (metis atLeastAtMost_iff image_eqI list.set_map set_upto)
    then have "new = es" using \<open>start = 1\<close> by (simp add: new_def filter_id_conv)
    moreover have "int (length es) = ?to"
      using arg_cong [OF es(2), of length] \<open>?from = 1\<close> to(2) by simp
    moreover have "prev_hash (hd es) = ?p" using es(1,3) by (cases es) auto
    ultimately show ?thesis using es to by (simp add: continues_def)
  next
    case (Some ch)
    let ?H = "fc_head_seq ch" and ?old = "filter (\<lambda>e. ev_seq e \<le> fc_head_seq ch) es"
    have k: "start = ?H + 1" "?from \<le> ?H + 1" "overlap_conflict db c ?H es = None"
      "?from = ?H + 1 \<Longrightarrow> ?p = fc_head_hash ch" using ct Some by simp_all
    have hd: "held db c \<noteq> []" "map ev_seq (held db c) = [1..?H]" "entry_hash (last (held db c)) = fc_head_hash ch"
      using ok Some by (simp_all add: chain_ok_def)
    have H: "foreign_event_hash db c ?H = Some (fc_head_hash ch)" "1 \<le> ?H"
      using held_head_hash [OF ok Some] by simp_all
    have len: "int (length (held db c)) = ?H" using arg_cong [OF hd(2), of length] H(2) by simp
    have split: "es = ?old @ new"
      using sorted_split [of ev_seq es ?H] es(2) by (simp add: new_def k(1))
    have old: "map ev_seq ?old = [?from..min ?to ?H]"
      using map_filter_key [of ev_seq "\<lambda>x. x \<le> ?H" es] by (simp add: es(2) filter_upto_le)
    have new: "map ev_seq new = [?H + 1..?to]"
      using map_filter_key [of ev_seq "\<lambda>x. start \<le> x" es] k(2) by (simp add: es(2) filter_upto_ge new_def k(1) max_def)
    have same: "entry_hash e = fc_head_hash ch" if "e \<in> set ?old" "ev_seq e = ?H" for e
    proof -
      have "\<not> (case foreign_event_hash db c (ev_seq e) of None \<Rightarrow> False | Some ours \<Rightarrow> ours \<noteq> entry_hash e)"
        using k(3) that(1) unfolding overlap_conflict_def find_None_iff by blast
      then show ?thesis using that(2) H(1) by simp
    qed
    have lnk: "linked sha ?p ?old" "linked sha (chain_head ?p ?old) new"
      using es(3) split by (metis linked_append)+
    have meets: "chain_head ?p ?old = fc_head_hash ch" if "?H < ?to"
    proof (cases "?old = []")
      case True
      then have "[?from..min ?to ?H] = []" using old by simp
      then have "?from = ?H + 1" using k(2) that by simp
      then show ?thesis using k(4) True by simp
    next
      case False
      have "last (map ev_seq ?old) = min ?to ?H" using upto_ends [OF old] False by simp
      then have "ev_seq (last ?old) = ?H" using that False by (simp add: last_map)
      then show ?thesis using same [of "last ?old"] False last_in_set [OF False] by (simp add: chain_head_def)
    qed
    have upto: "ev_seq (last es) = ?to" by (rule to(1))
    show ?thesis
    proof (cases "new = []")
      case True
      then have "?to \<le> ?H" using new by simp
      moreover have "entry_hash (last es) = fc_head_hash ch" if "?to = ?H"
        using same [of "last es"] es(1) that upto by simp
      ultimately show ?thesis using True hd len upto by (simp add: continues_def)
    next
      case False
      then have lt: "?H < ?to" using new by (cases "?H < ?to") simp_all
      have "length new = nat (?to - ?H)" using arg_cong [OF new, of length] by simp
      then have "int (length new) = ?to - ?H" using lt by simp
      moreover have "last new = last es" using split False by (metis last_appendR)
      ultimately show ?thesis using False hd len upto new lt lnk(2) meets [OF lt] by (simp add: continues_def)
    qed
  qed
qed

lemma held_append: "db_events db' = db_events db @ map (Pair c) es \<Longrightarrow> held db' k = (if k = c then held db c @ es else held db k)"
  by (auto simp: held_def filter_empty_conv o_def)

lemma get_upsert_chain:
  "get_foreign_chain (upsert_chain ch db) k =
     (if k = fc_chain_id ch
      then (case get_foreign_chain db k of
              None \<Rightarrow> Some ch
            | Some old \<Rightarrow> Some (old\<lparr>fc_human_id := fc_human_id ch,
                fc_device_name := or_else (fc_device_name ch) (fc_device_name old),
                fc_display_name := or_else (fc_display_name ch) (fc_display_name old),
                fc_head_seq := max (fc_head_seq old) (fc_head_seq ch),
                fc_head_hash := (if fc_head_seq ch \<ge> fc_head_seq old then fc_head_hash ch else fc_head_hash old),
                fc_last_import_at := fc_last_import_at ch\<rparr>))
      else get_foreign_chain db k)"
proof (cases "get_foreign_chain db (fc_chain_id ch)")
  case None
  have "find (\<lambda>r. fc_chain_id r = k) (xs @ [ch])
      = (case find (\<lambda>r. fc_chain_id r = k) xs of None \<Rightarrow> if k = fc_chain_id ch then Some ch else None | Some r \<Rightarrow> Some r)" for xs
    by (induction xs) auto
  then have "get_foreign_chain (upsert_chain ch db) k
      = (case get_foreign_chain db k of None \<Rightarrow> if k = fc_chain_id ch then Some ch else None | Some r \<Rightarrow> Some r)"
    using None by (simp add: upsert_chain_def get_foreign_chain_def)
  then show ?thesis using None by (auto split: option.split)
next
  case (Some old)
  then show ?thesis by (simp add: upsert_chain_def get_update_chain)
qed

lemma upsert_chain_distinct:
  assumes "distinct (map fc_chain_id (db_chains db))"
  shows "distinct (map fc_chain_id (db_chains (upsert_chain ch db)))"
proof (cases "get_foreign_chain db (fc_chain_id ch) = None")
  case True
  then have "fc_chain_id ch \<notin> set (map fc_chain_id (db_chains db))"
    by (auto simp: get_foreign_chain_def find_None_iff)
  then show ?thesis using assms True by (simp add: upsert_chain_def)
next
  case False
  then have "upsert_chain ch db = update_chain (fc_chain_id ch) (\<lambda>old.
        old\<lparr>fc_human_id := fc_human_id ch,
            fc_device_name := or_else (fc_device_name ch) (fc_device_name old),
            fc_display_name := or_else (fc_display_name ch) (fc_display_name old),
            fc_head_seq := max (fc_head_seq old) (fc_head_seq ch),
            fc_head_hash := (if fc_head_seq ch \<ge> fc_head_seq old then fc_head_hash ch else fc_head_hash old),
            fc_last_import_at := fc_last_import_at ch\<rparr>) db" unfolding upsert_chain_def by (simp only: if_False)
  then show ?thesis using assms by (simp add: update_chain_ids)
qed

text \<open>The transaction of an import whose continuity was checked keeps the chains and adds the new events.\<close>

lemma import_chains_ok:
  assumes ok: "chains_ok sha db" and seg: "segment_ok sha (hd_segment h) es"
    and cont: "continuity h es now db = (Inr (first, start), db1)"
    and ch: "fc_chain_id ch = hd_chain_id h" "fc_head_seq ch = ev_seq (last es)" "fc_head_hash ch = entry_hash (last es)"
    and imp: "import_foreign_segment disk ch (filter (\<lambda>e. start \<le> ev_seq e) es) ps ns cs rs db reg = (Inr out, db2, reg2)"
  shows "chains_ok sha db2 \<and> continues sha (held db (hd_chain_id h)) (filter (\<lambda>e. start \<le> ev_seq e) es)
     \<and> (\<forall>k. held db2 k = (if k = hd_chain_id h then held db k @ filter (\<lambda>e. start \<le> ev_seq e) es else held db k))"
proof -
  let ?c = "hd_chain_id h" and ?new = "filter (\<lambda>e. start \<le> ev_seq e) es"
  have okc: "chain_ok sha db ?c" and dist: "distinct (map fc_chain_id (db_chains db))" and oks: "\<And>k. chain_ok sha db k"
    using ok by (simp_all add: chains_ok_def)
  note new = segment_continues [OF okc seg refl cont]
  have cont_new: "continues sha (held db ?c) ?new" using new by simp
  have nums: "map ev_seq ?new = [int (length (held db ?c)) + 1..int (length (held db ?c)) + int (length ?new)]"
    using cont_new by (simp add: continues_def)
  have heldn: "map ev_seq (held db ?c) = [1..int (length (held db ?c))]"
  proof (cases "get_foreign_chain db ?c")
    case None
    then show ?thesis using okc by (simp add: chain_ok_def)
  next
    case (Some old)
    then have m: "map ev_seq (held db ?c) = [1..fc_head_seq old]" using okc by (simp add: chain_ok_def)
    have "int (length (held db ?c)) = fc_head_seq old"
      using arg_cong [OF m, of length] held_head_hash [OF okc Some] by simp
    then show ?thesis using m by simp
  qed
  have "distinct (map ev_seq ?new)" unfolding nums by simp
  moreover have "set (map ev_seq ?new) \<inter> set (map ev_seq (held db ?c)) = {}" unfolding nums heldn by auto
  ultimately have db2: "db_events db2 = db_events db @ map (Pair ?c) ?new" "db_chains db2 = db_chains (upsert_chain ch db)"
    using import_segment_events [of ?new db ch disk ps ns cs rs reg "Inr out" db2 reg2] imp ch(1) by simp_all
  note h2 = held_append [OF db2(1)]
  have g2: "get_foreign_chain db2 k = get_foreign_chain (upsert_chain ch db) k" for k
    by (simp add: get_foreign_chain_def db2(2))
  have "chain_ok sha db2 k" for k
  proof (cases "k = ?c")
    case False
    then show ?thesis using chain_ok_cong [of db2 k db] oks by (simp add: h2 g2 get_upsert_chain ch(1))
  next
    case True
    have hk: "held db2 ?c = held db ?c @ ?new" by (simp add: h2)
    have ln: "ev_seq (last es) = int (length (held db ?c)) + int (length ?new)" if "?new \<noteq> []"
    proof -
      have "last (map ev_seq ?new) = int (length (held db ?c)) + int (length ?new)"
        using upto_ends [OF nums] that by simp
      then show ?thesis using that new by (simp add: last_map)
    qed
    show ?thesis
    proof (cases "get_foreign_chain db ?c")
      case None
      then have e: "held db ?c = []" using okc by (simp add: chain_ok_def)
      then have ne: "?new \<noteq> []" using new by blast
      then show ?thesis
        using None e ln [OF ne] nums new cont_new hk
        by (simp add: True chain_ok_def g2 get_upsert_chain ch continues_def)
    next
      case (Some old)
      then have o: "held db ?c \<noteq> []" "linked sha (prev_hash (hd (held db ?c))) (held db ?c)"
        "entry_hash (last (held db ?c)) = fc_head_hash old" "map ev_seq (held db ?c) = [1..fc_head_seq old]"
        using okc by (simp_all add: chain_ok_def)
      have len: "int (length (held db ?c)) = fc_head_seq old"
        using arg_cong [OF o(4), of length] held_head_hash [OF okc Some] by simp
      show ?thesis
      proof (cases "?new = []")
        case nil: True
        then have "ev_seq (last es) \<le> fc_head_seq old"
          "ev_seq (last es) = fc_head_seq old \<Longrightarrow> entry_hash (last es) = fc_head_hash old"
          using new len o(3) by simp_all
        then show ?thesis
          using o hk by (simp add: nil True chain_ok_def g2 get_upsert_chain ch Some max_def)
      next
        case False
        have l: "linked sha (prev_hash (hd (held db ?c))) (held db ?c @ ?new)"
          using o cont_new by (simp add: continues_def chain_head_def)
        have m: "map ev_seq (held db ?c @ ?new) = [1..ev_seq (last es)]"
          using upto_append [of "int (length (held db ?c))" "int (length (held db ?c)) + int (length ?new)"]
          by (simp add: heldn nums ln [OF False])
        have "last ?new = last es" "fc_head_seq old < ev_seq (last es)" using False new len by simp_all
        then show ?thesis
          using o(1) hk l m False by (simp add: True chain_ok_def g2 get_upsert_chain ch Some max_def)
      qed
    qed
  qed
  then show ?thesis using dist cont_new h2 by (simp add: chains_ok_def db2(2) upsert_chain_distinct)
qed

section \<open>Any sequence of imports and store operations\<close>

lemma trust_set_same: "same_chains db (snd (trust_set e db))"
  by (simp add: trust_set_def)

lemma check_trust_same:
  assumes "check_trust sha opts human now db = Returns (Inr (tr, db'))"
  shows "same_chains db db'"
proof (cases "trust_get db (pc_principal_id human)")
  case None
  then show ?thesis
    using assms by (auto simp: check_trust_def Let_def trust_set_def split: if_splits)
next
  case (Some t)
  then show ?thesis
    using assms by (auto simp: check_trust_def Let_def split: if_splits run.splits)
qed

lemma import_vector_same:
  "import_vector opts c seqs v (k, d, db) = Returns (k', d', db') \<Longrightarrow> same_chains db db'"
  by (auto simp: import_vector_def store_foreign_embedding_raw_def Let_def
      split: option.splits if_splits run.splits)

lemma import_vectors_same:
  "import_vectors opts c seqs vs (k, d, db) = (ok, k', d', db') \<Longrightarrow> same_chains db db'"
proof (induction vs arbitrary: k d db)
  case (Cons v vs)
  show ?case
  proof (cases "import_vector opts c seqs v (k, d, db)")
    case Panics
    then show ?thesis using Cons.prems by simp
  next
    case (Returns st)
    obtain k1 d1 db1 where st: "st = (k1, d1, db1)" by (cases st) auto
    then show ?thesis
      using Cons.prems Cons.IH [of k1 d1 db1] import_vector_same [of opts c seqs v k d db k1 d1 db1] Returns by simp
  qed
qed simp

lemma import_acks_same: "same_chains db (fold (import_ack kinds c) acks db)"
proof (induction acks arbitrary: db)
  case (Cons a acks)
  have "same_chains db (import_ack kinds c a db)"
    by (cases a) (simp add: import_ack_def record_org_ack_def set_foreign_ack_def)
  then show ?case using Cons by simp
qed simp

lemma import_tree_same: "same_chains db (snd (import_foreign_tree c ns ls db))"
  by (simp add: import_foreign_tree_def)

lemma verify_segment_ok:
  assumes "verify ed sha header_line payload_json env = Returns (Inr v)"
  shows "segment_ok sha (hd_segment (en_header env)) (sort_key ev_seq (pay_events (en_payload env)))"
proof -
  have "\<exists>name. verify_payload sha name env = Inr v"
    using assms by (auto simp: verify_def Let_def split: if_splits option.splits run.splits bool.splits)
  then show ?thesis by (auto simp: verify_payload_Inr Let_def)
qed

abbreviation env_chain :: "envelope \<Rightarrow> rstr" where
  "env_chain env \<equiv> hd_chain_id (en_header env)"

abbreviation env_events :: "envelope \<Rightarrow> ledger_event_row list" where
  "env_events env \<equiv> sort_key ev_seq (pay_events (en_payload env))"

text \<open>The events of an envelope that are past a log's end.\<close>

definition fresh_events :: "ledger_event_row list \<Rightarrow> envelope \<Rightarrow> ledger_event_row list" where
  "fresh_events log env = filter (\<lambda>e. int (length log) < ev_seq e) (env_events env)"

lemma continuity_start:
  assumes ok: "chain_ok sha db (hd_chain_id h)" and cont: "continuity h es now db = (Inr (first, start), db')"
  shows "start = int (length (held db (hd_chain_id h))) + 1"
proof (cases "get_foreign_chain db (hd_chain_id h)")
  case None
  then show ?thesis using continuity_Inr [OF cont] ok by (simp add: chain_ok_def)
next
  case (Some ch)
  then have "map ev_seq (held db (hd_chain_id h)) = [1..fc_head_seq ch]" using ok by (simp add: chain_ok_def)
  then have "length (held db (hd_chain_id h)) = nat (fc_head_seq ch)" by (metis length_map length_upto diff_add_cancel)
  then show ?thesis using continuity_Inr [OF cont] held_head_hash [OF ok Some] Some by simp
qed

definition outcome_of :: "ledger_event_row list \<Rightarrow> import_outcome" where
  "outcome_of new = (if new = [] then NoOp else Appended (length new))"

lemma import_checked_effect:
  assumes ok: "chains_ok (ie_sha ie) db" and seg: "segment_ok (ie_sha ie) (hd_segment (en_header env)) (env_events env)"
    and cont: "continuity (en_header env) (env_events env) now db = (Inr (first, start), db1)"
    and imp: "import_checked ie opts projects v tr (first, start) env (db, reg) = (res, st')"
  shows "chains_ok (ie_sha ie) (fst st') \<and> (\<exists>new. continues (ie_sha ie) (held db (env_chain env)) new
     \<and> (\<forall>k. held (fst st') k = (if k = env_chain env then held db k @ new else held db k))
     \<and> (new = [] \<or> new = fresh_events (held db (env_chain env)) env)
     \<and> (case res of Panics \<Rightarrow> True | Returns (Inl e) \<Rightarrow> new = []
        | Returns (Inr rep) \<Rightarrow> new = fresh_events (held db (env_chain env)) env \<and> rep_outcome rep = outcome_of new))"
proof -
  let ?c = "env_chain env" and ?p = "en_payload env" and ?human = "pair_human (hd_principal (en_header env))"
  define es where "es = env_events env"
  define new where "new = filter (\<lambda>e. start \<le> ev_seq e) es"
  define ch where "ch = \<lparr>fc_chain_id = ?c, fc_human_id = pc_principal_id ?human,
    fc_device_name = pc_display_name (pair_device (hd_principal (en_header env))),
    fc_display_name = pc_display_name ?human, fc_head_seq = ev_seq (last es), fc_head_hash = entry_hash (last es),
    fc_forked = False, fc_fork_detail = None, fc_first_import_at = first, fc_last_import_at = ie_now ie\<rparr>"
  define seqs where "seqs = prompt_seq_by_id es"
  obtain r db2 reg2 where txn: "import_foreign_segment (ie_disk ie) ch new
      (List.map_filter (prompt_input projects seqs) (pay_prompts ?p)) (note_inputs es ?p)
      (pay_principals ?p) (redaction_inputs es ?p) db reg = (r, db2, reg2)"
    by (metis prod.collapse)
  have ne: "es \<noteq> []" using seg by (simp add: es_def segment_ok_def)
  have fresh: "fresh_events (held db ?c) env = new"
    using continuity_start [of "ie_sha ie", OF _ cont] ok
    by (auto simp: fresh_events_def new_def es_def chains_ok_def intro!: filter_cong)
  note body = imp [unfolded import_checked_def Let_def prod.case fst_conv snd_conv, folded es_def, folded new_def,
      folded seqs_def, folded ch_def, unfolded txn]
  show ?thesis
  proof (cases r)
    case (Inl x)
    then have "db2 = db" using txn by (auto simp: import_foreign_segment_def split: prod.splits option.splits)
    moreover have "res = Returns (Inl (EStore x))" "st' = (db2, reg2)" using body ne Inl by simp_all
    ultimately show ?thesis using ok by (intro conjI exI [of _ "[]"]) (simp_all add: continues_def)
  next
    case (Inr rows)
    have added: "chains_ok (ie_sha ie) db2" "continues (ie_sha ie) (held db ?c) new"
      "held db2 k = (if k = ?c then held db k @ new else held db k)" for k
      using import_chains_ok [OF ok seg cont, of ch "ie_disk ie"] txn [unfolded Inr new_def]
      by (simp_all add: new_def es_def ch_def)
    obtain good kept disc db3 where vec: "import_vectors opts ?c seqs (pay_vectors ?p) (0, 0, db2) = (good, kept, disc, db3)"
      by (metis prod.collapse)
    have s3: "same_chains db2 db3" by (rule import_vectors_same [OF vec])
    show ?thesis
    proof (cases good)
      case False
      then have "res = Panics" "fst st' = db3" using body ne Inr vec by auto
      then show ?thesis
        using added s3 chains_ok_same [OF s3, of "ie_sha ie"] held_same [of db3 db2] by (auto simp: fresh intro!: exI [of _ new])
    next
      case True
      let ?db4 = "fold (import_ack (ie_kinds ie) ?c) (pay_acks ?p) db3"
      have s4: "same_chains db2 ?db4" using s3 import_acks_same [of "ie_kinds ie" ?c "pay_acks ?p" db3] by simp
      obtain tree db5 where tree: "(if new \<noteq> [] \<and> pay_tree ?p \<noteq> []
          then import_foreign_tree ?c (map tree_node (pay_tree ?p)) (map tree_link (pay_tree_links ?p)) ?db4
          else ((0, 0), ?db4)) = (tree, db5)" by fastforce
      have "same_chains ?db4 db5"
        using tree import_tree_same [where db = ?db4 and c = ?c] by (cases "new \<noteq> [] \<and> pay_tree ?p \<noteq> []") (metis snd_conv)+
      moreover have st': "fst st' = db5" and "\<exists>rep. res = Returns (Inr rep) \<and> rep_outcome rep = outcome_of new"
        using body ne by (auto simp: Inr vec True tree outcome_of_def)
      ultimately have s5: "same_chains db2 (fst st')" using s4 by simp
      have "\<exists>rep. res = Returns (Inr rep) \<and> rep_outcome rep = outcome_of new" by fact
      then show ?thesis
        using added chains_ok_same [OF s5, of "ie_sha ie"] held_same [of "fst st'" db2] s5
        by (auto simp: fresh intro!: exI [of _ new])
    qed
  qed
qed

lemma if_eq_cases: "(if P then a else b) = x \<Longrightarrow> a = x \<or> b = x"
  by (simp split: if_splits)

text \<open>What an import that wrote no event answers: an error, which marked the chain if it is a fork, or its own chain.\<close>

definition quiet_result :: "import_env \<Rightarrow> envelope \<Rightarrow> (import_error + import_report) run \<Rightarrow> foreign_db \<Rightarrow> bool" where
  "quiet_result ie env res db \<longleftrightarrow>
     (\<forall>rep. res = Returns (Inr rep) \<longrightarrow> rep_outcome rep = OwnChain \<and> ie_kinds ie (env_chain env) = Some Device)
     \<and> (\<forall>d. res = Returns (Inl (Forked d)) \<longrightarrow> marked_forked db (env_chain env))"

lemma payload_error_kind: "payload_error sha env = Some e \<Longrightarrow> \<exists>v. e = EVerify v"
  by (auto simp: payload_error_def Let_def split: option.splits)

lemma check_trust_kind: "check_trust sha opts human now db = Returns (Inl e) \<Longrightarrow> e \<noteq> Forked d"
  by (auto simp: check_trust_def Let_def split: option.splits if_splits run.splits)

text \<open>
  One import, seen from the chains: either it leaves every held event as it was, or it ran the
  transaction on a segment that was verified and that continues what is held.
\<close>

lemma import_envelope_cases:
  assumes ok: "chains_ok (ie_sha ie) (fst st)" and imp: "import_envelope ie opts env st = (res, st')"
  shows "(chains_ok (ie_sha ie) (fst st') \<and> (\<forall>k. held (fst st') k = held (fst st) k)
       \<and> quiet_result ie env res (fst st'))
     \<or> (\<exists>projects v tr first start db1. same_chains (fst st) db1
       \<and> segment_ok (ie_sha ie) (hd_segment (en_header env)) (env_events env)
       \<and> continuity (en_header env) (env_events env) (ie_now ie) db1 = (Inr (first, start), db1)
       \<and> import_checked ie opts projects v tr (first, start) env (db1, snd st) = (res, st'))"
proof (rule disjCI)
  let ?c = "env_chain env" and ?human = "pair_human (hd_principal (en_header env))"
  let ?quiet = "chains_ok (ie_sha ie) (fst st') \<and> (\<forall>k. held (fst st') k = held (fst st) k)
       \<and> quiet_result ie env res (fst st')"
  assume no: "\<not> (\<exists>projects v tr first start db1. same_chains (fst st) db1
       \<and> segment_ok (ie_sha ie) (hd_segment (en_header env)) (env_events env)
       \<and> continuity (en_header env) (env_events env) (ie_now ie) db1 = (Inr (first, start), db1)
       \<and> import_checked ie opts projects v tr (first, start) env (db1, snd st) = (res, st'))"
  have same: ?quiet if "same_chains (fst st) (fst st')" "\<And>rep. res \<noteq> Returns (Inr rep)"
    "\<And>d. res \<noteq> Returns (Inl (Forked d))"
    using that ok chains_ok_same [of "fst st" "fst st'" "ie_sha ie"] held_same [of "fst st'" "fst st"]
    by (auto simp: quiet_result_def)
  note body = imp [unfolded import_envelope_def Let_def]
  show ?quiet
  proof (cases "\<exists>v. verify (ie_ed ie) (ie_sha ie) (ie_header_line ie) (ie_payload_json ie) env = Returns (Inr v)")
    case False
    then show ?thesis
      using body by (intro same) (auto split: run.splits sum.splits)
  next
    case True
    then obtain v where v: "verify (ie_ed ie) (ie_sha ie) (ie_header_line ie) (ie_payload_json ie) env = Returns (Inr v)" ..
    show ?thesis
    proof (cases "payload_error (ie_sha ie) env = None \<and> ie_kinds ie ?c \<noteq> Some Device")
      case False
      then consider (bad) e where "payload_error (ie_sha ie) env = Some e"
        | (own) "payload_error (ie_sha ie) env = None" "ie_kinds ie ?c = Some Device" by auto
      then show ?thesis
      proof cases
        case bad
        then show ?thesis using body v payload_error_kind [OF bad] by (intro same) auto
      next
        case own
        then have "st' = st" "\<And>rep. res = Returns (Inr rep) \<Longrightarrow> rep_outcome rep = OwnChain"
          "\<And>d. res \<noteq> Returns (Inl (Forked d))"
          using body v by (auto simp: own_report_def split: run.splits sum.splits)
        then show ?thesis using own ok by (auto simp: quiet_result_def)
      qed
    next
      case go: True
      note body2 = body [unfolded v run.case sum.case conjunct1 [OF go] option.case if_not_P [OF conjunct2 [OF go]]]
      show ?thesis
      proof (cases "check_trust (ie_sha ie) opts ?human (ie_now ie) (fst st)")
        case Panics
        then show ?thesis using body2 by (intro same) auto
      next
        case (Returns r)
        show ?thesis
        proof (cases r)
          case (Inl e)
          then show ?thesis
            using body2 Returns check_trust_kind [OF Returns [unfolded Inl]] by (intro same) auto
        next
          case (Inr p)
          obtain tr db where p: "p = (tr, db)" by (cases p)
          have sd: "same_chains (fst st) db"
            using check_trust_same [of "ie_sha ie" opts ?human "ie_now ie" "fst st" tr db] Returns Inr p by simp
          then have okd: "chains_ok (ie_sha ie) db" using ok chains_ok_same [of "fst st" db "ie_sha ie"] by simp
          obtain projects where body3:
            "(Returns (Inl (NotSubscribed (pc_principal_id ?human))), (db, snd st)) = (res, st')
             \<or> (case continuity (en_header env) (env_events env) (ie_now ie) db of
                   (Inl e, db') \<Rightarrow> (Returns (Inl e), (db', snd st))
                 | (Inr fs, db') \<Rightarrow> import_checked ie opts projects v tr fs env (db', snd st)) = (res, st')"
            using if_eq_cases [OF body2 [unfolded Returns run.case Inr sum.case p prod.case]] by (rule that)
          obtain cr db' where cont: "continuity (en_header env) (env_events env) (ie_now ie) db = (cr, db')" by fastforce
          show ?thesis
          proof (cases cr)
            case (Inl e)
            have forked: "chains_ok (ie_sha ie) db'" "\<And>k. held db' k = held db k"
              "\<And>d. e = Forked d \<Longrightarrow> marked_forked db' ?c"
              using continuity_Inl [OF cont [unfolded Inl]] okd mark_fork_ok [OF okd]
              by (auto simp: mark_foreign_forked_def update_chain_def held_def)
            have "res = Returns (Inl (NotSubscribed (pc_principal_id ?human))) \<and> fst st' = db
                \<or> res = Returns (Inl e) \<and> fst st' = db'"
              using body3 cont Inl by auto
            then show ?thesis
              using forked sd held_same [of db "fst st"] okd by (auto simp: quiet_result_def)
          next
            case (Inr fs)
            obtain first start where fs: "fs = (first, start)" by (cases fs)
            have "db' = db" using continuity_Inr [OF cont [unfolded Inr fs]] by simp
            then have "(Returns (Inl (NotSubscribed (pc_principal_id ?human))), (db, snd st)) = (res, st')"
              using body3 cont no verify_segment_ok [OF v] sd unfolding Inr fs by auto
            then show ?thesis using sd by (intro same) auto
          qed
        qed
      qed
    qed
  qed
qed

end
