(* ===== verification/HeldLog.thy ===== *)
theory HeldLog
  imports Sharing
begin

text \<open>
  What the copies of peers' chains promise, over any sequence of imports
  (\<^verbatim>\<open>sharing.rs\<close>) and of the other store operations (\<^verbatim>\<open>foreign.rs\<close>): each stays a linked chain
  from number 1 to the recorded head, and seen from outside it is a log to which an import appends the
  envelope's events past its end and which is only ever dropped whole.  Last, what an import does with
  an envelope that contradicts what is held.
\<close>

section \<open>Steps\<close>

fun is_import :: "foreign_op \<Rightarrow> bool" where
  "is_import (OpImport ch es ps ns cs rs) = True"
| "is_import x = False"

text \<open>A segment is only ever written by an import, which verified it.\<close>

inductive share_step :: "sha_fn \<Rightarrow> foreign_store \<Rightarrow> foreign_store \<Rightarrow> bool" for sha where
  share_import: "ie_sha ie = sha \<Longrightarrow> import_envelope ie opts env st = (res, st') \<Longrightarrow> share_step sha st st'"
| share_store: "\<not> is_import x \<Longrightarrow> share_step sha st (apply_op disk x st)"

inductive_cases share_stepE: "share_step sha st st'"

type_synonym logs = "rstr \<Rightarrow> ledger_event_row list"


definition log_op :: "foreign_op \<Rightarrow> logs \<Rightarrow> logs" where
  "log_op x L = (case x of OpForget c \<Rightarrow> L(c := []) | _ \<Rightarrow> L)"

section \<open>The simulation\<close>

lemma outcome_not_own [simp]: "outcome_of es \<noteq> OwnChain" "OwnChain \<noteq> outcome_of es"
  by (simp_all add: outcome_of_def)

lemma import_step:
  assumes ok: "chains_ok (ie_sha ie) (fst st)" and imp: "import_envelope ie opts env st = (res, st')"
  shows "chains_ok (ie_sha ie) (fst st') \<and> (\<exists>new. continues (ie_sha ie) (held (fst st) (env_chain env)) new
    \<and> held (fst st') = (held (fst st))(env_chain env := held (fst st) (env_chain env) @ new)
    \<and> (new = [] \<or> new = fresh_events (held (fst st) (env_chain env)) env)
    \<and> (case res of
         Panics \<Rightarrow> True
       | Returns (Inl e) \<Rightarrow> new = []
       | Returns (Inr rep) \<Rightarrow> new = fresh_events (held (fst st) (env_chain env)) env \<and> rep_outcome rep = outcome_of new
           \<or> new = [] \<and> rep_outcome rep = OwnChain \<and> ie_kinds ie (env_chain env) = Some Device))"
proof -
  consider (quiet) "chains_ok (ie_sha ie) (fst st')" "\<forall>k. held (fst st') k = held (fst st) k"
      "quiet_result ie env res (fst st')"
    | (wrote) projects v tr first start db1 where "same_chains (fst st) db1"
      "segment_ok (ie_sha ie) (hd_segment (en_header env)) (env_events env)"
      "continuity (en_header env) (env_events env) (ie_now ie) db1 = (Inr (first, start), db1)"
      "import_checked ie opts projects v tr (first, start) env (db1, snd st) = (res, st')"
    using import_envelope_cases [OF ok imp] by blast
  then show ?thesis
  proof cases
    case quiet
    then have "held (fst st') = held (fst st)" by (intro ext) simp
    then show ?thesis
      using quiet by (auto simp: quiet_result_def continues_def split: run.splits sum.splits intro!: exI [of _ "[]"])
  next
    case wrote
    have "chains_ok (ie_sha ie) db1" using ok chains_ok_same [OF wrote(1), of "ie_sha ie"] by simp
    then obtain new where new: "chains_ok (ie_sha ie) (fst st')" "continues (ie_sha ie) (held db1 (env_chain env)) new"
      "\<forall>k. held (fst st') k = (if k = env_chain env then held db1 k @ new else held db1 k)"
      "new = [] \<or> new = fresh_events (held db1 (env_chain env)) env"
      "case res of Panics \<Rightarrow> True | Returns (Inl e) \<Rightarrow> new = []
        | Returns (Inr rep) \<Rightarrow> new = fresh_events (held db1 (env_chain env)) env \<and> rep_outcome rep = outcome_of new"
      using import_checked_effect [OF _ wrote(2-4)] by blast
    have h: "held db1 k = held (fst st) k" for k using wrote(1) held_same [of db1 "fst st"] by simp
    have "held (fst st') = (held (fst st))(env_chain env := held (fst st) (env_chain env) @ new)"
      using new(3) by (intro ext) (simp add: h)
    then show ?thesis
      using new(1,2,4,5) by (auto simp: h split: run.splits sum.splits intro!: exI [of _ new])
  qed
qed

lemma store_step:
  assumes "chains_ok sha db" and "\<not> is_import x" and "apply_op disk x (db, reg) = (db', reg')"
  shows "chains_ok sha db' \<and> held db' = log_op x (held db)"
proof -
  have same: ?thesis if "same_chains db db'" and "log_op x (held db) = held db"
  proof -
    have "held db' = held db" using held_same [of db' db] that(1) by (intro ext) simp
    then show ?thesis using assms(1) chains_ok_same [OF that(1), of sha] that(2) by simp
  qed
  show ?thesis
  proof (cases x)
    case (OpTombstone c s)
    have "same_chains db db'"
      using assms(3) OpTombstone keeps_tombstone [of disk c s]
      by (auto simp: tombstone_foreign_capture_def tombstone_locked_def bury_def Let_def
          split: sum.splits prod.splits if_splits)
    then show ?thesis by (rule same) (simp add: log_op_def OpTombstone)
  next
    case (OpForget c)
    then have "db' = snd (forget_foreign_chain c db)" using assms(3) by simp
    moreover have "held (snd (forget_foreign_chain c db)) = (held db)(c := [])"
      by (intro ext) (simp add: forget_chain_held)
    ultimately show ?thesis using forget_chain_ok [OF assms(1), of c] by (simp add: log_op_def OpForget)
  next
    case (OpMark c d)
    then have "db' = snd (mark_foreign_forked c d db)" using assms(3) by simp
    moreover have "held (snd (mark_foreign_forked c d db)) = held db"
      by (intro ext held_same) (simp add: mark_foreign_forked_def update_chain_def)
    ultimately show ?thesis using mark_fork_ok [OF assms(1)] by (simp add: log_op_def OpMark)
  next
    case (OpClear c)
    then have "db' = snd (clear_foreign_fork c db)" using assms(3) by simp
    moreover have "held (snd (clear_foreign_fork c db)) = held db"
      by (intro ext held_same) (simp add: clear_foreign_fork_def update_chain_def)
    ultimately show ?thesis using clear_fork_ok [OF assms(1)] by (simp add: log_op_def OpClear)
  qed (rule same; use assms(2,3) in \<open>auto simp: log_op_def trust_set_def trust_remove_def subscribe_def unsubscribe_def
      set_foreign_ack_def record_org_ack_def import_foreign_tree_def store_foreign_embedding_raw_def Let_def
      split: if_splits\<close>)+
qed

lemma share_step_ok:
  assumes "share_step sha st st'" and "chains_ok sha (fst st)"
  shows "chains_ok sha (fst st')"
proof -
  consider (imp) ie opts env res where "ie_sha ie = sha" "import_envelope ie opts env st = (res, st')"
    | (store) x disk where "\<not> is_import x" "st' = apply_op disk x st"
    using assms(1) by (elim share_stepE) blast+
  then show ?thesis
  proof cases
    case imp
    then show ?thesis using import_step [of ie st opts env res st'] assms(2) by blast
  next
    case store
    obtain db reg db' reg' where "st = (db, reg)" "st' = (db', reg')" by (cases st, cases st')
    then show ?thesis using store_step [of sha db x disk reg db' reg'] assms(2) store by simp
  qed
qed

lemma empty_ok: "chains_ok sha empty_foreign_db"
  by (simp add: chains_ok_def chain_ok_def empty_foreign_db_def get_foreign_chain_def held_def)

lemma share_steps_ok:
  "(share_step sha)\<^sup>*\<^sup>* (empty_foreign_db, reg) st \<Longrightarrow> chains_ok sha (fst st)"
  by (induction rule: rtranclp_induct) (auto simp: empty_ok intro: share_step_ok)

section \<open>A conflicting envelope\<close>




section \<open>A run of two imports\<close>

text \<open>
  A hash and a signature check for the examples: a text has the hash \<open>[8]\<close> if it holds an exclamation
  mark and \<open>[7]\<close> otherwise, and every signature holds.
  The peer sends one event, then two of which the first is the one we hold.
\<close>

definition flat_sha :: sha_fn where "flat_sha b = (if 33 \<in> set b then [8] else [7])"

definition peer_event :: "int \<Rightarrow> ledger_event_row" where
  "peer_event n = \<lparr>ev_seq = n, ev_ts = 0, ev_kind = lit ''principal'', ev_author = [], ev_prompt_id = None,
     ev_session_id = None, ev_version_number = None, ev_ref_kind = None, ev_ref_id = None, ev_payload_hash = [],
     prev_hash = [7], entry_hash = [7]\<rparr>"

definition peer_human :: principal_card where
  "peer_human = \<lparr>pc_principal_id = [7], pc_kind = Human, pc_pubkey = Some (replicate 64 48), pc_parent_id = None,
     pc_display_name = None\<rparr>"

definition peer_device :: principal_card where
  "peer_device = \<lparr>pc_principal_id = [7], pc_kind = Device, pc_pubkey = None, pc_parent_id = Some [7],
     pc_display_name = Some []\<rparr>"

definition peer_envelope :: "ledger_event_row list \<Rightarrow> envelope" where
  "peer_envelope es = \<lparr>
     en_header = \<lparr>hd_schema = ENVELOPE_SCHEMA, hd_chain_id = [7],
       hd_principal = \<lparr>pair_device = peer_device, pair_human = peer_human\<rparr>, hd_org_id = None,
       hd_segment = \<lparr>sg_from_seq = ev_seq (hd es), sg_to_seq = ev_seq (last es),
          sg_prev_hash_at_from = prev_hash (hd es), sg_head_hash = entry_hash (last es)\<rparr>,
       hd_policy = policy_default, hd_payload_sha256 = [7], hd_exported_at = 0\<rparr>,
     en_signature = replicate 128 48,
     en_payload = \<lparr>pay_events = es, pay_prompts = [], pay_notes = [], pay_principals = [], pay_aliases = [],
       pay_binds = [\<lparr>bd_human = peer_human, bd_device = peer_device, bd_chain_id = [7], bd_head_hash = [],
          bd_signature = replicate 128 48\<rparr>],
       pay_vectors = [], pay_redactions = [], pay_acks = [], pay_tree = [], pay_tree_links = []\<rparr>\<rparr>"

definition peer_env :: import_env where
  "peer_env = \<lparr>ie_ed = (\<lambda>k m s. True), ie_sha = flat_sha, ie_header_line = (\<lambda>h. []), ie_payload_json = (\<lambda>p. []),
     ie_kinds = (\<lambda>i. None), ie_ledger = [], ie_now = 5, ie_disk = (\<lambda>l. True)\<rparr>"

definition peer_import :: "ledger_event_row list \<Rightarrow> foreign_store \<Rightarrow> (import_error + import_report) run \<times> foreign_store" where
  "peer_import es st =
     import_envelope peer_env \<lparr>io_tofu = True, io_force = True, io_local_model = None\<rparr> (peer_envelope es) st"

definition peer_outcome :: "(import_error + import_report) run \<Rightarrow> import_outcome option" where
  "peer_outcome r = (case r of Returns (Inr rep) \<Rightarrow> Some (rep_outcome rep) | _ \<Rightarrow> None)"

definition peer_first :: foreign_store where
  "peer_first = snd (peer_import [peer_event 1] (empty_foreign_db, Some []))"

definition peer_second :: "(import_error + import_report) run \<times> foreign_store" where
  "peer_second = peer_import [peer_event 1, peer_event 2] peer_first"



section \<open>The properties\<close>

lemma peer_step: "share_step flat_sha st (snd (peer_import es st))"
proof -
  obtain res st' where r: "peer_import es st = (res, st')" by (cases "peer_import es st")
  have "ie_sha peer_env = flat_sha" by (simp add: peer_env_def)
  then show ?thesis using share_import [of peer_env flat_sha] r by (auto simp: peer_import_def)
qed

lemma peer_reach: "(share_step flat_sha)\<^sup>*\<^sup>* (empty_foreign_db, Some []) (snd peer_second)"
  using peer_step [of "(empty_foreign_db, Some [])" "[peer_event 1]"]
    peer_step [of peer_first "[peer_event 1, peer_event 2]"]
  by (simp add: peer_second_def peer_first_def)

text \<open>
  C33. A held copy of a peer's chain stays a chain.  Whatever envelopes are imported and whatever the
  other store operations do, in any order, every chain in the store has events numbered from 1 to its
  recorded head without a gap, each with the hash of its content and the link to the one before, and
  the recorded head hash is that of the last; no chain id has two rows and no event lacks its chain.
\<close>

theorem foreign_chains_stay_linked:
  "(share_step sha)\<^sup>*\<^sup>* (empty_foreign_db, reg) st \<Longrightarrow> chains_ok sha (fst st)"
  by (rule share_steps_ok)

theorem foreign_chains_stay_linked_witness:
  "chains_ok flat_sha (fst (snd peer_second)) \<and> length (db_events (fst (snd peer_second))) = 2
   \<and> peer_outcome (fst peer_second) = Some (Appended 1)"
proof -
  have "length (db_events (fst (snd peer_second))) = 2" "peer_outcome (fst peer_second) = Some (Appended 1)"
    by code_simp+
  then show ?thesis using foreign_chains_stay_linked [OF peer_reach] by simp
qed





end
