(* ===== verification/Supersession.thy ===== *)
theory Supersession
  imports Chain Types
begin

text \<open>
  \<^verbatim>\<open>polis-store/src/supersessions.rs\<close>: a newer decision replaces an older one.  Nothing is deleted: a
  supersession is a ledger event and a row of the \<^verbatim>\<open>supersessions\<close> index, whose key is the superseded
  event.  An operation that names an already superseded decision is redirected to the head of its chain.
\<close>

section \<open>State and operations\<close>

record supersession =
  su_old :: int
  su_new :: int
  su_event :: int
  su_created :: int

record decisions =
  dc_events :: "ledger_event_row list"
  dc_supers :: "supersession list"

datatype supersession_outcome = Applied int int int | Rejected rstr

text \<open>Only decisions may be connected; the message is the rejection.\<close>

definition not_a_decision :: "ledger_event_row list \<Rightarrow> int \<Rightarrow> rstr option" where
  "not_a_decision rows s =
     (case find (\<lambda>e. ev_seq e = s) rows of
        None \<Rightarrow> Some (lit ''no ledger event #'' @ show_int s)
      | Some e \<Rightarrow>
          if ev_kind e \<in> set DECISION_KINDS then None
          else Some (lit ''#'' @ show_int s @ lit '' is a '' @ ev_kind e @ lit '' event, not a decision''))"

definition superseded_by :: "supersession list \<Rightarrow> int \<Rightarrow> int option" where
  "superseded_by supers s = map_option su_new (find (\<lambda>r. su_old r = s) supers)"

text \<open>The walk to the head of the chain, with the guard after 64 hops.\<close>

function chain_walk :: "supersession list \<Rightarrow> nat \<Rightarrow> int \<Rightarrow> rstr + int" where
  "chain_walk supers hops s =
     (case superseded_by supers s of
        None \<Rightarrow> Inr s
      | Some n \<Rightarrow>
          if hops + 1 > 64 then Inl (lit ''supersession chain too deep'')
          else chain_walk supers (hops + 1) n)"
  by pat_completeness auto
termination by (relation "measure (\<lambda>(supers, hops, s). 65 - hops)") auto

declare chain_walk.simps [simp del]

definition supersede_append :: "sha_fn \<Rightarrow> int \<Rightarrow> int \<Rightarrow> rstr \<Rightarrow> rstr \<Rightarrow> int \<Rightarrow> ledger_append" where
  "supersede_append sha old new rationale actor now =
     \<lparr>la_kind = event_kind_as_str EkSupersede, la_author = actor, la_ts = now, la_prompt_id = None,
      la_session_id = None, la_version_number = None, la_ref_kind = Some (lit ''ledger_event''),
      la_ref_id = Some (show_int old),
      la_payload_hash = decision_payload_hash sha
        [(lit ''superseded_by'', show_int new), (lit ''rationale'', rationale)]\<rparr>"

text \<open>
  The result is \<open>None\<close> where SQLite fails; \<open>append_ok\<close> and \<open>insert_ok\<close> say whether the two writes succeed.
  The append commits by itself, so a failed insert leaves the event.
\<close>

definition apply_supersession ::
  "sha_fn \<Rightarrow> bool \<Rightarrow> bool \<Rightarrow> int \<Rightarrow> int \<Rightarrow> rstr \<Rightarrow> rstr \<Rightarrow> int \<Rightarrow> decisions
     \<Rightarrow> supersession_outcome option \<times> decisions" where
  "apply_supersession sha append_ok insert_ok old new rationale actor now db =
     (case not_a_decision (dc_events db) old of
        Some m \<Rightarrow> (Some (Rejected m), db)
      | None \<Rightarrow>
     case not_a_decision (dc_events db) new of
        Some m \<Rightarrow> (Some (Rejected m), db)
      | None \<Rightarrow>
     case chain_walk (dc_supers db) 0 old of
        Inl m \<Rightarrow> (Some (Rejected m), db)
      | Inr eff \<Rightarrow>
          if eff = new
          then (Some (Rejected (lit ''#'' @ show_int new @ lit '' is already the chain head'')), db)
          else if eff \<ge> new
          then (Some (Rejected (lit ''superseding decision #'' @ show_int new @ lit '' must come after #''
                  @ show_int eff)), db)
          else if \<not> append_ok then (None, db)
          else
            let (ev, rows) = append_in_txn sha (supersede_append sha eff new rationale actor now) (dc_events db);
                db' = db\<lparr>dc_events := rows\<rparr>
            in if \<not> insert_ok then (None, db')
               else (Some (Applied eff new (ev_seq ev)),
                     db'\<lparr>dc_supers := dc_supers db @
                       [\<lparr>su_old = eff, su_new = new, su_event = ev_seq ev, su_created = ev_ts ev\<rparr>]\<rparr>))"

text \<open>
  The reversal of an approval: no checks, and \<^verbatim>\<open>INSERT OR IGNORE\<close> keeps the first replacement.  Here too
  the append commits by itself.
\<close>

definition record_approval_supersession ::
  "sha_fn \<Rightarrow> bool \<Rightarrow> bool \<Rightarrow> rstr \<Rightarrow> int \<Rightarrow> int \<Rightarrow> rstr \<Rightarrow> int \<Rightarrow> decisions \<Rightarrow> int option \<times> decisions" where
  "record_approval_supersession sha append_ok insert_ok author approval new rationale now db =
     (if \<not> append_ok then (None, db)
      else
        let (ev, rows) = append_in_txn sha (supersede_append sha approval new rationale author now) (dc_events db);
            row = \<lparr>su_old = approval, su_new = new, su_event = ev_seq ev, su_created = ev_ts ev\<rparr>
        in if \<not> insert_ok then (None, db\<lparr>dc_events := rows\<rparr>)
           else (Some (ev_seq ev),
            db\<lparr>dc_events := rows,
               dc_supers := (if superseded_by (dc_supers db) approval = None then dc_supers db @ [row]
                             else dc_supers db)\<rparr>))"

text \<open>What the revert of a run does to an edge it recorded.\<close>

definition delete_edge :: "int \<Rightarrow> int \<Rightarrow> decisions \<Rightarrow> decisions" where
  "delete_edge old ev db =
     db\<lparr>dc_supers := filter (\<lambda>r. \<not> (su_old r = old \<and> su_event r = ev)) (dc_supers db)\<rparr>"

definition list_supersessions :: "int \<Rightarrow> decisions \<Rightarrow> (int \<times> int \<times> int) list" where
  "list_supersessions limit db =
     map (\<lambda>r. (su_old r, su_new r, su_event r))
       (sql_limit (max limit 1) (rev (sort_key su_event (dc_supers db))))"

definition supersessions_for_seqs :: "int list \<Rightarrow> decisions \<Rightarrow> int \<rightharpoonup> int" where
  "supersessions_for_seqs seqs db = (\<lambda>s. if s \<in> set seqs then superseded_by (dc_supers db) s else None)"

definition list_supersession_pairs :: "decisions \<Rightarrow> (int \<times> int) list" where
  "list_supersession_pairs db = map (\<lambda>r. (su_old r, su_new r)) (sort_key su_old (dc_supers db))"

section \<open>Every decision is superseded at most once\<close>

text \<open>
  The ledger grows by appends of other parts of the program, by supersessions and by reversals of
  approvals, and reverting a run deletes edges.  What holds of the index after any of them: the ledger
  is a sound chain, no event is superseded twice, and every edge stands for a \<^verbatim>\<open>supersede\<close> event that names
  its old end.  A reversal checks nothing, so its edge is whatever its caller asked for; the steps carry
  along, as \<open>cs\<close>, the pairs the reversals so far were called with.  Every other edge goes forward in the
  ledger, to a decision, from a decision or from an event some reversal named as a replacement.
\<close>

definition is_decision :: "ledger_event_row list \<Rightarrow> int \<Rightarrow> bool" where
  "is_decision rows s \<longleftrightarrow> (\<exists>e\<in>set rows. ev_seq e = s \<and> ev_kind e \<in> set DECISION_KINDS)"

definition witnessed :: "ledger_event_row list \<Rightarrow> supersession \<Rightarrow> bool" where
  "witnessed rows r \<longleftrightarrow> (\<exists>e\<in>set rows. ev_seq e = su_event r \<and> ev_kind e = event_kind_as_str EkSupersede
     \<and> ev_ref_kind e = Some (lit ''ledger_event'') \<and> ev_ref_id e = Some (show_int (su_old r)))"

type_synonym reversals = "(int \<times> int) list"

definition edge_ok :: "reversals \<Rightarrow> ledger_event_row list \<Rightarrow> supersession \<Rightarrow> bool" where
  "edge_ok cs rows r \<longleftrightarrow> (su_old r, su_new r) \<in> set cs
     \<or> su_old r < su_new r \<and> is_decision rows (su_new r)
       \<and> (is_decision rows (su_old r) \<or> su_old r \<in> snd ` set cs)"

definition decisions_ok :: "sha_fn \<Rightarrow> reversals \<Rightarrow> decisions \<Rightarrow> bool" where
  "decisions_ok sha cs db \<longleftrightarrow>
     sound_chain sha (dc_events db) \<and> distinct (map su_old (dc_supers db))
     \<and> (\<forall>r\<in>set (dc_supers db). edge_ok cs (dc_events db) r \<and> witnessed (dc_events db) r)"

inductive decision_step :: "sha_fn \<Rightarrow> decisions \<times> reversals \<Rightarrow> decisions \<times> reversals \<Rightarrow> bool" for sha where
  appended: "decision_step sha (db, cs) (db\<lparr>dc_events := snd (append_in_txn sha a (dc_events db))\<rparr>, cs)"
| superseded: "apply_supersession sha append_ok insert_ok old new rationale actor now db = (out, db')
     \<Longrightarrow> decision_step sha (db, cs) (db', cs)"
| reversed: "record_approval_supersession sha append_ok insert_ok author old new rationale now db = (res, db')
     \<Longrightarrow> decision_step sha (db, cs) (db', (old, new) # cs)"
| unsuperseded: "decision_step sha (db, cs) (delete_edge old ev db, cs)"

abbreviation no_decisions :: "decisions \<times> reversals" where
  "no_decisions \<equiv> (\<lparr>dc_events = [], dc_supers = []\<rparr>, [])"

lemma decision_grows: "is_decision rows s \<Longrightarrow> is_decision (rows @ es) s"
  by (auto simp: is_decision_def)

lemma witnessed_grows: "witnessed rows r \<Longrightarrow> witnessed (rows @ es) r"
  by (auto simp: witnessed_def)

lemma edge_grows: "edge_ok cs rows r \<Longrightarrow> edge_ok cs (rows @ es) r"
  by (auto simp: edge_ok_def decision_grows)

lemma edge_more: "edge_ok cs rows r \<Longrightarrow> edge_ok (c # cs) rows r"
  by (auto simp: edge_ok_def)

lemma decisions_ok_more: "decisions_ok sha cs db \<Longrightarrow> decisions_ok sha (c # cs) db"
  by (auto simp: decisions_ok_def edge_more)

lemma decisions_ok_append:
  assumes "decisions_ok sha cs db"
  shows "decisions_ok sha cs (db\<lparr>dc_events := snd (append_in_txn sha a (dc_events db))\<rparr>)"
  using assms sound_append [of sha "dc_events db" a]
  by (simp add: decisions_ok_def append_in_txn_rows edge_grows witnessed_grows)

text \<open>The supersede event and its edge, added together.\<close>

lemma decisions_ok_edge:
  fixes sha eff new rationale actor now db
  defines "a \<equiv> supersede_append sha eff new rationale actor now"
  defines "ev \<equiv> fst (append_in_txn sha a (dc_events db))"
    and "rows \<equiv> snd (append_in_txn sha a (dc_events db))"
  defines "r \<equiv> \<lparr>su_old = eff, su_new = new, su_event = ev_seq ev, su_created = ev_ts ev\<rparr>"
  assumes ok: "decisions_ok sha cs db" and head: "superseded_by (dc_supers db) eff = None"
    and edge: "edge_ok cs rows r"
  shows "decisions_ok sha cs (db\<lparr>dc_events := rows, dc_supers := dc_supers db @ [r]\<rparr>)"
proof -
  have "ev \<in> set rows" by (simp add: rows_def ev_def append_in_txn_rows)
  then have "witnessed rows r"
    unfolding witnessed_def
    by (intro bexI [of _ ev]) (simp_all add: r_def ev_def a_def append_in_txn_row supersede_append_def)
  moreover have "eff \<notin> su_old ` set (dc_supers db)"
    using head by (auto simp: superseded_by_def find_None_iff)
  ultimately show ?thesis
    using decisions_ok_append [OF ok, of a] edge by (auto simp: decisions_ok_def rows_def r_def)
qed

lemma not_a_decision_None: "not_a_decision rows s = None \<Longrightarrow> is_decision rows s"
  by (auto simp: not_a_decision_def is_decision_def find_Some_iff split: option.splits if_splits)

lemma superseded_by_Some:
  assumes "superseded_by supers s = Some n"
  shows "\<exists>r\<in>set supers. su_old r = s \<and> su_new r = n"
  using assms by (auto simp: superseded_by_def find_Some_iff)

lemma superseded_by_None: "superseded_by supers s = None \<longleftrightarrow> s \<notin> su_old ` set supers"
  by (auto simp: superseded_by_def find_None_iff)

text \<open>The end of a walk is a decision nothing supersedes yet.\<close>

lemma chain_walk_end:
  "chain_walk supers hops s = Inr head \<Longrightarrow>
     superseded_by supers head = None \<and> (head = s \<or> head \<in> su_new ` set supers)"
proof (induction supers hops s rule: chain_walk.induct)
  case (1 supers hops s)
  show ?case
  proof (cases "superseded_by supers s")
    case None
    then show ?thesis using "1.prems" by (simp add: chain_walk.simps)
  next
    case (Some n)
    then have go: "\<not> hops + 1 > 64" "chain_walk supers (hops + 1) n = Inr head"
      using "1.prems" by (auto simp: chain_walk.simps [of supers hops s] split: if_splits)
    have "n \<in> su_new ` set supers" using superseded_by_Some [OF Some] by auto
    then show ?thesis using "1.IH" [OF Some go] by auto
  qed
qed

text \<open>An operation either changes nothing, or fails after the event, or adds the event and its edge.\<close>

lemma apply_supersession_cases:
  assumes "apply_supersession sha append_ok insert_ok old new rationale actor now db = (out, db')"
  shows "db' = db \<and> (out = None \<or> (\<exists>m. out = Some (Rejected m)))
    \<or> (\<exists>eff. is_decision (dc_events db) old \<and> is_decision (dc_events db) new
         \<and> chain_walk (dc_supers db) 0 old = Inr eff \<and> eff < new
         \<and> (let (ev, rows) = append_in_txn sha (supersede_append sha eff new rationale actor now) (dc_events db)
            in out = None \<and> db' = db\<lparr>dc_events := rows\<rparr>
             \<or> out = Some (Applied eff new (ev_seq ev))
               \<and> db' = db\<lparr>dc_events := rows, dc_supers := dc_supers db @
                   [\<lparr>su_old = eff, su_new = new, su_event = ev_seq ev, su_created = ev_ts ev\<rparr>]\<rparr>))"
proof (cases "not_a_decision (dc_events db) old = None \<and> not_a_decision (dc_events db) new = None")
  case True
  then have dec: "is_decision (dc_events db) old" "is_decision (dc_events db) new"
    by (simp_all add: not_a_decision_None)
  show ?thesis
  proof (cases "chain_walk (dc_supers db) 0 old")
    case (Inl m)
    then show ?thesis using assms True by (auto simp: apply_supersession_def)
  next
    case (Inr eff)
    note body = assms [unfolded apply_supersession_def conjunct1 [OF True] conjunct2 [OF True] Inr option.case sum.case]
    show ?thesis
    proof (cases "eff < new \<and> append_ok")
      case False
      then show ?thesis using body by (auto split: if_splits)
    next
      case ok: True
      then show ?thesis
        using body dec Inr by (cases insert_ok) (auto simp: Let_def case_prod_beta)
    qed
  qed
next
  case False
  then show ?thesis using assms by (auto simp: apply_supersession_def split: option.splits)
qed

lemma decisions_ok_supersede:
  assumes ok: "decisions_ok sha cs db"
    and step: "apply_supersession sha append_ok insert_ok old new rationale actor now db = (out, db')"
  shows "decisions_ok sha cs db'"
  using apply_supersession_cases [OF step]
proof (elim disjE exE conjE)
  assume "db' = db"
  then show ?thesis using ok by simp
next
  assume "db' = db"
  then show ?thesis using ok by simp
next
  fix eff
  let ?a = "supersede_append sha eff new rationale actor now"
  let ?ev = "fst (append_in_txn sha ?a (dc_events db))" and ?rows = "snd (append_in_txn sha ?a (dc_events db))"
  assume dec: "is_decision (dc_events db) old" "is_decision (dc_events db) new"
    and walk: "chain_walk (dc_supers db) 0 old = Inr eff" and lt: "eff < new"
    and res: "let (ev, rows) = append_in_txn sha ?a (dc_events db)
            in out = None \<and> db' = db\<lparr>dc_events := rows\<rparr>
             \<or> out = Some (Applied eff new (ev_seq ev))
               \<and> db' = db\<lparr>dc_events := rows, dc_supers := dc_supers db @
                   [\<lparr>su_old = eff, su_new = new, su_event = ev_seq ev, su_created = ev_ts ev\<rparr>]\<rparr>"
  have e: "superseded_by (dc_supers db) eff = None" "eff = old \<or> eff \<in> su_new ` set (dc_supers db)"
    using chain_walk_end [OF walk] by simp_all
  have "is_decision (dc_events db) eff \<or> eff \<in> snd ` set cs"
    using e(2) dec ok by (force simp: decisions_ok_def edge_ok_def)
  then have "edge_ok cs ?rows \<lparr>su_old = eff, su_new = new, su_event = ev_seq ?ev, su_created = ev_ts ?ev\<rparr>"
    using dec(2) lt by (auto simp: edge_ok_def append_in_txn_rows decision_grows)
  note edge = decisions_ok_edge [OF ok e(1) this]
  consider "db' = db\<lparr>dc_events := ?rows\<rparr>"
    | "db' = db\<lparr>dc_events := ?rows, dc_supers := dc_supers db @
         [\<lparr>su_old = eff, su_new = new, su_event = ev_seq ?ev, su_created = ev_ts ?ev\<rparr>]\<rparr>"
    using res by (auto simp: Let_def case_prod_beta)
  then show ?thesis by cases (simp_all only: edge decisions_ok_append [OF ok, of ?a])
qed

lemma decisions_ok_reverse:
  assumes ok: "decisions_ok sha cs db"
    and step: "record_approval_supersession sha append_ok insert_ok author old new rationale now db = (res, db')"
  shows "decisions_ok sha ((old, new) # cs) db'"
proof -
  let ?a = "supersede_append sha old new rationale author now"
  let ?ev = "fst (append_in_txn sha ?a (dc_events db))" and ?rows = "snd (append_in_txn sha ?a (dc_events db))"
  let ?r = "\<lparr>su_old = old, su_new = new, su_event = ev_seq ?ev, su_created = ev_ts ?ev\<rparr>"
  have ok': "decisions_ok sha ((old, new) # cs) db" by (rule decisions_ok_more [OF ok])
  have "edge_ok ((old, new) # cs) ?rows ?r" by (simp add: edge_ok_def)
  note edge = decisions_ok_edge [OF ok' _ this]
  consider "db' = db" | "db' = db\<lparr>dc_events := ?rows\<rparr>"
    | "superseded_by (dc_supers db) old = None" "db' = db\<lparr>dc_events := ?rows, dc_supers := dc_supers db @ [?r]\<rparr>"
    using step [unfolded record_approval_supersession_def Let_def case_prod_beta]
    by (cases append_ok; cases insert_ok; cases "superseded_by (dc_supers db) old = None") simp_all
  then show ?thesis
  proof cases
    case 1
    then show ?thesis using ok' by simp
  next
    case 2
    show ?thesis unfolding 2 by (rule decisions_ok_append [OF ok'])
  next
    case 3
    show ?thesis unfolding 3(2) by (rule edge [OF 3(1)])
  qed
qed

lemma decisions_ok_delete: "decisions_ok sha cs db \<Longrightarrow> decisions_ok sha cs (delete_edge old ev db)"
  by (auto simp: decisions_ok_def delete_edge_def distinct_map_filter)

lemma decisions_ok_step:
  "decision_step sha st st' \<Longrightarrow> decisions_ok sha (snd st) (fst st) \<Longrightarrow> decisions_ok sha (snd st') (fst st')"
  by (induction rule: decision_step.induct)
    (auto simp: decisions_ok_append decisions_ok_supersede decisions_ok_reverse decisions_ok_delete)

lemma decisions_reach_ok:
  "(decision_step sha)\<^sup>*\<^sup>* no_decisions st \<Longrightarrow> decisions_ok sha (snd st) (fst st)"
  by (induction rule: rtranclp_induct)
    (simp add: decisions_ok_def sound_chain_def contiguous_def, blast intro: decisions_ok_step)

section \<open>The walk to the head ends\<close>

text \<open>The loop without its guard, and the decision a given number of hops away.\<close>

partial_function (option) follow :: "supersession list \<Rightarrow> int \<Rightarrow> int option" where
  "follow supers s = (case superseded_by supers s of None \<Rightarrow> Some s | Some n \<Rightarrow> follow supers n)"

declare follow.simps [code]

primrec hop :: "supersession list \<Rightarrow> nat \<Rightarrow> int \<Rightarrow> int option" where
  "hop supers 0 s = Some s"
| "hop supers (Suc n) s = (case superseded_by supers s of None \<Rightarrow> None | Some t \<Rightarrow> hop supers n t)"

lemma chain_walk_hops:
  "hop supers n s = Some head \<Longrightarrow> superseded_by supers head = None \<Longrightarrow> k \<le> 64 \<Longrightarrow>
     chain_walk supers k s = (if k + n \<le> 64 then Inr head else Inl (lit ''supersession chain too deep''))"
proof (induction n arbitrary: k s)
  case 0
  then show ?case by (simp add: chain_walk.simps [of supers k])
next
  case (Suc n)
  then obtain t where t: "superseded_by supers s = Some t" "hop supers n t = Some head"
    by (auto split: option.splits)
  show ?case
  proof (cases "k = 64")
    case True
    then show ?thesis using t(1) by (simp add: chain_walk.simps [of supers 64])
  next
    case False
    then show ?thesis
      using Suc.IH [OF t(2) Suc.prems(2), of "Suc k"] Suc.prems(3) t(1) by (simp add: chain_walk.simps [of supers k])
  qed
qed

lemma follow_hops: "hop supers n s = Some head \<Longrightarrow> superseded_by supers head = None \<Longrightarrow> follow supers s = Some head"
proof (induction n arbitrary: s)
  case 0
  then show ?case by (simp add: follow.simps)
next
  case (Suc n)
  then show ?case by (subst follow.simps) (auto split: option.splits)
qed

text \<open>
  The guarded walk, exactly, on any index at all: it returns the event it reaches within 64 hops that
  nothing supersedes, and gives up only if there are 65 hops to make.
\<close>

lemma chain_walk_exact:
  "k \<le> 64 \<Longrightarrow>
     (\<exists>n head. k + n \<le> 64 \<and> hop supers n s = Some head \<and> superseded_by supers head = None
        \<and> chain_walk supers k s = Inr head)
   \<or> (hop supers (65 - k) s \<noteq> None \<and> chain_walk supers k s = Inl (lit ''supersession chain too deep''))"
proof (induction supers k s rule: chain_walk.induct)
  case (1 supers k s)
  show ?case
  proof (cases "superseded_by supers s")
    case None
    then show ?thesis
      using "1.prems" by (intro disjI1 exI [of _ 0] exI [of _ s]) (simp add: chain_walk.simps)
  next
    case (Some t)
    show ?thesis
    proof (cases "k + 1 > 64")
      case True
      then have "65 - k = Suc 0" using "1.prems" by simp
      then show ?thesis using Some True by (simp add: chain_walk.simps [of supers k s])
    next
      case False
      have step: "chain_walk supers k s = chain_walk supers (k + 1) t" "65 - k = Suc (65 - (k + 1))"
        "\<And>n. hop supers (Suc n) s = hop supers n t"
        using Some False by (simp_all add: chain_walk.simps [of supers k s])
      have "k + 1 \<le> 64" using False by simp
      from "1.IH" [OF Some False this] show ?thesis
      proof (elim disjE exE conjE)
        fix n head
        assume "k + 1 + n \<le> 64" "hop supers n t = Some head" "superseded_by supers head = None"
          "chain_walk supers (k + 1) t = Inr head"
        then show ?thesis by (intro disjI1 exI [of _ "Suc n"] exI [of _ head]) (simp add: step(1,3) del: hop.simps)
      qed (simp_all add: step del: hop.simps)
    qed
  qed
qed

text \<open>Edges that go forward lead to a head in at most as many hops as there are edges from there on.\<close>

lemma forward_head:
  assumes "\<forall>r\<in>set supers. su_old r < su_new r"
  shows "\<exists>n head. n \<le> length (filter (\<lambda>r. s \<le> su_old r) supers) \<and> hop supers n s = Some head
     \<and> superseded_by supers head = None"
proof (induction "length (filter (\<lambda>r. s \<le> su_old r) supers)" arbitrary: s rule: less_induct)
  case less
  show ?case
  proof (cases "superseded_by supers s")
    case None
    then show ?thesis by (intro exI [of _ 0] exI [of _ s]) simp
  next
    case (Some t)
    then obtain r where r: "r \<in> set supers" "su_old r = s" "su_new r = t" using superseded_by_Some by blast
    then have lt: "s < t" using assms by auto
    have "length (filter (\<lambda>r. t \<le> su_old r) supers) < length (filter (\<lambda>r. s \<le> su_old r) supers)"
    proof -
      have "filter (\<lambda>r. t \<le> su_old r) supers = filter (\<lambda>r. t \<le> su_old r) (filter (\<lambda>r. s \<le> su_old r) supers)"
        using lt by (auto simp: filter_filter intro!: filter_cong)
      then show ?thesis
        using length_filter_less [of r "filter (\<lambda>r. s \<le> su_old r) supers" "\<lambda>r. t \<le> su_old r"] r lt by simp
    qed
    with less.hyps [OF this] obtain n head where n: "n \<le> length (filter (\<lambda>r. t \<le> su_old r) supers)"
      "hop supers n t = Some head" "superseded_by supers head = None" by blast
    then show ?thesis
      using Some \<open>length (filter (\<lambda>r. t \<le> su_old r) supers) < _\<close>
      by (intro exI [of _ "Suc n"] exI [of _ head]) simp
  qed
qed

text \<open>
  C36. The supersession index holds each event at most once.  Whatever is appended to the ledger,
  superseded, reversed and reverted, in any order and with any failing write, the ledger stays a sound
  chain, no event is superseded twice, and every edge is backed by a \<^verbatim>\<open>supersede\<close> event that names the
  superseded one.  An edge that no reversal of an approval asked for points forward in the ledger, to a
  decision, and from a decision too, unless a reversal has named its old end as a replacement.
\<close>

theorem decisions_superseded_once:
  "(decision_step sha)\<^sup>*\<^sup>* no_decisions (db, cs) \<Longrightarrow> decisions_ok sha cs db"
  using decisions_reach_ok by fastforce

definition three_approvals :: decisions where
  "three_approvals = \<lparr>dc_events = append_events (\<lambda>b. []) (map (\<lambda>n. \<lparr>la_kind = lit ''approval'', la_author = [], la_ts = n,
      la_prompt_id = None, la_session_id = None, la_version_number = None, la_ref_kind = None, la_ref_id = None,
      la_payload_hash = []\<rparr>) [1, 2, 3]) [], dc_supers = []\<rparr>"

definition twice_superseded :: decisions where
  "twice_superseded = snd (record_approval_supersession (\<lambda>b. []) True True [] 2 3 [] 9
     (snd (apply_supersession (\<lambda>b. []) True True 1 2 [] [] 8 three_approvals)))"

lemma append_events_reach:
  "(decision_step sha)\<^sup>*\<^sup>* (db, cs) (db\<lparr>dc_events := append_events sha as (dc_events db)\<rparr>, cs)"
proof (induction as arbitrary: db)
  case (Cons a as)
  show ?case
    using Cons [of "db\<lparr>dc_events := snd (append_in_txn sha a (dc_events db))\<rparr>"] appended [of sha db cs a]
    by (simp add: converse_rtranclp_into_rtranclp)
qed simp

lemma three_approvals_reach: "(decision_step (\<lambda>b. []))\<^sup>*\<^sup>* no_decisions (three_approvals, [])"
  unfolding three_approvals_def
  using append_events_reach [of "\<lambda>b. []" "\<lparr>dc_events = [], dc_supers = []\<rparr>" "[]"] unfolding decisions.simps .

lemma twice_superseded_reach: "(decision_step (\<lambda>b. []))\<^sup>*\<^sup>* no_decisions (twice_superseded, [(2, 3)])"
proof -
  let ?sha = "\<lambda>b. []" and ?one = "snd (apply_supersession (\<lambda>b. []) True True 1 2 [] [] 8 three_approvals)"
  have a: "decision_step ?sha (three_approvals, []) (?one, [])" by (rule superseded [OF surjective_pairing])
  have b: "decision_step ?sha (?one, []) (twice_superseded, [(2, 3)])"
    unfolding twice_superseded_def by (rule reversed [OF surjective_pairing])
  show ?thesis using three_approvals_reach a b by (meson rtranclp.rtrancl_into_rtrancl)
qed

theorem decisions_superseded_once_witness:
  "decisions_ok (\<lambda>b. []) [(2, 3)] twice_superseded \<and> list_supersession_pairs twice_superseded = [(1, 2), (2, 3)]"
proof -
  have "list_supersession_pairs twice_superseded = [(1, 2), (2, 3)]" by code_simp
  then show ?thesis using decisions_superseded_once [OF twice_superseded_reach] by simp
qed

text \<open>
  C37. The walk to the head of a chain ends.  In every store the operations can reach, the guarded walk
  of the code returns the event nothing supersedes that lies at most 64 hops away, and it rejects the
  operation only if the chain goes on for 65 hops.  If every reversal of an approval so far named a
  later event than the one it superseded, the loop ends without the guard too, after at most as many
  hops as there are supersessions, so the guard only ever stops chains that really are that long.
\<close>

theorem supersession_walk_ends:
  assumes "(decision_step sha)\<^sup>*\<^sup>* no_decisions (db, cs)"
  shows "(case chain_walk (dc_supers db) 0 s of
       Inr head \<Rightarrow> superseded_by (dc_supers db) head = None \<and> (\<exists>n\<le>64. hop (dc_supers db) n s = Some head)
     | Inl m \<Rightarrow> m = lit ''supersession chain too deep'' \<and> hop (dc_supers db) 65 s \<noteq> None)
   \<and> (if list_all (\<lambda>(old, new). old < new) cs
      then \<exists>n head. n \<le> length (dc_supers db) \<and> hop (dc_supers db) n s = Some head
        \<and> superseded_by (dc_supers db) head = None \<and> follow (dc_supers db) s = Some head
        \<and> chain_walk (dc_supers db) 0 s = (if n \<le> 64 then Inr head else Inl (lit ''supersession chain too deep''))
      else True)"
proof -
  have "\<exists>n head. n \<le> length (dc_supers db) \<and> hop (dc_supers db) n s = Some head
      \<and> superseded_by (dc_supers db) head = None \<and> follow (dc_supers db) s = Some head
      \<and> chain_walk (dc_supers db) 0 s = (if n \<le> 64 then Inr head else Inl (lit ''supersession chain too deep''))"
    if "list_all (\<lambda>(old, new). old < new) cs"
  proof -
    have "\<forall>r\<in>set (dc_supers db). su_old r < su_new r"
      using decisions_reach_ok [OF assms] that by (auto simp: decisions_ok_def edge_ok_def list_all_iff)
    then obtain n head where n: "n \<le> length (filter (\<lambda>r. s \<le> su_old r) (dc_supers db))"
      "hop (dc_supers db) n s = Some head" "superseded_by (dc_supers db) head = None"
      using forward_head by blast
    moreover have "n \<le> length (dc_supers db)" using n(1) length_filter_le le_trans by blast
    ultimately show ?thesis
      using follow_hops [OF n(2,3)] chain_walk_hops [OF n(2,3), of 0] by (intro exI [of _ n] exI [of _ head]) simp
  qed
  moreover have "case chain_walk (dc_supers db) 0 s of
       Inr head \<Rightarrow> superseded_by (dc_supers db) head = None \<and> (\<exists>n\<le>64. hop (dc_supers db) n s = Some head)
     | Inl m \<Rightarrow> m = lit ''supersession chain too deep'' \<and> hop (dc_supers db) 65 s \<noteq> None"
    using chain_walk_exact [of 0 "dc_supers db" s] by (auto simp del: hop.simps)
  ultimately show ?thesis by simp
qed

theorem supersession_walk_ends_witness:
  "follow (dc_supers twice_superseded) 1 = Some 3 \<and> chain_walk (dc_supers twice_superseded) 0 1 = Inr 3"
proof -
  have h: "hop (dc_supers twice_superseded) 2 1 = Some 3" "hop (dc_supers twice_superseded) 0 1 = Some 1"
    "hop (dc_supers twice_superseded) 1 1 = Some 2" "superseded_by (dc_supers twice_superseded) 3 = None"
    "length (dc_supers twice_superseded) = 2" "superseded_by (dc_supers twice_superseded) 1 \<noteq> None"
    "superseded_by (dc_supers twice_superseded) 2 \<noteq> None"
    by code_simp+
  obtain n head where n: "n \<le> 2" "hop (dc_supers twice_superseded) n 1 = Some head"
    "superseded_by (dc_supers twice_superseded) head = None" "follow (dc_supers twice_superseded) 1 = Some head"
    "chain_walk (dc_supers twice_superseded) 0 1 = (if n \<le> 64 then Inr head else Inl (lit ''supersession chain too deep''))"
    using conjunct2 [OF supersession_walk_ends [OF twice_superseded_reach, of 1]] h(5) by auto
  moreover have "n = 0 \<or> n = 1 \<or> n = 2" using n(1) by auto
  ultimately show ?thesis using h by auto
qed

text \<open>
  A reversal is not checked, so it can close a circle: once 1 is superseded by 2, reversing the approval
  2 in favour of 1 makes each the other's replacement.  The loop never ends, and the guard is all that
  stops it; every later supersession of either is rejected.
\<close>

definition circular :: decisions where
  "circular = snd (record_approval_supersession (\<lambda>b. []) True True [] 2 1 [] 9
     (snd (apply_supersession (\<lambda>b. []) True True 1 2 [] [] 8 three_approvals)))"

lemma circular_reach: "(decision_step (\<lambda>b. []))\<^sup>*\<^sup>* no_decisions (circular, [(2, 1)])"
proof -
  let ?sha = "\<lambda>b. []" and ?one = "snd (apply_supersession (\<lambda>b. []) True True 1 2 [] [] 8 three_approvals)"
  have a: "decision_step ?sha (three_approvals, []) (?one, [])" by (rule superseded [OF surjective_pairing])
  have b: "decision_step ?sha (?one, []) (circular, [(2, 1)])"
    unfolding circular_def by (rule reversed [OF surjective_pairing])
  show ?thesis using three_approvals_reach a b by (meson rtranclp.rtrancl_into_rtrancl)
qed

lemma reversal_makes_a_circle:
  "hop (dc_supers circular) n 1 \<noteq> None"
  "fst (apply_supersession (\<lambda>b. []) True True 1 3 [] [] 10 circular)
     = Some (Rejected (lit ''supersession chain too deep''))"
proof -
  have "superseded_by (dc_supers circular) 1 = Some 2" "superseded_by (dc_supers circular) 2 = Some 1"
    by code_simp+
  then have "hop (dc_supers circular) n 1 \<noteq> None \<and> hop (dc_supers circular) n 2 \<noteq> None" for n
    by (induction n) simp_all
  then show "hop (dc_supers circular) n 1 \<noteq> None" by simp
qed code_simp

end
