(* ===== verification/Catalog.thy ===== *)
theory Catalog
  imports Supersession
begin

text \<open>
  The class catalogue of \<^verbatim>\<open>polis-store\<close> and the runs that reorganise it: \<^verbatim>\<open>catalog.rs\<close> (staging and
  applying proposals) and the journal of \<^verbatim>\<open>runs.rs\<close>.  Tables are lists in row order.  An operation runs
  in one transaction: \<open>None\<close> is an SQL error, after which the caller keeps the old state.  The JSON and
  deflate coding of images and proposal payloads is \<^verbatim>\<open>serde_json\<close>'s and \<^verbatim>\<open>flate2\<close>'s, so both are kept decoded.
\<close>

section \<open>Tables\<close>

record node_row = class_node +
  nr_retired_by :: "int option"
  nr_retired_into :: "rstr option"

record link_row = class_link +
  lr_retired_by :: "int option"

record obs_row = class_observation +
  or_retired_by :: "int option"

record split_part =
  sp_title :: rstr
  sp_link_ids :: "int list"

text \<open>The payload of a queued proposal.\<close>

datatype extra = NoExtra | ExtraIds "rstr list" | ExtraSeqs "int list" | ExtraParts "split_part list" | ExtraPair int int

record proposal_row =
  pp_id :: int
  pp_run_id :: "int option"
  pp_op :: rstr
  pp_node_id :: "rstr option"
  pp_parent_id :: "rstr option"
  pp_title :: "rstr option"
  pp_summary :: "rstr option"
  pp_extra :: extra
  pp_rationale :: "rstr option"
  pp_status :: rstr
  pp_created_at :: int
  pp_attempts :: int
  pp_next_after_run :: "int option"
  pp_expires_lake_ts :: "int option"
  pp_last_reason :: "rstr option"

record run_row =
  ru_id :: int
  ru_mode :: rstr
  ru_status :: rstr
  ru_outcome :: "rstr option"
  ru_ops :: "int option"
  ru_summary :: "rstr option"
  ru_source_forgotten_at :: "int option"

text \<open>What an inverse needs, per operation.\<close>

datatype image =
    ImFile int rstr rstr rstr "int option"
  | ImCreate rstr "rstr option" rstr
  | ImPromote rstr "rstr option" "rstr option"
  | ImSplit rstr "rstr option" "(rstr \<times> rstr \<times> int list) list"
  | ImMerge rstr rstr "rstr option" "(rstr \<times> rstr option \<times> rstr) list" "(int \<times> rstr) list" "int list"
      "(rstr \<times> rstr) list" "int list"
  | ImCollapse rstr rstr "rstr list" "int list" "int list" "int list"
  | ImSupersede int int int
  | ImObserve int rstr int

record op_row =
  op_run_id :: int
  op_ix :: int
  op_name :: rstr
  op_subjects :: "rstr list"
  op_outcome :: rstr
  op_image :: "image option"
  op_ledger_seq :: "int option"
  op_reverted_by :: "int option"

record catalog =
  ct_nodes :: "node_row list"
  ct_links :: "link_row list"
  ct_link_seq :: int
  ct_obs :: "obs_row list"
  ct_obs_seq :: int
  ct_dec :: decisions
  ct_props :: "proposal_row list"
  ct_prop_seq :: int
  ct_runs :: "run_row list"
  ct_run_seq :: int
  ct_ops :: "op_row list"
  ct_horizon :: "int option"
  ct_uuid :: nat
  ct_evidence :: "(int \<times> int) list"
  ct_forgotten_sources :: "int list"
  ct_forgotten_captures :: "(rstr \<times> int) list"
  ct_note_events :: "(int \<times> int) list"

section \<open>Rows by key\<close>

definition node :: "catalog \<Rightarrow> rstr \<Rightarrow> node_row option" where
  "node c i = find (\<lambda>n. cn_id n = i) (ct_nodes c)"

definition link :: "catalog \<Rightarrow> int \<Rightarrow> link_row option" where
  "link c l = find (\<lambda>k. cl_id k = l) (ct_links c)"

definition obs :: "catalog \<Rightarrow> int \<Rightarrow> obs_row option" where
  "obs c i = find (\<lambda>b. co_id b = i) (ct_obs c)"

definition update_nodes :: "(node_row \<Rightarrow> bool) \<Rightarrow> (node_row \<Rightarrow> node_row) \<Rightarrow> catalog \<Rightarrow> catalog" where
  "update_nodes P f c = c\<lparr>ct_nodes := map (\<lambda>n. if P n then f n else n) (ct_nodes c)\<rparr>"

definition update_links :: "(link_row \<Rightarrow> bool) \<Rightarrow> (link_row \<Rightarrow> link_row) \<Rightarrow> catalog \<Rightarrow> catalog" where
  "update_links P f c = c\<lparr>ct_links := map (\<lambda>k. if P k then f k else k) (ct_links c)\<rparr>"

definition update_obs :: "(obs_row \<Rightarrow> bool) \<Rightarrow> (obs_row \<Rightarrow> obs_row) \<Rightarrow> catalog \<Rightarrow> catalog" where
  "update_obs P f c = c\<lparr>ct_obs := map (\<lambda>b. if P b then f b else b) (ct_obs c)\<rparr>"

definition live_node :: "catalog \<Rightarrow> rstr \<Rightarrow> bool" where
  "live_node c i \<longleftrightarrow> (case node c i of None \<Rightarrow> False | Some n \<Rightarrow> nr_retired_by n = None)"

definition live_children :: "catalog \<Rightarrow> rstr \<Rightarrow> rstr list" where
  "live_children c p = map cn_id (filter (\<lambda>n. cn_parent_id n = Some p \<and> nr_retired_by n = None) (ct_nodes c))"

definition live_links_of :: "catalog \<Rightarrow> rstr \<Rightarrow> int list" where
  "live_links_of c i = map cl_id (filter (\<lambda>k. cl_node_id k = i \<and> lr_retired_by k = None) (ct_links c))"

definition live_obs_of :: "catalog \<Rightarrow> rstr \<Rightarrow> int list" where
  "live_obs_of c i = map co_id (filter (\<lambda>b. co_node_id b = i \<and> or_retired_by b = None) (ct_obs c))"

text \<open>The unique index over (node, target kind, target id) counts retired rows too.\<close>

definition link_at :: "catalog \<Rightarrow> rstr \<Rightarrow> rstr \<Rightarrow> rstr \<Rightarrow> link_row option" where
  "link_at c i kind target =
     find (\<lambda>k. cl_node_id k = i \<and> cl_target_kind k = kind \<and> cl_target_id k = target) (ct_links c)"

section \<open>Primitive writes\<close>

text \<open>A fresh node id; the UUIDs are a parameter, and \<open>ct_uuid\<close> counts the ones drawn.\<close>

definition new_node_id :: "(nat \<Rightarrow> rstr) \<Rightarrow> catalog \<Rightarrow> rstr \<times> catalog" where
  "new_node_id uuid c = (lit ''cn-'' @ uuid (ct_uuid c), c\<lparr>ct_uuid := ct_uuid c + 1\<rparr>)"

definition insert_node ::
  "rstr \<Rightarrow> rstr option \<Rightarrow> rstr \<Rightarrow> rstr \<Rightarrow> rstr option \<Rightarrow> rstr option \<Rightarrow> rstr \<Rightarrow> int \<Rightarrow> catalog \<Rightarrow> catalog option" where
  "insert_node i parent kind title summary project curated_by now c =
     (if node c i \<noteq> None then None
      else Some (c\<lparr>ct_nodes := ct_nodes c @
        [\<lparr>cn_id = i, cn_parent_id = parent, cn_kind = kind, cn_title = title, cn_summary = summary,
          cn_project_path = project, cn_ip_name = None, cn_status = lit ''accepted'', cn_pinned = False,
          cn_curated_by = Some curated_by, cn_created_at = now, cn_updated_at = now,
          nr_retired_by = None, nr_retired_into = None\<rparr>]\<rparr>))"

definition insert_link :: "rstr \<Rightarrow> rstr \<Rightarrow> rstr \<Rightarrow> rstr option \<Rightarrow> int \<Rightarrow> catalog \<Rightarrow> int \<times> catalog" where
  "insert_link i kind target note now c =
     (let l = ct_link_seq c + 1
      in (l, c\<lparr>ct_link_seq := l, ct_links := ct_links c @
            [\<lparr>cl_id = l, cl_node_id = i, cl_target_kind = kind, cl_target_id = target, cl_note = note,
              cl_status = lit ''accepted'', cl_created_at = now, lr_retired_by = None\<rparr>]\<rparr>))"

definition set_parent :: "rstr \<Rightarrow> rstr option \<Rightarrow> int \<Rightarrow> catalog \<Rightarrow> catalog" where
  "set_parent i p now = update_nodes (\<lambda>n. cn_id n = i) (\<lambda>n. n\<lparr>cn_parent_id := p, cn_updated_at := now\<rparr>)"

definition set_title :: "rstr \<Rightarrow> rstr \<Rightarrow> int \<Rightarrow> catalog \<Rightarrow> catalog" where
  "set_title i t now = update_nodes (\<lambda>n. cn_id n = i) (\<lambda>n. n\<lparr>cn_title := t, cn_updated_at := now\<rparr>)"

definition retire_link :: "int \<Rightarrow> int \<Rightarrow> catalog \<Rightarrow> catalog" where
  "retire_link run l = update_links (\<lambda>k. cl_id k = l) (\<lambda>k. k\<lparr>lr_retired_by := Some run\<rparr>)"

definition retire_obs :: "int \<Rightarrow> int \<Rightarrow> catalog \<Rightarrow> catalog" where
  "retire_obs run i = update_obs (\<lambda>b. co_id b = i) (\<lambda>b. b\<lparr>or_retired_by := Some run\<rparr>)"

text \<open>
  Moving a link fails where the unique index already holds its target at the other node.  \<^verbatim>\<open>UPDATE OR IGNORE\<close>
  then changes no row, which is \<open>None\<close>.
\<close>

definition link_taken :: "int \<Rightarrow> rstr \<Rightarrow> catalog \<Rightarrow> bool" where
  "link_taken l i c \<longleftrightarrow>
     (case link c l of
        None \<Rightarrow> False
      | Some k \<Rightarrow> list_ex (\<lambda>m. cl_id m \<noteq> l \<and> cl_node_id m = i \<and> cl_target_kind m = cl_target_kind k
          \<and> cl_target_id m = cl_target_id k) (ct_links c))"

definition put_link :: "int \<Rightarrow> rstr \<Rightarrow> catalog \<Rightarrow> catalog" where
  "put_link l i = update_links (\<lambda>m. cl_id m = l) (\<lambda>m. m\<lparr>cl_node_id := i\<rparr>)"

definition move_link :: "int \<Rightarrow> rstr \<Rightarrow> catalog \<Rightarrow> catalog option" where
  "move_link l i c = (if link c l = None \<or> link_taken l i c then None else Some (put_link l i c))"

section \<open>The journal\<close>

definition subject_node :: "rstr \<Rightarrow> rstr" where "subject_node i = lit ''node:'' @ i"
definition subject_link :: "int \<Rightarrow> rstr" where "subject_link l = lit ''link:'' @ show_int l"
definition subject_obs :: "int \<Rightarrow> rstr" where "subject_obs i = lit ''obs:'' @ show_int i"
definition subject_seq :: "int \<Rightarrow> rstr" where "subject_seq n = lit ''seq:'' @ show_int n"

definition run_source_forgotten :: "catalog \<Rightarrow> int \<Rightarrow> bool" where
  "run_source_forgotten c r \<longleftrightarrow> list_ex (\<lambda>x. ru_id x = r \<and> ru_source_forgotten_at x \<noteq> None) (ct_runs c)"

text \<open>A number is forgotten with its prompt, the capture it refers to, or a note it wrote.\<close>

definition source_forgotten :: "catalog \<Rightarrow> int \<Rightarrow> bool" where
  "source_forgotten c s \<longleftrightarrow>
     list_ex (\<lambda>e. ev_seq e = s \<and>
         ((let sources = map snd (filter (\<lambda>(q, src). q = s) (ct_evidence c));
               source_prompts = List.map_filter ev_prompt_id (filter (\<lambda>x. ev_seq x \<in> set sources) (dc_events (ct_dec c)))
           in case ev_prompt_id e of
                Some p \<Rightarrow> p \<in> set (ct_forgotten_sources c)
              | None \<Rightarrow> list_ex (\<lambda>p. p \<in> set (ct_forgotten_sources c)) source_prompts)
          \<or> list_ex (\<lambda>(kind, i). Some kind = ev_ref_kind e \<and> Some (show_int i) = ev_ref_id e) (ct_forgotten_captures c)
          \<or> list_ex (\<lambda>(q, n). q = s \<and> (lit ''user_note'', n) \<in> set (ct_forgotten_captures c)) (ct_note_events c)))
       (dc_events (ct_dec c))"

definition next_op_ix :: "catalog \<Rightarrow> int \<Rightarrow> int" where
  "next_op_ix c r = fold (\<lambda>x m. max m (op_ix x)) (filter (\<lambda>x. op_run_id x = r) (ct_ops c)) 0 + 1"

definition journal_op :: "int \<Rightarrow> rstr \<Rightarrow> rstr list \<Rightarrow> image \<Rightarrow> int option \<Rightarrow> catalog \<Rightarrow> catalog" where
  "journal_op r name subjects im ledger_seq c =
     (if run_source_forgotten c r then c
      else c\<lparr>ct_ops := ct_ops c @
        [\<lparr>op_run_id = r, op_ix = next_op_ix c r, op_name = name, op_subjects = subjects,
          op_outcome = lit ''applied'', op_image = Some im, op_ledger_seq = ledger_seq, op_reverted_by = None\<rparr>]\<rparr>)"

definition insert_class_run_with :: "rstr \<Rightarrow> catalog \<Rightarrow> int \<times> catalog" where
  "insert_class_run_with mode c =
     (let r = ct_run_seq c + 1
      in (r, c\<lparr>ct_run_seq := r, ct_runs := ct_runs c @
            [\<lparr>ru_id = r, ru_mode = mode, ru_status = lit ''running'', ru_outcome = None, ru_ops = None,
              ru_summary = None, ru_source_forgotten_at = None\<rparr>]\<rparr>))"

definition update_run :: "int \<Rightarrow> (run_row \<Rightarrow> run_row) \<Rightarrow> catalog \<Rightarrow> catalog" where
  "update_run r f c = c\<lparr>ct_runs := map (\<lambda>x. if ru_id x = r then f x else x) (ct_runs c)\<rparr>"

section \<open>Retiring a subtree\<close>

text \<open>The walk: a stack of node ids, at most 10000 of them taken; the last child is taken first.\<close>

fun subtree_walk :: "nat \<Rightarrow> catalog \<Rightarrow> rstr list \<Rightarrow> rstr list" where
  "subtree_walk n c [] = []"
| "subtree_walk n c (i # stack) =
     (if n = 0 then [] else i # subtree_walk (n - 1) c (rev (live_children c i) @ stack))"

record retired_set =
  rs_nodes :: "rstr list"
  rs_links :: "int list"
  rs_obs :: "int list"

definition retire_node ::
  "int \<Rightarrow> rstr option \<Rightarrow> rstr \<Rightarrow> catalog \<times> retired_set \<Rightarrow> catalog \<times> retired_set" where
  "retire_node run into i st =
     (case st of (c, out) \<Rightarrow>
        let ls = live_links_of c i;
            c1 = fold (retire_link run) ls c;
            bs = live_obs_of c1 i;
            c2 = fold (retire_obs run) bs c1;
            c3 = update_nodes (\<lambda>n. cn_id n = i \<and> nr_retired_by n = None)
                   (\<lambda>n. n\<lparr>nr_retired_by := Some run, nr_retired_into := into\<rparr>) c2
        in (c3, \<lparr>rs_nodes = rs_nodes out @ [i], rs_links = rs_links out @ ls, rs_obs = rs_obs out @ bs\<rparr>))"

definition retire_node_subtree :: "rstr \<Rightarrow> int \<Rightarrow> rstr option \<Rightarrow> catalog \<Rightarrow> catalog \<times> retired_set" where
  "retire_node_subtree i run into c =
     fold (retire_node run into) (subtree_walk 10000 c [i]) (c, \<lparr>rs_nodes = [], rs_links = [], rs_obs = []\<rparr>)"

section \<open>Reads and the work queue\<close>

definition get_class_node :: "catalog \<Rightarrow> rstr \<Rightarrow> node_row option" where
  "get_class_node c i = (if live_node c i then node c i else None)"

definition list_class_children :: "catalog \<Rightarrow> rstr \<Rightarrow> node_row list" where
  "list_class_children c p =
     sort_key cn_title (filter (\<lambda>n. cn_parent_id n = Some p \<and> nr_retired_by n = None) (ct_nodes c))"

text \<open>The statement runs once per 400 parents.\<close>

fun list_class_children_for_parents :: "catalog \<Rightarrow> rstr list \<Rightarrow> node_row list" where
  "list_class_children_for_parents c [] = []"
| "list_class_children_for_parents c (p # ps) =
     sort_key (\<lambda>n. (case cn_parent_id n of None \<Rightarrow> [] | Some q \<Rightarrow> q, cn_title n))
       (filter (\<lambda>n. nr_retired_by n = None \<and> list_ex (\<lambda>q. cn_parent_id n = Some q) (take 400 (p # ps))) (ct_nodes c))
     @ list_class_children_for_parents c (drop 399 ps)"

text \<open>One root per (id, title, project), kept when the id is there; the count of new ones.\<close>

definition seed_class_root :: "int \<Rightarrow> rstr \<times> rstr \<times> rstr option \<Rightarrow> nat \<times> catalog \<Rightarrow> nat \<times> catalog" where
  "seed_class_root now row st =
     (case row of (i, title, project) \<Rightarrow>
        case insert_node i None (lit ''node'') title None project (lit ''classifier'') now (snd st) of
          None \<Rightarrow> st
        | Some c \<Rightarrow> (fst st + 1, c))"

definition seed_class_roots :: "(rstr \<times> rstr \<times> rstr option) list \<Rightarrow> int \<Rightarrow> catalog \<Rightarrow> nat \<times> catalog" where
  "seed_class_roots rows now c = fold (seed_class_root now) rows (0, c)"

text \<open>Rows of an older version that were staged as \<^verbatim>\<open>proposed\<close>.\<close>

definition accept_all_pending :: "rstr \<Rightarrow> int \<Rightarrow> catalog \<Rightarrow> rstr list \<times> catalog" where
  "accept_all_pending actor now c =
     (let waiting = (\<lambda>n. cn_status n = lit ''proposed'' \<and> nr_retired_by n = None)
      in (map cn_id (filter waiting (ct_nodes c)),
          update_links (\<lambda>k. cl_status k = lit ''proposed'' \<and> lr_retired_by k = None)
              (\<lambda>k. k\<lparr>cl_status := lit ''accepted''\<rparr>)
            (update_nodes waiting
              (\<lambda>n. n\<lparr>cn_status := lit ''accepted'', cn_curated_by := Some actor, cn_updated_at := now\<rparr>) c)))"

definition remove_link :: "int \<Rightarrow> catalog \<Rightarrow> catalog" where
  "remove_link l c = c\<lparr>ct_links := filter (\<lambda>k. cl_id k \<noteq> l) (ct_links c)\<rparr>"

definition delete_class_link :: "int \<Rightarrow> catalog \<Rightarrow> (rstr \<times> rstr \<times> rstr) option \<times> catalog" where
  "delete_class_link l c =
     (case link c l of
        None \<Rightarrow> (None, c)
      | Some k \<Rightarrow> (Some (cl_node_id k, cl_target_kind k, cl_target_id k), remove_link l c))"

definition get_class_proposal :: "catalog \<Rightarrow> int \<Rightarrow> proposal_row option" where
  "get_class_proposal c i = find (\<lambda>p. pp_id p = i) (ct_props c)"

definition pending :: "proposal_row \<Rightarrow> bool" where
  "pending p \<longleftrightarrow> pp_status p = lit ''proposed''"

definition list_class_proposals :: "catalog \<Rightarrow> proposal_row list" where
  "list_class_proposals c = sort_key pp_id (filter pending (ct_props c))"

definition list_due_proposals :: "int \<Rightarrow> catalog \<Rightarrow> proposal_row list" where
  "list_due_proposals r c =
     sort_key pp_id (filter (\<lambda>p. pending p \<and>
       (case pp_next_after_run p of None \<Rightarrow> True | Some n \<Rightarrow> n \<le> r)) (ct_props c))"

definition count_pending_class_proposals :: "catalog \<Rightarrow> nat" where
  "count_pending_class_proposals c = length (filter pending (ct_props c))"

definition defer_proposal :: "int \<Rightarrow> int \<Rightarrow> int \<Rightarrow> rstr \<Rightarrow> catalog \<Rightarrow> catalog" where
  "defer_proposal i attempts next reason c =
     c\<lparr>ct_props := map (\<lambda>p. if pp_id p = i \<and> pending p
         then p\<lparr>pp_attempts := attempts, pp_next_after_run := Some next, pp_last_reason := Some reason\<rparr> else p) (ct_props c)\<rparr>"

definition drop_proposal :: "int \<Rightarrow> catalog \<Rightarrow> catalog" where
  "drop_proposal i c = c\<lparr>ct_props := filter (\<lambda>p. pp_id p \<noteq> i) (ct_props c)\<rparr>"

definition delete_class_proposal :: "int \<Rightarrow> catalog \<Rightarrow> rstr option \<times> catalog" where
  "delete_class_proposal i c = (map_option pp_op (get_class_proposal c i), drop_proposal i c)"

definition lake_newest_ts :: "catalog \<Rightarrow> int" where
  "lake_newest_ts c = (case map ev_ts (dc_events (ct_dec c)) of [] \<Rightarrow> 0 | t # ts \<Rightarrow> fold max ts t)"

definition PROPOSAL_TTL_LAKE_MS :: int where
  "PROPOSAL_TTL_LAKE_MS = 7 * 24 * 3600 * 1000"

definition insert_structural ::
  "int option \<Rightarrow> rstr \<Rightarrow> rstr option \<Rightarrow> rstr option \<Rightarrow> rstr option \<Rightarrow> rstr option \<Rightarrow> extra \<Rightarrow> rstr option
     \<Rightarrow> int \<Rightarrow> catalog \<Rightarrow> catalog" where
  "insert_structural run op i parent title summary extra rationale now c =
     (let l = ct_prop_seq c + 1
      in c\<lparr>ct_prop_seq := l, ct_props := ct_props c @
           [\<lparr>pp_id = l, pp_run_id = run, pp_op = op, pp_node_id = i, pp_parent_id = parent, pp_title = title,
             pp_summary = summary, pp_extra = extra, pp_rationale = rationale, pp_status = lit ''proposed'',
             pp_created_at = now, pp_attempts = 0, pp_next_after_run = None,
             pp_expires_lake_ts = Some (lake_newest_ts c + PROPOSAL_TTL_LAKE_MS), pp_last_reason = None\<rparr>]\<rparr>)"

end
