(* ===== verification/Reorg.thy ===== *)
theory Reorg
  imports Catalog
begin

text \<open>
  What changes the catalogue: \<^verbatim>\<open>stage_proposal\<close> makes a \<^verbatim>\<open>file\<close> or \<^verbatim>\<open>create\<close> live at once and queues the structural
  operations; \<^verbatim>\<open>apply_class_proposal_in_run\<close> applies a queued one and journals what its inverse needs.
  Each runs in one transaction, and \<open>None\<close> (or \<open>SqlError\<close>) is an SQL error that rolls it back.
\<close>

section \<open>Proposals\<close>

datatype proposal =
    File rstr "rstr option" rstr rstr "rstr option" "rstr option"
  | Create rstr rstr "rstr option"
  | Promote rstr "rstr option" "rstr option"
  | Split rstr "split_part list" "rstr option"
  | Merge "rstr list" "rstr option" "rstr option" "rstr option"
  | Collapse rstr rstr "int list" "rstr option"
  | Supersede int int "rstr option"

fun op_of :: "proposal \<Rightarrow> rstr" where
  "op_of (File _ _ _ _ _ _) = lit ''file''"
| "op_of (Create _ _ _) = lit ''create''"
| "op_of (Promote _ _ _) = lit ''promote''"
| "op_of (Split _ _ _) = lit ''split''"
| "op_of (Merge _ _ _ _) = lit ''merge''"
| "op_of (Collapse _ _ _ _) = lit ''collapse''"
| "op_of (Supersede _ _ _) = lit ''supersede''"

datatype staged_outcome = StagedNode | StagedLink bool | StagedStructural | Skipped

section \<open>Staging\<close>

text \<open>A proposal made from a forgotten source is skipped.\<close>

definition stage_refused :: "catalog \<Rightarrow> int option \<Rightarrow> proposal \<Rightarrow> bool" where
  "stage_refused c run p \<longleftrightarrow>
     (case run of None \<Rightarrow> False | Some r \<Rightarrow> run_source_forgotten c r)
     \<or> (case p of
          File _ _ _ target _ _ \<Rightarrow> (case parse_i64 target of None \<Rightarrow> False | Some s \<Rightarrow> source_forgotten c s)
        | Supersede old new _ \<Rightarrow> source_forgotten c old \<or> source_forgotten c new
        | Collapse _ _ seqs _ \<Rightarrow> list_ex (source_forgotten c) seqs
        | _ \<Rightarrow> False)"

definition stage_journal :: "int option \<Rightarrow> rstr \<Rightarrow> rstr list \<Rightarrow> image \<Rightarrow> catalog \<Rightarrow> catalog" where
  "stage_journal run name subjects im c = (case run of None \<Rightarrow> c | Some r \<Rightarrow> journal_op r name subjects im None c)"

definition child_titled :: "catalog \<Rightarrow> rstr \<Rightarrow> rstr \<Rightarrow> node_row option" where
  "child_titled c parent title =
     find (\<lambda>n. cn_parent_id n = Some parent \<and> cn_title n = title \<and> nr_retired_by n = None) (ct_nodes c)"

definition make_child :: "(nat \<Rightarrow> rstr) \<Rightarrow> int option \<Rightarrow> rstr \<Rightarrow> rstr \<Rightarrow> int \<Rightarrow> catalog \<Rightarrow> (rstr \<times> catalog) option" where
  "make_child uuid run parent title now c =
     (case new_node_id uuid c of (i, c1) \<Rightarrow>
      case insert_node i (Some parent) (lit ''node'') title None None (lit ''classifier'') now c1 of
        None \<Rightarrow> None
      | Some c2 \<Rightarrow> Some (i, stage_journal run (lit ''create'') [subject_node i] (ImCreate i (Some parent) title) c2))"

text \<open>The node a filing goes to: the named child of the parent, made if need be, or the parent itself.\<close>

definition filing_node ::
  "(nat \<Rightarrow> rstr) \<Rightarrow> int option \<Rightarrow> rstr \<Rightarrow> rstr option \<Rightarrow> int \<Rightarrow> catalog \<Rightarrow> (rstr \<times> bool \<times> catalog) option" where
  "filing_node uuid run parent sub now c =
     (case sub of
        None \<Rightarrow> Some (parent, False, c)
      | Some title \<Rightarrow>
          if trim title = [] then Some (parent, False, c)
          else
            (case child_titled c parent (trim title) of
               Some n \<Rightarrow> Some (cn_id n, False, c)
             | None \<Rightarrow>
                 (case make_child uuid run parent (trim title) now c of
                    None \<Rightarrow> None
                  | Some (i, c1) \<Rightarrow> Some (i, True, c1))))"

text \<open>The link itself: live already, revived, or new.  The flag says whether anything changed.\<close>

definition file_link ::
  "int option \<Rightarrow> rstr \<Rightarrow> rstr \<Rightarrow> rstr \<Rightarrow> rstr option \<Rightarrow> int \<Rightarrow> catalog \<Rightarrow> bool \<times> catalog" where
  "file_link run i kind target note now c =
     (case link_at c i kind target of
        Some k \<Rightarrow>
          (case lr_retired_by k of
             None \<Rightarrow> (False, c)
           | Some by \<Rightarrow>
               (True, stage_journal run (lit ''file'') [subject_node i, subject_link (cl_id k)]
                  (ImFile (cl_id k) i kind target (Some by))
                  (update_links (\<lambda>m. cl_id m = cl_id k) (\<lambda>m. m\<lparr>lr_retired_by := None\<rparr>) c)))
      | None \<Rightarrow>
          (case insert_link i kind target note now c of (l, c1) \<Rightarrow>
             (True, stage_journal run (lit ''file'') [subject_node i, subject_link l] (ImFile l i kind target None) c1)))"

definition stage_file ::
  "(nat \<Rightarrow> rstr) \<Rightarrow> int option \<Rightarrow> rstr \<Rightarrow> rstr option \<Rightarrow> rstr \<Rightarrow> rstr \<Rightarrow> rstr option \<Rightarrow> int \<Rightarrow> catalog
     \<Rightarrow> (staged_outcome \<times> catalog) option" where
  "stage_file uuid run parent sub kind target note now c =
     (if \<not> live_node c parent then Some (Skipped, c)
      else
        (case filing_node uuid run parent sub now c of
           None \<Rightarrow> None
         | Some (i, created, c1) \<Rightarrow>
             (case file_link run i kind target note now c1 of (changed, c2) \<Rightarrow>
                Some (if \<not> changed \<and> \<not> created then (Skipped, c2) else (StagedLink created, c2)))))"

definition stage_supersede :: "int option \<Rightarrow> int \<Rightarrow> int \<Rightarrow> rstr option \<Rightarrow> int \<Rightarrow> catalog \<Rightarrow> staged_outcome \<times> catalog" where
  "stage_supersede run old new rationale now c =
     (if old \<ge> new \<or> not_a_decision (dc_events (ct_dec c)) old \<noteq> None
         \<or> not_a_decision (dc_events (ct_dec c)) new \<noteq> None
         \<or> list_ex (\<lambda>p. pp_op p = lit ''supersede'' \<and> pending p \<and> pp_extra p = ExtraPair old new) (ct_props c)
      then (Skipped, c)
      else (StagedStructural,
        insert_structural run (lit ''supersede'') None None None None (ExtraPair old new) rationale now c))"

definition stage_proposal ::
  "(nat \<Rightarrow> rstr) \<Rightarrow> int option \<Rightarrow> proposal \<Rightarrow> int \<Rightarrow> catalog \<Rightarrow> (staged_outcome \<times> catalog) option" where
  "stage_proposal uuid run p now c =
     (if stage_refused c run p then Some (Skipped, c)
      else
        (case p of
           Create parent title _ \<Rightarrow>
             if \<not> live_node c parent \<or> child_titled c parent title \<noteq> None then Some (Skipped, c)
             else (case make_child uuid run parent title now c of None \<Rightarrow> None | Some (i, c1) \<Rightarrow> Some (StagedNode, c1))
         | File parent sub kind target note _ \<Rightarrow> stage_file uuid run parent sub kind target note now c
         | Promote i parent rationale \<Rightarrow>
             if \<not> live_node c i then Some (Skipped, c)
             else Some (StagedStructural,
               insert_structural run (lit ''promote'') (Some i) parent None None NoExtra rationale now c)
         | Split i parts rationale \<Rightarrow>
             if \<not> live_node c i then Some (Skipped, c)
             else Some (StagedStructural,
               insert_structural run (lit ''split'') (Some i) None None None (ExtraParts parts) rationale now c)
         | Merge ids title parent rationale \<Rightarrow>
             if \<not> list_all (live_node c) ids then Some (Skipped, c)
             else Some (StagedStructural,
               insert_structural run (lit ''merge'') (case ids of [] \<Rightarrow> None | i # _ \<Rightarrow> Some i) parent title None
                 (ExtraIds ids) rationale now c)
         | Collapse i summary seqs rationale \<Rightarrow>
             if \<not> live_node c i then Some (Skipped, c)
             else Some (StagedStructural,
               insert_structural run (lit ''collapse'') (Some i) None None (Some summary) (ExtraSeqs seqs) rationale now c)
         | Supersede old new rationale \<Rightarrow> Some (stage_supersede run old new rationale now c)))"

section \<open>Applying a structural operation\<close>

text \<open>\<open>Refused\<close> drops the proposal; the detail of a reorganisation goes to the ledger event.\<close>

datatype reorg = SqlError | Refused | Reorganised rstr catalog

definition or_empty :: "rstr option \<Rightarrow> rstr" where
  "or_empty x = (case x of None \<Rightarrow> [] | Some s \<Rightarrow> s)"

definition parent_of :: "catalog \<Rightarrow> rstr \<Rightarrow> rstr option" where
  "parent_of c i = (case node c i of None \<Rightarrow> None | Some n \<Rightarrow> cn_parent_id n)"

definition do_promote :: "int \<Rightarrow> rstr \<Rightarrow> rstr option \<Rightarrow> int \<Rightarrow> catalog \<Rightarrow> catalog" where
  "do_promote run i parent now c =
     journal_op run (lit ''promote'') [subject_node i] (ImPromote i (parent_of c i) parent) None (set_parent i parent now c)"

definition apply_promote :: "int \<Rightarrow> int \<Rightarrow> proposal_row \<Rightarrow> catalog \<Rightarrow> reorg" where
  "apply_promote run now p c =
     Reorganised ([8594] @ lit '' parent '' @ (case pp_parent_id p of None \<Rightarrow> lit ''(root)'' | Some q \<Rightarrow> q))
       (do_promote run (or_empty (pp_node_id p)) (pp_parent_id p) now c)"

text \<open>One citation of the digest; a repeated number inserts nothing.\<close>

definition cite_seq :: "rstr \<Rightarrow> int \<Rightarrow> int \<Rightarrow> catalog \<times> int list \<Rightarrow> catalog \<times> int list" where
  "cite_seq digest now s st =
     (if link_at (fst st) digest (lit ''ledger'') (show_int s) \<noteq> None then st
      else (case insert_link digest (lit ''ledger'') (show_int s) None now (fst st) of (l, c) \<Rightarrow> (c, snd st @ [l])))"

definition do_collapse ::
  "(nat \<Rightarrow> rstr) \<Rightarrow> rstr \<Rightarrow> int \<Rightarrow> rstr \<Rightarrow> node_row \<Rightarrow> rstr option \<Rightarrow> rstr option \<Rightarrow> int list \<Rightarrow> int \<Rightarrow> catalog
     \<Rightarrow> (rstr \<times> catalog) option" where
  "do_collapse uuid actor run i n title summary seqs now c =
     (case new_node_id uuid c of (digest, c1) \<Rightarrow>
      case insert_node digest (cn_parent_id n) (lit ''digest'')
             (case title of None \<Rightarrow> cn_title n @ lit '' (digest)'' | Some t \<Rightarrow> t) summary None actor now c1 of
        None \<Rightarrow> None
      | Some c2 \<Rightarrow>
          (case fold (cite_seq digest now) seqs (c2, []) of (c3, citations) \<Rightarrow>
           case retire_node_subtree i run (Some digest) c3 of (c4, marked) \<Rightarrow>
             Some (digest,
               journal_op run (lit ''collapse'')
                 (subject_node i # subject_node digest # map subject_node (filter (\<lambda>m. m \<noteq> i) (rs_nodes marked)))
                 (ImCollapse i digest (rs_nodes marked) (rs_links marked) (rs_obs marked) citations) None c4)))"

definition apply_collapse :: "(nat \<Rightarrow> rstr) \<Rightarrow> rstr \<Rightarrow> int \<Rightarrow> int \<Rightarrow> proposal_row \<Rightarrow> catalog \<Rightarrow> reorg" where
  "apply_collapse uuid actor run now p c =
     (let i = or_empty (pp_node_id p);
          seqs = (case pp_extra p of ExtraSeqs ss \<Rightarrow> ss | _ \<Rightarrow> [])
      in case node c i of
           None \<Rightarrow> SqlError
         | Some n \<Rightarrow>
             (case do_collapse uuid actor run i n (pp_title p) (pp_summary p) seqs now c of
                None \<Rightarrow> SqlError
              | Some (digest, c1) \<Rightarrow> Reorganised (lit ''digest '' @ digest) c1))"

text \<open>A merge: the first id absorbs the others, one after the other.\<close>

record merge_log =
  ml_subjects :: "rstr list"
  ml_absorbed :: "(rstr \<times> rstr option \<times> rstr) list"
  ml_moved :: "(int \<times> rstr) list"
  ml_leftover :: "int list"
  ml_children :: "(rstr \<times> rstr) list"
  ml_obs :: "int list"

definition merge_link :: "int \<Rightarrow> rstr \<Rightarrow> rstr \<Rightarrow> int \<Rightarrow> catalog \<times> merge_log \<Rightarrow> catalog \<times> merge_log" where
  "merge_link run target other l st =
     (case st of (c, g) \<Rightarrow>
        let g' = g\<lparr>ml_subjects := ml_subjects g @ [subject_link l]\<rparr>
        in case move_link l target c of
             Some c' \<Rightarrow> (c', g'\<lparr>ml_moved := ml_moved g @ [(l, other)]\<rparr>)
           | None \<Rightarrow> (retire_link run l c, g'\<lparr>ml_leftover := ml_leftover g @ [l]\<rparr>))"

definition adopt :: "rstr \<Rightarrow> rstr \<Rightarrow> int \<Rightarrow> rstr \<Rightarrow> catalog \<times> merge_log \<Rightarrow> catalog \<times> merge_log" where
  "adopt target other now k st =
     (case st of (c, g) \<Rightarrow> (set_parent k (Some target) now c, g\<lparr>ml_children := ml_children g @ [(k, other)]\<rparr>))"

definition absorb_class :: "int \<Rightarrow> rstr \<Rightarrow> int \<Rightarrow> rstr \<Rightarrow> catalog \<times> merge_log \<Rightarrow> catalog \<times> merge_log" where
  "absorb_class run target now other st =
     (case st of (c, g) \<Rightarrow>
        if \<not> live_node c other then st
        else
          (case node c other of
             None \<Rightarrow> st
           | Some n \<Rightarrow>
               (case fold (merge_link run target other) (live_links_of c other)
                       (c, g\<lparr>ml_subjects := ml_subjects g @ [subject_node other]\<rparr>) of (c1, g1) \<Rightarrow>
                  let bs = live_obs_of c1 other;
                      c2 = fold (retire_obs run) bs c1;
                      g2 = g1\<lparr>ml_obs := ml_obs g1 @ bs\<rparr>
                  in case fold (adopt target other now) (live_children c2 other) (c2, g2) of (c3, g3) \<Rightarrow>
                       (update_nodes (\<lambda>m. cn_id m = other)
                          (\<lambda>m. m\<lparr>nr_retired_by := Some run, nr_retired_into := Some target\<rparr>) c3,
                        g3\<lparr>ml_absorbed := ml_absorbed g3 @ [(other, cn_parent_id n, cn_title n)]\<rparr>))))"

definition do_merge ::
  "int \<Rightarrow> rstr \<Rightarrow> node_row \<Rightarrow> rstr list \<Rightarrow> rstr option \<Rightarrow> rstr option \<Rightarrow> int \<Rightarrow> catalog \<Rightarrow> catalog" where
  "do_merge run target n others title parent now c =
     (let c1 = (case title of None \<Rightarrow> c | Some t \<Rightarrow> set_title target t now c);
          c2 = (case parent of None \<Rightarrow> c1 | Some q \<Rightarrow> set_parent target (Some q) now c1)
      in case fold (absorb_class run target now) others
                (c2, \<lparr>ml_subjects = [subject_node target], ml_absorbed = [], ml_moved = [], ml_leftover = [],
                      ml_children = [], ml_obs = []\<rparr>) of (c3, g) \<Rightarrow>
           journal_op run (lit ''merge'') (ml_subjects g)
             (ImMerge target (cn_title n) (cn_parent_id n) (ml_absorbed g) (ml_moved g) (ml_leftover g)
                (ml_children g) (ml_obs g)) None c3)"

definition apply_merge :: "int \<Rightarrow> int \<Rightarrow> proposal_row \<Rightarrow> catalog \<Rightarrow> reorg" where
  "apply_merge run now p c =
     (case pp_extra p of
        ExtraIds (target # others) \<Rightarrow>
          (case node c target of
             None \<Rightarrow> SqlError
           | Some n \<Rightarrow>
               Reorganised (lit ''merged '' @ show_nat (length (target # others)) @ lit '' into '' @ target)
                 (do_merge run target n others (pp_title p) (pp_parent_id p) now c))
      | _ \<Rightarrow> Refused)"

text \<open>A split: each part becomes a sibling and takes the links it names that are live on the node.\<close>

definition split_link :: "rstr \<Rightarrow> rstr \<Rightarrow> int \<Rightarrow> catalog \<times> int list \<Rightarrow> catalog \<times> int list" where
  "split_link i new l st =
     (case st of (c, moved) \<Rightarrow>
        if (case link c l of None \<Rightarrow> False | Some k \<Rightarrow> cl_node_id k = i \<and> lr_retired_by k = None)
        then (case move_link l new c of None \<Rightarrow> st | Some c' \<Rightarrow> (c', moved @ [l]))
        else st)"

fun split_parts ::
  "(nat \<Rightarrow> rstr) \<Rightarrow> rstr \<Rightarrow> rstr \<Rightarrow> rstr option \<Rightarrow> int \<Rightarrow> split_part list \<Rightarrow> catalog
     \<Rightarrow> (catalog \<times> (rstr \<times> rstr \<times> int list) list) option" where
  "split_parts uuid actor i parent now [] c = Some (c, [])"
| "split_parts uuid actor i parent now (part # parts) c =
     (case new_node_id uuid c of (new, c1) \<Rightarrow>
      case insert_node new parent (lit ''node'') (sp_title part) None None actor now c1 of
        None \<Rightarrow> None
      | Some c2 \<Rightarrow>
          (case fold (split_link i new) (sp_link_ids part) (c2, []) of (c3, moved) \<Rightarrow>
           case split_parts uuid actor i parent now parts c3 of
             None \<Rightarrow> None
           | Some (c4, made) \<Rightarrow> Some (c4, (new, sp_title part, moved) # made)))"

definition do_split ::
  "(nat \<Rightarrow> rstr) \<Rightarrow> rstr \<Rightarrow> int \<Rightarrow> rstr \<Rightarrow> rstr option \<Rightarrow> split_part list \<Rightarrow> int \<Rightarrow> catalog \<Rightarrow> catalog option" where
  "do_split uuid actor run i parent parts now c =
     (case split_parts uuid actor i parent now parts c of
        None \<Rightarrow> None
      | Some (c1, made) \<Rightarrow>
          Some (journal_op run (lit ''split'') (subject_node i # map (\<lambda>(m, _, _). subject_node m) made)
            (ImSplit i parent made) None c1))"

definition apply_split :: "(nat \<Rightarrow> rstr) \<Rightarrow> rstr \<Rightarrow> int \<Rightarrow> int \<Rightarrow> proposal_row \<Rightarrow> catalog \<Rightarrow> reorg" where
  "apply_split uuid actor run now p c =
     (let i = or_empty (pp_node_id p);
          parts = (case pp_extra p of ExtraParts ps \<Rightarrow> ps | _ \<Rightarrow> [])
      in case node c i of
           None \<Rightarrow> SqlError
         | Some n \<Rightarrow>
             (case do_split uuid actor run i (cn_parent_id n) parts now c of
                None \<Rightarrow> SqlError
              | Some c1 \<Rightarrow> Reorganised (lit ''split into '' @ show_nat (length parts)) c1))"

definition do_supersede ::
  "sha_fn \<Rightarrow> rstr \<Rightarrow> int \<Rightarrow> int \<Rightarrow> int \<Rightarrow> rstr \<Rightarrow> int \<Rightarrow> catalog \<Rightarrow> supersession_outcome option \<times> catalog" where
  "do_supersede sha actor run old new rationale now c =
     (case apply_supersession sha True True old new rationale actor now (ct_dec c) of
        (Some (Applied eff n ev), d) \<Rightarrow>
          (Some (Applied eff n ev),
           journal_op run (lit ''supersede'') [subject_seq eff, subject_seq n] (ImSupersede eff n ev) (Some ev) (c\<lparr>ct_dec := d\<rparr>))
      | (out, d) \<Rightarrow> (out, c\<lparr>ct_dec := d\<rparr>))"

definition apply_supersede :: "sha_fn \<Rightarrow> rstr \<Rightarrow> int \<Rightarrow> int \<Rightarrow> proposal_row \<Rightarrow> catalog \<Rightarrow> reorg" where
  "apply_supersede sha actor run now p c =
     (case pp_extra p of
        ExtraPair old new \<Rightarrow>
          (case do_supersede sha actor run old new (or_empty (pp_rationale p)) now c of
             (Some (Applied eff n ev), c1) \<Rightarrow>
               Reorganised ([35] @ show_int eff @ [32, 8594, 32, 35] @ show_int n) c1
           | (Some (Rejected m), c1) \<Rightarrow> Refused
           | (None, c1) \<Rightarrow> SqlError)
      | _ \<Rightarrow> Refused)"

definition reorganise :: "sha_fn \<Rightarrow> (nat \<Rightarrow> rstr) \<Rightarrow> rstr \<Rightarrow> int \<Rightarrow> int \<Rightarrow> proposal_row \<Rightarrow> catalog \<Rightarrow> reorg" where
  "reorganise sha uuid actor run now p c =
     (if pp_op p = lit ''promote'' then apply_promote run now p c
      else if pp_op p = lit ''collapse'' then apply_collapse uuid actor run now p c
      else if pp_op p = lit ''merge'' then apply_merge run now p c
      else if pp_op p = lit ''split'' then apply_split uuid actor run now p c
      else if pp_op p = lit ''supersede'' then apply_supersede sha actor run now p c
      else Refused)"

record applied_reorg =
  ar_op :: rstr
  ar_node_id :: rstr
  ar_detail :: rstr

definition finish_curation :: "bool \<Rightarrow> int \<Rightarrow> int \<Rightarrow> int \<Rightarrow> catalog \<Rightarrow> catalog" where
  "finish_curation made run i ops c =
     (if made
      then update_run run (\<lambda>x. x\<lparr>ru_status := lit ''done'', ru_outcome := Some (lit ''done''), ru_ops := Some ops,
             ru_summary := Some (lit ''applied proposal #'' @ show_int i)\<rparr>) c
      else c)"

text \<open>The transaction.\<close>

definition apply_locked ::
  "sha_fn \<Rightarrow> (nat \<Rightarrow> rstr) \<Rightarrow> rstr \<Rightarrow> int \<Rightarrow> bool \<Rightarrow> int \<Rightarrow> proposal_row \<Rightarrow> catalog
     \<Rightarrow> (applied_reorg option \<times> catalog) option" where
  "apply_locked sha uuid actor run made now p c =
     (if \<not> list_ex (\<lambda>q. pp_id q = pp_id p \<and> pending q) (ct_props c) \<or> run_source_forgotten c run
         \<or> (case pp_run_id p of None \<Rightarrow> False | Some r \<Rightarrow> run_source_forgotten c r)
      then Some (None, c)
      else
        (case reorganise sha uuid actor run now p c of
           SqlError \<Rightarrow> None
         | Refused \<Rightarrow> Some (None, finish_curation made run (pp_id p) 0 (drop_proposal (pp_id p) c))
         | Reorganised detail c1 \<Rightarrow>
             Some (Some \<lparr>ar_op = pp_op p, ar_node_id = or_empty (pp_node_id p), ar_detail = detail\<rparr>,
                   finish_curation made run (pp_id p) 1 (drop_proposal (pp_id p) c1))))"

definition apply_class_proposal_in_run ::
  "sha_fn \<Rightarrow> (nat \<Rightarrow> rstr) \<Rightarrow> int \<Rightarrow> rstr \<Rightarrow> int option \<Rightarrow> int \<Rightarrow> catalog \<Rightarrow> (unit + applied_reorg option) \<times> catalog" where
  "apply_class_proposal_in_run sha uuid i actor run now c =
     (case get_class_proposal c i of
        None \<Rightarrow> (Inr None, c)
      | Some p \<Rightarrow>
          (case (case run of Some r \<Rightarrow> Some r | None \<Rightarrow> pp_run_id p) of
             Some r \<Rightarrow>
               (case apply_locked sha uuid actor r False now p c of
                  None \<Rightarrow> (Inl (), c) | Some (out, c1) \<Rightarrow> (Inr out, c1))
           | None \<Rightarrow>
               (case insert_class_run_with (lit ''curation'') c of (r, c0) \<Rightarrow>
                case apply_locked sha uuid actor r True now p c0 of
                  None \<Rightarrow> (Inl (), c0) | Some (out, c1) \<Rightarrow> (Inr out, c1))))"

definition apply_class_proposal ::
  "sha_fn \<Rightarrow> (nat \<Rightarrow> rstr) \<Rightarrow> int \<Rightarrow> rstr \<Rightarrow> int \<Rightarrow> catalog \<Rightarrow> (unit + applied_reorg option) \<times> catalog" where
  "apply_class_proposal sha uuid i actor now c = apply_class_proposal_in_run sha uuid i actor None now c"

section \<open>Observations\<close>

text \<open>
  A pattern statement over a node's items: a row and an \<^verbatim>\<open>observation\<close> event in one transaction.  The
  guard against repeats counts retired rows.
\<close>

definition show_ints :: "int list \<Rightarrow> rstr" where
  "show_ints xs = [91] @ join [44] (map show_int xs) @ [93]"

definition observation_append :: "sha_fn \<Rightarrow> rstr \<Rightarrow> rstr \<Rightarrow> int \<Rightarrow> (rstr \<times> rstr) list \<Rightarrow> ledger_append" where
  "observation_append sha actor i now hashed =
     \<lparr>la_kind = event_kind_as_str EkObservation, la_author = actor, la_ts = now, la_prompt_id = None,
      la_session_id = None, la_version_number = None, la_ref_kind = Some (lit ''class_node''), la_ref_id = Some i,
      la_payload_hash = decision_payload_hash sha hashed\<rparr>"

definition insert_class_observation ::
  "sha_fn \<Rightarrow> rstr \<Rightarrow> rstr \<Rightarrow> int list \<Rightarrow> rstr \<Rightarrow> int \<Rightarrow> catalog \<Rightarrow> (int \<times> int) option \<times> catalog" where
  "insert_class_observation sha i summary cites actor now c =
     (if cites = [] \<or> trim summary = [] \<or> list_ex (source_forgotten c) cites \<or> \<not> live_node c i
         \<or> list_ex (\<lambda>b. co_node_id b = i \<and> co_summary b = summary) (ct_obs c)
      then (None, c)
      else
        let o1 = ct_obs_seq c + 1;
            (ev, rows) = append_in_txn sha
              (observation_append sha actor i now
                [(lit ''node'', i), (lit ''summary'', summary), (lit ''cites'', show_ints cites)]) (dc_events (ct_dec c));
            row = \<lparr>co_id = o1, co_node_id = i, co_summary = summary, co_cite_seqs = cites, co_created_seq = Some (ev_seq ev),
              co_pinned = False, co_dismissed = False, co_created_at = now, co_retired_at = None,
              co_retired_reason = None, or_retired_by = None\<rparr>
        in (Some (o1, ev_seq ev),
            c\<lparr>ct_obs := ct_obs c @ [row], ct_obs_seq := o1, ct_dec := (ct_dec c)\<lparr>dc_events := rows\<rparr>\<rparr>))"

definition insert_class_observation_in_run ::
  "sha_fn \<Rightarrow> int \<Rightarrow> rstr \<Rightarrow> rstr \<Rightarrow> int list \<Rightarrow> rstr \<Rightarrow> int \<Rightarrow> catalog \<Rightarrow> int option \<times> catalog" where
  "insert_class_observation_in_run sha run i summary cites actor now c =
     (if run_source_forgotten c run then (None, c)
      else
        (case insert_class_observation sha i summary cites actor now c of
           (None, c1) \<Rightarrow> (None, c1)
         | (Some (b, s), c1) \<Rightarrow>
             (Some b, journal_op run (lit ''observe'') [subject_obs b, subject_node i] (ImObserve b i s) (Some s) c1)))"

definition serving :: "obs_row \<Rightarrow> bool" where
  "serving b \<longleftrightarrow> co_retired_at b = None \<and> or_retired_by b = None"

definition list_class_observations :: "catalog \<Rightarrow> rstr \<Rightarrow> obs_row list" where
  "list_class_observations c i =
     rev (sort_key (\<lambda>b. (co_created_at b, co_id b)) (filter (\<lambda>b. co_node_id b = i \<and> serving b) (ct_obs c)))"

definition list_live_observations :: "catalog \<Rightarrow> obs_row list" where
  "list_live_observations c = sort_key co_id (filter serving (ct_obs c))"

definition retire_observation :: "sha_fn \<Rightarrow> int \<Rightarrow> rstr \<Rightarrow> rstr \<Rightarrow> int \<Rightarrow> catalog \<Rightarrow> rstr option \<times> catalog" where
  "retire_observation sha b reason actor now c =
     (case find (\<lambda>x. co_id x = b \<and> serving x) (ct_obs c) of
        None \<Rightarrow> (None, c)
      | Some x \<Rightarrow>
          let c1 = update_obs (\<lambda>y. co_id y = b) (\<lambda>y. y\<lparr>co_retired_at := Some now, co_retired_reason := Some reason\<rparr>) c;
              (ev, rows) = append_in_txn sha
                (observation_append sha actor (co_node_id x) now
                  [(lit ''action'', lit ''retire''), (lit ''observation'', show_int b), (lit ''node'', co_node_id x),
                   (lit ''reason'', reason)]) (dc_events (ct_dec c))
          in (Some (co_node_id x), c1\<lparr>ct_dec := (ct_dec c1)\<lparr>dc_events := rows\<rparr>\<rparr>))"

text \<open>Citations that no longer stand; \<open>gist\<close> is the prompts table's column.\<close>

definition dead_citations :: "(int \<Rightarrow> rstr option) \<Rightarrow> int list \<Rightarrow> catalog \<Rightarrow> int list" where
  "dead_citations gist seqs c =
     filter (\<lambda>s. case find (\<lambda>e. ev_seq e = s) (dc_events (ct_dec c)) of
         None \<Rightarrow> True
       | Some e \<Rightarrow> (case ev_prompt_id e of None \<Rightarrow> False | Some p \<Rightarrow> gist p = Some (lit ''[forgotten]''))) seqs"

definition newest_observation_per_node :: "catalog \<Rightarrow> rstr \<rightharpoonup> int" where
  "newest_observation_per_node c i =
     (case map co_created_at (filter (\<lambda>b. co_node_id b = i \<and> serving b) (ct_obs c)) of
        [] \<Rightarrow> None | t # ts \<Rightarrow> Some (fold max ts t))"

end
