(* ===== verification/Revert.thy ===== *)
theory Revert
  imports Reorg
begin

text \<open>
  \<^verbatim>\<open>revert_run\<close> and \<^verbatim>\<open>vacuum_retired\<close> of \<^verbatim>\<open>runs.rs\<close>: the operations of a run are undone newest first, each from
  the image its apply path left in the journal.  Of the inverses, \<^verbatim>\<open>claim\<close> and \<^verbatim>\<open>compact\<close> belong to other tables and
  are not modelled.
\<close>

section \<open>The inverse of one operation\<close>

text \<open>Moving a link back is a plain \<^verbatim>\<open>UPDATE\<close>: the unique index makes it an error, here \<open>None\<close>.\<close>

definition return_link :: "int \<Rightarrow> rstr \<Rightarrow> catalog \<Rightarrow> catalog option" where
  "return_link l i c = (if link_taken l i c then None else Some (put_link l i c))"

fun return_links :: "(int \<times> rstr) list \<Rightarrow> catalog \<Rightarrow> catalog option" where
  "return_links [] c = Some c"
| "return_links ((l, i) # ps) c = (case return_link l i c of None \<Rightarrow> None | Some c' \<Rightarrow> return_links ps c')"

definition shelve_node :: "int \<Rightarrow> rstr \<Rightarrow> catalog \<Rightarrow> catalog" where
  "shelve_node by i = update_nodes (\<lambda>n. cn_id n = i \<and> nr_retired_by n = None) (\<lambda>n. n\<lparr>nr_retired_by := Some by\<rparr>)"

definition shelve_link :: "int \<Rightarrow> int \<Rightarrow> catalog \<Rightarrow> catalog" where
  "shelve_link by l = update_links (\<lambda>k. cl_id k = l \<and> lr_retired_by k = None) (\<lambda>k. k\<lparr>lr_retired_by := Some by\<rparr>)"

definition unretire_node :: "int \<Rightarrow> rstr \<Rightarrow> catalog \<Rightarrow> catalog" where
  "unretire_node run i = update_nodes (\<lambda>n. cn_id n = i \<and> nr_retired_by n = Some run)
     (\<lambda>n. n\<lparr>nr_retired_by := None, nr_retired_into := None\<rparr>)"

definition unretire_link :: "int \<Rightarrow> int \<Rightarrow> catalog \<Rightarrow> catalog" where
  "unretire_link run l = update_links (\<lambda>k. cl_id k = l \<and> lr_retired_by k = Some run) (\<lambda>k. k\<lparr>lr_retired_by := None\<rparr>)"

definition unretire_obs :: "int \<Rightarrow> int \<Rightarrow> catalog \<Rightarrow> catalog" where
  "unretire_obs run b = update_obs (\<lambda>x. co_id x = b \<and> or_retired_by x = Some run) (\<lambda>x. x\<lparr>or_retired_by := None\<rparr>)"

definition unretire :: "int \<Rightarrow> rstr list \<Rightarrow> int list \<Rightarrow> int list \<Rightarrow> catalog \<Rightarrow> catalog" where
  "unretire run ns ls bs c =
     fold (unretire_obs run) bs (fold (unretire_link run) ls (fold (unretire_node run) ns c))"

definition plain_title :: "rstr \<Rightarrow> rstr \<Rightarrow> catalog \<Rightarrow> catalog" where
  "plain_title i t = update_nodes (\<lambda>n. cn_id n = i) (\<lambda>n. n\<lparr>cn_title := t\<rparr>)"

definition plain_parent :: "rstr \<Rightarrow> rstr option \<Rightarrow> catalog \<Rightarrow> catalog" where
  "plain_parent i p = update_nodes (\<lambda>n. cn_id n = i) (\<lambda>n. n\<lparr>cn_parent_id := p\<rparr>)"

text \<open>A part of a split: the links that are still on it go back, then it is retired.\<close>

definition still_on :: "catalog \<Rightarrow> int \<Rightarrow> rstr \<Rightarrow> bool" where
  "still_on c l i \<longleftrightarrow> (case link c l of None \<Rightarrow> False | Some k \<Rightarrow> cl_node_id k = i)"

fun unsplit_links :: "rstr \<Rightarrow> rstr \<Rightarrow> int list \<Rightarrow> catalog \<Rightarrow> catalog option" where
  "unsplit_links i part [] c = Some c"
| "unsplit_links i part (l # ls) c =
     (if still_on c l part
      then (case return_link l i c of None \<Rightarrow> None | Some c' \<Rightarrow> unsplit_links i part ls c')
      else unsplit_links i part ls c)"

fun unsplit :: "int \<Rightarrow> rstr \<Rightarrow> (rstr \<times> rstr \<times> int list) list \<Rightarrow> catalog \<Rightarrow> catalog option" where
  "unsplit by i [] c = Some c"
| "unsplit by i ((part, title, ls) # made) c =
     (case unsplit_links i part ls c of None \<Rightarrow> None | Some c' \<Rightarrow> unsplit by i made (shelve_node by part c'))"

definition delete_supersession :: "int \<Rightarrow> int \<Rightarrow> catalog \<Rightarrow> catalog" where
  "delete_supersession old ev c =
     c\<lparr>ct_dec := (ct_dec c)\<lparr>dc_supers := filter (\<lambda>r. \<not> (su_old r = old \<and> su_event r = ev)) (dc_supers (ct_dec c))\<rparr>\<rparr>"

lemma delete_supersession_edge:
  "delete_supersession old ev c = c\<lparr>ct_dec := delete_edge old ev (ct_dec c)\<rparr>"
  by (simp add: delete_supersession_def delete_edge_def)

fun invert_image :: "int \<Rightarrow> int \<Rightarrow> image \<Rightarrow> catalog \<Rightarrow> catalog option" where
  "invert_image run by (ImFile l i kind target (Some r)) c = Some (retire_link r l c)"
| "invert_image run by (ImFile l i kind target None) c = Some (remove_link l c)"
| "invert_image run by (ImCreate i parent title) c = Some (shelve_node by i c)"
| "invert_image run by (ImPromote i old new) c = Some (plain_parent i old c)"
| "invert_image run by (ImSplit i parent made) c = unsplit by i made c"
| "invert_image run by (ImMerge target title parent absorbed moved leftover children bs) c =
     (case return_links moved (plain_parent target parent (plain_title target title c)) of
        None \<Rightarrow> None
      | Some c1 \<Rightarrow>
          Some (unretire run (map fst absorbed) leftover bs
            (fold (\<lambda>(k, p). plain_parent k (Some p)) children c1)))"
| "invert_image run by (ImCollapse i digest ns ls bs cites) c =
     Some (unretire run ns ls bs (fold (shelve_link by) cites (shelve_node by digest c)))"
| "invert_image run by (ImSupersede old new ev) c = Some (delete_supersession old ev c)"
| "invert_image run by (ImObserve b i s) c =
     Some (update_obs (\<lambda>x. co_id x = b \<and> or_retired_by x = None) (\<lambda>x. x\<lparr>or_retired_by := Some by\<rparr>) c)"

section \<open>Reverting a run\<close>

text \<open>Why an inverse fails, why a revert is refused (the code words these as messages), and the receipt.\<close>

datatype op_failure = NoImage | Conflict

datatype revert_refusal =
  NoRun | AlreadyReverted | PastHorizon int | NothingToRevert | RevertFirst int | OpFailed int rstr op_failure

record revert_receipt =
  rr_run_id :: int
  rr_reverted_ops :: nat
  rr_event_seq :: int
  rr_revert_run_id :: int

definition invert_op :: "int \<Rightarrow> int \<Rightarrow> image option \<Rightarrow> catalog \<Rightarrow> op_failure + catalog" where
  "invert_op run by im c =
     (case im of
        None \<Rightarrow> Inl NoImage
      | Some i \<Rightarrow> (case invert_image run by i c of None \<Rightarrow> Inl Conflict | Some c' \<Rightarrow> Inr c'))"

definition mark_reverted :: "int \<Rightarrow> int \<Rightarrow> int \<Rightarrow> catalog \<Rightarrow> catalog" where
  "mark_reverted run by ix c =
     c\<lparr>ct_ops := map (\<lambda>x. if op_run_id x = run \<and> op_ix x = ix
        then x\<lparr>op_outcome := lit ''reverted'', op_reverted_by := Some by\<rparr> else x) (ct_ops c)\<rparr>"

text \<open>The image is read again by its key, which is the key of the row at hand.\<close>

fun revert_ops :: "int \<Rightarrow> int \<Rightarrow> op_row list \<Rightarrow> catalog \<Rightarrow> revert_refusal + catalog" where
  "revert_ops run by [] c = Inr c"
| "revert_ops run by (x # xs) c =
     (case invert_op run by (op_image x) c of
        Inl f \<Rightarrow> Inl (OpFailed (op_ix x) (op_name x) f)
      | Inr c' \<Rightarrow> revert_ops run by xs (mark_reverted run by (op_ix x) c'))"

definition list_run_ops :: "catalog \<Rightarrow> int \<Rightarrow> op_row list" where
  "list_run_ops c run = sort_key op_ix (filter (\<lambda>x. op_run_id x = run) (ct_ops c))"

definition applied_op :: "op_row \<Rightarrow> bool" where
  "applied_op x \<longleftrightarrow> op_outcome x = lit ''applied''"

text \<open>The newest later run with an applied operation on one of the subjects.\<close>

definition later_run :: "catalog \<Rightarrow> int \<Rightarrow> rstr list \<Rightarrow> int option" where
  "later_run c run subjects =
     map_option op_run_id
       (find (\<lambda>x. list_ex (\<lambda>s. s \<in> set subjects) (op_subjects x))
         (rev (sort_key op_run_id (filter (\<lambda>x. op_run_id x > run \<and> applied_op x) (ct_ops c)))))"

definition revert_refused :: "catalog \<Rightarrow> int \<Rightarrow> revert_refusal option" where
  "revert_refused c run =
     (case find (\<lambda>x. ru_id x = run) (ct_runs c) of
        None \<Rightarrow> Some NoRun
      | Some x \<Rightarrow>
          if ru_outcome x = Some (lit ''reverted'') \<or> ru_outcome x = Some (lit ''reverted_by_canary'')
          then Some AlreadyReverted
          else
            let applied = filter applied_op (list_run_ops c run);
                past = (case ct_horizon c of None \<Rightarrow> False | Some h \<Rightarrow> run \<le> h)
            in if past then Some (PastHorizon (the (ct_horizon c)))
               else if applied = [] then Some NothingToRevert
               else map_option RevertFirst (later_run c run (concat (map op_subjects applied))))"

definition revert_append :: "sha_fn \<Rightarrow> rstr \<Rightarrow> int \<Rightarrow> nat \<Rightarrow> int \<Rightarrow> int \<Rightarrow> ledger_append" where
  "revert_append sha actor run reverted by now =
     \<lparr>la_kind = event_kind_as_str EkGardenerRevert, la_author = actor, la_ts = now, la_prompt_id = None,
      la_session_id = None, la_version_number = None, la_ref_kind = Some (lit ''class_run''),
      la_ref_id = Some (show_int run),
      la_payload_hash = decision_payload_hash sha
        [(lit ''run'', show_int run), (lit ''ops_reverted'', show_nat reverted), (lit ''by_run'', show_int by)]\<rparr>"

definition revert_run :: "sha_fn \<Rightarrow> int \<Rightarrow> rstr \<Rightarrow> int \<Rightarrow> catalog \<Rightarrow> (revert_refusal + revert_receipt) \<times> catalog" where
  "revert_run sha run actor now c =
     (case revert_refused c run of
        Some e \<Rightarrow> (Inl e, c)
      | None \<Rightarrow>
          let applied = filter applied_op (list_run_ops c run);
              (by, c0) = insert_class_run_with (lit ''revert'') c
          in case revert_ops run by (rev applied) c0 of
               Inl e \<Rightarrow> (Inl e, c)
             | Inr c1 \<Rightarrow>
                 let (ev, rows) = append_in_txn sha (revert_append sha actor run (length applied) by now) (dc_events (ct_dec c1));
                     c2 = update_run run (\<lambda>x. x\<lparr>ru_outcome := Some (lit ''reverted'')\<rparr>)
                       (c1\<lparr>ct_dec := (ct_dec c1)\<lparr>dc_events := rows\<rparr>\<rparr>);
                     c3 = update_run by (\<lambda>x. x\<lparr>ru_status := lit ''done'', ru_outcome := Some (lit ''done''),
                       ru_ops := Some (int (length applied)),
                       ru_summary := Some (lit ''reverted run #'' @ show_int run @ lit '': '' @ show_nat (length applied)
                         @ lit '' op(s)'')\<rparr>) c2
                 in (Inr \<lparr>rr_run_id = run, rr_reverted_ops = length applied, rr_event_seq = ev_seq ev,
                          rr_revert_run_id = by\<rparr>, c3))"

section \<open>Vacuum\<close>

record vacuum_report =
  vr_horizon_run :: int
  vr_nodes :: nat
  vr_links :: nat
  vr_observations :: nat
  vr_images :: nat

definition dead_mark :: "int \<Rightarrow> int option \<Rightarrow> bool" where
  "dead_mark h m \<longleftrightarrow> (case m of None \<Rightarrow> False | Some r \<Rightarrow> r \<le> h)"

definition vacuum_retired :: "int \<Rightarrow> catalog \<Rightarrow> vacuum_report \<times> catalog" where
  "vacuum_retired older c =
     (let newest = (case map ru_id (ct_runs c) of [] \<Rightarrow> 0 | r # rs \<Rightarrow> fold max rs r);
          h = newest - max older 0;
          prior = (case ct_horizon c of None \<Rightarrow> 0 | Some p \<Rightarrow> p);
          none = \<lparr>vr_horizon_run = h, vr_nodes = 0, vr_links = 0, vr_observations = 0, vr_images = 0\<rparr>
      in if h \<le> 0 then (none, c)
         else if h \<le> prior then (none\<lparr>vr_horizon_run := prior\<rparr>, c)
         else
           (\<lparr>vr_horizon_run = h,
             vr_nodes = length (filter (\<lambda>n. dead_mark h (nr_retired_by n)) (ct_nodes c)),
             vr_links = length (filter (\<lambda>k. dead_mark h (lr_retired_by k)) (ct_links c)),
             vr_observations = length (filter (\<lambda>b. dead_mark h (or_retired_by b)) (ct_obs c)),
             vr_images = length (filter (\<lambda>x. op_run_id x \<le> h \<and> op_image x \<noteq> None) (ct_ops c))\<rparr>,
            c\<lparr>ct_links := filter (\<lambda>k. \<not> dead_mark h (lr_retired_by k)) (ct_links c),
              ct_obs := filter (\<lambda>b. \<not> dead_mark h (or_retired_by b)) (ct_obs c),
              ct_nodes := filter (\<lambda>n. \<not> dead_mark h (nr_retired_by n)) (ct_nodes c),
              ct_ops := map (\<lambda>x. if op_run_id x \<le> h then x\<lparr>op_image := None\<rparr> else x) (ct_ops c),
              ct_horizon := Some h\<rparr>))"

end
