(* ===== verification/Restore.thy ===== *)
theory Restore
  imports Revert
begin

text \<open>
  A revert restores the catalogue: whatever a run did through the store's own operations, reverting it
  brings back every row that was there before, and what the run made is gone or retired.  The inverse of an
  operation is shown to act row by row (\<open>undo_node\<close>, \<open>undo_link\<close>, \<open>undo_obs\<close>), and each operation to be undone
  by the rows' functions of the image it journals (\<open>undoes\<close>).
\<close>

named_theorems rows

section \<open>Rows\<close>

lemma find_map_key:
  assumes "\<And>x. key (f x) = key x"
  shows "find (\<lambda>x. key x = i) (map f xs) = map_option f (find (\<lambda>x. key x = i) xs)"
  by (induction xs) (auto simp: assms)

lemma find_filter_key:
  "find (\<lambda>x. key x = i) (filter (\<lambda>x. key x \<noteq> j) xs) = (if i = j then None else find (\<lambda>x. key x = i) xs)"
  by (induction xs) auto

lemma find_append: "find P (xs @ ys) = (case find P xs of None \<Rightarrow> find P ys | Some x \<Rightarrow> Some x)"
  by (induction xs) auto

lemma find_key_mem:
  assumes "distinct (map key xs)"
  shows "find (\<lambda>x. key x = i) xs = Some x \<longleftrightarrow> x \<in> set xs \<and> key x = i"
  using assms by (induction xs) auto

lemma find_key_None: "find (\<lambda>x. key x = i) xs = None \<longleftrightarrow> i \<notin> key ` set xs"
  by (auto simp: find_None_iff)

lemma find_key_id: "find (\<lambda>x. key x = i) xs = Some x \<Longrightarrow> key x = i"
  by (auto simp: find_Some_iff)

lemma node_id: "node c i = Some n \<Longrightarrow> cn_id n = i" by (auto simp: node_def dest: find_key_id)
lemma link_id: "link c l = Some k \<Longrightarrow> cl_id k = l" by (auto simp: link_def dest: find_key_id)
lemma obs_id: "obs c b = Some x \<Longrightarrow> co_id x = b" by (auto simp: obs_def dest: find_key_id)

text \<open>A statement over many rows is one map.\<close>

lemma fold_map: "fold (\<lambda>k xs. map (f k) xs) ks xs = map (fold f ks) xs"
  by (induction ks arbitrary: xs) (auto simp: comp_def)

lemma fold_update_nodes:
  "fold (\<lambda>k. update_nodes (P k) (f k)) ks c
     = update_nodes (\<lambda>_. True) (fold (\<lambda>k n. if P k n then f k n else n) ks) c"
proof (induction ks arbitrary: c)
  case (Cons k ks)
  then show ?case by (simp add: update_nodes_def comp_def)
qed (simp add: update_nodes_def)

lemma fold_update_links:
  "fold (\<lambda>k. update_links (P k) (f k)) ks c
     = update_links (\<lambda>_. True) (fold (\<lambda>k n. if P k n then f k n else n) ks) c"
proof (induction ks arbitrary: c)
  case (Cons k ks)
  then show ?case by (simp add: update_links_def comp_def)
qed (simp add: update_links_def)

lemma fold_update_obs:
  "fold (\<lambda>k. update_obs (P k) (f k)) ks c
     = update_obs (\<lambda>_. True) (fold (\<lambda>k n. if P k n then f k n else n) ks) c"
proof (induction ks arbitrary: c)
  case (Cons k ks)
  then show ?case by (simp add: update_obs_def comp_def)
qed (simp add: update_obs_def)

lemma node_update_nodes [rows]:
  assumes "\<And>n. cn_id (f n) = cn_id n"
  shows "node (update_nodes P f c) i = map_option (\<lambda>n. if P n then f n else n) (node c i)"
  unfolding node_def update_nodes_def by (simp add: find_map_key assms)

lemma link_update_links [rows]:
  assumes "\<And>k. cl_id (f k) = cl_id k"
  shows "link (update_links P f c) i = map_option (\<lambda>k. if P k then f k else k) (link c i)"
  unfolding link_def update_links_def by (simp add: find_map_key assms)

lemma obs_update_obs [rows]:
  assumes "\<And>b. co_id (f b) = co_id b"
  shows "obs (update_obs P f c) i = map_option (\<lambda>b. if P b then f b else b) (obs c i)"
  unfolding obs_def update_obs_def by (simp add: find_map_key assms)

lemma other_tables [simp, rows]:
  "link (update_nodes P f c) = link c" "obs (update_nodes P f c) = obs c" "ct_dec (update_nodes P f c) = ct_dec c"
  "node (update_links Q g c) = node c" "obs (update_links Q g c) = obs c" "ct_dec (update_links Q g c) = ct_dec c"
  "node (update_obs R h c) = node c" "link (update_obs R h c) = link c" "ct_dec (update_obs R h c) = ct_dec c"
  by (auto simp: fun_eq_iff node_def link_def obs_def update_nodes_def update_links_def update_obs_def)

section \<open>What a revert owes\<close>

definition same_node :: "node_row \<Rightarrow> node_row \<Rightarrow> bool" where
  "same_node n m \<longleftrightarrow> n\<lparr>cn_updated_at := 0\<rparr> = m\<lparr>cn_updated_at := 0\<rparr>"

text \<open>
  Every row of the first table is in the second (up to \<open>same\<close>); the second's other rows are \<open>gone\<close>.
\<close>

definition rows_back ::
  "('k \<Rightarrow> 'r option) \<Rightarrow> ('k \<Rightarrow> 'r option) \<Rightarrow> ('r \<Rightarrow> 'r \<Rightarrow> bool) \<Rightarrow> ('r \<Rightarrow> bool) \<Rightarrow> bool" where
  "rows_back S T same gone \<longleftrightarrow>
     (\<forall>i. (case S i of
             Some n \<Rightarrow> (case T i of None \<Rightarrow> False | Some m \<Rightarrow> same n m)
           | None \<Rightarrow> (case T i of None \<Rightarrow> True | Some m \<Rightarrow> gone m)))"

definition gone_link :: "catalog \<Rightarrow> link_row \<Rightarrow> bool" where
  "gone_link S k \<longleftrightarrow> lr_retired_by k \<noteq> None \<and> node S (cl_node_id k) = None"

definition restores :: "catalog \<Rightarrow> catalog \<Rightarrow> bool" where
  "restores S T \<longleftrightarrow>
     rows_back (node S) (node T) same_node (\<lambda>m. nr_retired_by m \<noteq> None)
     \<and> rows_back (link S) (link T) (=) (gone_link S)
     \<and> rows_back (obs S) (obs T) (=) (\<lambda>b. or_retired_by b \<noteq> None)
     \<and> distinct (map cl_id (ct_links T))
     \<and> dc_supers (ct_dec T) = dc_supers (ct_dec S)
     \<and> (\<exists>es. dc_events (ct_dec T) = dc_events (ct_dec S) @ es)"

lemma same_node_refl [simp]: "same_node n n" by (simp add: same_node_def)
lemma same_node_trans: "same_node a b \<Longrightarrow> same_node b c \<Longrightarrow> same_node a c" by (simp add: same_node_def)
lemma same_node_retired: "same_node a b \<Longrightarrow> nr_retired_by a = nr_retired_by b"
  unfolding same_node_def by (metis node_row.select_convs(1) node_row.surjective class_node.update_convs(12) node_row.simps)

section \<open>Inverses act row by row\<close>

definition shelve_row :: "int \<Rightarrow> rstr \<Rightarrow> node_row \<Rightarrow> node_row" where
  "shelve_row by i n = (if cn_id n = i \<and> nr_retired_by n = None then n\<lparr>nr_retired_by := Some by\<rparr> else n)"

definition clear_row :: "int \<Rightarrow> rstr \<Rightarrow> node_row \<Rightarrow> node_row" where
  "clear_row run i n = (if cn_id n = i \<and> nr_retired_by n = Some run
     then n\<lparr>nr_retired_by := None, nr_retired_into := None\<rparr> else n)"

definition parent_row :: "rstr \<times> rstr \<Rightarrow> node_row \<Rightarrow> node_row" where
  "parent_row kp n = (if cn_id n = fst kp then n\<lparr>cn_parent_id := Some (snd kp)\<rparr> else n)"

fun undo_node :: "int \<Rightarrow> int \<Rightarrow> image \<Rightarrow> node_row \<Rightarrow> node_row" where
  "undo_node run by (ImCreate i parent title) n = shelve_row by i n"
| "undo_node run by (ImPromote i old new) n = (if cn_id n = i then n\<lparr>cn_parent_id := old\<rparr> else n)"
| "undo_node run by (ImSplit i parent made) n = fold (shelve_row by) (map fst made) n"
| "undo_node run by (ImMerge target title parent absorbed moved leftover children bs) n =
     fold (clear_row run) (map fst absorbed)
       (fold parent_row children
         (if cn_id n = target then n\<lparr>cn_title := title, cn_parent_id := parent\<rparr> else n))"
| "undo_node run by (ImCollapse i digest ns ls bs cites) n =
     fold (clear_row run) ns (shelve_row by digest n)"
| "undo_node run by _ n = n"

definition place_row :: "int \<times> rstr \<Rightarrow> link_row \<Rightarrow> link_row" where
  "place_row lf k = (if cl_id k = fst lf then k\<lparr>cl_node_id := snd lf\<rparr> else k)"

definition clear_link_row :: "int \<Rightarrow> int \<Rightarrow> link_row \<Rightarrow> link_row" where
  "clear_link_row run l k = (if cl_id k = l \<and> lr_retired_by k = Some run then k\<lparr>lr_retired_by := None\<rparr> else k)"

definition shelve_link_row :: "int \<Rightarrow> int \<Rightarrow> link_row \<Rightarrow> link_row" where
  "shelve_link_row by l k = (if cl_id k = l \<and> lr_retired_by k = None then k\<lparr>lr_retired_by := Some by\<rparr> else k)"

definition unsplit_row :: "rstr \<Rightarrow> rstr \<times> rstr \<times> int list \<Rightarrow> link_row \<Rightarrow> link_row" where
  "unsplit_row i m k =
     (if cl_id k \<in> set (snd (snd m)) \<and> cl_node_id k = fst m then k\<lparr>cl_node_id := i\<rparr> else k)"

fun undo_link :: "int \<Rightarrow> int \<Rightarrow> image \<Rightarrow> link_row \<Rightarrow> link_row option" where
  "undo_link run by (ImFile l i kind target (Some r)) k =
     Some (if cl_id k = l then k\<lparr>lr_retired_by := Some r\<rparr> else k)"
| "undo_link run by (ImFile l i kind target None) k = (if cl_id k = l then None else Some k)"
| "undo_link run by (ImSplit i parent made) k = Some (fold (unsplit_row i) made k)"
| "undo_link run by (ImMerge target title parent absorbed moved leftover children bs) k =
     Some (fold (clear_link_row run) leftover (fold place_row moved k))"
| "undo_link run by (ImCollapse i digest ns ls bs cites) k =
     Some (fold (clear_link_row run) ls (fold (shelve_link_row by) cites k))"
| "undo_link run by _ k = Some k"

definition clear_obs_row :: "int \<Rightarrow> int \<Rightarrow> obs_row \<Rightarrow> obs_row" where
  "clear_obs_row run b x = (if co_id x = b \<and> or_retired_by x = Some run then x\<lparr>or_retired_by := None\<rparr> else x)"

fun undo_obs :: "int \<Rightarrow> int \<Rightarrow> image \<Rightarrow> obs_row \<Rightarrow> obs_row" where
  "undo_obs run by (ImMerge target title parent absorbed moved leftover children bs) x = fold (clear_obs_row run) bs x"
| "undo_obs run by (ImCollapse i digest ns ls bs cites) x = fold (clear_obs_row run) bs x"
| "undo_obs run by (ImObserve b i s) x = (if co_id x = b \<and> or_retired_by x = None then x\<lparr>or_retired_by := Some by\<rparr> else x)"
| "undo_obs run by _ x = x"

fun undo_supers :: "image \<Rightarrow> supersession list \<Rightarrow> supersession list" where
  "undo_supers (ImSupersede old new ev) xs = filter (\<lambda>r. \<not> (su_old r = old \<and> su_event r = ev)) xs"
| "undo_supers _ xs = xs"

text \<open>The identity of a row survives.\<close>

lemma row_ids [simp]:
  "cn_id (shelve_row by i n) = cn_id n" "cn_id (clear_row run i n) = cn_id n" "cn_id (parent_row kp n) = cn_id n"
  "cl_id (place_row lf k) = cl_id k" "cl_id (clear_link_row run l k) = cl_id k" "cl_id (shelve_link_row by l k) = cl_id k"
  "cl_id (unsplit_row i m k) = cl_id k" "co_id (clear_obs_row run b x) = co_id x"
  by (simp_all add: shelve_row_def clear_row_def parent_row_def place_row_def clear_link_row_def shelve_link_row_def
      unsplit_row_def clear_obs_row_def)

lemma fold_preserves: "(\<And>k x. g (f k x) = g x) \<Longrightarrow> g (fold f ks x) = g x"
  by (induction ks arbitrary: x) auto

lemma fold_row_ids [simp]:
  "cn_id (fold (shelve_row by) is n) = cn_id n" "cn_id (fold (clear_row run) is n) = cn_id n"
  "cn_id (fold parent_row kps n) = cn_id n"
  "cl_id (fold place_row lfs k) = cl_id k" "cl_id (fold (clear_link_row run) ls k) = cl_id k"
  "cl_id (fold (shelve_link_row by) ls k) = cl_id k" "cl_id (fold (unsplit_row i) ms k) = cl_id k"
  "co_id (fold (clear_obs_row run) bs x) = co_id x"
  by (simp_all add: fold_preserves)

lemma undo_ids [simp]: "cn_id (undo_node run by im n) = cn_id n" "co_id (undo_obs run by im x) = co_id x"
  by (cases im; simp)+

lemma undo_link_id: "undo_link run by im k = Some k' \<Longrightarrow> cl_id k' = cl_id k"
  by (cases im) (auto split: option.splits if_splits elim!: undo_link.elims)

text \<open>What the folds of such functions are.\<close>

lemma fold_clear_row:
  "fold (clear_row run) is n = (if cn_id n \<in> set is \<and> nr_retired_by n = Some run
     then n\<lparr>nr_retired_by := None, nr_retired_into := None\<rparr> else n)"
  by (induction "is" arbitrary: n) (auto simp: clear_row_def)

lemma fold_shelve_row:
  "fold (shelve_row by) is n = (if cn_id n \<in> set is \<and> nr_retired_by n = None then n\<lparr>nr_retired_by := Some by\<rparr> else n)"
  by (induction "is" arbitrary: n) (auto simp: shelve_row_def)

lemma fold_clear_link_row:
  "fold (clear_link_row run) ls k = (if cl_id k \<in> set ls \<and> lr_retired_by k = Some run then k\<lparr>lr_retired_by := None\<rparr> else k)"
  by (induction ls arbitrary: k) (auto simp: clear_link_row_def)

lemma fold_shelve_link_row:
  "fold (shelve_link_row by) ls k = (if cl_id k \<in> set ls \<and> lr_retired_by k = None then k\<lparr>lr_retired_by := Some by\<rparr> else k)"
  by (induction ls arbitrary: k) (auto simp: shelve_link_row_def)

lemma fold_clear_obs_row:
  "fold (clear_obs_row run) bs x = (if co_id x \<in> set bs \<and> or_retired_by x = Some run then x\<lparr>or_retired_by := None\<rparr> else x)"
  by (induction bs arbitrary: x) (auto simp: clear_obs_row_def)

lemma place_row_pair: "place_row (l, i) k = (if cl_id k = l then k\<lparr>cl_node_id := i\<rparr> else k)"
  by (simp add: place_row_def)

lemma parent_row_pair: "parent_row (k, p) n = (if cn_id n = k then n\<lparr>cn_parent_id := Some p\<rparr> else n)"
  by (simp add: parent_row_def)

lemma fold_place_row:
  assumes "\<forall>(l, f)\<in>set lfs. l = cl_id k \<longrightarrow> f = i"
  shows "fold place_row lfs k = (if cl_id k \<in> fst ` set lfs then k\<lparr>cl_node_id := i\<rparr> else k)"
  using assms
proof (induction lfs arbitrary: k)
  case (Cons lf lfs)
  obtain l f where lf: "lf = (l, f)" by (cases lf)
  show ?case
    using Cons.IH [of "place_row (l, f) k"] Cons.prems by (cases "cl_id k = l") (auto simp: lf place_row_pair)
qed simp

lemma fold_parent_row:
  assumes "\<forall>(k, p)\<in>set kps. k = cn_id n \<longrightarrow> p = q"
  shows "fold parent_row kps n = (if cn_id n \<in> fst ` set kps then n\<lparr>cn_parent_id := Some q\<rparr> else n)"
  using assms
proof (induction kps arbitrary: n)
  case (Cons kp kps)
  obtain k p where kp: "kp = (k, p)" by (cases kp)
  show ?case
    using Cons.IH [of "parent_row (k, p) n"] Cons.prems by (cases "cn_id n = k") (auto simp: kp parent_row_pair)
qed simp

lemma fold_unsplit_row:
  assumes "i \<notin> fst ` set ms"
  shows "fold (unsplit_row i) ms k =
    (if \<exists>m\<in>set ms. cl_id k \<in> set (snd (snd m)) \<and> cl_node_id k = fst m then k\<lparr>cl_node_id := i\<rparr> else k)"
  using assms
proof (induction ms arbitrary: k)
  case (Cons m ms)
  then show ?case by (auto simp: unsplit_row_def image_iff)
qed simp

text \<open>The time of the last update plays no role.\<close>

lemma fold_commute: "(\<And>k x. f k (g x) = g (f k x)) \<Longrightarrow> fold f ks (g x) = g (fold f ks x)"
  by (induction ks arbitrary: x) auto

lemma undo_node_time: "undo_node run by im (n\<lparr>cn_updated_at := t\<rparr>) = (undo_node run by im n)\<lparr>cn_updated_at := t\<rparr>"
proof -
  have parents: "fold parent_row kps (m\<lparr>cn_updated_at := t\<rparr>) = (fold parent_row kps m)\<lparr>cn_updated_at := t\<rparr>" for kps m
    by (rule fold_commute) (simp add: parent_row_def)
  show ?thesis
  proof (cases im)
    case (ImMerge target title parent absorbed moved leftover children bs)
    have "undo_node run by im (n\<lparr>cn_updated_at := t\<rparr>) = fold (clear_row run) (map fst absorbed)
       (fold parent_row children
         ((if cn_id n = target then n\<lparr>cn_title := title, cn_parent_id := parent\<rparr> else n)\<lparr>cn_updated_at := t\<rparr>))"
      by (cases n) (simp add: ImMerge)
    then show ?thesis by (simp only: parents) (simp add: ImMerge fold_clear_row)
  qed (auto simp: fold_clear_row fold_shelve_row shelve_row_def)
qed

lemma undo_node_same: "same_node n m \<Longrightarrow> same_node (undo_node run by im n) (undo_node run by im m)"
  unfolding same_node_def by (metis undo_node_time)

section \<open>The effect of a statement\<close>

definition effect ::
  "(node_row \<Rightarrow> node_row) \<Rightarrow> (link_row \<Rightarrow> link_row option) \<Rightarrow> (obs_row \<Rightarrow> obs_row) \<Rightarrow>
     (supersession list \<Rightarrow> supersession list) \<Rightarrow> catalog \<Rightarrow> catalog \<Rightarrow> bool" where
  "effect fn fl fo fs c d \<longleftrightarrow>
     (\<forall>i. node d i = map_option fn (node c i)) \<and> (\<forall>l. link d l = Option.bind (link c l) fl)
     \<and> (\<forall>b. obs d b = map_option fo (obs c b)) \<and> dc_supers (ct_dec d) = fs (dc_supers (ct_dec c))
     \<and> dc_events (ct_dec d) = dc_events (ct_dec c)
     \<and> (distinct (map cl_id (ct_links c)) \<longrightarrow> distinct (map cl_id (ct_links d)))"

lemma effect_refl: "effect (\<lambda>n. n) Some (\<lambda>b. b) (\<lambda>r. r) c c"
  by (simp add: effect_def option.map_ident Option.bind_runit)

lemma effect_comp:
  assumes "effect f1 l1 o1 s1 c d" and "effect f2 l2 o2 s2 d e"
  shows "effect (\<lambda>n. f2 (f1 n)) (\<lambda>k. Option.bind (l1 k) l2) (\<lambda>b. o2 (o1 b)) (\<lambda>r. s2 (s1 r)) c e"
  using assms by (simp add: effect_def option.map_comp comp_def Option.bind_assoc)

lemma effect_cong:
  assumes "effect f1 l1 o1 s1 c d" and "f1 = f2" "l1 = l2" "o1 = o2" "s1 = s2"
  shows "effect f2 l2 o2 s2 c d"
  using assms by simp

lemma effect_fold:
  assumes "\<And>k c. effect (fn k) (\<lambda>x. Some (fl k x)) (fo k) (\<lambda>r. r) c (F k c)"
  shows "effect (fold fn ks) (\<lambda>x. Some (fold fl ks x)) (fold fo ks) (\<lambda>r. r) c (fold F ks c)"
proof (induction ks arbitrary: c)
  case Nil
  then show ?case using effect_refl by (simp add: id_def)
next
  case (Cons k ks)
  show ?case
    using effect_comp [OF assms [of k c] Cons.IH [of "F k c"]] by (simp add: comp_def)
qed

lemma effect_nodes:
  assumes "\<And>n. cn_id (f n) = cn_id n" and "\<And>n. g n = (if P n then f n else n)"
  shows "effect g Some (\<lambda>b. b) (\<lambda>r. r) c (update_nodes P f c)"
proof -
  have g: "g = (\<lambda>n. if P n then f n else n)" using assms(2) by auto
  show ?thesis unfolding g
    by (simp add: effect_def node_update_nodes assms(1) Option.bind_runit option.map_ident) (simp add: update_nodes_def)
qed

lemma effect_links:
  assumes "\<And>k. cl_id (f k) = cl_id k" and "\<And>k. g k = (if P k then f k else k)"
  shows "effect (\<lambda>n. n) (\<lambda>k. Some (g k)) (\<lambda>b. b) (\<lambda>r. r) c (update_links P f c)"
proof -
  have g: "g = (\<lambda>k. if P k then f k else k)" using assms(2) by auto
  have "map cl_id (ct_links (update_links P f c)) = map cl_id (ct_links c)"
    by (simp add: update_links_def assms(1))
  then show ?thesis unfolding g
    by (simp add: effect_def link_update_links assms(1) option.map_ident map_conv_bind_option comp_def)
qed

lemma effect_obs:
  assumes "\<And>b. co_id (f b) = co_id b" and "\<And>b. g b = (if P b then f b else b)"
  shows "effect (\<lambda>n. n) Some g (\<lambda>r. r) c (update_obs P f c)"
proof -
  have g: "g = (\<lambda>b. if P b then f b else b)" using assms(2) by auto
  show ?thesis unfolding g
    by (simp add: effect_def obs_update_obs assms(1) Option.bind_runit option.map_ident) (simp add: update_obs_def)
qed

lemma effect_shelve_node: "effect (shelve_row by i) Some (\<lambda>b. b) (\<lambda>r. r) c (shelve_node by i c)"
  unfolding shelve_node_def by (rule effect_nodes) (auto simp: shelve_row_def)

lemma effect_unretire_node: "effect (clear_row run i) Some (\<lambda>b. b) (\<lambda>r. r) c (unretire_node run i c)"
  unfolding unretire_node_def by (rule effect_nodes) (auto simp: clear_row_def)

lemma effect_plain_parent: "effect (parent_row (k, p)) Some (\<lambda>b. b) (\<lambda>r. r) c (plain_parent k (Some p) c)"
  unfolding plain_parent_def by (rule effect_nodes) (auto simp: parent_row_def)

lemma effect_shelve_link: "effect (\<lambda>n. n) (\<lambda>k. Some (shelve_link_row by l k)) (\<lambda>b. b) (\<lambda>r. r) c (shelve_link by l c)"
  unfolding shelve_link_def by (rule effect_links) (auto simp: shelve_link_row_def)

lemma effect_unretire_link: "effect (\<lambda>n. n) (\<lambda>k. Some (clear_link_row run l k)) (\<lambda>b. b) (\<lambda>r. r) c (unretire_link run l c)"
  unfolding unretire_link_def by (rule effect_links) (auto simp: clear_link_row_def)

lemma effect_unretire_obs: "effect (\<lambda>n. n) Some (clear_obs_row run b) (\<lambda>r. r) c (unretire_obs run b c)"
  unfolding unretire_obs_def by (rule effect_obs) (auto simp: clear_obs_row_def)

lemma effect_put_link: "effect (\<lambda>n. n) (\<lambda>k. Some (place_row (l, i) k)) (\<lambda>b. b) (\<lambda>r. r) c (put_link l i c)"
  unfolding put_link_def by (rule effect_links) (auto simp: place_row_def)

lemma fold_ident [simp]: "fold (\<lambda>k x. x) ks = (\<lambda>x. x)"
  by (induction ks) (auto simp: fun_eq_iff)

lemma effect_folds:
  "effect (fold (clear_row run) ns) Some (\<lambda>b. b) (\<lambda>r. r) c (fold (unretire_node run) ns c)"
  "effect (\<lambda>n. n) (\<lambda>k. Some (fold (clear_link_row run) ls k)) (\<lambda>b. b) (\<lambda>r. r) c (fold (unretire_link run) ls c)"
  "effect (\<lambda>n. n) Some (fold (clear_obs_row run) bs) (\<lambda>r. r) c (fold (unretire_obs run) bs c)"
  "effect (\<lambda>n. n) (\<lambda>k. Some (fold (shelve_link_row by) ls k)) (\<lambda>b. b) (\<lambda>r. r) c (fold (shelve_link by) ls c)"
  using effect_fold [where fl = "\<lambda>k x. x" and fo = "\<lambda>k x. x", OF effect_unretire_node]
    effect_fold [where fn = "\<lambda>k x. x" and fo = "\<lambda>k x. x", OF effect_unretire_link]
    effect_fold [where fn = "\<lambda>k x. x" and fl = "\<lambda>k x. x", OF effect_unretire_obs]
    effect_fold [where fn = "\<lambda>k x. x" and fo = "\<lambda>k x. x", OF effect_shelve_link]
  by simp_all

lemma effect_parents:
  "effect (fold parent_row kps) Some (\<lambda>b. b) (\<lambda>r. r) c (fold (\<lambda>(k, p). plain_parent k (Some p)) kps c)"
  using effect_fold [where fn = parent_row and fl = "\<lambda>k x. x" and fo = "\<lambda>k x. x" and F = "\<lambda>(k, p). plain_parent k (Some p)" and ks = kps]
  by (auto simp: effect_plain_parent)

lemma effect_unretire:
  "effect (fold (clear_row run) ns) (\<lambda>k. Some (fold (clear_link_row run) ls k)) (fold (clear_obs_row run) bs) (\<lambda>r. r)
     c (unretire run ns ls bs c)"
  unfolding unretire_def
  by (rule effect_cong, rule effect_comp [OF effect_comp [OF effect_folds(1) effect_folds(2)] effect_folds(3)]) (auto simp: fun_eq_iff)

section \<open>Links go back without a conflict\<close>

definition wf :: "catalog \<Rightarrow> bool" where
  "wf c \<longleftrightarrow> distinct (map cn_id (ct_nodes c)) \<and> distinct (map cl_id (ct_links c)) \<and> distinct (map co_id (ct_obs c))
     \<and> distinct (map (\<lambda>k. (cl_node_id k, cl_target_kind k, cl_target_id k)) (ct_links c))
     \<and> (\<forall>k\<in>set (ct_links c). cl_id k \<le> ct_link_seq c) \<and> (\<forall>b\<in>set (ct_obs c). co_id b \<le> ct_obs_seq c)
     \<and> (\<forall>n\<in>set (ct_nodes c). nr_retired_by n = None \<longrightarrow> nr_retired_into n = None)"

text \<open>A link is where it was, or on a hub; a link that was not there is on a node that was not there.\<close>

definition at_home :: "catalog \<Rightarrow> rstr set \<Rightarrow> link_row \<Rightarrow> bool" where
  "at_home S hubs m \<longleftrightarrow>
     (case link S (cl_id m) of
        Some k \<Rightarrow> (cl_node_id m = cl_node_id k \<or> cl_node_id m \<in> hubs)
          \<and> cl_target_kind m = cl_target_kind k \<and> cl_target_id m = cl_target_id k
      | None \<Rightarrow> node S (cl_node_id m) = None)"

definition goes_home :: "catalog \<Rightarrow> rstr set \<Rightarrow> int \<times> rstr \<Rightarrow> bool" where
  "goes_home S hubs lf \<longleftrightarrow>
     (case link S (fst lf) of
        Some k \<Rightarrow> cl_node_id k = snd lf \<and> snd lf \<notin> hubs \<and> node S (snd lf) \<noteq> None
      | None \<Rightarrow> False)"

lemma link_mem: "distinct (map cl_id (ct_links c)) \<Longrightarrow> m \<in> set (ct_links c) \<Longrightarrow> link c (cl_id m) = Some m"
  unfolding link_def by (simp add: find_key_mem)

lemma not_taken:
  assumes "wf S" and home: "\<forall>l m. link c l = Some m \<longrightarrow> at_home S hubs m" and d: "distinct (map cl_id (ct_links c))"
    and go: "goes_home S hubs (l, i)"
  shows "\<not> link_taken l i c"
proof
  assume taken: "link_taken l i c"
  then obtain a where a: "link c l = Some a" by (auto simp: link_taken_def split: option.splits)
  obtain k where k: "link S l = Some k" "cl_node_id k = i" "i \<notin> hubs" "node S i \<noteq> None"
    using go by (auto simp: goes_home_def split: option.splits)
  obtain m where m: "m \<in> set (ct_links c)" "cl_id m \<noteq> l" "cl_node_id m = i" "cl_target_kind m = cl_target_kind a"
    "cl_target_id m = cl_target_id a"
    using taken by (auto simp: link_taken_def a list_ex_iff)
  have key: "cl_target_kind a = cl_target_kind k" "cl_target_id a = cl_target_id k"
    using home [rule_format, OF a] link_id [OF a] k(1) by (simp_all add: at_home_def)
  have "at_home S hubs m" using home link_mem [OF d m(1)] by blast
  then obtain k' where k': "link S (cl_id m) = Some k'" "cl_node_id k' = i" "cl_target_kind k' = cl_target_kind m"
    "cl_target_id k' = cl_target_id m"
    using k(3,4) m(3) by (auto simp: at_home_def split: option.splits)
  have "k \<in> set (ct_links S)" "k' \<in> set (ct_links S)" "k \<noteq> k'"
    using k(1) k'(1) m(2) link_id [OF k(1)] link_id [OF k'(1)] by (auto simp: link_def find_Some_iff)
  then show False
    using assms(1) k(2) k' m(4,5) key by (auto simp: wf_def distinct_map inj_on_def)
qed

lemma at_home_place:
  assumes "goes_home S hubs lf" "at_home S hubs m"
  shows "at_home S hubs (place_row lf m)"
  using assms by (auto simp: at_home_def goes_home_def place_row_def split: option.splits)

lemma effect_links_at_home:
  assumes "effect fn (\<lambda>k. Some (g k)) fo fs c d" "\<And>m. at_home S hubs m \<Longrightarrow> at_home S hubs (g m)"
    and "\<forall>l m. link c l = Some m \<longrightarrow> at_home S hubs m"
  shows "\<forall>l m. link d l = Some m \<longrightarrow> at_home S hubs m"
  using assms by (auto simp: effect_def bind_eq_Some_conv)

lemma return_links_ok:
  assumes "wf S"
  shows "\<forall>l m. link c l = Some m \<longrightarrow> at_home S hubs m \<Longrightarrow> distinct (map cl_id (ct_links c)) \<Longrightarrow>
    list_all (goes_home S hubs) ps \<Longrightarrow>
    \<exists>d. return_links ps c = Some d \<and> effect (\<lambda>n. n) (\<lambda>k. Some (fold place_row ps k)) (\<lambda>b. b) (\<lambda>r. r) c d"
proof (induction ps arbitrary: c)
  case Nil
  then show ?case using effect_refl by (simp add: id_def)
next
  case (Cons p ps)
  obtain l i where p: "p = (l, i)" by (cases p)
  have go: "goes_home S hubs (l, i)" using Cons.prems(3) p by simp
  have free: "\<not> link_taken l i c" by (rule not_taken [OF assms Cons.prems(1,2) go])
  note put = effect_put_link [of l i c]
  have home: "\<forall>x m. link (put_link l i c) x = Some m \<longrightarrow> at_home S hubs m"
    by (rule effect_links_at_home [OF put _ Cons.prems(1)]) (rule at_home_place [OF go])
  have "distinct (map cl_id (ct_links (put_link l i c)))" using put Cons.prems(2) by (simp add: effect_def)
  from Cons.IH [OF home this] Cons.prems(3)
  obtain d where d: "return_links ps (put_link l i c) = Some d"
    "effect (\<lambda>n. n) (\<lambda>k. Some (fold place_row ps k)) (\<lambda>b. b) (\<lambda>r. r) (put_link l i c) d" by auto
  then show ?case using free effect_comp [OF put d(2)] by (simp add: p return_link_def)
qed

lemma effect_link_at: "effect fn fl fo fs c d \<Longrightarrow> link d l = Option.bind (link c l) fl"
  by (simp add: effect_def)

lemma unsplit_links_ok:
  assumes "wf S" "part \<noteq> i"
  shows "\<forall>l m. link c l = Some m \<longrightarrow> at_home S hubs m \<Longrightarrow> distinct (map cl_id (ct_links c)) \<Longrightarrow>
    list_all (\<lambda>l. goes_home S hubs (l, i)) ls \<Longrightarrow>
    \<exists>d. unsplit_links i part ls c = Some d
      \<and> effect (\<lambda>n. n) (\<lambda>k. Some (unsplit_row i (part, t, ls) k)) (\<lambda>b. b) (\<lambda>r. r) c d"
proof (induction ls arbitrary: c)
  case Nil
  have "unsplit_row i (part, t, []) = (\<lambda>k. k)" by (simp add: unsplit_row_def fun_eq_iff)
  then show ?case using effect_refl by simp
next
  case (Cons l ls)
  have go: "goes_home S hubs (l, i)" using Cons.prems(3) by simp
  have free: "\<not> link_taken l i c" by (rule not_taken [OF assms(1) Cons.prems(1,2) go])
  show ?case
  proof (cases "still_on c l part")
    case False
    then obtain d where d: "unsplit_links i part ls c = Some d"
      "effect (\<lambda>n. n) (\<lambda>k. Some (unsplit_row i (part, t, ls) k)) (\<lambda>b. b) (\<lambda>r. r) c d"
      using Cons.IH [OF Cons.prems(1,2)] Cons.prems(3) by auto
    have "Option.bind (link c x) (\<lambda>k. Some (unsplit_row i (part, t, ls) k))
        = Option.bind (link c x) (\<lambda>k. Some (unsplit_row i (part, t, l # ls) k))" for x
      using False link_id [of c x] by (cases "link c x") (auto simp: still_on_def unsplit_row_def)
    then show ?thesis using d False by (simp add: effect_def)
  next
    case True
    note put = effect_put_link [of l i c]
    have home: "\<forall>x m. link (put_link l i c) x = Some m \<longrightarrow> at_home S hubs m"
      by (rule effect_links_at_home [OF put _ Cons.prems(1)]) (rule at_home_place [OF go])
    have "distinct (map cl_id (ct_links (put_link l i c)))" using put Cons.prems(2) by (simp add: effect_def)
    from Cons.IH [OF home this] Cons.prems(3)
    obtain d where d: "unsplit_links i part ls (put_link l i c) = Some d"
      "effect (\<lambda>n. n) (\<lambda>k. Some (unsplit_row i (part, t, ls) k)) (\<lambda>b. b) (\<lambda>r. r) (put_link l i c) d" by auto
    have both: "effect (\<lambda>n. n) (\<lambda>k. Option.bind (Some (place_row (l, i) k)) (\<lambda>k. Some (unsplit_row i (part, t, ls) k)))
        (\<lambda>b. b) (\<lambda>r. r) c d" using effect_comp [OF put d(2)] by simp
    have "Option.bind (link c x) (\<lambda>k. Option.bind (Some (place_row (l, i) k)) (\<lambda>k. Some (unsplit_row i (part, t, ls) k)))
        = Option.bind (link c x) (\<lambda>k. Some (unsplit_row i (part, t, l # ls) k))" for x
      using True link_id [of c x] assms(2)
      by (cases "link c x") (auto simp: still_on_def unsplit_row_def place_row_def)
    then show ?thesis using d(1) both True free by (simp add: return_link_def effect_def)
  qed
qed

text \<open>Taking a link off a part leaves it at home, too.\<close>

lemma at_home_unsplit:
  assumes "list_all (\<lambda>l. goes_home S hubs (l, i)) (snd (snd m))" "at_home S hubs k"
  shows "at_home S hubs (unsplit_row i m k)"
  using assms by (auto simp: at_home_def goes_home_def unsplit_row_def list_all_iff split: option.splits)

lemma unsplit_ok:
  assumes "wf S"
  shows "\<forall>l m. link c l = Some m \<longrightarrow> at_home S hubs m \<Longrightarrow> distinct (map cl_id (ct_links c)) \<Longrightarrow>
    i \<notin> fst ` set made \<Longrightarrow> list_all (\<lambda>(part, t, ls). list_all (\<lambda>l. goes_home S hubs (l, i)) ls) made \<Longrightarrow>
    \<exists>d. unsplit by i made c = Some d
      \<and> effect (fold (shelve_row by) (map fst made)) (\<lambda>k. Some (fold (unsplit_row i) made k)) (\<lambda>b. b) (\<lambda>r. r) c d"
proof (induction made arbitrary: c)
  case Nil
  then show ?case using effect_refl by (simp add: id_def)
next
  case (Cons m made)
  obtain part t ls where m: "m = (part, t, ls)" by (cases m)
  have ls: "list_all (\<lambda>l. goes_home S hubs (l, i)) ls" and ne: "part \<noteq> i" using Cons.prems(3,4) m by auto
  from unsplit_links_ok [OF assms ne Cons.prems(1,2) ls, of t]
  obtain c1 where c1: "unsplit_links i part ls c = Some c1"
    "effect (\<lambda>n. n) (\<lambda>k. Some (unsplit_row i (part, t, ls) k)) (\<lambda>b. b) (\<lambda>r. r) c c1" by blast
  note e = effect_comp [OF c1(2) effect_shelve_node [of "by" part c1]]
  have e': "effect (shelve_row by part) (\<lambda>k. Some (unsplit_row i (part, t, ls) k)) (\<lambda>b. b) (\<lambda>r. r) c (shelve_node by part c1)"
    using e by simp
  have home: "\<forall>l k. link (shelve_node by part c1) l = Some k \<longrightarrow> at_home S hubs k"
    by (rule effect_links_at_home [OF e' _ Cons.prems(1)]) (rule at_home_unsplit, simp_all add: ls)
  have "distinct (map cl_id (ct_links (shelve_node by part c1)))" using e' Cons.prems(2) by (simp add: effect_def)
  from Cons.IH [OF home this] Cons.prems(3,4)
  obtain d where d: "unsplit by i made (shelve_node by part c1) = Some d"
    "effect (fold (shelve_row by) (map fst made)) (\<lambda>k. Some (fold (unsplit_row i) made k)) (\<lambda>b. b) (\<lambda>r. r)
       (shelve_node by part c1) d" by auto
  show ?case
    using d(1) c1(1) effect_comp [OF e' d(2)] by (simp add: m comp_def)
qed

section \<open>One operation and its inverse\<close>

definition placeable :: "catalog \<Rightarrow> catalog \<Rightarrow> image \<Rightarrow> bool" where
  "placeable S S1 im \<longleftrightarrow>
     (case im of
        ImMerge target title parent absorbed moved leftover children bs \<Rightarrow>
          list_all (goes_home S {target}) moved \<and> (\<forall>l m. link S1 l = Some m \<longrightarrow> at_home S {target} m)
      | ImSplit i parent made \<Rightarrow>
          i \<notin> fst ` set made
          \<and> list_all (\<lambda>(part, t, ls). list_all (\<lambda>l. goes_home S (fst ` set made) (l, i)) ls) made
          \<and> (\<forall>l m. link S1 l = Some m \<longrightarrow> at_home S (fst ` set made) m)
      | _ \<Rightarrow> True)"

text \<open>The image names only rows that are there.\<close>

definition names_rows :: "int \<Rightarrow> int \<Rightarrow> image \<Rightarrow> catalog \<Rightarrow> bool" where
  "names_rows run by im S1 \<longleftrightarrow>
     (\<forall>m. node S1 (cn_id m) = None \<longrightarrow> nr_retired_by m \<noteq> None \<longrightarrow> nr_retired_by (undo_node run by im m) \<noteq> None)
     \<and> (\<forall>k. link S1 (cl_id k) = None \<longrightarrow> undo_link run by im k = Some k)
     \<and> (\<forall>b. obs S1 (co_id b) = None \<longrightarrow> or_retired_by b \<noteq> None \<longrightarrow> or_retired_by (undo_obs run by im b) \<noteq> None)"

definition undoes :: "int \<Rightarrow> int \<Rightarrow> image \<Rightarrow> catalog \<Rightarrow> catalog \<Rightarrow> bool" where
  "undoes run by im S S1 \<longleftrightarrow>
     rows_back (node S) (\<lambda>i. map_option (undo_node run by im) (node S1 i)) same_node (\<lambda>m. nr_retired_by m \<noteq> None)
     \<and> rows_back (link S) (\<lambda>l. Option.bind (link S1 l) (undo_link run by im)) (=) (gone_link S)
     \<and> rows_back (obs S) (\<lambda>b. map_option (undo_obs run by im) (obs S1 b)) (=) (\<lambda>b. or_retired_by b \<noteq> None)
     \<and> undo_supers im (dc_supers (ct_dec S1)) = dc_supers (ct_dec S)
     \<and> (\<exists>es. dc_events (ct_dec S1) = dc_events (ct_dec S) @ es)
     \<and> names_rows run by im S1 \<and> placeable S S1 im"

lemma rows_back_None: "rows_back S T same gone \<Longrightarrow> T i = None \<Longrightarrow> S i = None"
  by (cases "S i") (auto simp: rows_back_def dest: spec [of _ i])

lemma rows_back_trans:
  assumes u: "rows_back S (\<lambda>i. Option.bind (S1 i) u) same gone" and t: "rows_back S1 T same gone1"
    and trans: "\<And>a b c. same a b \<Longrightarrow> same b c \<Longrightarrow> same a c"
    and same: "\<And>a b. same a b \<Longrightarrow> (case u a of None \<Rightarrow> u b = None | Some a' \<Rightarrow> (case u b of None \<Rightarrow> False | Some b' \<Rightarrow> same a' b'))"
    and gone: "\<And>a b. same a b \<Longrightarrow> gone a \<Longrightarrow> gone b"
    and fresh: "\<And>i m m'. S1 i = None \<Longrightarrow> T i = Some m \<Longrightarrow> gone1 m \<Longrightarrow> u m = Some m' \<Longrightarrow> gone m'"
  shows "rows_back S (\<lambda>i. Option.bind (T i) u) same gone"
  unfolding rows_back_def
proof
  fix i
  show "case S i of Some n \<Rightarrow> (case Option.bind (T i) u of None \<Rightarrow> False | Some m \<Rightarrow> same n m)
      | None \<Rightarrow> (case Option.bind (T i) u of None \<Rightarrow> True | Some m \<Rightarrow> gone m)"
  proof (cases "S1 i")
    case None
    have "S i = None" by (rule rows_back_None [OF u]) (simp add: None)
    then show ?thesis using fresh [OF None] t [unfolded rows_back_def, rule_format, of i] None
      by (auto split: option.splits)
  next
    case (Some a)
    then obtain b where b: "T i = Some b" "same a b"
      using t [unfolded rows_back_def, rule_format, of i] by (auto split: option.splits)
    show ?thesis
      using u [unfolded rows_back_def, rule_format, of i] Some b same [OF b(2)] trans gone
      by (auto split: option.splits)
  qed
qed

lemma at_home_restored:
  assumes undo: "rows_back (link S) (\<lambda>l. Option.bind (link S1 l) u) (=) g"
    and nodes: "\<And>i. node S1 i = None \<Longrightarrow> node S i = None"
    and t: "rows_back (link S1) (link T) (=) (gone_link S1)"
    and home: "\<forall>l m. link S1 l = Some m \<longrightarrow> at_home S hubs m"
  shows "\<forall>l m. link T l = Some m \<longrightarrow> at_home S hubs m"
proof (intro allI impI)
  fix l m assume m: "link T l = Some m"
  show "at_home S hubs m"
  proof (cases "link S1 l")
    case None
    have "link S l = None" by (rule rows_back_None [OF undo]) (simp add: None)
    moreover have "gone_link S1 m" using t [unfolded rows_back_def, rule_format, of l] None m by simp
    ultimately show ?thesis using link_id [OF m] nodes [of "cl_node_id m"] by (auto simp: at_home_def gone_link_def)
  next
    case (Some k)
    then show ?thesis using home t [unfolded rows_back_def, rule_format, of l] m by auto
  qed
qed

lemma effect_retitle:
  "effect (\<lambda>n. if cn_id n = i then n\<lparr>cn_title := t, cn_parent_id := p\<rparr> else n) Some (\<lambda>b. b) (\<lambda>r. r) c
     (plain_parent i p (plain_title i t c))"
proof -
  have a: "effect (\<lambda>n. if cn_id n = i then n\<lparr>cn_title := t\<rparr> else n) Some (\<lambda>b. b) (\<lambda>r. r) c (plain_title i t c)"
    unfolding plain_title_def by (rule effect_nodes) auto
  have b: "effect (\<lambda>n. if cn_id n = i then n\<lparr>cn_parent_id := p\<rparr> else n) Some (\<lambda>b. b) (\<lambda>r. r) c (plain_parent i p c)" for c
    unfolding plain_parent_def by (rule effect_nodes) auto
  show ?thesis by (rule effect_cong [OF effect_comp [OF a b]]) (auto simp: fun_eq_iff)
qed

lemma invert_effect:
  assumes wf: "wf S" and d: "distinct (map cl_id (ct_links T))"
    and home: "\<And>hubs. (\<forall>l m. link S1 l = Some m \<longrightarrow> at_home S hubs m) \<Longrightarrow> (\<forall>l m. link T l = Some m \<longrightarrow> at_home S hubs m)"
    and place: "placeable S S1 im"
  shows "\<exists>T'. invert_image run by im T = Some T'
    \<and> effect (undo_node run by im) (undo_link run by im) (undo_obs run by im) (undo_supers im) T T'"
proof (cases im)
  case (ImFile l i kind target r)
  show ?thesis
  proof (cases r)
    case None
    have "effect (\<lambda>n. n) (\<lambda>k. if cl_id k = l then None else Some k) (\<lambda>b. b) (\<lambda>r. r) T (remove_link l T)"
      unfolding effect_def
      by (auto simp: remove_link_def node_def obs_def link_def find_filter_key option.map_ident distinct_map_filter
          Option.bind_runit split: option.splits bind_splits dest: find_key_id)
    then have "effect (undo_node run by im) (undo_link run by im) (undo_obs run by im) (undo_supers im) T (remove_link l T)"
      by (rule effect_cong) (auto simp: ImFile None fun_eq_iff)
    then show ?thesis by (simp add: ImFile None)
  next
    case (Some by')
    have "effect (\<lambda>n. n) (\<lambda>k. Some (if cl_id k = l then k\<lparr>lr_retired_by := Some by'\<rparr> else k)) (\<lambda>b. b) (\<lambda>r. r) T (retire_link by' l T)"
      unfolding retire_link_def by (rule effect_links) auto
    then have "effect (undo_node run by im) (undo_link run by im) (undo_obs run by im) (undo_supers im) T (retire_link by' l T)"
      by (rule effect_cong) (auto simp: ImFile Some fun_eq_iff)
    then show ?thesis by (simp add: ImFile Some)
  qed
next
  case (ImCreate i parent title)
  have "effect (undo_node run by im) (undo_link run by im) (undo_obs run by im) (undo_supers im) T (shelve_node by i T)"
    by (rule effect_cong [OF effect_shelve_node]) (auto simp: ImCreate fun_eq_iff)
  then show ?thesis by (simp add: ImCreate)
next
  case (ImPromote i old new)
  have "effect (\<lambda>n. if cn_id n = i then n\<lparr>cn_parent_id := old\<rparr> else n) Some (\<lambda>b. b) (\<lambda>r. r) T (plain_parent i old T)"
    unfolding plain_parent_def by (rule effect_nodes) auto
  then have "effect (undo_node run by im) (undo_link run by im) (undo_obs run by im) (undo_supers im) T (plain_parent i old T)"
    by (rule effect_cong) (auto simp: ImPromote fun_eq_iff)
  then show ?thesis by (simp add: ImPromote)
next
  case (ImSplit i parent made)
  have pl: "i \<notin> fst ` set made"
    "list_all (\<lambda>(part, t, ls). list_all (\<lambda>l. goes_home S (fst ` set made) (l, i)) ls) made"
    "\<forall>l m. link T l = Some m \<longrightarrow> at_home S (fst ` set made) m"
    using place home [of "fst ` set made"] by (auto simp: placeable_def ImSplit)
  obtain T' where T': "unsplit by i made T = Some T'"
    "effect (fold (shelve_row by) (map fst made)) (\<lambda>k. Some (fold (unsplit_row i) made k)) (\<lambda>b. b) (\<lambda>r. r) T T'"
    using unsplit_ok [OF wf pl(3) d pl(1,2)] by blast
  have "effect (undo_node run by im) (undo_link run by im) (undo_obs run by im) (undo_supers im) T T'"
    by (rule effect_cong [OF T'(2)]) (auto simp: ImSplit fun_eq_iff)
  then show ?thesis using T'(1) by (simp add: ImSplit)
next
  case (ImMerge target title parent absorbed moved leftover children bs)
  let ?c = "plain_parent target parent (plain_title target title T)"
  note e1 = effect_retitle [where i = target and t = title and p = parent and c = T]
  have "\<forall>l m. link ?c l = Some m \<longrightarrow> at_home S {target} m"
    using home [of "{target}"] place e1 by (simp add: placeable_def ImMerge effect_def Option.bind_runit)
  moreover have "distinct (map cl_id (ct_links ?c))" using e1 d by (simp add: effect_def)
  ultimately obtain c1 where c1: "return_links moved ?c = Some c1"
    "effect (\<lambda>n. n) (\<lambda>k. Some (fold place_row moved k)) (\<lambda>b. b) (\<lambda>r. r) ?c c1"
    using return_links_ok [OF wf, of ?c "{target}" moved] place by (auto simp: placeable_def ImMerge)
  note e = effect_comp [OF effect_comp [OF effect_comp [OF e1 c1(2)] effect_parents [of children c1]]
      effect_unretire [of run "map fst absorbed" leftover bs]]
  have "effect (undo_node run by im) (undo_link run by im) (undo_obs run by im) (undo_supers im) T
      (unretire run (map fst absorbed) leftover bs (fold (\<lambda>(k, p). plain_parent k (Some p)) children c1))"
    by (rule effect_cong [OF e]) (auto simp: ImMerge fun_eq_iff)
  then show ?thesis using c1(1) by (simp add: ImMerge)
next
  case (ImCollapse i digest ns ls bs cites)
  note e = effect_comp [OF effect_comp [OF effect_shelve_node [of "by" digest T] effect_folds(4) [of "by" cites]]
      effect_unretire [of run ns ls bs]]
  have "effect (undo_node run by im) (undo_link run by im) (undo_obs run by im) (undo_supers im) T
      (unretire run ns ls bs (fold (shelve_link by) cites (shelve_node by digest T)))"
    by (rule effect_cong [OF e]) (auto simp: ImCollapse fun_eq_iff)
  then show ?thesis by (simp add: ImCollapse)
next
  case (ImSupersede old new ev)
  have "effect (\<lambda>n. n) Some (\<lambda>b. b) (undo_supers im) T (delete_supersession old ev T)"
    by (simp add: ImSupersede effect_def delete_supersession_def node_def link_def obs_def option.map_ident Option.bind_runit)
  then have "effect (undo_node run by im) (undo_link run by im) (undo_obs run by im) (undo_supers im) T (delete_supersession old ev T)"
    by (rule effect_cong) (auto simp: ImSupersede fun_eq_iff)
  then show ?thesis by (simp add: ImSupersede)
next
  case (ImObserve b i s')
  have "effect (\<lambda>n. n) Some (\<lambda>x. if co_id x = b \<and> or_retired_by x = None then x\<lparr>or_retired_by := Some by\<rparr> else x) (\<lambda>r. r) T
      (update_obs (\<lambda>x. co_id x = b \<and> or_retired_by x = None) (\<lambda>x. x\<lparr>or_retired_by := Some by\<rparr>) T)"
    by (rule effect_obs) auto
  then have "effect (undo_node run by im) (undo_link run by im) (undo_obs run by im) (undo_supers im) T
      (update_obs (\<lambda>x. co_id x = b \<and> or_retired_by x = None) (\<lambda>x. x\<lparr>or_retired_by := Some by\<rparr>) T)"
    by (rule effect_cong) (auto simp: ImObserve fun_eq_iff)
  then show ?thesis by (simp add: ImObserve)
qed

lemma restores_refl: "wf S \<Longrightarrow> restores S S"
  by (auto simp: restores_def rows_back_def wf_def split: option.splits)

text \<open>Undoing the operation in any store that restores the state after it restores the state before.\<close>

lemma restores_invert:
  assumes wf: "wf S" and undo: "undoes run by im S S1" and rest: "restores S1 T"
  shows "\<exists>T'. invert_image run by im T = Some T' \<and> restores S T'"
proof -
  note u = undo [unfolded undoes_def]
  note b = rest [unfolded restores_def]
  have n: "rows_back (node S) (\<lambda>i. Option.bind (node S1 i) (\<lambda>n. Some (undo_node run by im n))) same_node (\<lambda>m. nr_retired_by m \<noteq> None)"
    using u by (simp add: map_conv_bind_option comp_def)
  have ob: "rows_back (obs S) (\<lambda>i. Option.bind (obs S1 i) (\<lambda>x. Some (undo_obs run by im x))) (=) (\<lambda>m. or_retired_by m \<noteq> None)"
    using u by (simp add: map_conv_bind_option comp_def)
  have nodes: "node S1 i = None \<Longrightarrow> node S i = None" for i
    using rows_back_None [OF n, of i] by simp
  have links: "rows_back (link S) (\<lambda>l. Option.bind (link S1 l) (undo_link run by im)) (=) (gone_link S)"
    "rows_back (link S1) (link T) (=) (gone_link S1)"
    and tn: "rows_back (node S1) (node T) same_node (\<lambda>m. nr_retired_by m \<noteq> None)"
    and tb: "rows_back (obs S1) (obs T) (=) (\<lambda>b. or_retired_by b \<noteq> None)" using u b by auto
  have home: "\<forall>l m. link T l = Some m \<longrightarrow> at_home S hubs m"
    if "\<forall>l m. link S1 l = Some m \<longrightarrow> at_home S hubs m" for hubs
    by (rule at_home_restored [OF links(1) nodes links(2) that])
  obtain T' where T': "invert_image run by im T = Some T'"
    "effect (undo_node run by im) (undo_link run by im) (undo_obs run by im) (undo_supers im) T T'"
    using invert_effect [OF wf _ home, where im = im and run = run] u b by blast
  have "rows_back (node S) (\<lambda>i. Option.bind (node T i) (\<lambda>n. Some (undo_node run by im n))) same_node (\<lambda>m. nr_retired_by m \<noteq> None)"
    using u by (intro rows_back_trans [OF n tn])
      (auto simp: names_rows_def undo_node_same dest: same_node_trans same_node_retired node_id)
  moreover have "rows_back (link S) (\<lambda>l. Option.bind (link T l) (undo_link run by im)) (=) (gone_link S)"
    using u nodes by (intro rows_back_trans [OF links])
      (auto simp: names_rows_def gone_link_def dest: link_id split: option.splits)
  moreover have "rows_back (obs S) (\<lambda>i. Option.bind (obs T i) (\<lambda>x. Some (undo_obs run by im x))) (=) (\<lambda>m. or_retired_by m \<noteq> None)"
    using u by (intro rows_back_trans [OF ob tb]) (auto simp: names_rows_def dest: obs_id)
  moreover have "node T' = (\<lambda>i. Option.bind (node T i) (\<lambda>n. Some (undo_node run by im n)))"
    "link T' = (\<lambda>l. Option.bind (link T l) (undo_link run by im))"
    "obs T' = (\<lambda>i. Option.bind (obs T i) (\<lambda>x. Some (undo_obs run by im x)))"
    using T'(2) by (simp_all add: effect_def fun_eq_iff map_conv_bind_option comp_def)
  moreover have "distinct (map cl_id (ct_links T'))" "dc_supers (ct_dec T') = dc_supers (ct_dec S)"
    "\<exists>es. dc_events (ct_dec T') = dc_events (ct_dec S) @ es"
    using T'(2) b u by (auto simp: effect_def)
  ultimately have "restores S T'" by (simp only: restores_def)
  then show ?thesis using T'(1) by blast
qed

end
