(* ===== verification/Adjudicate.thy ===== *)
theory Adjudicate
  imports Restore Fuse
begin

text \<open>
  \<^verbatim>\<open>polis-memory/src/adjudicate.rs\<close>: the rules that decide, without a person, whether a proposal applies, is
  refused, or goes to the verifier; and the screen that keeps a model's output inside what it was shown.
  \<^verbatim>\<open>char::is_alphanumeric\<close> and \<^verbatim>\<open>str::to_lowercase\<close> are parameters, as are the similarity oracle and the reads
  of tables that are not modelled (a prompt's project path, the protected nodes).
\<close>

section \<open>Titles\<close>

text \<open>Quotients of counts, rounded to binary64, in units of \<open>2 ^ -200\<close>; \<^verbatim>\<open>0.8_f64\<close> is \<open>7205759403792794 / 2 ^ 53\<close>.\<close>

definition TITLE_JACCARD_DUP :: nat where
  "TITLE_JACCARD_DUP = 7205759403792794 * 2 ^ 147"

definition title_words :: "(uchar \<Rightarrow> bool) \<Rightarrow> (rstr \<Rightarrow> rstr) \<Rightarrow> rstr \<Rightarrow> rstr list" where
  "title_words alnum to_lower s = remdups (map to_lower (filter (\<lambda>w. w \<noteq> []) (split_by (\<lambda>c. \<not> alnum c) s)))"

definition jaccard :: "(uchar \<Rightarrow> bool) \<Rightarrow> (rstr \<Rightarrow> rstr) \<Rightarrow> rstr \<Rightarrow> rstr \<Rightarrow> nat" where
  "jaccard alnum to_lower a b =
     (let wa = title_words alnum to_lower a; wb = title_words alnum to_lower b;
          inter = length (filter (\<lambda>w. w \<in> set wb) wa);
          union = length (remdups (wa @ wb))
      in if wa = [] \<and> wb = [] then 2 ^ 200
         else if union = 0 then 0 else round_nat (sticky_div (2 ^ 200 * inter) union))"

section \<open>The snapshot\<close>

text \<open>The catalogue as one run's adjudicator reads it: the live classes by title.  The index keeps the last of two equal ids.\<close>

definition MAX_DEPTH :: nat where "MAX_DEPTH = 4"
definition MIN_PART_LINKS :: nat where "MIN_PART_LINKS = 3"
definition COLLAPSE_MIN_ITEMS :: int where "COLLAPSE_MIN_ITEMS = 5"
definition GENERAL_ROOT_ID :: rstr where "GENERAL_ROOT_ID = lit ''root-general''"

definition snapshot :: "catalog \<Rightarrow> class_node list" where
  "snapshot c = sort_key cn_title (map class_node.truncate (filter (\<lambda>n. nr_retired_by n = None) (ct_nodes c)))"

definition class_at :: "class_node list \<Rightarrow> rstr \<Rightarrow> class_node option" where
  "class_at ns i = find (\<lambda>n. cn_id n = i) (rev ns)"

text \<open>The walk to the root, at most 64 steps.\<close>

primrec climb :: "class_node list \<Rightarrow> nat \<Rightarrow> class_node \<Rightarrow> class_node option" where
  "climb ns 0 cur = (if cn_parent_id cur = None then Some cur else None)"
| "climb ns (Suc g) cur =
     (case cn_parent_id cur of
        None \<Rightarrow> Some cur
      | Some p \<Rightarrow> (case class_at ns p of None \<Rightarrow> None | Some n \<Rightarrow> climb ns g n))"

definition root_of :: "class_node list \<Rightarrow> rstr \<Rightarrow> rstr option" where
  "root_of ns i =
     (case class_at ns i of None \<Rightarrow> None | Some n \<Rightarrow> map_option cn_id (climb ns 64 n))"

text \<open>\<^verbatim>\<open>depth_of\<close> counts parents, up to 65; \<open>left\<close> is \<open>64 - d\<close>.\<close>

primrec depth_from :: "class_node list \<Rightarrow> nat \<Rightarrow> class_node option \<Rightarrow> nat" where
  "depth_from ns 0 cur = (case cur of None \<Rightarrow> 0 | Some n \<Rightarrow> (case cn_parent_id n of None \<Rightarrow> 0 | Some p \<Rightarrow> 1))"
| "depth_from ns (Suc left) cur =
     (case cur of
        None \<Rightarrow> 0
      | Some n \<Rightarrow> (case cn_parent_id n of None \<Rightarrow> 0 | Some p \<Rightarrow> 1 + depth_from ns left (class_at ns p)))"

definition depth_of :: "class_node list \<Rightarrow> rstr \<Rightarrow> nat" where
  "depth_of ns i = depth_from ns 64 (class_at ns i)"

text \<open>The height below a node; \<open>left\<close> is \<open>64 - depth\<close>, and children of a node at depth 64 count 0.\<close>

primrec height :: "class_node list \<Rightarrow> nat \<Rightarrow> rstr \<Rightarrow> nat" where
  "height ns 0 i = (case kids ns i of [] \<Rightarrow> 0 | _ \<Rightarrow> 1)"
| "height ns (Suc left) i =
     (case kids ns i of [] \<Rightarrow> 0 | cs \<Rightarrow> 1 + fold max (map (\<lambda>n. height ns left (cn_id n)) cs) 0)"

definition subtree_height :: "class_node list \<Rightarrow> rstr \<Rightarrow> nat" where
  "subtree_height ns i = height ns 64 i"

text \<open>Whether \<open>ancestor\<close> is among the first 65 classes above; \<open>left\<close> is \<open>64 - guard\<close>.\<close>

primrec ancestor_above :: "class_node list \<Rightarrow> rstr \<Rightarrow> nat \<Rightarrow> rstr option \<Rightarrow> bool" where
  "ancestor_above ns ancestor 0 cur = (cur = Some ancestor)"
| "ancestor_above ns ancestor (Suc left) cur =
     (case cur of
        None \<Rightarrow> False
      | Some p \<Rightarrow> p = ancestor \<or> ancestor_above ns ancestor left (Option.bind (class_at ns p) cn_parent_id))"

definition is_descendant :: "class_node list \<Rightarrow> rstr \<Rightarrow> rstr \<Rightarrow> bool" where
  "is_descendant ns i ancestor = ancestor_above ns ancestor 64 (Option.bind (class_at ns i) cn_parent_id)"

definition siblings_under :: "class_node list \<Rightarrow> rstr \<Rightarrow> class_node list" where
  "siblings_under ns parent = filter (\<lambda>n. cn_parent_id n = Some parent \<and> cn_kind n = lit ''node'') ns"

section \<open>Verdicts\<close>

datatype adjudication = ApplyNow | Verify | Refuse rstr | Redirect rstr "rstr list option"

definition ledger_event_ref :: "catalog \<Rightarrow> int \<Rightarrow> (rstr \<times> rstr option \<times> rstr option) option" where
  "ledger_event_ref c s =
     map_option (\<lambda>e. (ev_kind e, ev_ref_kind e, ev_ref_id e)) (find (\<lambda>e. ev_seq e = s) (dc_events (ct_dec c)))"

definition root_id_for_path :: "sha_fn \<Rightarrow> rstr \<Rightarrow> rstr" where
  "root_id_for_path sha path = lit ''root-'' @ take 12 (sha (utf8 path))"

definition SEQ_KINDS :: "rstr list" where
  "SEQ_KINDS = [lit ''prompt'', lit ''revision'', lit ''decision'', lit ''note'', lit ''browse_event'']"

definition DECISION_TARGETS :: "rstr list" where
  "DECISION_TARGETS = [lit ''decision'', lit ''resolution'', lit ''approval'', lit ''reopen'', lit ''review_verdict'',
     lit ''pin'', lit ''source_trust'']"

text \<open>The check that a numbered target is an event of its kind.\<close>

definition target_refused :: "catalog \<Rightarrow> rstr \<Rightarrow> rstr \<Rightarrow> rstr option" where
  "target_refused c kind target =
     (if kind \<notin> set SEQ_KINDS then None
      else
        (case parse_i64 target of
           None \<Rightarrow> Some (lit ''target '' @ kind @ lit '':'' @ target @ lit '' must use a ledger seq'')
         | Some s \<Rightarrow>
             (case ledger_event_ref c s of
                None \<Rightarrow> Some (lit ''target '' @ kind @ lit '':'' @ target @ lit '' does not exist'')
              | Some (k, _, _) \<Rightarrow>
                  if (if kind = lit ''decision'' then k \<in> set DECISION_TARGETS else k = kind) then None
                  else Some (lit ''target_kind '' @ kind @ lit '' but seq '' @ show_int s @ lit '' is a '' @ k))))"

definition adjudicate_file ::
  "sha_fn \<Rightarrow> (int \<Rightarrow> rstr option) \<Rightarrow> class_node list \<Rightarrow> catalog \<Rightarrow> rstr \<Rightarrow> rstr \<Rightarrow> rstr \<Rightarrow> adjudication" where
  "adjudicate_file sha project ns c parent kind target =
     (case root_of ns parent of
        None \<Rightarrow> Refuse (lit ''parent '' @ parent @ lit '' does not exist'')
      | Some root \<Rightarrow>
          (case target_refused c kind target of
             Some why \<Rightarrow> Refuse why
           | None \<Rightarrow>
               if root = GENERAL_ROOT_ID then ApplyNow
               else
                 (case Option.bind (parse_i64 target) project of
                    None \<Rightarrow> ApplyNow
                  | Some path \<Rightarrow>
                      if root_id_for_path sha path \<noteq> root then Refuse (lit ''provenance'') else ApplyNow)))"

definition adjudicate_create ::
  "(uchar \<Rightarrow> bool) \<Rightarrow> (rstr \<Rightarrow> rstr) \<Rightarrow> class_node list \<Rightarrow> rstr \<Rightarrow> rstr \<Rightarrow> adjudication" where
  "adjudicate_create alnum to_lower ns parent title =
     (if class_at ns parent = None then Refuse (lit ''parent '' @ parent @ lit '' does not exist'')
      else
        (case filter (\<lambda>s. jaccard alnum to_lower (cn_title s) title \<ge> TITLE_JACCARD_DUP) (siblings_under ns parent) of
           [] \<Rightarrow> ApplyNow
         | [t] \<Rightarrow> Redirect (cn_id t) None
         | t # ts \<Rightarrow> Redirect (cn_id t) (Some (map cn_id (t # ts)))))"

text \<open>
  What a structural verdict needs beside the catalogue.  A cosine is a finite binary64 number in units of
  \<open>2 ^ -1074\<close>, where \<^verbatim>\<open>0.85_f64\<close> is \<open>7656119366529843 / 2 ^ 53\<close>.
\<close>

record facts =
  fa_catalog :: "class_node list"
  fa_stats :: stats
  fa_env :: lake_envelope
  fa_protected :: "rstr set"
  fa_cosine :: "rstr \<Rightarrow> rstr \<Rightarrow> int option"

definition CENTROID_COS :: int where
  "CENTROID_COS = 7656119366529843 * 2 ^ 1021"

definition promote_verdict :: "class_node list \<Rightarrow> proposal_row \<Rightarrow> adjudication" where
  "promote_verdict ns p =
     (case pp_node_id p of
        None \<Rightarrow> Refuse (lit ''no node'')
      | Some i \<Rightarrow>
          if class_at ns i = None then Refuse (lit ''node '' @ i @ lit '' does not exist'')
          else
            (case pp_parent_id p of
               None \<Rightarrow> ApplyNow
             | Some q \<Rightarrow>
                 if q = i then Refuse (lit ''cycle: a node cannot parent itself'')
                 else if class_at ns q = None then Refuse (lit ''new parent '' @ q @ lit '' does not exist'')
                 else if is_descendant ns q i
                 then Refuse (lit ''cycle: the new parent is inside the node'' @ [39] @ lit ''s own subtree'')
                 else
                   let new_depth = depth_of ns q + 1 + subtree_height ns i
                   in if new_depth > MAX_DEPTH
                      then Refuse (lit ''depth '' @ show_nat new_depth @ lit '' exceeds '' @ show_nat MAX_DEPTH)
                      else ApplyNow))"

text \<open>The first part that is too small or names a link that is not the node's.\<close>

fun part_refused :: "rstr \<Rightarrow> int list \<Rightarrow> split_part list \<Rightarrow> rstr option" where
  "part_refused i own [] = None"
| "part_refused i own (sp # sps) =
     (if length (sp_link_ids sp) < MIN_PART_LINKS
      then Some (lit ''part '' @ [34] @ sp_title sp @ [34] @ lit '' has '' @ show_nat (length (sp_link_ids sp))
        @ lit '' link(s); each part needs '' @ show_nat MIN_PART_LINKS)
      else
        (case find (\<lambda>l. l \<notin> set own) (sp_link_ids sp) of
           Some bad \<Rightarrow> Some (lit ''link '' @ show_int bad @ lit '' does not belong to '' @ i)
         | None \<Rightarrow> part_refused i own sps))"

definition split_verdict :: "catalog \<Rightarrow> proposal_row \<Rightarrow> adjudication" where
  "split_verdict c p =
     (case pp_node_id p of
        None \<Rightarrow> Refuse (lit ''no node'')
      | Some i \<Rightarrow>
          let sps = (case pp_extra p of ExtraParts xs \<Rightarrow> xs | _ \<Rightarrow> [])
          in if length sps < 2 then Refuse (lit ''a split needs at least two parts'')
             else
               (case part_refused i (live_links_of c i) sps of
                  Some why \<Rightarrow> Refuse why
                | None \<Rightarrow> ApplyNow))"

definition items_of :: "stats \<Rightarrow> rstr \<Rightarrow> int" where
  "items_of stats i = (case stats i of None \<Rightarrow> 0 | Some s \<Rightarrow> item_count s mod 2 ^ 64)"

definition merge_verdict :: "(uchar \<Rightarrow> bool) \<Rightarrow> (rstr \<Rightarrow> rstr) \<Rightarrow> facts \<Rightarrow> proposal_row \<Rightarrow> adjudication" where
  "merge_verdict alnum to_lower f p =
     (let ids = (case pp_extra p of ExtraIds xs \<Rightarrow> xs | _ \<Rightarrow> []); ns = fa_catalog f
      in if length ids < 2 then Refuse (lit ''a merge needs at least two nodes'')
         else
           (case find (\<lambda>i. root_of ns i = None) ids of
              Some i \<Rightarrow> Refuse (lit ''node '' @ i @ lit '' does not exist'')
            | None \<Rightarrow>
                if length (remdups (map (root_of ns) ids)) > 1 then Refuse (lit ''cross-root merge'')
                else
                  (case (class_at ns (ids ! 0), class_at ns (ids ! 1)) of
                     (Some a, Some b) \<Rightarrow>
                       if jaccard alnum to_lower (cn_title a) (cn_title b) \<ge> TITLE_JACCARD_DUP then ApplyNow
                       else if cn_parent_id a = cn_parent_id b
                          \<and> items_of (fa_stats f) (cn_id a) \<ge> int MIN_PART_LINKS
                          \<and> items_of (fa_stats f) (cn_id b) \<ge> int MIN_PART_LINKS
                          \<and> (case fa_cosine f (cn_id a) (cn_id b) of None \<Rightarrow> False | Some x \<Rightarrow> x \<ge> CENTROID_COS)
                       then ApplyNow else Verify
                   | _ \<Rightarrow> Verify)))"

definition collapse_verdict :: "facts \<Rightarrow> proposal_row \<Rightarrow> adjudication" where
  "collapse_verdict f p =
     (case pp_node_id p of
        None \<Rightarrow> Refuse (lit ''no node'')
      | Some i \<Rightarrow>
          (case fa_stats f i of
             None \<Rightarrow> Refuse (lit ''node '' @ i @ lit '' does not exist'')
           | Some stat \<Rightarrow>
               if item_count stat < COLLAPSE_MIN_ITEMS then Refuse (lit ''not_cold: too few items to compress'')
               else if i \<in> fa_protected f \<or> \<not> auto_collapse_safe stat (fa_env f) then Refuse (lit ''not_cold'')
               else ApplyNow))"

definition supersede_verdict_of :: "catalog \<Rightarrow> proposal_row \<Rightarrow> adjudication" where
  "supersede_verdict_of c p =
     (case pp_extra p of
        ExtraPair old new \<Rightarrow>
          (case (ledger_event_ref c old, ledger_event_ref c new) of
             (Some (k1, rk1, r1), Some (k2, rk2, r2)) \<Rightarrow>
               if k1 \<notin> set DECISION_KINDS \<or> k2 \<notin> set DECISION_KINDS then Refuse (lit ''only decision events supersede'')
               else if rk1 = rk2 \<and> r1 = r2 \<and> rk1 \<noteq> None then ApplyNow
               else if rk1 \<noteq> rk2 then Refuse (lit ''different subjects'')
               else Verify
           | _ \<Rightarrow> Refuse (lit ''a seq does not exist''))
      | _ \<Rightarrow> Refuse (lit ''malformed supersede''))"

definition adjudicate_structural ::
  "(uchar \<Rightarrow> bool) \<Rightarrow> (rstr \<Rightarrow> rstr) \<Rightarrow> catalog \<Rightarrow> facts \<Rightarrow> proposal_row \<Rightarrow> adjudication" where
  "adjudicate_structural alnum to_lower c f p =
     (if pp_op p = lit ''promote'' then promote_verdict (fa_catalog f) p
      else if pp_op p = lit ''split'' then split_verdict c p
      else if pp_op p = lit ''merge'' then merge_verdict alnum to_lower f p
      else if pp_op p = lit ''collapse'' then collapse_verdict f p
      else if pp_op p = lit ''supersede'' then supersede_verdict_of c p
      else Refuse (lit ''unknown op '' @ pp_op p))"

section \<open>The queue policy\<close>

definition PROPOSAL_BACKOFF_RUNS :: "int list" where "PROPOSAL_BACKOFF_RUNS = [1, 2, 4]"
definition PROPOSAL_TTL_ATTEMPTS :: int where "PROPOSAL_TTL_ATTEMPTS = 3"

definition backoff_runs :: "int \<Rightarrow> int" where
  "backoff_runs attempts =
     PROPOSAL_BACKOFF_RUNS ! nat (min (max attempts 1 - 1) (int (length PROPOSAL_BACKOFF_RUNS) - 1))"

definition expired :: "proposal_row \<Rightarrow> int \<Rightarrow> rstr option" where
  "expired p lake_newest =
     (if pp_attempts p \<ge> PROPOSAL_TTL_ATTEMPTS then Some (show_int (pp_attempts p) @ lit '' attempts'')
      else
        (case pp_expires_lake_ts p of
           None \<Rightarrow> None
         | Some t \<Rightarrow> if lake_newest > t then Some (lit ''seven lake-days'') else None))"

section \<open>The output screen\<close>

text \<open>What one prompt showed: the numbers, the host ids and the classes.\<close>

record shown =
  sh_seqs :: "int set"
  sh_host_ids :: "rstr set"
  sh_nodes :: "rstr set"

definition item_ids :: "lake_item \<Rightarrow> rstr list" where
  "item_ids it =
     filter (\<lambda>s. s \<noteq> []) (List.map_filter (\<lambda>x. x)
       [li_session_id it, li_mission_id it, li_thread_id it, li_parent_session_id it])
     @ (case li_ref_id it of None \<Rightarrow> [] | Some i \<Rightarrow> [i])"

definition from_delta :: "class_node list \<Rightarrow> lake_item list \<Rightarrow> shown" where
  "from_delta tree delta =
     \<lparr>sh_seqs = set (map li_seq delta), sh_host_ids = set (concat (map item_ids delta)), sh_nodes = set (map cn_id tree)\<rparr>"

definition not_shown :: "string \<Rightarrow> rstr \<Rightarrow> rstr" where
  "not_shown what i = lit what @ [32] @ i @ lit '' was not shown''"

fun screened :: "shown \<Rightarrow> proposal \<Rightarrow> rstr option" where
  "screened s (File parent _ _ target _ _) =
     (if parent \<notin> sh_nodes s then Some (not_shown ''parent'' parent)
      else
        (case parse_i64 target of
           Some n \<Rightarrow> if n \<in> sh_seqs s then None else Some (not_shown ''seq'' (show_int n))
         | None \<Rightarrow> if target \<in> sh_host_ids s then None else Some (not_shown ''id'' target)))"
| "screened s (Create parent _ _) = (if parent \<in> sh_nodes s then None else Some (not_shown ''parent'' parent))"
| "screened s (Promote i parent _) =
     (if i \<notin> sh_nodes s then Some (not_shown ''node'' i)
      else
        (case parent of
           None \<Rightarrow> None
         | Some q \<Rightarrow> if q \<in> sh_nodes s then None else Some (not_shown ''parent'' q)))"
| "screened s (Split i _ _) = (if i \<in> sh_nodes s then None else Some (not_shown ''node'' i))"
| "screened s (Merge ids _ _ _) = map_option (not_shown ''node'') (find (\<lambda>i. i \<notin> sh_nodes s) ids)"
| "screened s (Collapse i _ _ _) = (if i \<in> sh_nodes s then None else Some (not_shown ''node'' i))"
| "screened s (Supersede _ new _) = (if new \<in> sh_seqs s then None else Some (not_shown ''seq'' (show_int new)))"

definition screen :: "proposal list \<Rightarrow> shown \<Rightarrow> proposal list \<times> (proposal \<times> rstr) list" where
  "screen ps s =
     (filter (\<lambda>p. screened s p = None) ps,
      List.map_filter (\<lambda>p. map_option (\<lambda>why. (p, why)) (screened s p)) ps)"

fun subjects_of :: "proposal \<Rightarrow> rstr list" where
  "subjects_of (File parent _ _ target _ _) =
     subject_node parent # (case parse_i64 target of None \<Rightarrow> [] | Some s \<Rightarrow> [subject_seq s])"
| "subjects_of (Create parent _ _) = [subject_node parent]"
| "subjects_of (Promote i _ _) = [subject_node i]"
| "subjects_of (Split i _ _) = [subject_node i]"
| "subjects_of (Collapse i _ _ _) = [subject_node i]"
| "subjects_of (Merge ids _ _ _) = map subject_node ids"
| "subjects_of (Supersede old new _) = [subject_seq old, subject_seq new]"

end
