(* ===== verification/Undo.thy ===== *)
theory Undo
  imports Restore
begin

text \<open>
  Every operation of the catalogue keeps it well formed, and is undone by the image it journals.
\<close>

section \<open>Well-formed catalogues stay so\<close>

lemma wfD:
  assumes "wf c"
  shows "distinct (map cn_id (ct_nodes c))" "distinct (map cl_id (ct_links c))" "distinct (map co_id (ct_obs c))"
    "distinct (map (\<lambda>k. (cl_node_id k, cl_target_kind k, cl_target_id k)) (ct_links c))"
    "k \<in> set (ct_links c) \<Longrightarrow> cl_id k \<le> ct_link_seq c" "b \<in> set (ct_obs c) \<Longrightarrow> co_id b \<le> ct_obs_seq c"
    "n \<in> set (ct_nodes c) \<Longrightarrow> nr_retired_by n = None \<Longrightarrow> nr_retired_into n = None"
  using assms by (auto simp: wf_def)

lemma comp_if_key: "(\<And>n. key (f n) = key n) \<Longrightarrow> key \<circ> (\<lambda>n. if P n then f n else n) = key"
  by (auto simp: fun_eq_iff)

lemma wf_nodes:
  assumes "wf c" "\<And>n. cn_id (f n) = cn_id n"
    and "\<And>n. nr_retired_by n = None \<longrightarrow> nr_retired_into n = None \<Longrightarrow> nr_retired_by (f n) = None \<longrightarrow> nr_retired_into (f n) = None"
  shows "wf (update_nodes P f c)"
  using assms by (auto simp: wf_def update_nodes_def comp_if_key)

lemma wf_links:
  assumes "wf c" "\<And>k. cl_id (f k) = cl_id k" "\<And>k. cl_node_id (f k) = cl_node_id k"
    and "\<And>k. cl_target_kind (f k) = cl_target_kind k" "\<And>k. cl_target_id (f k) = cl_target_id k"
  shows "wf (update_links P f c)"
  using assms
    comp_if_key [of "\<lambda>k. (cl_node_id k, cl_target_kind k, cl_target_id k)" f P]
  by (auto simp: wf_def update_links_def comp_if_key)

lemma wf_obs:
  assumes "wf c" "\<And>b. co_id (f b) = co_id b"
  shows "wf (update_obs P f c)"
  using assms by (auto simp: wf_def update_obs_def comp_if_key)

lemma wf_put_link:
  assumes wf: "wf c" and free: "\<not> link_taken l i c"
  shows "wf (put_link l i c)"
proof -
  let ?g = "\<lambda>m. if cl_id m = l then m\<lparr>cl_node_id := i\<rparr> else m"
  let ?key = "\<lambda>k. (cl_node_id k, cl_target_kind k, cl_target_id k)"
  have "distinct (map ?key (map ?g (ct_links c)))"
    unfolding map_map distinct_map
  proof (intro conjI inj_onI)
    show "distinct (ct_links c)" using wfD(2) [OF wf] by (simp add: distinct_map)
    fix a b assume a: "a \<in> set (ct_links c)" and b: "b \<in> set (ct_links c)" and eq: "(?key \<circ> ?g) a = (?key \<circ> ?g) b"
    have row: "link c (cl_id m) = Some m" if "m \<in> set (ct_links c)" for m
      using link_mem [OF wfD(2) [OF wf] that] .
    have no: "\<not> (cl_node_id b' = i \<and> cl_target_kind b' = cl_target_kind a' \<and> cl_target_id b' = cl_target_id a')"
      if "a' \<in> set (ct_links c)" "b' \<in> set (ct_links c)" "cl_id a' = l" "cl_id b' \<noteq> l" for a' b'
      using free row [OF that(1)] that by (auto simp: link_taken_def list_ex_iff)
    show "a = b"
    proof (cases "cl_id a = l"; cases "cl_id b = l")
      assume "cl_id a = l" "cl_id b = l"
      then show ?thesis using row [OF a] row [OF b] by simp
    next
      assume "cl_id a = l" "cl_id b \<noteq> l"
      then show ?thesis using no [OF a b] eq by auto
    next
      assume "cl_id a \<noteq> l" "cl_id b = l"
      then show ?thesis using no [OF b a] eq by auto
    next
      assume "cl_id a \<noteq> l" "cl_id b \<noteq> l"
      then show ?thesis using eq wfD(4) [OF wf] a b by (auto simp: distinct_map inj_on_def)
    qed
  qed
  then show ?thesis
    using wf by (auto simp: wf_def put_link_def update_links_def comp_if_key)
qed

lemma wf_move_link: "wf c \<Longrightarrow> move_link l i c = Some d \<Longrightarrow> wf d"
  by (auto simp: move_link_def wf_put_link split: if_splits)

lemma wf_insert_node:
  assumes "wf c" "insert_node i parent kind title summary project curated_by now c = Some d"
  shows "wf d"
  using assms by (auto simp: insert_node_def wf_def node_def find_key_None split: if_splits)

lemma wf_insert_link:
  assumes "wf c" "link_at c i kind target = None" "insert_link i kind target note now c = (l, d)"
  shows "wf d"
proof -
  have "\<not> (cl_node_id k = i \<and> cl_target_kind k = kind \<and> cl_target_id k = target)" if "k \<in> set (ct_links c)" for k
    using assms(2) that by (auto simp: link_at_def find_None_iff)
  moreover have "cl_id k < ct_link_seq c + 1" if "k \<in> set (ct_links c)" for k
    using wfD(5) [OF assms(1) that] by simp
  ultimately show ?thesis
    using assms(1,3) by (fastforce simp: insert_link_def wf_def Let_def)
qed

lemma journal_tables [simp]:
  "ct_nodes (journal_op r name subjects im ev c) = ct_nodes c" "ct_links (journal_op r name subjects im ev c) = ct_links c"
  "ct_obs (journal_op r name subjects im ev c) = ct_obs c" "ct_dec (journal_op r name subjects im ev c) = ct_dec c"
  "ct_link_seq (journal_op r name subjects im ev c) = ct_link_seq c"
  "ct_obs_seq (journal_op r name subjects im ev c) = ct_obs_seq c"
  "ct_runs (journal_op r name subjects im ev c) = ct_runs c" "ct_horizon (journal_op r name subjects im ev c) = ct_horizon c"
  by (simp_all add: journal_op_def)

lemma journal_rows [simp]:
  "node (journal_op r name subjects im ev c) = node c" "link (journal_op r name subjects im ev c) = link c"
  "obs (journal_op r name subjects im ev c) = obs c" "wf (journal_op r name subjects im ev c) = wf c"
  by (simp_all add: fun_eq_iff node_def link_def obs_def wf_def)

lemma placeable_links: "link S1 = link S2 \<Longrightarrow> placeable S S1 im = placeable S S2 im"
  by (cases im) (simp_all add: placeable_def)

lemma undoes_journal [simp]: "undoes run by im S (journal_op r name subjects im' ev c) = undoes run by im S c"
  using placeable_links [of "journal_op r name subjects im' ev c" c S im] by (simp add: undoes_def names_rows_def)

lemma undoesI:
  assumes "\<And>i n. node S i = Some n \<Longrightarrow> \<exists>m. node S1 i = Some m \<and> same_node n (undo_node run by im m)"
    and "\<And>i m. node S i = None \<Longrightarrow> node S1 i = Some m \<Longrightarrow> nr_retired_by (undo_node run by im m) \<noteq> None"
    and "\<And>l k. link S l = Some k \<Longrightarrow> \<exists>m. link S1 l = Some m \<and> undo_link run by im m = Some k"
    and "\<And>l m m'. link S l = None \<Longrightarrow> link S1 l = Some m \<Longrightarrow> undo_link run by im m = Some m' \<Longrightarrow> gone_link S m'"
    and "\<And>i n. obs S i = Some n \<Longrightarrow> \<exists>m. obs S1 i = Some m \<and> n = undo_obs run by im m"
    and "\<And>i m. obs S i = None \<Longrightarrow> obs S1 i = Some m \<Longrightarrow> or_retired_by (undo_obs run by im m) \<noteq> None"
    and "undo_supers im (dc_supers (ct_dec S1)) = dc_supers (ct_dec S)"
    and "\<exists>es. dc_events (ct_dec S1) = dc_events (ct_dec S) @ es"
    and "names_rows run by im S1" and "placeable S S1 im"
  shows "undoes run by im S S1"
proof -
  have "rows_back (node S) (\<lambda>i. map_option (undo_node run by im) (node S1 i)) same_node (\<lambda>m. nr_retired_by m \<noteq> None)"
    unfolding rows_back_def
  proof
    fix i
    show "case node S i of
        None \<Rightarrow> (case map_option (undo_node run by im) (node S1 i) of None \<Rightarrow> True | Some m \<Rightarrow> nr_retired_by m \<noteq> None)
      | Some n \<Rightarrow> (case map_option (undo_node run by im) (node S1 i) of None \<Rightarrow> False | Some m \<Rightarrow> same_node n m)"
      using assms(1,2) [of i] by (cases "node S i"; cases "node S1 i") auto
  qed
  moreover have "rows_back (link S) (\<lambda>l. Option.bind (link S1 l) (undo_link run by im)) (=) (gone_link S)"
    unfolding rows_back_def
  proof
    fix l
    show "case link S l of
        None \<Rightarrow> (case Option.bind (link S1 l) (undo_link run by im) of None \<Rightarrow> True | Some m \<Rightarrow> gone_link S m)
      | Some n \<Rightarrow> (case Option.bind (link S1 l) (undo_link run by im) of None \<Rightarrow> False | Some m \<Rightarrow> n = m)"
      using assms(3,4) [of l] by (cases "link S l"; cases "link S1 l") (auto split: option.splits)
  qed
  moreover have "rows_back (obs S) (\<lambda>b. map_option (undo_obs run by im) (obs S1 b)) (=) (\<lambda>b. or_retired_by b \<noteq> None)"
    unfolding rows_back_def
  proof
    fix b
    show "case obs S b of
        None \<Rightarrow> (case map_option (undo_obs run by im) (obs S1 b) of None \<Rightarrow> True | Some m \<Rightarrow> or_retired_by m \<noteq> None)
      | Some n \<Rightarrow> (case map_option (undo_obs run by im) (obs S1 b) of None \<Rightarrow> False | Some m \<Rightarrow> n = m)"
      using assms(5,6) [of b] by (cases "obs S b"; cases "obs S1 b") auto
  qed
  ultimately show ?thesis using assms(7-10) by (simp only: undoes_def)
qed

text \<open>The tables an operation leaves alone.\<close>

lemma undoes_nodesI:
  assumes "\<And>i n. node S i = Some n \<Longrightarrow> \<exists>m. node S1 i = Some m \<and> same_node n (undo_node run by im m)"
    and "\<And>i m. node S i = None \<Longrightarrow> node S1 i = Some m \<Longrightarrow> nr_retired_by (undo_node run by im m) \<noteq> None"
    and "link S1 = link S" "obs S1 = obs S" "ct_dec S1 = ct_dec S"
    and "undo_link run by im = Some" "undo_obs run by im = (\<lambda>b. b)" "undo_supers im = (\<lambda>r. r)"
    and "names_rows run by im S1" and "placeable S S1 im"
  shows "undoes run by im S S1"
  by (rule undoesI) (use assms in auto)

section \<open>Promote\<close>

lemma node_set_parent:
  "node (set_parent i p now c) j = map_option (\<lambda>n. if cn_id n = i then n\<lparr>cn_parent_id := p, cn_updated_at := now\<rparr> else n) (node c j)"
  unfolding set_parent_def by (rule node_update_nodes) simp

lemma set_parent_other [simp]:
  "link (set_parent i p now c) = link c" "obs (set_parent i p now c) = obs c" "ct_dec (set_parent i p now c) = ct_dec c"
  by (simp_all add: set_parent_def)

lemma wf_set_parent: "wf c \<Longrightarrow> wf (set_parent i p now c)"
  unfolding set_parent_def by (rule wf_nodes) auto

lemma wf_set_title: "wf c \<Longrightarrow> wf (set_title i t now c)"
  unfolding set_title_def by (rule wf_nodes) auto

lemma promote_undone: "undoes run by (ImPromote i (parent_of c i) parent) c (set_parent i parent now c)"
proof (rule undoes_nodesI)
  show "\<exists>m. node (set_parent i parent now c) j = Some m
      \<and> same_node n (undo_node run by (ImPromote i (parent_of c i) parent) m)" if n: "node c j = Some n" for j n
  proof -
    have "n\<lparr>cn_parent_id := cn_parent_id n, cn_updated_at := 0\<rparr> = n\<lparr>cn_updated_at := 0\<rparr>" by (cases n) simp
    then show ?thesis using n node_id [OF n] by (auto simp: node_set_parent parent_of_def same_node_def)
  qed
qed (auto simp: node_set_parent names_rows_def placeable_def fun_eq_iff)

section \<open>Create\<close>

lemma node_insert:
  assumes "insert_node i parent kind title summary project curated_by now c = Some d"
  obtains m where "node c i = None" "cn_id m = i" "nr_retired_by m = None" "cn_parent_id m = parent"
    "\<And>j. node d j = (if j = i then Some m else node c j)" "ct_nodes d = ct_nodes c @ [m]"
    "link d = link c" "obs d = obs c" "ct_dec d = ct_dec c" "ct_runs d = ct_runs c" "ct_ops d = ct_ops c"
proof -
  let ?m = "\<lparr>cn_id = i, cn_parent_id = parent, cn_kind = kind, cn_title = title, cn_summary = summary,
    cn_project_path = project, cn_ip_name = None, cn_status = lit ''accepted'', cn_pinned = False,
    cn_curated_by = Some curated_by, cn_created_at = now, cn_updated_at = now,
    nr_retired_by = None, nr_retired_into = None\<rparr> :: node_row"
  have fresh: "node c i = None" and d: "d = c\<lparr>ct_nodes := ct_nodes c @ [?m]\<rparr>"
    using assms by (auto simp: insert_node_def split: if_splits)
  have "node d j = (if j = i then Some ?m else node c j)" for j
    using fresh by (auto simp: d node_def find_append split: option.splits)
  then show ?thesis
    by (intro that [of ?m]) (simp_all add: fresh d link_def obs_def fun_eq_iff)
qed

lemma new_node_id_tables:
  assumes "new_node_id uuid c = (i, d)"
  shows "node d = node c" "link d = link c" "obs d = obs c" "ct_dec d = ct_dec c" "wf d = wf c"
    "ct_nodes d = ct_nodes c" "ct_ops d = ct_ops c" "ct_runs d = ct_runs c"
  using assms by (auto simp: new_node_id_def fun_eq_iff node_def link_def obs_def wf_def)

lemma create_undone:
  assumes "insert_node i parent kind title summary project curated_by now c = Some d"
  shows "undoes run by (ImCreate i parent' title') c d"
proof -
  obtain r where r: "node c i = None" "cn_id r = i" "nr_retired_by r = None"
    "\<And>j. node d j = (if j = i then Some r else node c j)" and rest: "link d = link c" "obs d = obs c" "ct_dec d = ct_dec c"
    by (rule node_insert [OF assms]) blast
  show ?thesis
  proof (rule undoes_nodesI)
    show "\<exists>m. node d j = Some m \<and> same_node n (undo_node run by (ImCreate i parent' title') m)"
      if n: "node c j = Some n" for j n
    proof -
      have "j \<noteq> i" using n r(1) by auto
      then show ?thesis using n r(4) node_id [OF n] by (auto simp: shelve_row_def)
    qed
    show "nr_retired_by (undo_node run by (ImCreate i parent' title') m) \<noteq> None"
      if "node c j = None" "node d j = Some m" for j m
      using that r by (auto simp: shelve_row_def split: if_splits)
    show "names_rows run by (ImCreate i parent' title') d" by (auto simp: names_rows_def shelve_row_def)
  qed (use rest in \<open>auto simp: placeable_def fun_eq_iff\<close>)
qed

section \<open>File\<close>

lemma link_at_key: "link_at c i kind target = Some k \<Longrightarrow> k \<in> set (ct_links c)"
  by (auto simp: link_at_def find_Some_iff)

lemma link_insert:
  assumes "wf c" "insert_link i kind target note now c = (l, d)"
  obtains k where "link c l = None" "cl_id k = l" "cl_node_id k = i" "lr_retired_by k = None"
    "cl_target_kind k = kind" "cl_target_id k = target"
    "\<And>j. link d j = (if j = l then Some k else link c j)"
    "ct_nodes d = ct_nodes c"
    "node d = node c" "obs d = obs c" "ct_dec d = ct_dec c" "ct_runs d = ct_runs c" "ct_ops d = ct_ops c"
proof -
  let ?k = "\<lparr>cl_id = l, cl_node_id = i, cl_target_kind = kind, cl_target_id = target, cl_note = note,
    cl_status = lit ''accepted'', cl_created_at = now, lr_retired_by = None\<rparr> :: link_row"
  have d: "d = c\<lparr>ct_link_seq := l, ct_links := ct_links c @ [?k]\<rparr>" and l: "l = ct_link_seq c + 1"
    using assms(2) by (auto simp: insert_link_def Let_def)
  have fresh: "link c l = None"
    using wfD(5) [OF assms(1)] by (fastforce simp: link_def find_key_None l)
  have "link d j = (if j = l then Some ?k else link c j)" for j
    using fresh by (auto simp: d link_def find_append split: option.splits)
  then show ?thesis
    by (intro that [of ?k]) (simp_all add: fresh d node_def obs_def fun_eq_iff)
qed

lemma undoes_linksI:
  assumes "\<And>l k. link S l = Some k \<Longrightarrow> \<exists>m. link S1 l = Some m \<and> undo_link run by im m = Some k"
    and "\<And>l m m'. link S l = None \<Longrightarrow> link S1 l = Some m \<Longrightarrow> undo_link run by im m = Some m' \<Longrightarrow> gone_link S m'"
    and "node S1 = node S" "obs S1 = obs S" "ct_dec S1 = ct_dec S"
    and "undo_node run by im = (\<lambda>n. n)" "undo_obs run by im = (\<lambda>b. b)" "undo_supers im = (\<lambda>r. r)"
    and "names_rows run by im S1" and "placeable S S1 im"
  shows "undoes run by im S S1"
  by (rule undoesI) (use assms in auto)

lemma file_new_undone:
  assumes "wf c" "insert_link i kind target note now c = (l, d)"
  shows "undoes run by (ImFile l i' kind' target' None) c d"
proof -
  obtain r where r: "link c l = None" "cl_id r = l" "\<And>j. link d j = (if j = l then Some r else link c j)"
    and rest: "node d = node c" "obs d = obs c" "ct_dec d = ct_dec c"
    by (rule link_insert [OF assms]) blast
  show ?thesis
  proof (rule undoes_linksI)
    show "\<exists>m. link d j = Some m \<and> undo_link run by (ImFile l i' kind' target' None) m = Some k"
      if k: "link c j = Some k" for j k
    proof -
      have "j \<noteq> l" using k r(1) by auto
      then show ?thesis using k r(3) link_id [OF k] by auto
    qed
    show "gone_link c m'" if "link c j = None" "link d j = Some m"
      "undo_link run by (ImFile l i' kind' target' None) m = Some m'" for j m m'
      using that r by (auto split: if_splits)
    show "names_rows run by (ImFile l i' kind' target' None) d" using r(3) by (auto simp: names_rows_def)
  qed (use rest in \<open>auto simp: placeable_def fun_eq_iff\<close>)
qed

lemma file_revived_undone:
  assumes k: "link c l = Some k" "lr_retired_by k = Some r"
  shows "undoes run by (ImFile l i kind target (Some r)) c
    (update_links (\<lambda>m. cl_id m = l) (\<lambda>m. m\<lparr>lr_retired_by := None\<rparr>) c)" (is "undoes run by ?im c ?d")
proof -
  have d: "link ?d j = map_option (\<lambda>m. if cl_id m = l then m\<lparr>lr_retired_by := None\<rparr> else m) (link c j)" for j
    by (rule link_update_links) simp
  show ?thesis
  proof (rule undoes_linksI)
    show "\<exists>m. link ?d j = Some m \<and> undo_link run by ?im m = Some k'" if k': "link c j = Some k'" for j k'
    proof -
      have "k'\<lparr>lr_retired_by := Some r\<rparr> = k'" if "j = l" using k k' that by (cases k') simp
      then show ?thesis using d [of j] k' link_id [OF k'] by auto
    qed
    have "undo_link run by ?im m = Some m" if "link ?d (cl_id m) = None" for m
    proof -
      have "cl_id m \<noteq> l" using that k(1) d [of l] by auto
      then show ?thesis by simp
    qed
    then show "names_rows run by ?im ?d" by (simp add: names_rows_def)
  qed (use d in \<open>auto simp: placeable_def fun_eq_iff\<close>)
qed

lemma wf_revive: "wf c \<Longrightarrow> wf (update_links (\<lambda>m. cl_id m = l) (\<lambda>m. m\<lparr>lr_retired_by := x\<rparr>) c)"
  by (rule wf_links) auto

section \<open>Supersede and observe\<close>

lemma dec_tables [simp]:
  "node (c\<lparr>ct_dec := x\<rparr>) = node c" "link (c\<lparr>ct_dec := x\<rparr>) = link c" "obs (c\<lparr>ct_dec := x\<rparr>) = obs c"
  "wf (c\<lparr>ct_dec := x\<rparr>) = wf c"
  by (simp_all add: fun_eq_iff node_def link_def obs_def wf_def)

lemma supersede_undone:
  assumes "apply_supersession sha append_ok insert_ok old new rationale actor now (ct_dec c) = (Some (Applied eff n ev), d)"
  shows "undoes run by (ImSupersede eff n ev) c (c\<lparr>ct_dec := d\<rparr>)"
proof -
  have walk: "chain_walk (dc_supers (ct_dec c)) 0 old = Inr eff"
    and d: "\<exists>t. dc_supers d = dc_supers (ct_dec c) @ [\<lparr>su_old = eff, su_new = n, su_event = ev, su_created = t\<rparr>]"
      "\<exists>es. dc_events d = dc_events (ct_dec c) @ es"
    using apply_supersession_cases [OF assms] by (auto simp: Let_def case_prod_beta append_in_txn_rows)
  have "eff \<notin> su_old ` set (dc_supers (ct_dec c))"
    using chain_walk_end [OF walk] by (simp add: superseded_by_None)
  then have "filter (\<lambda>r. \<not> (su_old r = eff \<and> su_event r = ev)) (dc_supers (ct_dec c)) = dc_supers (ct_dec c)"
    by (auto simp: filter_id_conv)
  then show ?thesis using d by (intro undoesI) (auto simp: names_rows_def placeable_def)
qed

lemma observe_undone:
  assumes wf: "wf c" and ins: "insert_class_observation sha i summary cites actor now c = (Some (b, s), d)"
  shows "undoes run by (ImObserve b i s) c d" "wf d"
proof -
  let ?app = "append_in_txn sha (observation_append sha actor i now
    [(lit ''node'', i), (lit ''summary'', summary), (lit ''cites'', show_ints cites)]) (dc_events (ct_dec c))"
  let ?r = "\<lparr>co_id = b, co_node_id = i, co_summary = summary, co_cite_seqs = cites, co_created_seq = Some s,
    co_pinned = False, co_dismissed = False, co_created_at = now, co_retired_at = None,
    co_retired_reason = None, or_retired_by = None\<rparr> :: obs_row"
  have d: "d = c\<lparr>ct_obs := ct_obs c @ [?r], ct_obs_seq := b, ct_dec := (ct_dec c)\<lparr>dc_events := snd ?app\<rparr>\<rparr>"
    and b: "b = ct_obs_seq c + 1"
    using ins by (auto simp: insert_class_observation_def Let_def case_prod_beta split: if_splits)
  obtain r rows where d: "d = c\<lparr>ct_obs := ct_obs c @ [r], ct_obs_seq := b, ct_dec := (ct_dec c)\<lparr>dc_events := rows\<rparr>\<rparr>"
    and r: "co_id r = b" "or_retired_by r = None" "b = ct_obs_seq c + 1" and rows: "\<exists>es. rows = dc_events (ct_dec c) @ es"
    using that [OF d] b by (simp add: append_in_txn_rows)
  have fresh: "obs c b = None" using wfD(6) [OF wf] by (fastforce simp: obs_def find_key_None r)
  have ob: "obs d j = (if j = b then Some r else obs c j)" for j
    using fresh r by (auto simp: d obs_def find_append split: option.splits)
  have nl: "node d = node c" "link d = link c" by (simp_all add: d fun_eq_iff node_def link_def)
  show "undoes run by (ImObserve b i s) c d"
  proof (rule undoesI)
    show "\<exists>m. obs d j = Some m \<and> n = undo_obs run by (ImObserve b i s) m" if n: "obs c j = Some n" for j n
    proof -
      have "j \<noteq> b" using n fresh by auto
      then show ?thesis using ob n obs_id [OF n] by auto
    qed
    show "or_retired_by (undo_obs run by (ImObserve b i s) m) \<noteq> None" if "obs c j = None" "obs d j = Some m" for j m
      using that ob r by (auto split: if_splits)
  qed (use rows nl in \<open>auto simp: d names_rows_def placeable_def\<close>)
  show "wf d" using wf wfD(6) [OF wf] r by (fastforce simp: wf_def d)
qed

section \<open>Collapse\<close>

text \<open>The citations: new live links on the digest.\<close>

definition cited :: "rstr \<Rightarrow> catalog \<Rightarrow> catalog \<Rightarrow> int list \<Rightarrow> bool" where
  "cited digest D c cites \<longleftrightarrow>
     wf c \<and> ct_nodes c = ct_nodes D \<and> obs c = obs D \<and> ct_dec c = ct_dec D \<and> ct_ops c = ct_ops D
     \<and> ct_runs c = ct_runs D
     \<and> (\<forall>l. if l \<in> set cites
          then link D l = None \<and> (\<exists>k. link c l = Some k \<and> cl_node_id k = digest \<and> lr_retired_by k = None)
          else link c l = link D l)"

lemma cited_step:
  assumes "cited digest D c cites"
  shows "cited digest D (fst (cite_seq digest now s (c, cites))) (snd (cite_seq digest now s (c, cites)))"
proof (cases "link_at c digest (lit ''ledger'') (show_int s) = None")
  case True
  have wf: "wf c" using assms by (simp add: cited_def)
  obtain l d where ins: "insert_link digest (lit ''ledger'') (show_int s) None now c = (l, d)" by fastforce
  obtain k where k: "link c l = None" "cl_node_id k = digest" "lr_retired_by k = None"
    "\<And>j. link d j = (if j = l then Some k else link c j)"
    "ct_nodes d = ct_nodes c" "obs d = obs c" "ct_dec d = ct_dec c" "ct_ops d = ct_ops c" "ct_runs d = ct_runs c"
    by (rule link_insert [OF wf ins]) blast
  have "wf d" by (rule wf_insert_link [OF wf True ins])
  moreover have "l \<notin> set cites"
    using assms k(1) by (auto simp: cited_def dest: spec [of _ l])
  moreover have "link D l = None" using assms k(1) \<open>l \<notin> set cites\<close> by (auto simp: cited_def dest: spec [of _ l])
  ultimately show ?thesis
    using assms k by (auto simp: cited_def cite_seq_def True ins)
next
  case False
  then show ?thesis using assms by (simp add: cite_seq_def)
qed

lemma cited_fold:
  "cited digest D c cites \<Longrightarrow> fold (cite_seq digest now) seqs (c, cites) = (c', cites') \<Longrightarrow> cited digest D c' cites'"
proof (induction seqs arbitrary: c cites)
  case (Cons s seqs)
  show ?case
    by (rule Cons.IH [OF cited_step [OF Cons.prems(1), of now s]]) (use Cons.prems(2) in simp)
qed simp

text \<open>What a retirement marks, against the state it started from.\<close>

lemma link_fold_retire:
  "link (fold (retire_link run) ls c) l
     = map_option (\<lambda>k. if cl_id k \<in> set ls then k\<lparr>lr_retired_by := Some run\<rparr> else k) (link c l)"
proof (induction ls arbitrary: c)
  case (Cons x ls)
  have "link (retire_link run x c) l = map_option (\<lambda>k. if cl_id k = x then k\<lparr>lr_retired_by := Some run\<rparr> else k) (link c l)"
    unfolding retire_link_def by (rule link_update_links) simp
  then show ?case by (cases "link c l") (auto simp: Cons.IH)
qed (simp add: option.map_ident)

lemma obs_fold_retire:
  "obs (fold (retire_obs run) bs c) b
     = map_option (\<lambda>x. if co_id x \<in> set bs then x\<lparr>or_retired_by := Some run\<rparr> else x) (obs c b)"
proof (induction bs arbitrary: c)
  case (Cons y bs)
  have "obs (retire_obs run y c) b = map_option (\<lambda>x. if co_id x = y then x\<lparr>or_retired_by := Some run\<rparr> else x) (obs c b)"
    unfolding retire_obs_def by (rule obs_update_obs) simp
  then show ?case by (cases "obs c b") (auto simp: Cons.IH)
qed (simp add: option.map_ident)

lemma retire_others [simp]:
  "node (retire_link run l c) = node c" "obs (retire_link run l c) = obs c" "ct_dec (retire_link run l c) = ct_dec c"
  "node (retire_obs run b c) = node c" "link (retire_obs run b c) = link c" "ct_dec (retire_obs run b c) = ct_dec c"
  by (simp_all add: retire_link_def retire_obs_def)

lemma fold_retire_others [simp]:
  "node (fold (retire_link run) ls c) = node c" "obs (fold (retire_link run) ls c) = obs c"
  "ct_dec (fold (retire_link run) ls c) = ct_dec c"
  "node (fold (retire_obs run) bs c) = node c" "link (fold (retire_obs run) bs c) = link c"
  "ct_dec (fold (retire_obs run) bs c) = ct_dec c"
  by (simp_all add: fold_preserves [where g = node] fold_preserves [where g = obs] fold_preserves [where g = link]
      fold_preserves [where g = ct_dec])

lemma wf_fold: "(\<And>k c. wf c \<Longrightarrow> wf (f k c)) \<Longrightarrow> wf c \<Longrightarrow> wf (fold f ks c)"
  by (induction ks arbitrary: c) auto

lemma wf_retire_link: "wf c \<Longrightarrow> wf (retire_link run l c)"
  unfolding retire_link_def by (rule wf_links) auto

lemma wf_retire_obs: "wf c \<Longrightarrow> wf (retire_obs run b c)"
  unfolding retire_obs_def by (rule wf_obs) auto

lemma live_links_of_mem:
  assumes "wf c"
  shows "l \<in> set (live_links_of c i) \<longleftrightarrow> (\<exists>k. link c l = Some k \<and> cl_node_id k = i \<and> lr_retired_by k = None)"
  using wfD(2) [OF assms] by (auto simp: live_links_of_def link_def find_key_mem)

lemma live_obs_of_mem:
  assumes "wf c"
  shows "b \<in> set (live_obs_of c i) \<longleftrightarrow> (\<exists>x. obs c b = Some x \<and> co_node_id x = i \<and> or_retired_by x = None)"
  using wfD(3) [OF assms] by (auto simp: live_obs_of_def obs_def find_key_mem)

lemma live_children_mem:
  assumes "wf c"
  shows "k \<in> set (live_children c p) \<longleftrightarrow> (\<exists>n. node c k = Some n \<and> cn_parent_id n = Some p \<and> nr_retired_by n = None)"
  using wfD(1) [OF assms] by (auto simp: live_children_def node_def find_key_mem)

definition retired_from :: "int \<Rightarrow> rstr option \<Rightarrow> catalog \<Rightarrow> catalog \<Rightarrow> retired_set \<Rightarrow> bool" where
  "retired_from run into D c out \<longleftrightarrow>
     wf c \<and> ct_dec c = ct_dec D
     \<and> (\<forall>j. node c j = map_option (\<lambda>n. if cn_id n \<in> set (rs_nodes out) \<and> nr_retired_by n = None
          then n\<lparr>nr_retired_by := Some run, nr_retired_into := into\<rparr> else n) (node D j))
     \<and> (\<forall>l. link c l = map_option (\<lambda>k. if cl_id k \<in> set (rs_links out) then k\<lparr>lr_retired_by := Some run\<rparr> else k) (link D l))
     \<and> (\<forall>l\<in>set (rs_links out). \<exists>k. link D l = Some k \<and> lr_retired_by k = None \<and> cl_node_id k \<in> set (rs_nodes out))
     \<and> (\<forall>b. obs c b = map_option (\<lambda>x. if co_id x \<in> set (rs_obs out) then x\<lparr>or_retired_by := Some run\<rparr> else x) (obs D b))
     \<and> (\<forall>b\<in>set (rs_obs out). \<exists>x. obs D b = Some x \<and> or_retired_by x = None)"

lemma mark_twice:
  assumes "\<And>n. key (r n) = key n" "\<And>n. \<not> live (r n)"
  shows "map_option (\<lambda>n. if key n = i \<and> live n then r n else n) (map_option (\<lambda>n. if key n \<in> A \<and> live n then r n else n) x)
    = map_option (\<lambda>n. if key n \<in> insert i A \<and> live n then r n else n) x"
  using assms by (cases x) auto

lemma retired_from_step:
  assumes R: "retired_from run into D c out"
  shows "retired_from run into D (fst (retire_node run into i (c, out))) (snd (retire_node run into i (c, out)))"
proof -
  note r = R [unfolded retired_from_def]
  have rn: "node c j = map_option (\<lambda>n. if cn_id n \<in> set (rs_nodes out) \<and> nr_retired_by n = None
      then n\<lparr>nr_retired_by := Some run, nr_retired_into := into\<rparr> else n) (node D j)"
    and rl: "link c l = map_option (\<lambda>k. if cl_id k \<in> set (rs_links out) then k\<lparr>lr_retired_by := Some run\<rparr> else k) (link D l)"
    and rb: "obs c b = map_option (\<lambda>x. if co_id x \<in> set (rs_obs out) then x\<lparr>or_retired_by := Some run\<rparr> else x) (obs D b)"
    for j l b using r by blast+
  obtain ls where lsd: "ls = live_links_of c i" by simp
  obtain c1 where c1: "c1 = fold (retire_link run) ls c" by simp
  obtain bs where bsd: "bs = live_obs_of c1 i" by simp
  obtain c2 where c2: "c2 = fold (retire_obs run) bs c1" by simp
  obtain c3 where c3: "c3 = update_nodes (\<lambda>n. cn_id n = i \<and> nr_retired_by n = None)
      (\<lambda>n. n\<lparr>nr_retired_by := Some run, nr_retired_into := into\<rparr>) c2" by simp
  let ?out = "\<lparr>rs_nodes = rs_nodes out @ [i], rs_links = rs_links out @ ls, rs_obs = rs_obs out @ bs\<rparr>"
  have wf: "wf c" using r by blast
  have wf1: "wf c1" unfolding c1 by (rule wf_fold [OF wf_retire_link wf])
  have wf2: "wf c2" unfolding c2 by (rule wf_fold [OF wf_retire_obs wf1])
  have wf3: "wf c3" unfolding c3 by (rule wf_nodes [OF wf2]) auto
  have n2: "node c2 = node c" by (simp add: c2 c1)
  have n3: "node c3 j = map_option (\<lambda>n. if cn_id n = i \<and> nr_retired_by n = None
        then n\<lparr>nr_retired_by := Some run, nr_retired_into := into\<rparr> else n) (node c j)" for j
    unfolding c3 n2 [symmetric] by (rule node_update_nodes) simp
  have l3: "link c3 l = map_option (\<lambda>k. if cl_id k \<in> set ls then k\<lparr>lr_retired_by := Some run\<rparr> else k) (link c l)" for l
    by (simp add: c3 c2 c1 link_fold_retire)
  have b3: "obs c3 b = map_option (\<lambda>x. if co_id x \<in> set bs then x\<lparr>or_retired_by := Some run\<rparr> else x) (obs c1 b)" for b
    by (simp add: c3 c2 obs_fold_retire)
  have b1: "obs c1 = obs c" by (simp add: c1)
  have n: "node c3 j = map_option (\<lambda>n. if cn_id n \<in> set (rs_nodes ?out) \<and> nr_retired_by n = None
      then n\<lparr>nr_retired_by := Some run, nr_retired_into := into\<rparr> else n) (node D j)" for j
    unfolding n3 rn
    by (subst mark_twice [where key = cn_id and live = "\<lambda>n. nr_retired_by n = None"]) simp_all
  have l: "link c3 l = map_option (\<lambda>k. if cl_id k \<in> set (rs_links ?out) then k\<lparr>lr_retired_by := Some run\<rparr> else k) (link D l)" for l
    unfolding l3 rl by (cases "link D l") auto
  have ls: "\<exists>k. link D l = Some k \<and> lr_retired_by k = None \<and> cl_node_id k = i" if "l \<in> set ls" for l
    using that unfolding lsd live_links_of_mem [OF wf] rl by (cases "link D l") (auto split: if_splits)
  have ob: "obs c3 b = map_option (\<lambda>x. if co_id x \<in> set (rs_obs ?out) then x\<lparr>or_retired_by := Some run\<rparr> else x) (obs D b)" for b
    unfolding b3 b1 rb by (cases "obs D b") auto
  have bs: "\<exists>x. obs D b = Some x \<and> or_retired_by x = None" if "b \<in> set bs" for b
    using that unfolding bsd live_obs_of_mem [OF wf1] b1 rb by (cases "obs D b") (auto split: if_splits)
  have old: "\<forall>l\<in>set (rs_links out). \<exists>k. link D l = Some k \<and> lr_retired_by k = None \<and> cl_node_id k \<in> set (rs_nodes out)"
    "\<forall>b\<in>set (rs_obs out). \<exists>x. obs D b = Some x \<and> or_retired_by x = None" and dec: "ct_dec c = ct_dec D"
    using r by blast+
  have "retired_from run into D c3 ?out"
    unfolding retired_from_def
  proof (intro conjI)
    show "\<forall>l\<in>set (rs_links ?out). \<exists>k. link D l = Some k \<and> lr_retired_by k = None \<and> cl_node_id k \<in> set (rs_nodes ?out)"
    proof
      fix l assume "l \<in> set (rs_links ?out)"
      then consider "l \<in> set (rs_links out)" | "l \<in> set ls" by auto
      then show "\<exists>k. link D l = Some k \<and> lr_retired_by k = None \<and> cl_node_id k \<in> set (rs_nodes ?out)"
        using ls [of l] old(1) by cases fastforce+
    qed
    show "\<forall>b\<in>set (rs_obs ?out). \<exists>x. obs D b = Some x \<and> or_retired_by x = None"
    proof
      fix b assume "b \<in> set (rs_obs ?out)"
      then consider "b \<in> set (rs_obs out)" | "b \<in> set bs" by auto
      then show "\<exists>x. obs D b = Some x \<and> or_retired_by x = None" using bs [of b] old(2) by cases blast+
    qed
    show "wf c3" by (rule wf3)
    show "ct_dec c3 = ct_dec D" using dec by (simp add: c3 c2 c1)
  qed (use n l ob in blast)+
  then show ?thesis by (simp add: retire_node_def Let_def c3 c2 c1 bsd lsd)
qed

lemma retired_from_fold:
  "retired_from run into D c out \<Longrightarrow> fold (retire_node run into) is (c, out) = (c', out') \<Longrightarrow>
     retired_from run into D c' out' \<and> rs_nodes out' = rs_nodes out @ is"
proof (induction "is" arbitrary: c out)
  case (Cons i "is")
  have "rs_nodes (snd (retire_node run into i (c, out))) = rs_nodes out @ [i]"
    by (simp add: retire_node_def Let_def)
  then show ?case
    using Cons.IH [OF retired_from_step [OF Cons.prems(1), of i]] Cons.prems(2) by simp
qed simp

lemma retired_from_subtree:
  assumes "wf D" "retire_node_subtree i run into D = (c, out)"
  shows "retired_from run into D c out" "rs_nodes out = subtree_walk 10000 D [i]"
proof -
  have start: "retired_from run into D D \<lparr>rs_nodes = [], rs_links = [], rs_obs = []\<rparr>"
    using assms(1) by (simp add: retired_from_def option.map_ident)
  show "retired_from run into D c out" "rs_nodes out = subtree_walk 10000 D [i]"
    using retired_from_fold [OF start assms(2) [unfolded retire_node_subtree_def]] by auto
qed

lemma subtree_walk_live:
  "wf c \<Longrightarrow> j \<in> set (subtree_walk n c stack) \<Longrightarrow> j \<in> set stack \<or> live_node c j"
proof (induction n c stack rule: subtree_walk.induct)
  case (2 n c i stack)
  then show ?case
    by (fastforce simp: live_children_mem live_node_def split: if_splits)
qed simp

lemma node_cong: "ct_nodes c = ct_nodes d \<Longrightarrow> node c = node d" by (simp add: fun_eq_iff node_def)

lemma subtree_walk_cong:
  "\<forall>p\<in>set (subtree_walk n c stack). live_children d p = live_children c p \<Longrightarrow> subtree_walk n d stack = subtree_walk n c stack"
  by (induction n c stack rule: subtree_walk.induct) auto

lemma retire_keeps [simp]:
  "ct_ops (retire_link run l c) = ct_ops c" "ct_runs (retire_link run l c) = ct_runs c"
  "ct_ops (retire_obs run b c) = ct_ops c" "ct_runs (retire_obs run b c) = ct_runs c"
  "ct_ops (update_nodes P f c) = ct_ops c" "ct_runs (update_nodes P f c) = ct_runs c"
  by (simp_all add: retire_link_def retire_obs_def update_links_def update_obs_def update_nodes_def)

lemma fold_retire_keeps [simp]:
  "ct_ops (fold (retire_link run) ls c) = ct_ops c" "ct_runs (fold (retire_link run) ls c) = ct_runs c"
  "ct_ops (fold (retire_obs run) bs c) = ct_ops c" "ct_runs (fold (retire_obs run) bs c) = ct_runs c"
  by (simp_all add: fold_preserves [where g = ct_ops] fold_preserves [where g = ct_runs])

lemma retire_subtree_keeps:
  assumes "retire_node_subtree i run into c = (d, out)"
  shows "ct_ops d = ct_ops c" "ct_runs d = ct_runs c"
proof -
  have step: "ct_ops (fst (retire_node run into i st)) = ct_ops (fst st)"
    "ct_runs (fst (retire_node run into i st)) = ct_runs (fst st)" for i st
    by (simp_all add: retire_node_def Let_def split: prod.splits)
  show "ct_ops d = ct_ops c" "ct_runs d = ct_runs c"
    using assms fold_preserves [where g = "\<lambda>st. ct_ops (fst st)" and f = "retire_node run into" , OF step(1)]
      fold_preserves [where g = "\<lambda>st. ct_runs (fst st)" and f = "retire_node run into", OF step(2)]
    unfolding retire_node_subtree_def by (metis fst_conv)+
qed

text \<open>An operation of a run: the change, then the journal row with the image that undoes it.\<close>

definition journaled :: "int \<Rightarrow> catalog \<Rightarrow> catalog \<Rightarrow> bool" where
  "journaled run c d \<longleftrightarrow>
     (\<exists>name subjects im ev c1. d = journal_op run name subjects im ev c1 \<and> wf c1
        \<and> ct_ops c1 = ct_ops c \<and> ct_runs c1 = ct_runs c \<and> (\<forall>by. undoes run by im c c1))"

lemma journaledI:
  "wf c1 \<Longrightarrow> ct_ops c1 = ct_ops c \<Longrightarrow> ct_runs c1 = ct_runs c \<Longrightarrow> (\<And>by. undoes run by im c c1) \<Longrightarrow>
     journaled run c (journal_op run name subjects im ev c1)"
  unfolding journaled_def by blast

text \<open>The branch is live and does not hold its own parent.\<close>

definition collapsible :: "catalog \<Rightarrow> rstr \<Rightarrow> bool" where
  "collapsible c i \<longleftrightarrow>
     live_node c i \<and> (case parent_of c i of None \<Rightarrow> True | Some p \<Rightarrow> p \<notin> set (subtree_walk 10000 c [i]))"

lemma collapse_journaled:
  assumes wf: "wf c" and n: "node c i = Some n" and br: "collapsible c i"
    and do: "do_collapse uuid actor run i n title summary seqs now c = Some (digest, d)"
  shows "journaled run c d"
proof -
  obtain u where new: "new_node_id uuid c = (digest, u)" 
    using do by (auto simp: do_collapse_def split: prod.splits option.splits)
  obtain c2 c3 cites c4 out
    where ins: "insert_node digest (cn_parent_id n) (lit ''digest'') (case title of None \<Rightarrow> cn_title n @ lit '' (digest)'' | Some t \<Rightarrow> t)
        summary None actor now u = Some c2"
      and cs: "fold (cite_seq digest now) seqs (c2, []) = (c3, cites)"
      and rt: "retire_node_subtree i run (Some digest) c3 = (c4, out)"
      and d: "d = journal_op run (lit ''collapse'')
           (subject_node i # subject_node digest # map subject_node (filter (\<lambda>m. m \<noteq> i) (rs_nodes out)))
           (ImCollapse i digest (rs_nodes out) (rs_links out) (rs_obs out) cites) None c4"
    using do new by (auto simp: do_collapse_def split: prod.splits option.splits)
  note u = new_node_id_tables [OF new]
  obtain r where r: "node u digest = None" "cn_id r = digest" "nr_retired_by r = None" "cn_parent_id r = cn_parent_id n"
    "\<And>j. node c2 j = (if j = digest then Some r else node u j)" "ct_nodes c2 = ct_nodes u @ [r]"
    and same2: "link c2 = link u" "obs c2 = obs u" "ct_dec c2 = ct_dec u" "ct_runs c2 = ct_runs u" "ct_ops c2 = ct_ops u"
    by (rule node_insert [OF ins]) blast
  have wf2: "wf c2" using wf_insert_node [OF _ ins] wf u by simp
  have "cited digest c2 c2 []" using wf2 by (simp add: cited_def)
  from cited_fold [OF this cs] have cd: "cited digest c2 c3 cites" .
  have wf3: "wf c3" and n3: "node c3 = node c2"
    and cl: "if l \<in> set cites then link c2 l = None \<and> (\<exists>k. link c3 l = Some k \<and> cl_node_id k = digest \<and> lr_retired_by k = None)
          else link c3 l = link c2 l" for l
    using cd node_cong [of c3 c2] unfolding cited_def by blast+
  note R = retired_from_subtree(1) [OF wf3 rt, unfolded retired_from_def]
  have walk: "rs_nodes out = subtree_walk 10000 c [i]"
  proof -
    have "live_children c3 p = live_children c p" if "p \<in> set (subtree_walk 10000 c [i])" for p
    proof -
      have "cn_parent_id r \<noteq> Some p" using br n that r(4) by (auto simp: collapsible_def parent_of_def)
      then show ?thesis using cd r(6) u(6) by (simp add: cited_def live_children_def)
    qed
    then show ?thesis using retired_from_subtree(2) [OF wf3 rt] subtree_walk_cong [of 10000 c "[i]" c3] by simp
  qed
  have live: "live_node c i" using br by (simp add: collapsible_def)
  have ns: "live_node c j" if "j \<in> set (rs_nodes out)" for j
    using subtree_walk_live [OF wf, of j 10000 "[i]"] that live by (auto simp: walk)
  have dg: "digest \<notin> set (rs_nodes out)" using ns [of digest] r(1) u(1) by (auto simp: live_node_def)
  have n4: "node c4 j = map_option (\<lambda>n. if cn_id n \<in> set (rs_nodes out) \<and> nr_retired_by n = None
      then n\<lparr>nr_retired_by := Some run, nr_retired_into := Some digest\<rparr> else n)
      (if j = digest then Some r else node c j)" for j
    using R n3 r(5) u(1) by simp
  let ?im = "ImCollapse i digest (rs_nodes out) (rs_links out) (rs_obs out) cites"
  have "undoes run by ?im c c4" for "by"
  proof (rule undoesI)
    show "\<exists>m. node c4 j = Some m \<and> same_node n (undo_node run by ?im m)" if nj: "node c j = Some n" for j n
    proof -
      have j: "j \<noteq> digest" "cn_id n = j" using nj r(1) u(1) node_id [OF nj] by auto
      show ?thesis
      proof (cases "j \<in> set (rs_nodes out)")
        case True
        then have lv: "nr_retired_by n = None" using ns [of j] nj by (simp add: live_node_def)
        then have "nr_retired_into n = None" using wfD(7) [OF wf] nj by (auto simp: node_def find_Some_iff)
        then have "n\<lparr>nr_retired_by := None, nr_retired_into := None\<rparr> = n" using lv by (cases n) simp
        then show ?thesis using n4 [of j] j nj lv True by (simp add: shelve_row_def fold_clear_row)
      next
        case False
        then show ?thesis using n4 [of j] j nj by (simp add: shelve_row_def fold_clear_row)
      qed
    qed
    show "nr_retired_by (undo_node run by ?im m) \<noteq> None" if "node c j = None" "node c4 j = Some m" for j m
    proof -
      have "m = r" using that n4 [of j] dg r(2) by (auto split: if_splits)
      then show ?thesis using dg r(2,3) by (simp add: shelve_row_def fold_clear_row)
    qed
    have links: "link c4 l = map_option (\<lambda>k. if cl_id k \<in> set (rs_links out) then k\<lparr>lr_retired_by := Some run\<rparr> else k) (link c3 l)" for l
      using R by blast
    have ls: "\<exists>k. link c3 l = Some k \<and> lr_retired_by k = None \<and> cl_node_id k \<in> set (rs_nodes out)"
      if "l \<in> set (rs_links out)" for l using R that by blast
    have fresh: "l \<notin> set (rs_links out)" if "l \<in> set cites" for l
      using ls [of l] cl [of l] that dg by auto
    show "\<exists>m. link c4 l = Some m \<and> undo_link run by ?im m = Some k" if k: "link c l = Some k" for l k
    proof -
      have old: "l \<notin> set cites" "link c3 l = Some k" "cl_id k = l"
        using cl [of l] k same2(1) u(2) link_id [OF k] by (auto split: if_splits)
      show ?thesis
      proof (cases "l \<in> set (rs_links out)")
        case True
        then have "lr_retired_by k = None" using ls [of l] old(2) by auto
        then have "k\<lparr>lr_retired_by := None\<rparr> = k" by (cases k) simp
        then show ?thesis using links [of l] old True by (simp add: fold_shelve_link_row fold_clear_link_row)
      next
        case False
        then show ?thesis using links [of l] old by (simp add: fold_shelve_link_row fold_clear_link_row)
      qed
    qed
    show "gone_link c m'" if l: "link c l = None" "link c4 l = Some m" "undo_link run by ?im m = Some m'" for l m m'
    proof -
      have m: "l \<in> set cites" "link c3 l = Some m"
        using l links [of l] cl [of l] fresh [of l] same2(1) u(2) by (auto split: if_splits dest: link_id)
      then have "cl_node_id m = digest" "lr_retired_by m = None" "cl_id m = l" using cl [of l] link_id by auto
      then have "m' = m\<lparr>lr_retired_by := Some by\<rparr>"
        using l(3) m(1) fresh [of l] by (simp add: fold_shelve_link_row fold_clear_link_row)
      then show ?thesis using \<open>cl_node_id m = digest\<close> r(1) u(1) by (simp add: gone_link_def)
    qed
    have obss: "obs c4 b = map_option (\<lambda>x. if co_id x \<in> set (rs_obs out) then x\<lparr>or_retired_by := Some run\<rparr> else x) (obs c b)" for b
      using R cd same2(2) u(3) by (simp add: cited_def)
    have bs: "\<exists>x. obs c b = Some x \<and> or_retired_by x = None" if "b \<in> set (rs_obs out)" for b
      using R that cd same2(2) u(3) by (simp add: cited_def)
    show "\<exists>m. obs c4 b = Some m \<and> x = undo_obs run by ?im m" if x: "obs c b = Some x" for b x
    proof (cases "b \<in> set (rs_obs out)")
      case True
      then have "x\<lparr>or_retired_by := None\<rparr> = x" using bs [OF True] x by (cases x) simp
      then show ?thesis using obss [of b] x True obs_id [OF x] by (simp add: fold_clear_obs_row)
    next
      case False
      then show ?thesis using obss [of b] x obs_id [OF x] by (simp add: fold_clear_obs_row)
    qed
    show "or_retired_by (undo_obs run by ?im m) \<noteq> None" if "obs c b = None" "obs c4 b = Some m" for b m
      using that obss [of b] by simp
    show "undo_supers ?im (dc_supers (ct_dec c4)) = dc_supers (ct_dec c)"
      "\<exists>es. dc_events (ct_dec c4) = dc_events (ct_dec c) @ es"
      using R cd same2(3) u(4) by (simp_all add: cited_def)
    show "placeable c c4 ?im" by (simp add: placeable_def)
    show "names_rows run by ?im c4"
      unfolding names_rows_def
    proof (intro conjI allI impI)
      fix m :: node_row assume "node c4 (cn_id m) = None" "nr_retired_by m \<noteq> None"
      then have "cn_id m \<notin> set (rs_nodes out)" using n4 [of "cn_id m"] ns [of "cn_id m"]
        by (auto simp: live_node_def split: if_splits option.splits)
      then show "nr_retired_by (undo_node run by ?im m) \<noteq> None"
        using \<open>nr_retired_by m \<noteq> None\<close> by (auto simp: shelve_row_def fold_clear_row)
    next
      fix k :: link_row assume "link c4 (cl_id k) = None"
      then have "link c3 (cl_id k) = None" using links [of "cl_id k"] by simp
      then have "cl_id k \<notin> set cites" "cl_id k \<notin> set (rs_links out)" using cl [of "cl_id k"] ls [of "cl_id k"] by auto
      then show "undo_link run by ?im k = Some k" by (simp add: fold_shelve_link_row fold_clear_link_row)
    next
      fix b :: obs_row assume "obs c4 (co_id b) = None" "or_retired_by b \<noteq> None"
      then have "co_id b \<notin> set (rs_obs out)" using obss [of "co_id b"] bs [of "co_id b"] by auto
      then show "or_retired_by (undo_obs run by ?im b) \<noteq> None"
        using \<open>or_retired_by b \<noteq> None\<close> by (simp add: fold_clear_obs_row)
    qed
  qed
  moreover have "wf c4" using R by blast
  ultimately show ?thesis unfolding d
    by (intro journaledI) (use retire_subtree_keeps [OF rt] cd same2 u in \<open>simp_all add: cited_def\<close>)
qed

end
