(* ===== verification/UndoMerge.thy ===== *)
theory UndoMerge
  imports Undo
begin

text \<open>
  A merge is undone by its image, provided the target is not among the classes it absorbs and is not
  moved under one of them: the invariant of the loop over the absorbed classes, table by table.
\<close>

section \<open>Links\<close>

definition merged_links :: "int \<Rightarrow> rstr \<Rightarrow> catalog \<Rightarrow> catalog \<Rightarrow> merge_log \<Rightarrow> bool" where
  "merged_links run t S c g \<longleftrightarrow>
     (\<forall>l. link c l = map_option (\<lambda>k. if l \<in> fst ` set (ml_moved g) then k\<lparr>cl_node_id := t\<rparr>
          else if l \<in> set (ml_leftover g) then k\<lparr>lr_retired_by := Some run\<rparr> else k) (link S l))
     \<and> (\<forall>lf\<in>set (ml_moved g). goes_home S {t} lf)
     \<and> (\<forall>l\<in>set (ml_leftover g). l \<notin> fst ` set (ml_moved g) \<and> (\<exists>k. link S l = Some k \<and> lr_retired_by k = None))"

text \<open>A link the loop has not met yet.\<close>

definition fresh_link :: "catalog \<Rightarrow> rstr \<Rightarrow> merge_log \<Rightarrow> int \<Rightarrow> bool" where
  "fresh_link S other g l \<longleftrightarrow>
     (\<exists>k. link S l = Some k \<and> cl_node_id k = other \<and> lr_retired_by k = None)
     \<and> l \<notin> fst ` set (ml_moved g) \<and> l \<notin> set (ml_leftover g)"

lemma merge_link_step:
  assumes inv: "merged_links run t S c g" "wf c" and l: "fresh_link S other g l"
    and ne: "other \<noteq> t" "node S other \<noteq> None" and step: "merge_link run t other l (c, g) = (c', g')"
  shows "merged_links run t S c' g' \<and> wf c' \<and> node c' = node c \<and> obs c' = obs c \<and> ct_dec c' = ct_dec c
    \<and> ct_ops c' = ct_ops c \<and> ct_runs c' = ct_runs c \<and> ct_nodes c' = ct_nodes c
    \<and> ml_children g' = ml_children g \<and> ml_absorbed g' = ml_absorbed g \<and> ml_obs g' = ml_obs g
    \<and> (\<forall>l'. l' \<noteq> l \<longrightarrow> fresh_link S other g l' \<longrightarrow> fresh_link S other g' l')"
proof (cases "move_link l t c")
  case (Some d)
  then have d: "d = put_link l t c" "\<not> link_taken l t c" by (auto simp: move_link_def split: if_splits)
  have res: "c' = d" "g' = g\<lparr>ml_subjects := ml_subjects g @ [subject_link l], ml_moved := ml_moved g @ [(l, other)]\<rparr>"
    using step Some by (simp_all add: merge_link_def)
  have fields: "ml_moved g' = ml_moved g @ [(l, other)]" "ml_leftover g' = ml_leftover g" by (simp_all add: res)
  have lk: "link d x = map_option (\<lambda>k. if cl_id k = l then k\<lparr>cl_node_id := t\<rparr> else k) (link c x)" for x
    unfolding d put_link_def by (rule link_update_links) simp
  have now: "link d x = map_option (\<lambda>k. if x \<in> fst ` set (ml_moved g @ [(l, other)]) then k\<lparr>cl_node_id := t\<rparr>
          else if x \<in> set (ml_leftover g) then k\<lparr>lr_retired_by := Some run\<rparr> else k) (link S x)" for x
    using lk [of x] inv(1) l link_id [of S x] by (cases "link S x") (auto simp: merged_links_def fresh_link_def)
  have home: "goes_home S {t} (l, other)" using l ne by (auto simp: goes_home_def fresh_link_def)
  have "merged_links run t S c' g'"
    unfolding merged_links_def
  proof (intro conjI)
    show "\<forall>x. link c' x = map_option (\<lambda>k. if x \<in> fst ` set (ml_moved g') then k\<lparr>cl_node_id := t\<rparr>
          else if x \<in> set (ml_leftover g') then k\<lparr>lr_retired_by := Some run\<rparr> else k) (link S x)"
      using now by (simp only: res(1) fields) blast
  qed (use inv(1) l home in \<open>auto simp: merged_links_def res fresh_link_def\<close>)
  moreover have "wf c'" using wf_put_link [OF inv(2) d(2)] by (simp add: res d)
  ultimately show ?thesis
    by (auto simp: res d fresh_link_def put_link_def update_links_def node_def obs_def fun_eq_iff)
next
  case None
  have res: "c' = retire_link run l c" "g' = g\<lparr>ml_subjects := ml_subjects g @ [subject_link l], ml_leftover := ml_leftover g @ [l]\<rparr>"
    using step None by (simp_all add: merge_link_def)
  have fields: "ml_moved g' = ml_moved g" "ml_leftover g' = ml_leftover g @ [l]" by (simp_all add: res)
  have lk: "link c' x = map_option (\<lambda>k. if cl_id k = l then k\<lparr>lr_retired_by := Some run\<rparr> else k) (link c x)" for x
    unfolding res retire_link_def by (rule link_update_links) simp
  have now: "link c' x = map_option (\<lambda>k. if x \<in> fst ` set (ml_moved g) then k\<lparr>cl_node_id := t\<rparr>
          else if x \<in> set (ml_leftover g @ [l]) then k\<lparr>lr_retired_by := Some run\<rparr> else k) (link S x)" for x
    using lk [of x] inv(1) l link_id [of S x] by (cases "link S x") (auto simp: merged_links_def fresh_link_def)
  have "merged_links run t S c' g'"
    unfolding merged_links_def
  proof (intro conjI)
    show "\<forall>x. link c' x = map_option (\<lambda>k. if x \<in> fst ` set (ml_moved g') then k\<lparr>cl_node_id := t\<rparr>
          else if x \<in> set (ml_leftover g') then k\<lparr>lr_retired_by := Some run\<rparr> else k) (link S x)"
      using now by (simp only: fields) blast
  qed (use inv(1) l in \<open>auto simp: merged_links_def res fresh_link_def\<close>)
  then show ?thesis
    using wf_retire_link [OF inv(2)]
    by (auto simp: res fresh_link_def retire_link_def update_links_def node_def obs_def fun_eq_iff)
qed

lemma merge_links_fold:
  assumes ne: "other \<noteq> t" "node S other \<noteq> None"
  shows "merged_links run t S c g \<Longrightarrow> wf c \<Longrightarrow> distinct ls \<Longrightarrow> \<forall>l\<in>set ls. fresh_link S other g l \<Longrightarrow>
    fold (merge_link run t other) ls (c, g) = (c', g') \<Longrightarrow>
    merged_links run t S c' g' \<and> wf c' \<and> node c' = node c \<and> obs c' = obs c \<and> ct_dec c' = ct_dec c
    \<and> ct_ops c' = ct_ops c \<and> ct_runs c' = ct_runs c \<and> ct_nodes c' = ct_nodes c
    \<and> ml_children g' = ml_children g \<and> ml_absorbed g' = ml_absorbed g \<and> ml_obs g' = ml_obs g"
proof (induction ls arbitrary: c g)
  case (Cons l ls)
  obtain c1 g1 where step: "merge_link run t other l (c, g) = (c1, g1)" by fastforce
  have l: "fresh_link S other g l" using Cons.prems(4) by simp
  note s = merge_link_step [OF Cons.prems(1,2) l ne step]
  have "\<forall>l\<in>set ls. fresh_link S other g1 l" using s Cons.prems(3,4) by auto
  moreover have "fold (merge_link run t other) ls (c1, g1) = (c', g')" using Cons.prems(5) step by simp
  ultimately show ?case using Cons.IH [of c1 g1] s Cons.prems(3) by simp
qed simp

section \<open>Nodes\<close>

definition merged_row :: "int \<Rightarrow> rstr \<Rightarrow> rstr \<Rightarrow> rstr option \<Rightarrow> merge_log \<Rightarrow> node_row \<Rightarrow> node_row" where
  "merged_row run t title parent g n =
     n\<lparr>cn_title := if cn_id n = t then title else cn_title n,
       cn_parent_id := if cn_id n \<in> fst ` set (ml_children g) then Some t
         else if cn_id n = t then parent else cn_parent_id n,
       nr_retired_by := if cn_id n \<in> fst ` set (ml_absorbed g) then Some run else nr_retired_by n,
       nr_retired_into := if cn_id n \<in> fst ` set (ml_absorbed g) then Some t else nr_retired_into n\<rparr>"

definition merged_nodes :: "int \<Rightarrow> rstr \<Rightarrow> rstr \<Rightarrow> rstr option \<Rightarrow> catalog \<Rightarrow> catalog \<Rightarrow> merge_log \<Rightarrow> bool" where
  "merged_nodes run t title parent S c g \<longleftrightarrow>
     (\<forall>i. case node S i of None \<Rightarrow> node c i = None
        | Some n \<Rightarrow> (\<exists>m. node c i = Some m \<and> same_node (merged_row run t title parent g n) m))
     \<and> (\<forall>(k, p)\<in>set (ml_children g). \<exists>n. node S k = Some n \<and> cn_parent_id n = Some p)
     \<and> (\<forall>a\<in>fst ` set (ml_absorbed g). \<exists>n. node S a = Some n \<and> nr_retired_by n = None)"

lemma same_node_fields:
  assumes "same_node n m"
  shows "cn_id n = cn_id m" "cn_parent_id n = cn_parent_id m" "nr_retired_by n = nr_retired_by m"
    "cn_title n = cn_title m"
  using arg_cong [OF assms [unfolded same_node_def], of cn_id] arg_cong [OF assms [unfolded same_node_def], of cn_parent_id]
    arg_cong [OF assms [unfolded same_node_def], of nr_retired_by] arg_cong [OF assms [unfolded same_node_def], of cn_title]
  by simp_all

lemma merged_row_fields [simp]:
  "cn_id (merged_row run t title parent g n) = cn_id n"
  "cn_parent_id (merged_row run t title parent g n) = (if cn_id n \<in> fst ` set (ml_children g) then Some t
         else if cn_id n = t then parent else cn_parent_id n)"
  "nr_retired_by (merged_row run t title parent g n) = (if cn_id n \<in> fst ` set (ml_absorbed g) then Some run else nr_retired_by n)"
  by (simp_all add: merged_row_def)

lemma merged_nodesD:
  assumes "merged_nodes run t title parent S c g"
  shows "node S i = Some n \<Longrightarrow> \<exists>m. node c i = Some m \<and> same_node (merged_row run t title parent g n) m"
    and "node S i = None \<Longrightarrow> node c i = None"
  using conjunct1 [OF assms [unfolded merged_nodes_def], rule_format, of i] by simp_all

text \<open>A child the loop has not adopted yet.\<close>

definition own_child :: "catalog \<Rightarrow> rstr \<Rightarrow> merge_log \<Rightarrow> rstr \<Rightarrow> bool" where
  "own_child S other g k \<longleftrightarrow> k \<notin> fst ` set (ml_children g) \<and> (\<exists>n. node S k = Some n \<and> cn_parent_id n = Some other)"

lemma same_node_cong:
  assumes "same_node n m" "\<And>x. f (x\<lparr>cn_updated_at := 0\<rparr>) = (f x)\<lparr>cn_updated_at := 0\<rparr>"
  shows "same_node (f n) (f m)"
  using assms unfolding same_node_def by (metis assms(2))

lemma adopt_step:
  assumes inv: "merged_nodes run t title parent S c g" and k: "own_child S other g k"
    and step: "adopt t other now k (c, g) = (c', g')"
  shows "merged_nodes run t title parent S c' g'"
    and "k' \<noteq> k \<Longrightarrow> own_child S other g k' \<Longrightarrow> own_child S other g' k'"
proof -
  have res: "c' = set_parent k (Some t) now c" "g' = g\<lparr>ml_children := ml_children g @ [(k, other)]\<rparr>"
    using step by (simp_all add: adopt_def)
  have row: "\<exists>m. node c' i = Some m \<and> same_node (merged_row run t title parent g' n) m" if n: "node S i = Some n" for i n
  proof -
    obtain m where m: "node c i = Some m" "same_node (merged_row run t title parent g n) m"
      using merged_nodesD(1) [OF inv n] by blast
    have id: "cn_id n = i" "cn_id m = i" using node_id n m(1) by auto
    show ?thesis
    proof (cases "i = k")
      case True
      have "merged_row run t title parent g' n = (merged_row run t title parent g n)\<lparr>cn_parent_id := Some t\<rparr>"
        using True id by (cases n) (simp add: merged_row_def res)
      moreover have "same_node ((merged_row run t title parent g n)\<lparr>cn_parent_id := Some t\<rparr>) (m\<lparr>cn_parent_id := Some t\<rparr>)"
        using m(2) by (rule same_node_cong) simp
      moreover have "same_node (m\<lparr>cn_parent_id := Some t\<rparr>) (m\<lparr>cn_parent_id := Some t, cn_updated_at := now\<rparr>)"
        by (simp add: same_node_def)
      ultimately show ?thesis
        using True id m(1) same_node_trans by (auto simp: res node_set_parent)
    next
      case False
      then have "merged_row run t title parent g' n = merged_row run t title parent g n"
        using id by (simp add: merged_row_def res)
      then show ?thesis using False id m by (simp add: res node_set_parent)
    qed
  qed
  have none: "node c' i = None" if "node S i = None" for i
    using merged_nodesD(2) [OF inv that] by (simp add: res node_set_parent)
  show "merged_nodes run t title parent S c' g'"
    unfolding merged_nodes_def
  proof (intro conjI allI)
    fix i show "case node S i of None \<Rightarrow> node c' i = None
        | Some n \<Rightarrow> (\<exists>m. node c' i = Some m \<and> same_node (merged_row run t title parent g' n) m)"
      using row none by (cases "node S i") auto
  qed (use inv k in \<open>auto simp: merged_nodes_def res own_child_def\<close>)
  show "own_child S other g' k'" if "k' \<noteq> k" "own_child S other g k'"
    using that by (auto simp: own_child_def res)
qed

lemma adopt_fold:
  "merged_nodes run t title parent S c g \<Longrightarrow> wf c \<Longrightarrow> distinct ks \<Longrightarrow> \<forall>k\<in>set ks. own_child S other g k \<Longrightarrow>
   fold (adopt t other now) ks (c, g) = (c', g') \<Longrightarrow>
   merged_nodes run t title parent S c' g' \<and> wf c' \<and> link c' = link c \<and> obs c' = obs c \<and> ct_dec c' = ct_dec c
   \<and> ct_ops c' = ct_ops c \<and> ct_runs c' = ct_runs c \<and> ml_moved g' = ml_moved g \<and> ml_leftover g' = ml_leftover g
   \<and> ml_obs g' = ml_obs g \<and> ml_absorbed g' = ml_absorbed g"
proof (induction ks arbitrary: c g)
  case (Cons k ks)
  obtain c1 g1 where step: "adopt t other now k (c, g) = (c1, g1)" by fastforce
  have k: "own_child S other g k" using Cons.prems(4) by simp
  note s = adopt_step [OF Cons.prems(1) k step]
  have c1: "c1 = set_parent k (Some t) now c" "g1 = g\<lparr>ml_children := ml_children g @ [(k, other)]\<rparr>"
    using step by (simp_all add: adopt_def)
  have "\<forall>k'\<in>set ks. own_child S other g1 k'"
  proof
    fix k' assume "k' \<in> set ks"
    then show "own_child S other g1 k'" using s(2) [of k'] Cons.prems(3,4) by auto
  qed
  moreover have "fold (adopt t other now) ks (c1, g1) = (c', g')" using Cons.prems(5) step by simp
  moreover have "wf c1" using Cons.prems(2) by (simp add: c1 wf_set_parent)
  ultimately have "merged_nodes run t title parent S c' g' \<and> wf c' \<and> link c' = link c1 \<and> obs c' = obs c1 \<and> ct_dec c' = ct_dec c1
   \<and> ct_ops c' = ct_ops c1 \<and> ct_runs c' = ct_runs c1 \<and> ml_moved g' = ml_moved g1 \<and> ml_leftover g' = ml_leftover g1
   \<and> ml_obs g' = ml_obs g1 \<and> ml_absorbed g' = ml_absorbed g1"
    using Cons.IH [of c1 g1] s(1) Cons.prems(3) by simp
  then show ?case by (simp add: c1 set_parent_def)
qed simp

lemma absorb_retires:
  assumes inv: "merged_nodes run t title parent S c g" and no: "node S other = Some no" "nr_retired_by no = None"
    and g': "g' = g\<lparr>ml_absorbed := ml_absorbed g @ [(other, p, q)]\<rparr>"
    and c': "c' = update_nodes (\<lambda>m. cn_id m = other) (\<lambda>m. m\<lparr>nr_retired_by := Some run, nr_retired_into := Some t\<rparr>) c"
  shows "merged_nodes run t title parent S c' g'"
proof -
  have nd: "node c' i = map_option (\<lambda>m. if cn_id m = other then m\<lparr>nr_retired_by := Some run, nr_retired_into := Some t\<rparr> else m) (node c i)" for i
    unfolding c' by (rule node_update_nodes) simp
  have row: "\<exists>m. node c' i = Some m \<and> same_node (merged_row run t title parent g' n) m" if n: "node S i = Some n" for i n
  proof -
    obtain m where m: "node c i = Some m" "same_node (merged_row run t title parent g n) m"
      using merged_nodesD(1) [OF inv n] by blast
    have id: "cn_id n = i" "cn_id m = i" using node_id n m(1) by auto
    show ?thesis
    proof (cases "i = other")
      case True
      have "merged_row run t title parent g' n = (merged_row run t title parent g n)\<lparr>nr_retired_by := Some run, nr_retired_into := Some t\<rparr>"
        using True id by (cases n) (simp add: merged_row_def g')
      moreover have "same_node ((merged_row run t title parent g n)\<lparr>nr_retired_by := Some run, nr_retired_into := Some t\<rparr>)
          (m\<lparr>nr_retired_by := Some run, nr_retired_into := Some t\<rparr>)"
        using m(2) by (rule same_node_cong) simp
      ultimately show ?thesis using True id m(1) nd [of i] by simp
    next
      case False
      then have "merged_row run t title parent g' n = merged_row run t title parent g n"
        using id by (simp add: merged_row_def g')
      then show ?thesis using False id m nd [of i] by simp
    qed
  qed
  have none: "node c' i = None" if "node S i = None" for i
    using merged_nodesD(2) [OF inv that] nd [of i] by simp
  show ?thesis
    unfolding merged_nodes_def
  proof (intro conjI allI)
    fix i show "case node S i of None \<Rightarrow> node c' i = None
        | Some n \<Rightarrow> (\<exists>m. node c' i = Some m \<and> same_node (merged_row run t title parent g' n) m)"
      using row none by (cases "node S i") auto
  qed (use inv no in \<open>auto simp: merged_nodes_def g'\<close>)
qed

section \<open>One absorbed class\<close>

definition merged_obs :: "int \<Rightarrow> catalog \<Rightarrow> catalog \<Rightarrow> merge_log \<Rightarrow> bool" where
  "merged_obs run S c g \<longleftrightarrow>
     (\<forall>b. obs c b = map_option (\<lambda>x. if co_id x \<in> set (ml_obs g) then x\<lparr>or_retired_by := Some run\<rparr> else x) (obs S b))
     \<and> (\<forall>b\<in>set (ml_obs g). \<exists>x. obs S b = Some x \<and> or_retired_by x = None)"

definition merging :: "int \<Rightarrow> rstr \<Rightarrow> rstr \<Rightarrow> rstr option \<Rightarrow> catalog \<Rightarrow> catalog \<Rightarrow> merge_log \<Rightarrow> bool" where
  "merging run t title parent S c g \<longleftrightarrow>
     wf c \<and> ct_dec c = ct_dec S \<and> ct_ops c = ct_ops S \<and> ct_runs c = ct_runs S
     \<and> merged_links run t S c g \<and> merged_nodes run t title parent S c g \<and> merged_obs run S c g"

lemma merged_links_cong:
  assumes "merged_links run t S c g" "link c' = link c" "ml_moved g' = ml_moved g" "ml_leftover g' = ml_leftover g"
  shows "merged_links run t S c' g'"
  using assms(1) unfolding merged_links_def assms(2-4) .

lemma merged_obs_cong:
  assumes "merged_obs run S c g" "obs c' = obs c" "ml_obs g' = ml_obs g"
  shows "merged_obs run S c' g'"
  using assms(1) unfolding merged_obs_def assms(2-3) .

lemma merged_nodes_cong:
  assumes "merged_nodes run t title parent S c g" "node c' = node c" "ml_children g' = ml_children g"
    "ml_absorbed g' = ml_absorbed g"
  shows "merged_nodes run t title parent S c' g'"
  using assms(1) unfolding merged_nodes_def merged_row_def assms(2-4) .

lemma merged_obs_step:
  assumes inv: "merged_obs run S c g" and wf: "wf c"
  shows "merged_obs run S (fold (retire_obs run) (live_obs_of c i) c) (g\<lparr>ml_obs := ml_obs g @ live_obs_of c i\<rparr>)"
proof -
  obtain bs where bs: "bs = live_obs_of c i" by simp
  have old: "obs c b = map_option (\<lambda>x. if co_id x \<in> set (ml_obs g) then x\<lparr>or_retired_by := Some run\<rparr> else x) (obs S b)" for b
    using inv by (simp add: merged_obs_def)
  have new: "\<exists>x. obs S b = Some x \<and> or_retired_by x = None" if "b \<in> set bs" for b
    using that unfolding bs live_obs_of_mem [OF wf] old by (cases "obs S b") (auto split: if_splits)
  have "obs (fold (retire_obs run) bs c) b
      = map_option (\<lambda>x. if co_id x \<in> set (ml_obs g @ bs) then x\<lparr>or_retired_by := Some run\<rparr> else x) (obs S b)" for b
    unfolding obs_fold_retire old by (cases "obs S b") auto
  moreover have "\<forall>b\<in>set (ml_obs g @ bs). \<exists>x. obs S b = Some x \<and> or_retired_by x = None"
    using new inv by (auto simp: merged_obs_def)
  ultimately show ?thesis unfolding bs [symmetric] merged_obs_def by simp
qed

lemma live_node_row: "live_node c i \<longleftrightarrow> (\<exists>n. node c i = Some n \<and> nr_retired_by n = None)"
  by (auto simp: live_node_def split: option.splits)

lemma distinct_live: "wf c \<Longrightarrow> distinct (live_links_of c i)" "wf c \<Longrightarrow> distinct (live_children c i)"
  by (auto simp: live_links_of_def live_children_def distinct_map_filter wf_def)

lemma absorb_step:
  assumes inv: "merging run t title parent S c g" and ne: "other \<noteq> t"
    and par: "parent = Some other \<longrightarrow> parent_of S t = Some other"
  shows "merging run t title parent S (fst (absorb_class run t now other (c, g))) (snd (absorb_class run t now other (c, g)))"
proof (cases "live_node c other")
  case False
  then show ?thesis using inv by (simp add: absorb_class_def)
next
  case True
  note i = inv [unfolded merging_def]
  have wf: "wf c" and nodes: "merged_nodes run t title parent S c g" and links: "merged_links run t S c g"
    and obss: "merged_obs run S c g" using i by blast+
  obtain n where n: "node c other = Some n" "nr_retired_by n = None" using True by (auto simp: live_node_row)
  obtain no where no: "node S other = Some no" using merged_nodesD(2) [OF nodes, of other] n(1) by (cases "node S other") auto
  have lv: "nr_retired_by no = None"
    using merged_nodesD(1) [OF nodes no] n node_id [OF no] same_node_fields(3) by (fastforce split: if_splits)
  obtain c1 g1 where f1: "fold (merge_link run t other) (live_links_of c other)
      (c, g\<lparr>ml_subjects := ml_subjects g @ [subject_node other]\<rparr>) = (c1, g1)" by fastforce
  have fresh: "fresh_link S other (g\<lparr>ml_subjects := x\<rparr>) l" if l: "l \<in> set (live_links_of c other)" for l x
  proof -
    obtain k where k: "link c l = Some k" "cl_node_id k = other" "lr_retired_by k = None"
      using l by (auto simp: live_links_of_mem [OF wf])
    have "link c l = map_option (\<lambda>k. if l \<in> fst ` set (ml_moved g) then k\<lparr>cl_node_id := t\<rparr>
          else if l \<in> set (ml_leftover g) then k\<lparr>lr_retired_by := Some run\<rparr> else k) (link S l)"
      using links unfolding merged_links_def by blast
    then show ?thesis using k ne by (cases "link S l") (auto simp: fresh_link_def split: if_splits)
  qed
  have ml: "merged_links run t S c (g\<lparr>ml_subjects := x\<rparr>)" for x
    by (rule merged_links_cong [OF links]) simp_all
  have s1: "merged_links run t S c1 g1 \<and> wf c1 \<and> node c1 = node c \<and> obs c1 = obs c \<and> ct_dec c1 = ct_dec c
    \<and> ct_ops c1 = ct_ops c \<and> ct_runs c1 = ct_runs c \<and> ct_nodes c1 = ct_nodes c
    \<and> ml_children g1 = ml_children g \<and> ml_absorbed g1 = ml_absorbed g \<and> ml_obs g1 = ml_obs g"
    using merge_links_fold [OF ne _ ml wf distinct_live(1) [OF wf] _ f1] no fresh wf by simp
  obtain bs where bs: "bs = live_obs_of c1 other" by simp
  obtain c2 where c2: "c2 = fold (retire_obs run) bs c1" by simp
  obtain g2 where g2: "g2 = g1\<lparr>ml_obs := ml_obs g1 @ bs\<rparr>" by simp
  have wf2: "wf c2" unfolding c2 using s1 by (auto intro: wf_fold [OF wf_retire_obs])
  have o2: "merged_obs run S c2 g2"
    unfolding c2 g2 bs by (rule merged_obs_step) (use s1 obss merged_obs_cong in blast)+
  have l2: "merged_links run t S c2 g2" by (rule merged_links_cong [of _ _ _ c1 g1]) (use s1 in \<open>auto simp: c2 g2\<close>)
  have n2: "merged_nodes run t title parent S c2 g2" by (rule merged_nodes_cong [OF nodes]) (use s1 in \<open>auto simp: c2 g2\<close>)
  obtain c3 g3 where f3: "fold (adopt t other now) (live_children c2 other) (c2, g2) = (c3, g3)" by fastforce
  have own: "own_child S other g2 k" if k: "k \<in> set (live_children c2 other)" for k
  proof -
    obtain m where m: "node c2 k = Some m" "cn_parent_id m = Some other"
      using k by (auto simp: live_children_mem [OF wf2])
    obtain nk where nk: "node S k = Some nk" using merged_nodesD(2) [OF n2, of k] m(1) by (cases "node S k") auto
    then have "cn_parent_id (merged_row run t title parent g2 nk) = Some other"
      using merged_nodesD(1) [OF n2 nk] m same_node_fields(2) by fastforce
    then show ?thesis
      using nk node_id [OF nk] ne par by (auto simp: own_child_def parent_of_def split: if_splits)
  qed
  have s3: "merged_nodes run t title parent S c3 g3 \<and> wf c3 \<and> link c3 = link c2 \<and> obs c3 = obs c2 \<and> ct_dec c3 = ct_dec c2
   \<and> ct_ops c3 = ct_ops c2 \<and> ct_runs c3 = ct_runs c2 \<and> ml_moved g3 = ml_moved g2 \<and> ml_leftover g3 = ml_leftover g2
   \<and> ml_obs g3 = ml_obs g2 \<and> ml_absorbed g3 = ml_absorbed g2"
    using adopt_fold [OF n2 wf2 distinct_live(2) [OF wf2] _ f3] own by blast
  obtain c4 where c4: "c4 = update_nodes (\<lambda>m. cn_id m = other) (\<lambda>m. m\<lparr>nr_retired_by := Some run, nr_retired_into := Some t\<rparr>) c3"
    by simp
  obtain g4 where g4: "g4 = g3\<lparr>ml_absorbed := ml_absorbed g3 @ [(other, cn_parent_id n, cn_title n)]\<rparr>" by simp
  have "absorb_class run t now other (c, g) = (c4, g4)"
    using True n(1) f1 f3 by (simp add: absorb_class_def Let_def c4 g4 c2 g2 bs)
  moreover have "merging run t title parent S c4 g4"
    unfolding merging_def
  proof (intro conjI)
    show "wf c4" unfolding c4 by (rule wf_nodes) (use s3 in auto)
    show "merged_links run t S c4 g4" by (rule merged_links_cong [OF l2]) (use s3 in \<open>auto simp: c4 g4\<close>)
    show "merged_obs run S c4 g4" by (rule merged_obs_cong [OF o2]) (use s3 in \<open>auto simp: c4 g4\<close>)
    show "merged_nodes run t title parent S c4 g4" by (rule absorb_retires [OF _ no lv g4 c4]) (use s3 in blast)
    show "ct_dec c4 = ct_dec S" "ct_ops c4 = ct_ops S" "ct_runs c4 = ct_runs S"
      using s3 s1 i by (simp_all add: c4 c2)
  qed
  ultimately show ?thesis by simp
qed

lemma absorb_fold:
  "merging run t title parent S c g \<Longrightarrow> t \<notin> set others \<Longrightarrow>
   (\<And>q. parent = Some q \<Longrightarrow> q \<in> set others \<Longrightarrow> parent_of S t = Some q) \<Longrightarrow>
   fold (absorb_class run t now) others (c, g) = (c', g') \<Longrightarrow> merging run t title parent S c' g'"
proof (induction others arbitrary: c g)
  case (Cons x others)
  have "merging run t title parent S (fst (absorb_class run t now x (c, g))) (snd (absorb_class run t now x (c, g)))"
    by (rule absorb_step [OF Cons.prems(1)]) (use Cons.prems(2,3) in auto)
  then show ?case using Cons.IH Cons.prems by simp
qed simp

section \<open>The whole merge\<close>

lemma unmerge_row:
  assumes ch: "\<forall>(k, p)\<in>set (ml_children g). k = cn_id n \<longrightarrow> cn_parent_id n = Some p"
    and ab: "cn_id n \<in> fst ` set (ml_absorbed g) \<longrightarrow> nr_retired_by n = None \<and> nr_retired_into n = None"
    and t: "cn_id n = t \<longrightarrow> cn_title n = title0 \<and> cn_parent_id n = parent0"
  shows "undo_node run by (ImMerge t title0 parent0 (ml_absorbed g) mv le (ml_children g) bs) (merged_row run t title parent g n) = n"
proof -
  obtain m where m: "m = merged_row run t title parent g n" by simp
  obtain a where a: "a = (if cn_id m = t then m\<lparr>cn_title := title0, cn_parent_id := parent0\<rparr> else m)" by simp
  have ida: "cn_id a = cn_id n" by (simp add: a m)
  obtain q where q: "\<forall>(k, p)\<in>set (ml_children g). k = cn_id n \<longrightarrow> p = q"
    "cn_id n \<in> fst ` set (ml_children g) \<longrightarrow> cn_parent_id n = Some q"
  proof (cases "cn_id n \<in> fst ` set (ml_children g)")
    case True
    then obtain p where "cn_parent_id n = Some p" using ch by auto
    then show ?thesis using ch by (intro that [of p]) auto
  next
    case False
    then show ?thesis by (intro that [of "[]"]) (auto simp: image_iff)
  qed
  have "fold parent_row (ml_children g) a
      = (if cn_id a \<in> fst ` set (ml_children g) then a\<lparr>cn_parent_id := Some q\<rparr> else a)"
    by (rule fold_parent_row) (use q(1) ida in simp)
  also have "\<dots> = n\<lparr>nr_retired_by := nr_retired_by m, nr_retired_into := nr_retired_into m\<rparr>"
    using q(2) t unfolding a ida m by (cases n) (auto simp: merged_row_def)
  finally have f: "fold parent_row (ml_children g) a = n\<lparr>nr_retired_by := nr_retired_by m, nr_retired_into := nr_retired_into m\<rparr>" .
  have "fold (clear_row run) (map fst (ml_absorbed g)) (n\<lparr>nr_retired_by := nr_retired_by m, nr_retired_into := nr_retired_into m\<rparr>) = n"
    using ab unfolding fold_clear_row m by (cases n) (auto simp: merged_row_def)
  moreover have "undo_node run by (ImMerge t title0 parent0 (ml_absorbed g) mv le (ml_children g) bs) m
      = fold (clear_row run) (map fst (ml_absorbed g)) (fold parent_row (ml_children g) a)"
    by (simp only: undo_node.simps a)
  ultimately show ?thesis by (simp only: f m)
qed

lemma merged_undoes:
  assumes wf: "wf S" and n: "node S t = Some n" and inv: "merging run t title parent S c g"
  shows "undoes run by (ImMerge t (cn_title n) (cn_parent_id n) (ml_absorbed g) (ml_moved g) (ml_leftover g)
    (ml_children g) (ml_obs g)) S c" (is "undoes run by ?im S c")
proof (rule undoesI)
  note i = inv [unfolded merging_def]
  have nodes: "merged_nodes run t title parent S c g" and links: "merged_links run t S c g"
    and obss: "merged_obs run S c g" using i by blast+
  have lk: "link c l = map_option (\<lambda>k. if l \<in> fst ` set (ml_moved g) then k\<lparr>cl_node_id := t\<rparr>
          else if l \<in> set (ml_leftover g) then k\<lparr>lr_retired_by := Some run\<rparr> else k) (link S l)"
    and home: "\<forall>lf\<in>set (ml_moved g). goes_home S {t} lf"
    and left: "\<forall>l\<in>set (ml_leftover g). l \<notin> fst ` set (ml_moved g) \<and> (\<exists>k. link S l = Some k \<and> lr_retired_by k = None)"
    for l using links unfolding merged_links_def by blast+
  have ob: "obs c b = map_option (\<lambda>x. if co_id x \<in> set (ml_obs g) then x\<lparr>or_retired_by := Some run\<rparr> else x) (obs S b)"
    and oldob: "\<forall>b\<in>set (ml_obs g). \<exists>x. obs S b = Some x \<and> or_retired_by x = None" for b
    using obss unfolding merged_obs_def by blast+
  have again: "\<exists>m. node c j = Some m \<and> same_node x (undo_node run by ?im m)" if x: "node S j = Some x" for j x
  proof -
    obtain m where m: "node c j = Some m" "same_node (merged_row run t title parent g x) m"
      using merged_nodesD(1) [OF nodes x] by blast
    have ch: "\<forall>(k, p)\<in>set (ml_children g). k = cn_id x \<longrightarrow> cn_parent_id x = Some p"
      and ab: "cn_id x \<in> fst ` set (ml_absorbed g) \<longrightarrow> nr_retired_by x = None"
      using nodes x node_id [OF x] unfolding merged_nodes_def by fastforce+
    have into: "nr_retired_by x = None \<Longrightarrow> nr_retired_into x = None"
      using wfD(7) [OF wf] x by (auto simp: node_def find_Some_iff)
    have "undo_node run by ?im (merged_row run t title parent g x) = x"
      by (rule unmerge_row [OF ch]) (use ab into n x node_id [OF x] in auto)
    then show ?thesis using m undo_node_same [OF m(2), of run "by" ?im] by auto
  qed
  then show "\<exists>m. node c j = Some m \<and> same_node x (undo_node run by ?im m)" if "node S j = Some x" for j x
    using that by blast
  show "nr_retired_by (undo_node run by ?im m) \<noteq> None" if "node S j = None" "node c j = Some m" for j m
    using merged_nodesD(2) [OF nodes that(1)] that(2) by simp
  show "\<exists>m. link c l = Some m \<and> undo_link run by ?im m = Some k" if k: "link S l = Some k" for l k
  proof -
    have id: "cl_id k = l" by (rule link_id [OF k])
    have pl: "\<forall>(x, f)\<in>set (ml_moved g). x = l \<longrightarrow> f = cl_node_id k"
      using home k by (fastforce simp: goes_home_def)
    consider "l \<in> fst ` set (ml_moved g)" | "l \<notin> fst ` set (ml_moved g)" "l \<in> set (ml_leftover g)"
      | "l \<notin> fst ` set (ml_moved g)" "l \<notin> set (ml_leftover g)" by blast
    then show ?thesis
    proof cases
      case 1
      then have "l \<notin> set (ml_leftover g)" using left by blast
      then show ?thesis using 1 lk [of l] k id pl
        by (cases k) (simp add: fold_place_row [of "ml_moved g" _ "cl_node_id k"] fold_clear_link_row)
    next
      case 2
      then have "lr_retired_by k = None" using left k by auto
      then show ?thesis using 2 lk [of l] k id pl
        by (cases k) (simp add: fold_place_row [of "ml_moved g" _ "cl_node_id k"] fold_clear_link_row)
    next
      case 3
      then show ?thesis using lk [of l] k id pl
        by (simp add: fold_place_row [of "ml_moved g" _ "cl_node_id k"] fold_clear_link_row)
    qed
  qed
  show "gone_link S m'" if "link S l = None" "link c l = Some m" for l m m'
    using that lk [of l] by simp
  show "\<exists>m. obs c b = Some m \<and> x = undo_obs run by ?im m" if x: "obs S b = Some x" for b x
  proof (cases "b \<in> set (ml_obs g)")
    case True
    then have "or_retired_by x = None" using oldob x by auto
    then have "x\<lparr>or_retired_by := None\<rparr> = x" by (cases x) simp
    then show ?thesis using ob [of b] x True obs_id [OF x] by (simp add: fold_clear_obs_row)
  next
    case False
    then show ?thesis using ob [of b] x obs_id [OF x] by (simp add: fold_clear_obs_row)
  qed
  show "or_retired_by (undo_obs run by ?im m) \<noteq> None" if "obs S b = None" "obs c b = Some m" for b m
    using that ob [of b] by simp
  show "undo_supers ?im (dc_supers (ct_dec c)) = dc_supers (ct_dec S)"
    "\<exists>es. dc_events (ct_dec c) = dc_events (ct_dec S) @ es" using i by simp_all
  have at: "at_home S {t} m" if m: "link c l = Some m" for l m
  proof -
    obtain k where k: "link S l = Some k" using lk [of l] m by (cases "link S l") auto
    then have "cl_id m = l" using link_id [OF m] by simp
    then show ?thesis using lk [of l] k m by (auto simp: at_home_def)
  qed
  then show "placeable S c ?im" using home by (simp add: placeable_def list_all_iff)
  show "names_rows run by ?im c"
    unfolding names_rows_def
  proof (intro conjI allI impI)
    fix m :: node_row assume "node c (cn_id m) = None" "nr_retired_by m \<noteq> None"
    then have "cn_id m \<notin> fst ` set (ml_absorbed g)"
      using nodes merged_nodesD(1) [OF nodes, of "cn_id m"] unfolding merged_nodes_def by fastforce
    moreover have "nr_retired_by (fold parent_row ch x) = nr_retired_by x" for ch x
      by (rule fold_preserves) (simp add: parent_row_def)
    ultimately show "nr_retired_by (undo_node run by ?im m) \<noteq> None"
      using \<open>nr_retired_by m \<noteq> None\<close> by (auto simp: fold_clear_row)
  next
    fix k :: link_row assume "link c (cl_id k) = None"
    then have none: "link S (cl_id k) = None" using lk [of "cl_id k"] by simp
    then have "cl_id k \<notin> set (ml_leftover g)" using left by fastforce
    moreover have no: "cl_id k \<notin> fst ` set (ml_moved g)" using home none by (fastforce simp: goes_home_def)
    moreover have "fold place_row (ml_moved g) k = k" using no by (subst fold_place_row [of _ _ "[]"]) (auto simp: image_iff)
    ultimately show "undo_link run by ?im k = Some k" by (simp add: fold_clear_link_row)
  next
    fix b :: obs_row assume "obs c (co_id b) = None" "or_retired_by b \<noteq> None"
    then have "co_id b \<notin> set (ml_obs g)" using ob [of "co_id b"] oldob by fastforce
    then show "or_retired_by (undo_obs run by ?im b) \<noteq> None"
      using \<open>or_retired_by b \<noteq> None\<close> by (simp add: fold_clear_obs_row)
  qed
qed

lemma merge_journaled:
  assumes wf: "wf c" and n: "node c t = Some n" and others: "t \<notin> set others"
    and par: "\<And>q. parent = Some q \<Longrightarrow> q \<notin> set others"
  shows "journaled run c (do_merge run t n others title parent now c)"
proof -
  obtain c1 where c1: "c1 = (case title of None \<Rightarrow> c | Some x \<Rightarrow> set_title t x now c)" by simp
  obtain c2 where c2: "c2 = (case parent of None \<Rightarrow> c1 | Some q \<Rightarrow> set_parent t (Some q) now c1)" by simp
  let ?g = "\<lparr>ml_subjects = [subject_node t], ml_absorbed = [], ml_moved = [], ml_leftover = [],
                      ml_children = [], ml_obs = []\<rparr>"
  let ?title = "case title of None \<Rightarrow> cn_title n | Some x \<Rightarrow> x"
  let ?parent = "case parent of None \<Rightarrow> cn_parent_id n | Some q \<Rightarrow> Some q"
  obtain c3 g where f: "fold (absorb_class run t now) others (c2, ?g) = (c3, g)" by fastforce
  have nodes: "node c2 i = map_option (\<lambda>m. if cn_id m = t then (case parent of None \<Rightarrow> (\<lambda>m. m)
        | Some q \<Rightarrow> (\<lambda>m. m\<lparr>cn_parent_id := Some q, cn_updated_at := now\<rparr>))
        ((case title of None \<Rightarrow> (\<lambda>m. m) | Some x \<Rightarrow> (\<lambda>m. m\<lparr>cn_title := x, cn_updated_at := now\<rparr>)) m) else m) (node c i)" for i
  proof -
    have st: "node (set_title t x now c) i = map_option (\<lambda>m. if cn_id m = t then m\<lparr>cn_title := x, cn_updated_at := now\<rparr> else m) (node c i)" for x
      unfolding set_title_def by (rule node_update_nodes) simp
    show ?thesis
      by (cases "node c i"; cases title; cases parent) (simp_all add: c2 c1 st node_set_parent)
  qed
  have same: "link c2 = link c" "obs c2 = obs c" "ct_dec c2 = ct_dec c" "ct_ops c2 = ct_ops c" "ct_runs c2 = ct_runs c"
    by (cases title; cases parent; simp add: c2 c1 set_title_def set_parent_def)+
  have wf2: "wf c2" using wf by (cases title; cases parent) (simp_all add: c2 c1 wf_set_title wf_set_parent)
  have row: "same_node (merged_row run t ?title ?parent ?g m) (if cn_id m = t then (case parent of None \<Rightarrow> (\<lambda>m. m)
        | Some q \<Rightarrow> (\<lambda>m. m\<lparr>cn_parent_id := Some q, cn_updated_at := now\<rparr>))
        ((case title of None \<Rightarrow> (\<lambda>m. m) | Some x \<Rightarrow> (\<lambda>m. m\<lparr>cn_title := x, cn_updated_at := now\<rparr>)) m) else m)"
    if "node c i = Some m" for i m
    using n that node_id [OF that]
    by (cases m; cases title; cases parent) (auto simp: merged_row_def same_node_def)
  have "merging run t ?title ?parent c c2 ?g"
    unfolding merging_def
  proof (intro conjI)
    show "merged_links run t c c2 ?g" by (simp add: merged_links_def same option.map_ident)
    show "merged_obs run c c2 ?g" by (simp add: merged_obs_def same option.map_ident)
    show "merged_nodes run t ?title ?parent c c2 ?g"
      unfolding merged_nodes_def
    proof (intro conjI allI)
      fix i show "case node c i of None \<Rightarrow> node c2 i = None
        | Some m \<Rightarrow> (\<exists>m'. node c2 i = Some m' \<and> same_node (merged_row run t ?title ?parent ?g m) m')"
        using row [of i] nodes [of i] by (cases "node c i") auto
    qed simp_all
  qed (use wf2 same in auto)
  then have "merging run t ?title ?parent c c3 g"
    by (rule absorb_fold [OF _ others _ f]) (use par n in \<open>auto simp: parent_of_def split: option.splits\<close>)
  then have "undoes run by (ImMerge t (cn_title n) (cn_parent_id n) (ml_absorbed g) (ml_moved g) (ml_leftover g)
      (ml_children g) (ml_obs g)) c c3" "wf c3" "ct_ops c3 = ct_ops c" "ct_runs c3 = ct_runs c" for "by"
    using merged_undoes [OF wf n] by (auto simp: merging_def)
  then show ?thesis
    unfolding do_merge_def Let_def c1 [symmetric] c2 [symmetric] f by (simp add: journaledI)
qed

end
