(* ===== verification/UndoSplit.thy ===== *)
theory UndoSplit
  imports UndoMerge
begin

text \<open>
  A split is undone by its image: the parts are new classes, and a link on a part was on the class.
\<close>

definition on_part :: "int \<Rightarrow> rstr \<times> rstr \<times> int list \<Rightarrow> bool" where
  "on_part l m \<longleftrightarrow> l \<in> set (snd (snd m))"

definition splitting :: "catalog \<Rightarrow> rstr \<Rightarrow> catalog \<Rightarrow> (rstr \<times> rstr \<times> int list) list \<Rightarrow> bool" where
  "splitting S i c made \<longleftrightarrow>
     wf c \<and> obs c = obs S \<and> ct_dec c = ct_dec S \<and> ct_ops c = ct_ops S \<and> ct_runs c = ct_runs S
     \<and> node S i \<noteq> None
     \<and> (\<forall>j. if j \<in> fst ` set made then node S j = None \<and> (\<exists>r. node c j = Some r \<and> nr_retired_by r = None)
          else node c j = node S j)
     \<and> (\<forall>l. link S l = None \<longrightarrow> link c l = None)
     \<and> (\<forall>l k. link S l = Some k \<longrightarrow> (if list_ex (on_part l) made
          then cl_node_id k = i \<and> (\<exists>m\<in>set made. on_part l m \<and> link c l = Some (k\<lparr>cl_node_id := fst m\<rparr>))
          else link c l = Some k))
     \<and> (\<forall>l. list_ex (on_part l) made \<longrightarrow> link S l \<noteq> None)"

lemma splittingD:
  assumes "splitting S i c made"
  shows "wf c" "obs c = obs S" "ct_dec c = ct_dec S" "ct_ops c = ct_ops S" "ct_runs c = ct_runs S" "node S i \<noteq> None"
    "j \<in> fst ` set made \<Longrightarrow> node S j = None" "j \<in> fst ` set made \<Longrightarrow> \<exists>r. node c j = Some r \<and> nr_retired_by r = None"
    "j \<notin> fst ` set made \<Longrightarrow> node c j = node S j"
    "link S l = None \<Longrightarrow> link c l = None"
    "link S l = Some k \<Longrightarrow> list_ex (on_part l) made \<Longrightarrow>
       cl_node_id k = i \<and> (\<exists>m\<in>set made. on_part l m \<and> link c l = Some (k\<lparr>cl_node_id := fst m\<rparr>))"
    "link S l = Some k \<Longrightarrow> \<not> list_ex (on_part l) made \<Longrightarrow> link c l = Some k"
    "list_ex (on_part l) made \<Longrightarrow> link S l \<noteq> None"
  using assms unfolding splitting_def by (metis (no_types))+

lemma split_link_step:
  assumes inv: "splitting S i c (pre @ [(new, t, moved)])" and step: "split_link i new l (c, moved) = (c', moved')"
  shows "splitting S i c' (pre @ [(new, t, moved')])"
proof (cases "(\<exists>k. link c l = Some k \<and> cl_node_id k = i \<and> lr_retired_by k = None) \<and> move_link l new c \<noteq> None")
  case False
  then have "(c', moved') = (c, moved)"
    using step by (auto simp: split_link_def move_link_def split: option.splits if_splits)
  then show ?thesis using inv by simp
next
  case True
  let ?made = "pre @ [(new, t, moved)]" and ?made' = "pre @ [(new, t, moved @ [l])]"
  note d = splittingD [OF inv]
  obtain m where m: "link c l = Some m" "cl_node_id m = i" using True by blast
  have res: "c' = put_link l new c" "\<not> link_taken l new c" "moved' = moved @ [l]"
    using True step by (auto simp: split_link_def move_link_def split: option.splits if_splits)
  have i: "i \<notin> fst ` set ?made" using d(6) d(7) [of i] by metis
  obtain k where k: "link S l = Some k" using d(10) [of l] m(1) by (cases "link S l") auto
  have off: "\<not> list_ex (on_part l) ?made"
  proof
    assume "list_ex (on_part l) ?made"
    then obtain x where "x \<in> set ?made" "link c l = Some (k\<lparr>cl_node_id := fst x\<rparr>)" using d(11) [OF k] by blast
    then show False using m i by auto
  qed
  have mk: "m = k" using d(12) [OF k off] m(1) by simp
  have lk: "link c' x = map_option (\<lambda>k. if cl_id k = l then k\<lparr>cl_node_id := new\<rparr> else k) (link c x)" for x
    unfolding res put_link_def by (rule link_update_links) simp
  have parts: "list_ex (on_part x) ?made' \<longleftrightarrow> list_ex (on_part x) ?made \<or> x = l" for x
    by (auto simp: on_part_def)
  have same: "node c' = node c" "obs c' = obs c" "ct_dec c' = ct_dec c" "ct_ops c' = ct_ops c" "ct_runs c' = ct_runs c"
    by (simp_all add: res put_link_def update_links_def fun_eq_iff node_def obs_def)
  have "splitting S i c' ?made'"
    unfolding splitting_def
  proof (intro conjI allI impI)
    show "wf c'" using wf_put_link [OF d(1) res(2)] by (simp add: res)
    fix j show "if j \<in> fst ` set ?made' then node S j = None \<and> (\<exists>r. node c' j = Some r \<and> nr_retired_by r = None)
          else node c' j = node S j"
      using d(7-9) [of j] by (simp add: same)
  next
    fix x assume "link S x = None"
    then show "link c' x = None" using d(10) lk by simp
  next
    fix x kx assume kx: "link S x = Some kx"
    show "if list_ex (on_part x) ?made'
          then cl_node_id kx = i \<and> (\<exists>m\<in>set ?made'. on_part x m \<and> link c' x = Some (kx\<lparr>cl_node_id := fst m\<rparr>))
          else link c' x = Some kx"
    proof (cases "x = l")
      case True
      then have "kx = k" using k kx by simp
      then show ?thesis using True m mk lk [of l] link_id [OF k] parts [of l] by (auto simp: on_part_def)
    next
      case False
      have "link c' x = link c x"
        using lk [of x] link_id [of c x] False by (cases "link c x") auto
      then show ?thesis
        using d(11,12) [OF kx] parts [of x] False by (auto simp: on_part_def)
    qed
  next
    fix x assume "list_ex (on_part x) ?made'"
    then show "link S x \<noteq> None" using d(13) [of x] parts [of x] k by auto
  qed (use d same in auto)
  then show ?thesis by (simp add: res)
qed

lemma split_links_fold:
  "splitting S i c (pre @ [(new, t, moved)]) \<Longrightarrow> fold (split_link i new) ls (c, moved) = (c', moved') \<Longrightarrow>
     splitting S i c' (pre @ [(new, t, moved')])"
proof (induction ls arbitrary: c moved)
  case (Cons l ls)
  obtain c1 moved1 where step: "split_link i new l (c, moved) = (c1, moved1)" by fastforce
  show ?case
    by (rule Cons.IH [OF split_link_step [OF Cons.prems(1) step]]) (use Cons.prems(2) step in simp)
qed simp

lemma splitting_new:
  assumes inv: "splitting S i c made" and new: "new_node_id uuid c = (j, u)"
    and ins: "insert_node j parent kind title summary project curated_by now u = Some d"
  shows "splitting S i d (made @ [(j, t, [])])"
proof -
  note s = splittingD [OF inv] and u = new_node_id_tables [OF new]
  obtain r where r: "node u j = None" "cn_id r = j" "nr_retired_by r = None"
    "\<And>x. node d x = (if x = j then Some r else node u x)" and same: "link d = link u" "obs d = obs u" "ct_dec d = ct_dec u"
    "ct_runs d = ct_runs u" "ct_ops d = ct_ops u"
    by (rule node_insert [OF ins]) blast
  have wf: "wf d" by (rule wf_insert_node [OF _ ins]) (use s(1) u in simp)
  have "j \<notin> fst ` set made" using s(8) [of j] r(1) u(1) by auto
  moreover then have "node S j = None" using s(9) [of j] r(1) u(1) by simp
  moreover have "list_ex (on_part l) (made @ [(j, t, [])]) \<longleftrightarrow> list_ex (on_part l) made" for l by (simp add: on_part_def)
  ultimately show ?thesis
    unfolding splitting_def
  proof (intro conjI allI impI)
    fix x show "if x \<in> fst ` set (made @ [(j, t, [])]) then node S x = None \<and> (\<exists>r. node d x = Some r \<and> nr_retired_by r = None)
          else node d x = node S x"
      using s(7-9) [of x] r u(1) \<open>node S j = None\<close> by auto
  next
    fix l k assume k: "link S l = Some k"
    show "if list_ex (on_part l) (made @ [(j, t, [])])
          then cl_node_id k = i \<and> (\<exists>m\<in>set (made @ [(j, t, [])]). on_part l m \<and> link d l = Some (k\<lparr>cl_node_id := fst m\<rparr>))
          else link d l = Some k"
      using s(11,12) [OF k] same(1) u(2) by (auto simp: on_part_def)
  qed (use wf s same u in \<open>auto simp: on_part_def\<close>)
qed

lemma split_parts_splitting:
  "splitting S i c pre \<Longrightarrow> split_parts uuid actor i parent now parts c = Some (c', made) \<Longrightarrow> splitting S i c' (pre @ made)"
proof (induction parts arbitrary: c pre made)
  case (Cons part parts)
  obtain j u where new: "new_node_id uuid c = (j, u)" by fastforce
  obtain c2 c3 moved rest where ins: "insert_node j parent (lit ''node'') (sp_title part) None None actor now u = Some c2"
    and fl: "fold (split_link i j) (sp_link_ids part) (c2, []) = (c3, moved)"
    and rest: "split_parts uuid actor i parent now parts c3 = Some (c', rest)" "made = (j, sp_title part, moved) # rest"
    using Cons.prems(2) new by (auto split: option.splits prod.splits)
  have "splitting S i c3 (pre @ [(j, sp_title part, moved)])"
    by (rule split_links_fold [OF splitting_new [OF Cons.prems(1) new ins] fl])
  from Cons.IH [OF this rest(1)] show ?case by (simp add: rest(2))
qed simp

lemma split_undoes:
  assumes inv: "splitting S i c made"
  shows "undoes run by (ImSplit i parent made) S c" (is "undoes run by ?im S c")
proof (rule undoesI)
  note s = splittingD [OF inv]
  have i: "i \<notin> fst ` set made" using s(6) s(7) [of i] by metis
  have un: "undo_link run by ?im k = Some (if \<exists>m\<in>set made. cl_id k \<in> set (snd (snd m)) \<and> cl_node_id k = fst m
      then k\<lparr>cl_node_id := i\<rparr> else k)" for k
    by (simp add: fold_unsplit_row [OF i])
  show "\<exists>m. node c j = Some m \<and> same_node n (undo_node run by ?im m)" if n: "node S j = Some n" for j n
  proof -
    have "j \<notin> fst ` set made" using s(7) [of j] n by auto
    then show ?thesis using s(9) [of j] n node_id [OF n] by (simp add: fold_shelve_row)
  qed
  show "nr_retired_by (undo_node run by ?im m) \<noteq> None" if "node S j = None" "node c j = Some m" for j m
  proof -
    have "j \<in> fst ` set made" using s(9) [of j] that by auto
    then show ?thesis using s(8) [of j] that node_id [OF that(2)] by (auto simp: fold_shelve_row)
  qed
  show "\<exists>m. link c l = Some m \<and> undo_link run by ?im m = Some k" if k: "link S l = Some k" for l k
  proof (cases "list_ex (on_part l) made")
    case True
    then obtain m where m: "m \<in> set made" "on_part l m" "link c l = Some (k\<lparr>cl_node_id := fst m\<rparr>)" "cl_node_id k = i"
      using s(11) [OF k] by blast
    moreover have "k\<lparr>cl_node_id := i\<rparr> = k" using m(4) by (cases k) simp
    ultimately show ?thesis using link_id [OF k] un [of "k\<lparr>cl_node_id := fst m\<rparr>"] by (auto simp: on_part_def)
  next
    case False
    then have no: "\<not> (\<exists>m\<in>set made. cl_id k \<in> set (snd (snd m)) \<and> cl_node_id k = fst m)"
      using link_id [OF k] by (auto simp: list_ex_iff on_part_def)
    have "undo_link run by ?im k = Some k" by (subst un) (simp only: if_not_P [OF no])
    then show ?thesis using s(12) [OF k False] by simp
  qed
  show "gone_link S m'" if "link S l = None" "link c l = Some m" for l m m'
    using s(10) [OF that(1)] that(2) by simp
  show "placeable S c ?im"
    unfolding placeable_def image.case
  proof (intro conjI allI impI)
    have "goes_home S (fst ` set made) (l, i)" if "m \<in> set made" "l \<in> set (snd (snd m))" for m l
    proof -
      have ex: "list_ex (on_part l) made" using that by (auto simp: list_ex_iff on_part_def)
      then obtain k where "link S l = Some k" using s(13) by blast
      then show ?thesis using s(11) [OF _ ex] s(6) i by (auto simp: goes_home_def)
    qed
    then show "list_all (\<lambda>(part, t, ls). list_all (\<lambda>l. goes_home S (fst ` set made) (l, i)) ls) made"
      by (fastforce simp: list_all_iff)
    fix l m assume m: "link c l = Some m"
    then obtain k where k: "link S l = Some k" using s(10) [of l] by (cases "link S l") auto
    show "at_home S (fst ` set made) m"
      using s(11,12) [OF k] k m link_id [OF m] by (cases "list_ex (on_part l) made") (force simp: at_home_def)+
  qed (rule i)
  show "names_rows run by ?im c"
    unfolding names_rows_def
  proof (intro conjI allI impI)
    fix k :: link_row assume "link c (cl_id k) = None"
    then have "\<not> list_ex (on_part (cl_id k)) made" using s(11,13) by fastforce
    then have no: "\<not> (\<exists>m\<in>set made. cl_id k \<in> set (snd (snd m)) \<and> cl_node_id k = fst m)"
      by (auto simp: list_ex_iff on_part_def)
    show "undo_link run by ?im k = Some k" by (subst un) (simp only: if_not_P [OF no])
  qed (auto simp: fold_shelve_row)
qed (use splittingD [OF inv] in auto)

lemma split_journaled:
  assumes wf: "wf c" and n: "node c i \<noteq> None" and do: "do_split uuid actor run i parent parts now c = Some d"
  shows "journaled run c d"
proof -
  obtain c1 made where sp: "split_parts uuid actor i parent now parts c = Some (c1, made)"
    and d: "d = journal_op run (lit ''split'') (subject_node i # map (\<lambda>(m, _, _). subject_node m) made) (ImSplit i parent made) None c1"
    using do by (auto simp: do_split_def split: option.splits)
  have "splitting c i c []" using wf n by (simp add: splitting_def)
  from split_parts_splitting [OF this sp] have s: "splitting c i c1 made" by simp
  show ?thesis unfolding d
    by (intro journaledI split_undoes [OF s]) (use splittingD [OF s] in auto)
qed

end
