(* ===== verification/RevertRun.thy ===== *)
theory RevertRun
  imports UndoSplit
begin

text \<open>
  The theorem about \<^verbatim>\<open>revert_run\<close>: a run is any sequence of the store's own operations under one run number;
  reverting the newest run restores the catalogue it started from.
\<close>

section \<open>What a run may do\<close>

text \<open>
  Two proposals a revert cannot undo are left out: a merge that absorbs its own target or moves it under
  a class it absorbs, and a collapse of a class that is retired already or that holds its own parent.
\<close>

definition undoable :: "catalog \<Rightarrow> proposal_row \<Rightarrow> bool" where
  "undoable c p \<longleftrightarrow>
     (if pp_op p = lit ''merge''
      then (case pp_extra p of
              ExtraIds (t # others) \<Rightarrow>
                t \<notin> set others \<and> (case pp_parent_id p of None \<Rightarrow> True | Some q \<Rightarrow> q \<notin> set others)
            | _ \<Rightarrow> True)
      else if pp_op p = lit ''collapse'' then collapsible c (or_empty (pp_node_id p))
      else True)"

inductive run_step :: "sha_fn \<Rightarrow> (nat \<Rightarrow> rstr) \<Rightarrow> int \<Rightarrow> catalog \<Rightarrow> catalog \<Rightarrow> bool" for sha uuid run where
  staged: "stage_proposal uuid (Some run) p now c = Some (out, c') \<Longrightarrow> run_step sha uuid run c c'"
| applied: "get_class_proposal c i = Some p \<Longrightarrow> undoable c p \<Longrightarrow>
     apply_class_proposal_in_run sha uuid i actor (Some run) now c = (res, c') \<Longrightarrow> run_step sha uuid run c c'"
| observed: "insert_class_observation_in_run sha run i summary cites actor now c = (row, c') \<Longrightarrow>
     run_step sha uuid run c c'"

text \<open>Every such operation is a sequence of journaled changes and changes of the work queue.\<close>

inductive change :: "int \<Rightarrow> catalog \<Rightarrow> catalog \<Rightarrow> bool" for run where
  journaled: "journaled run c d \<Longrightarrow> change run c d"
| queued: "change run c (c\<lparr>ct_props := ps, ct_prop_seq := n\<rparr>)"

lemma queue_tables [simp]:
  "node (c\<lparr>ct_props := ps\<rparr>) = node c" "link (c\<lparr>ct_props := ps\<rparr>) = link c" "obs (c\<lparr>ct_props := ps\<rparr>) = obs c"
  "wf (c\<lparr>ct_props := ps\<rparr>) = wf c"
  "node (c\<lparr>ct_prop_seq := n\<rparr>) = node c" "link (c\<lparr>ct_prop_seq := n\<rparr>) = link c" "obs (c\<lparr>ct_prop_seq := n\<rparr>) = obs c"
  "wf (c\<lparr>ct_prop_seq := n\<rparr>) = wf c"
  by (simp_all add: fun_eq_iff node_def link_def obs_def wf_def)

lemma drop_change: "change run c (drop_proposal i c)"
  using queued [where c = c and ps = "filter (\<lambda>p. pp_id p \<noteq> i) (ct_props c)" and n = "ct_prop_seq c"]
  by (simp add: drop_proposal_def)

lemma insert_change: "change run c (insert_structural r op i parent title summary extra rationale now c)"
proof -
  have "c\<lparr>ct_prop_seq := n, ct_props := ps\<rparr> = c\<lparr>ct_props := ps, ct_prop_seq := n\<rparr>" for n ps by simp
  then show ?thesis unfolding insert_structural_def Let_def by (simp only: queued)
qed

lemma undoes_from:
  assumes "node S = node S'" "link S = link S'" "obs S = obs S'" "ct_dec S = ct_dec S'"
  shows "undoes run by im S c = undoes run by im S' c"
  unfolding undoes_def placeable_def goes_home_def [abs_def] at_home_def [abs_def] gone_link_def [abs_def] assms ..

lemma child_journaled:
  assumes wf: "wf c" and mk: "make_child uuid (Some run) parent title now c = Some (i, d)"
  shows "journaled run c d"
proof -
  obtain u where new: "new_node_id uuid c = (i, u)"
    using mk by (auto simp: make_child_def split: prod.splits option.splits)
  obtain c2 where ins: "insert_node i (Some parent) (lit ''node'') title None None (lit ''classifier'') now u = Some c2"
    and d: "d = journal_op run (lit ''create'') [subject_node i] (ImCreate i (Some parent) title) None c2"
    using mk new by (auto simp: make_child_def stage_journal_def split: option.splits)
  note u = new_node_id_tables [OF new]
  have keep: "ct_runs c2 = ct_runs u" "ct_ops c2 = ct_ops u" by (rule node_insert [OF ins]; blast)+
  show ?thesis unfolding d
  proof (rule journaledI)
    show "wf c2" using wf_insert_node [OF _ ins] wf u by simp
    show "undoes run by (ImCreate i (Some parent) title) c c2" for "by"
      using create_undone [OF ins] undoes_from [of c u] u by simp
  qed (use keep u in auto)
qed

lemma file_link_change:
  assumes wf: "wf c" and f: "file_link (Some run) i kind target note now c = (changed, d)"
  shows "(change run)\<^sup>*\<^sup>* c d \<and> (\<not> changed \<longrightarrow> d = c)"
proof (cases "link_at c i kind target")
  case None
  obtain l c1 where ins: "insert_link i kind target note now c = (l, c1)" by fastforce
  have d: "d = journal_op run (lit ''file'') [subject_node i, subject_link l] (ImFile l i kind target None) None c1" "changed"
    using f None ins by (simp_all add: file_link_def stage_journal_def)
  have keep: "ct_runs c1 = ct_runs c" "ct_ops c1 = ct_ops c" by (rule link_insert [OF wf ins]; blast)+
  have "journaled run c d" unfolding d
    by (intro journaledI wf_insert_link [OF wf None ins] file_new_undone [OF wf ins] keep)
  then show ?thesis using d(2) by (auto intro: change.journaled)
next
  case (Some k)
  show ?thesis
  proof (cases "lr_retired_by k")
    case None
    then show ?thesis using f Some by (simp add: file_link_def)
  next
    case (Some r)
    let ?c1 = "update_links (\<lambda>m. cl_id m = cl_id k) (\<lambda>m. m\<lparr>lr_retired_by := None\<rparr>) c"
    have lk: "link c (cl_id k) = Some k" by (rule link_mem [OF wfD(2) [OF wf] link_at_key [OF \<open>link_at c i kind target = Some k\<close>]])
    have d: "d = journal_op run (lit ''file'') [subject_node i, subject_link (cl_id k)]
        (ImFile (cl_id k) i kind target (Some r)) None ?c1" "changed"
      using f \<open>link_at c i kind target = Some k\<close> Some by (simp_all add: file_link_def stage_journal_def)
    have "journaled run c d" unfolding d
      by (intro journaledI wf_revive [OF wf] file_revived_undone [OF lk Some]) (simp_all add: update_links_def)
    then show ?thesis using d(2) by (auto intro: change.journaled)
  qed
qed

lemma journaled_wf: "journaled run c d \<Longrightarrow> wf d" by (auto simp: journaled_def)

lemma stage_file_change:
  assumes wf: "wf c" and f: "stage_file uuid (Some run) parent sub kind target note now c = Some (out, d)"
  shows "(change run)\<^sup>*\<^sup>* c d"
proof (cases "live_node c parent")
  case True
  obtain i created c1 where fn: "filing_node uuid (Some run) parent sub now c = Some (i, created, c1)"
    using f True by (auto simp: stage_file_def split: option.splits prod.splits)
  obtain changed c2 where fl: "file_link (Some run) i kind target note now c1 = (changed, c2)" by fastforce
  have d: "d = c2" using f True fn fl by (auto simp: stage_file_def split: if_splits)
  consider "c1 = c" | title where "make_child uuid (Some run) parent title now c = Some (i, c1)"
    using fn by (auto simp: filing_node_def split: option.splits if_splits prod.splits)
  then show ?thesis
  proof cases
    case 1
    then show ?thesis using file_link_change [OF wf] fl d by simp
  next
    case 2
    then have j: "journaled run c c1" by (rule child_journaled [OF wf])
    have "(change run)\<^sup>*\<^sup>* c1 d" using file_link_change [OF journaled_wf [OF j] fl] d by simp
    then show ?thesis using change.journaled [OF j] by (simp add: converse_rtranclp_into_rtranclp)
  qed
next
  case False
  then show ?thesis using f by (simp add: stage_file_def)
qed

lemma stage_change:
  assumes wf: "wf c" and st: "stage_proposal uuid (Some run) p now c = Some (out, d)"
  shows "(change run)\<^sup>*\<^sup>* c d"
proof (cases "stage_refused c (Some run) p")
  case True
  then show ?thesis using st by (simp add: stage_proposal_def)
next
  case False
  note s = st [unfolded stage_proposal_def if_not_P [OF False]]
  have one: "(change run)\<^sup>*\<^sup>* c (insert_structural r op i parent title summary extra rationale now c)"
    for r op i parent title summary extra rationale by (rule r_into_rtranclp, rule insert_change)
  show ?thesis
  proof (cases p)
    case (Create parent title r)
    then show ?thesis using s child_journaled [OF wf]
      by (auto split: if_splits option.splits intro!: r_into_rtranclp change.journaled)
  next
    case (File parent sub kind target nt r)
    then show ?thesis using s stage_file_change [OF wf] by simp
  qed (use s one in \<open>auto simp: stage_supersede_def split: if_splits\<close>)
qed

lemma journaled_drop: "journaled run c d \<Longrightarrow> (change run)\<^sup>*\<^sup>* c (drop_proposal i d)"
  using drop_change [of run d i]
  by (meson change.journaled converse_rtranclp_into_rtranclp r_into_rtranclp)

lemma supersede_journaled:
  assumes wf: "wf c" and s: "do_supersede sha actor run old new rationale now c = (Some (Applied eff n ev), d)"
  shows "journaled run c d"
proof -
  obtain x where x: "apply_supersession sha True True old new rationale actor now (ct_dec c) = (Some (Applied eff n ev), x)"
    and d: "d = journal_op run (lit ''supersede'') [subject_seq eff, subject_seq n] (ImSupersede eff n ev) (Some ev) (c\<lparr>ct_dec := x\<rparr>)"
    using s by (auto simp: do_supersede_def split: prod.splits option.splits supersession_outcome.splits)
  show ?thesis unfolding d
    by (intro journaledI supersede_undone [OF x]) (simp_all add: wf)
qed

lemma reorganise_journaled:
  assumes wf: "wf c" and ok: "undoable c p" and r: "reorganise sha uuid actor run now p c = Reorganised detail d"
  shows "journaled run c d"
proof -
  consider (promote) "pp_op p = lit ''promote''" | (collapse) "pp_op p = lit ''collapse''" "pp_op p \<noteq> lit ''promote''"
    | (merge) "pp_op p = lit ''merge''" | (split) "apply_split uuid actor run now p c = Reorganised detail d"
    | (supersede) "apply_supersede sha actor run now p c = Reorganised detail d"
    using r by (auto simp: reorganise_def split: if_splits)
  then show ?thesis
  proof cases
    case promote
    then have d: "d = do_promote run (or_empty (pp_node_id p)) (pp_parent_id p) now c"
      using r by (simp add: reorganise_def apply_promote_def)
    show ?thesis unfolding d do_promote_def
      by (intro journaledI promote_undone wf_set_parent [OF wf]) (simp_all add: set_parent_def)
  next
    case collapse
    then have ap: "apply_collapse uuid actor run now p c = Reorganised detail d"
      using r by (simp add: reorganise_def)
    have br: "collapsible c (or_empty (pp_node_id p))"
      using ok collapse(1) by (simp add: undoable_def lit_def)
    obtain n digest where "node c (or_empty (pp_node_id p)) = Some n"
      "do_collapse uuid actor run (or_empty (pp_node_id p)) n (pp_title p) (pp_summary p)
         (case pp_extra p of ExtraSeqs ss \<Rightarrow> ss | _ \<Rightarrow> []) now c = Some (digest, d)"
      using ap by (auto simp: apply_collapse_def Let_def split: option.splits)
    then show ?thesis by (rule collapse_journaled [OF wf _ br])
  next
    case merge
    then have ap: "apply_merge run now p c = Reorganised detail d"
      using r by (simp add: reorganise_def lit_def)
    then obtain t others n where ids: "pp_extra p = ExtraIds (t # others)" "node c t = Some n"
      and d: "d = do_merge run t n others (pp_title p) (pp_parent_id p) now c"
      by (auto simp: apply_merge_def split: extra.splits list.splits option.splits)
    show ?thesis unfolding d
      by (rule merge_journaled [OF wf ids(2)]) (use ok ids(1) merge in \<open>auto simp: undoable_def\<close>)
  next
    case split
    then obtain n where "node c (or_empty (pp_node_id p)) = Some n"
      "do_split uuid actor run (or_empty (pp_node_id p)) (cn_parent_id n)
         (case pp_extra p of ExtraParts ps \<Rightarrow> ps | _ \<Rightarrow> []) now c = Some d"
      by (auto simp: apply_split_def Let_def split: option.splits)
    then show ?thesis using split_journaled [OF wf, of "or_empty (pp_node_id p)"] by simp
  next
    case supersede
    then obtain old new eff n ev
      where "do_supersede sha actor run old new (or_empty (pp_rationale p)) now c = (Some (Applied eff n ev), d)"
      by (auto simp: apply_supersede_def split: extra.splits prod.splits option.splits supersession_outcome.splits)
    then show ?thesis by (rule supersede_journaled [OF wf])
  qed
qed

lemma apply_change:
  assumes wf: "wf c" and p: "get_class_proposal c i = Some p" and ok: "undoable c p"
    and ap: "apply_class_proposal_in_run sha uuid i actor (Some run) now c = (res, d)"
  shows "(change run)\<^sup>*\<^sup>* c d"
proof -
  consider "d = c" | out where "apply_locked sha uuid actor run False now p c = Some (out, d)"
    using ap p by (auto simp: apply_class_proposal_in_run_def split: option.splits prod.splits)
  then show ?thesis
  proof cases
    case 2
    then consider "d = c" | "d = drop_proposal (pp_id p) c"
      | detail c1 where "reorganise sha uuid actor run now p c = Reorganised detail c1" "d = drop_proposal (pp_id p) c1"
      by (auto simp: apply_locked_def finish_curation_def split: if_splits reorg.splits)
    then show ?thesis
    proof cases
      case 2
      then show ?thesis using drop_change by auto
    next
      case 3
      then show ?thesis using reorganise_journaled [OF wf ok] journaled_drop by blast
    qed simp
  qed simp
qed

lemma observe_change:
  assumes wf: "wf c" and ob: "insert_class_observation_in_run sha run i summary cites actor now c = (row, d)"
  shows "(change run)\<^sup>*\<^sup>* c d"
proof (cases "insert_class_observation sha i summary cites actor now c")
  case (Pair x c1)
  show ?thesis
  proof (cases x)
    case None
    then have "c1 = c" using Pair by (auto simp: insert_class_observation_def Let_def split: if_splits prod.splits)
    then show ?thesis using ob Pair None by (auto simp: insert_class_observation_in_run_def split: if_splits)
  next
    case (Some bs)
    obtain b s where bs: "bs = (b, s)" by (cases bs)
    note und = observe_undone [OF wf Pair [unfolded Some bs]]
    have keep: "ct_ops c1 = ct_ops c" "ct_runs c1 = ct_runs c"
      using Pair by (auto simp: insert_class_observation_def Let_def split: if_splits prod.splits)
    have "journaled run c (journal_op run (lit ''observe'') [subject_obs b, subject_node i] (ImObserve b i s) (Some s) c1)"
      by (intro journaledI und keep)
    then show ?thesis
      using ob Pair Some bs by (auto simp: insert_class_observation_in_run_def split: if_splits intro: change.journaled)
  qed
qed

lemma run_step_change:
  "run_step sha uuid run c d \<Longrightarrow> wf c \<Longrightarrow> (change run)\<^sup>*\<^sup>* c d"
  by (cases rule: run_step.cases) (auto intro: stage_change apply_change observe_change)

section \<open>The journal of a run undoes it\<close>

lemma restores_same:
  assumes "node T = node T'" "link T = link T'" "obs T = obs T'" "ct_links T = ct_links T'" "ct_dec T = ct_dec T'"
  shows "restores S T = restores S T'"
  using assms by (simp add: restores_def)

lemma restores_mark [simp]: "restores S (mark_reverted run by ix T) = restores S T"
  by (rule restores_same) (simp_all add: mark_reverted_def fun_eq_iff node_def link_def obs_def)

lemma restores_from:
  assumes "node S = node S'" "link S = link S'" "obs S = obs S'" "ct_dec S = ct_dec S'"
  shows "restores S T = restores S' T"
  unfolding restores_def gone_link_def [abs_def] assms ..

definition chain_undoes :: "int \<Rightarrow> catalog \<Rightarrow> catalog \<Rightarrow> op_row list \<Rightarrow> bool" where
  "chain_undoes run S c xs \<longleftrightarrow>
     (\<forall>by T. restores c T \<longrightarrow> (\<exists>T'. revert_ops run by (rev xs) T = Inr T' \<and> restores S T'))"

definition run_journal :: "int \<Rightarrow> catalog \<Rightarrow> catalog \<Rightarrow> op_row list \<Rightarrow> bool" where
  "run_journal run S c xs \<longleftrightarrow>
     wf c \<and> ct_runs c = ct_runs S \<and> ct_ops c = ct_ops S @ xs
     \<and> (\<forall>x\<in>set xs. op_run_id x = run \<and> applied_op x) \<and> sorted (map op_ix xs) \<and> chain_undoes run S c xs"

lemma fold_max_ge: "(m::int) \<le> fold (\<lambda>x m. max m (f x)) xs m \<and> (\<forall>x\<in>set xs. f x \<le> fold (\<lambda>x m. max m (f x)) xs m)"
proof (induction xs arbitrary: m)
  case (Cons y xs)
  show ?case using Cons.IH [of "max m (f y)"] by auto
qed simp

lemma next_op_ix_above: "x \<in> set (ct_ops c) \<Longrightarrow> op_run_id x = r \<Longrightarrow> op_ix x < next_op_ix c r"
  unfolding next_op_ix_def using fold_max_ge [of 0 op_ix "filter (\<lambda>x. op_run_id x = r) (ct_ops c)"] by auto

lemma run_journal_step:
  assumes j: "run_journal run S c xs" and live: "\<not> run_source_forgotten S run" and d: "journaled run c d"
  shows "\<exists>x. run_journal run S d (xs @ [x])"
proof -
  note i = j [unfolded run_journal_def]
  obtain name subjects im ev c1 where c1: "d = journal_op run name subjects im ev c1" "wf c1"
    "ct_ops c1 = ct_ops c" "ct_runs c1 = ct_runs c" and und: "\<And>by. undoes run by im c c1"
    using d by (auto simp: journaled_def)
  let ?x = "\<lparr>op_run_id = run, op_ix = next_op_ix c1 run, op_name = name, op_subjects = subjects,
          op_outcome = lit ''applied'', op_image = Some im, op_ledger_seq = ev, op_reverted_by = None\<rparr>"
  have dx: "d = c1\<lparr>ct_ops := ct_ops c @ [?x]\<rparr>"
    using c1 live i by (simp add: journal_op_def run_source_forgotten_def)
  have "chain_undoes run S d (xs @ [?x])"
    unfolding chain_undoes_def
  proof (intro allI impI)
    fix "by" T assume "restores d T"
    then have T: "restores c1 T"
      using restores_from [of d c1 T] by (simp add: dx fun_eq_iff node_def link_def obs_def)
    have "wf c" using i by blast
    from restores_invert [OF this und T]
    obtain T1 where T1: "invert_image run by im T = Some T1" "restores c T1" by blast
    then have "restores c (mark_reverted run by (op_ix ?x) T1)" by simp
    then obtain T2 where T2: "revert_ops run by (rev xs) (mark_reverted run by (op_ix ?x) T1) = Inr T2" "restores S T2"
      using i unfolding chain_undoes_def by blast
    then have "revert_ops run by (rev (xs @ [?x])) T = Inr T2" using T1 by (simp add: invert_op_def)
    then show "\<exists>T'. revert_ops run by (rev (xs @ [?x])) T = Inr T' \<and> restores S T'" using T2 by blast
  qed
  moreover have "sorted (map op_ix (xs @ [?x]))"
    using i next_op_ix_above [of _ c1 run] c1(3) by (fastforce simp: sorted_append)
  ultimately have "run_journal run S d (xs @ [?x])"
    using i c1(2,4) by (simp add: run_journal_def dx wf_def applied_op_def)
  then show ?thesis by blast
qed

lemma run_journal_change:
  assumes j: "run_journal run S c xs" and live: "\<not> run_source_forgotten S run" and ch: "change run c d"
  shows "\<exists>ys. run_journal run S d ys"
  using ch
proof cases
  case journaled
  then show ?thesis using run_journal_step [OF j live] by blast
next
  case (queued ps n)
  have "restores d T = restores c T" for T by (rule restores_from) (simp_all add: queued)
  then show ?thesis using j by (auto simp: run_journal_def chain_undoes_def queued)
qed

lemma run_journal_changes:
  "(change run)\<^sup>*\<^sup>* c d \<Longrightarrow> run_journal run S c xs \<Longrightarrow> \<not> run_source_forgotten S run \<Longrightarrow> \<exists>ys. run_journal run S d ys"
proof (induction arbitrary: xs rule: converse_rtranclp_induct)
  case (step c c1)
  obtain ys where "run_journal run S c1 ys" using run_journal_change [OF step.prems step.hyps(1)] by blast
  then show ?case using step.IH step.prems(2) by blast
qed blast

lemma run_journal_run:
  assumes "(run_step sha uuid run)\<^sup>*\<^sup>* S c" and wf: "wf S" and live: "\<not> run_source_forgotten S run"
  shows "\<exists>xs. run_journal run S c xs"
  using assms(1)
proof (induction rule: rtranclp_induct)
  case base
  have "run_journal run S S []" using wf by (simp add: run_journal_def chain_undoes_def)
  then show ?case by blast
next
  case (step c d)
  then obtain xs where xs: "run_journal run S c xs" by blast
  then have "wf c" by (simp add: run_journal_def)
  then show ?case using run_journal_changes [OF run_step_change [OF step.hyps(2)] xs live] by blast
qed

section \<open>The theorem\<close>

lemma sort_key_filter_run:
  assumes "\<forall>x\<in>set ys. op_run_id x < run" "\<forall>x\<in>set xs. op_run_id x = run" "sorted (map op_ix xs)" "ct_ops c = ys @ xs"
  shows "list_run_ops c run = xs"
proof -
  have "filter (\<lambda>x. op_run_id x = run) ys = []" "filter (\<lambda>x. op_run_id x = run) xs = xs"
    using assms(1,2) by (auto simp: filter_empty_conv filter_id_conv)
  then show ?thesis using assms(3,4) by (simp add: list_run_ops_def sort_key_id_if_sorted)
qed

lemma reverts:
  assumes j: "run_journal run S c xs" and old: "\<forall>x\<in>set (ct_ops S). op_run_id x < run"
    and row: "find (\<lambda>x. ru_id x = run) (ct_runs S) = Some x" "ru_outcome x \<noteq> Some (lit ''reverted'')"
      "ru_outcome x \<noteq> Some (lit ''reverted_by_canary'')"
    and hz: "case ct_horizon c of None \<Rightarrow> True | Some h \<Rightarrow> h < run"
  shows "case revert_run sha run actor now c of
      (Inr rec, T) \<Rightarrow> restores S T \<and> rr_reverted_ops rec = length (ct_ops c) - length (ct_ops S) \<and> xs \<noteq> []
    | (Inl e, T) \<Rightarrow> xs = [] \<and> e = NothingToRevert \<and> T = c \<and> restores S T"
proof -
  note i = j [unfolded run_journal_def]
  have ops: "list_run_ops c run = xs" by (rule sort_key_filter_run [OF old]) (use i in auto)
  have app: "filter applied_op (list_run_ops c run) = xs" using i by (auto simp: ops filter_id_conv)
  have row': "find (\<lambda>x. ru_id x = run) (ct_runs c) = Some x" using row(1) i by simp
  have nolater: "filter (\<lambda>y. op_run_id y > run \<and> applied_op y) (ct_ops c) = []"
    using i old by (fastforce simp: filter_empty_conv)
  have past: "\<not> (case ct_horizon c of None \<Rightarrow> False | Some h \<Rightarrow> run \<le> h)" using hz by (auto split: option.splits)
  show ?thesis
  proof (cases "xs = []")
    case True
    have "revert_refused c run = Some NothingToRevert"
      using row' row(2,3) past by (simp add: revert_refused_def app True Let_def)
    moreover have "restores S c"
      using i restores_refl [of c] by (fastforce simp: chain_undoes_def True)
    ultimately show ?thesis by (simp add: revert_run_def True)
  next
    case False
    have ref: "revert_refused c run = None"
      using row' row(2,3) past False by (simp add: revert_refused_def app Let_def later_run_def nolater)
    obtain b c0 where c0: "insert_class_run_with (lit ''revert'') c = (b, c0)" by fastforce
    have "restores c c0"
      using i restores_refl [of c] restores_same [of c0 c c] c0
      by (auto simp: insert_class_run_with_def Let_def fun_eq_iff node_def link_def obs_def)
    then obtain T where T: "revert_ops run b (rev xs) c0 = Inr T" "restores S T"
      using i unfolding chain_undoes_def by blast
    let ?app = "append_in_txn sha (revert_append sha actor run (length xs) b now) (dc_events (ct_dec T))"
    let ?T = "T\<lparr>ct_dec := (ct_dec T)\<lparr>dc_events := snd ?app\<rparr>\<rparr>"
    have "restores S ?T" using T(2) by (auto simp: restores_def append_in_txn_rows)
    moreover have up: "restores S (update_run q f D) = restores S D" for q f D
      by (rule restores_same) (simp_all add: update_run_def fun_eq_iff node_def link_def obs_def)
    ultimately show ?thesis
      using i False by (simp add: revert_run_def ref app c0 T(1) Let_def case_prod_beta up)
  qed
qed

text \<open>
  C5. Reverting a run of undoable operations restores the catalogue.  Take the newest run, not yet
  reverted, with a source that is not forgotten, and past the vacuum's horizon, and let it stage proposals of
  every kind, apply queued ones that are undoable, and record observations, in any order.  Left out is the
  application of a merge whose target is one of the classes it absorbs or is moved under one of them, and of a
  collapse of a class that is retired or holds its own parent; the store would apply these, and what a revert
  then does is not a restoration (\<open>merge_under_absorbed_is_not_restored\<close>).  Then \<^verbatim>\<open>revert_run\<close> succeeds, or refuses because the run did
  nothing.  Every class, link and observation there was is back as it was (a class up to its update time),
  what the run made is gone or retired, the supersessions are those of before, and the ledger only grew.
\<close>

theorem revert_restores:
  assumes "wf S" and "list_all (\<lambda>x. op_run_id x < run) (ct_ops S)"
    and "find (\<lambda>x. ru_id x = run) (ct_runs S) = Some r" "ru_outcome r \<noteq> Some (lit ''reverted'')"
      "ru_outcome r \<noteq> Some (lit ''reverted_by_canary'')" "\<not> run_source_forgotten S run"
    and "(run_step sha uuid run)\<^sup>*\<^sup>* S c"
    and "case ct_horizon c of None \<Rightarrow> True | Some h \<Rightarrow> h < run"
  shows "case revert_run sha run actor now c of
      (Inr rec, T) \<Rightarrow> restores S T \<and> rr_reverted_ops rec = length (ct_ops c) - length (ct_ops S)
    | (Inl e, T) \<Rightarrow> e = NothingToRevert \<and> T = c \<and> ct_ops c = ct_ops S \<and> restores S T"
proof -
  obtain xs where xs: "run_journal run S c xs" using run_journal_run [OF assms(7,1,6)] by blast
  have "\<forall>x\<in>set (ct_ops S). op_run_id x < run" using assms(2) by (simp add: list_all_iff)
  from reverts [OF xs this assms(3-5,8), of sha actor now] xs
  show ?thesis by (auto simp: run_journal_def split: prod.splits sum.splits)
qed

section \<open>A sample run\<close>

definition class_row :: "string \<Rightarrow> string option \<Rightarrow> node_row" where
  "class_row i parent = \<lparr>cn_id = lit i, cn_parent_id = map_option lit parent, cn_kind = lit ''node'', cn_title = lit i,
     cn_summary = None, cn_project_path = None, cn_ip_name = None, cn_status = lit ''accepted'', cn_pinned = False,
     cn_curated_by = None, cn_created_at = 0, cn_updated_at = 0, nr_retired_by = None, nr_retired_into = None\<rparr>"

definition sample_catalog :: catalog where
  "sample_catalog = \<lparr>
     ct_nodes = [class_row ''root'' None, class_row ''auth'' (Some ''root''), class_row ''login'' (Some ''root''),
       class_row ''tokens'' (Some ''login'')],
     ct_links = [\<lparr>cl_id = 1, cl_node_id = lit ''login'', cl_target_kind = lit ''prompt'', cl_target_id = lit ''7'',
       cl_note = None, cl_status = lit ''accepted'', cl_created_at = 0, lr_retired_by = None\<rparr>],
     ct_link_seq = 1, ct_obs = [], ct_obs_seq = 0, ct_dec = \<lparr>dc_events = [], dc_supers = []\<rparr>,
     ct_props = [], ct_prop_seq = 0,
     ct_runs = [\<lparr>ru_id = 1, ru_mode = lit ''organize'', ru_status = lit ''running'', ru_outcome = None, ru_ops = None,
       ru_summary = None, ru_source_forgotten_at = None\<rparr>], ct_run_seq = 1,
     ct_ops = [], ct_horizon = None, ct_uuid = 0, ct_evidence = [], ct_forgotten_sources = [],
     ct_forgotten_captures = [], ct_note_events = []\<rparr>"

definition sample_sha :: sha_fn where "sample_sha b = []"

definition sample_filed :: catalog where
  "sample_filed = snd (the (stage_proposal show_nat (Some 1)
     (File (lit ''auth'') (Some (lit ''sessions'')) (lit ''session'') (lit ''s'') None None) 5 sample_catalog))"

definition sample_queued :: catalog where
  "sample_queued = snd (the (stage_proposal show_nat (Some 1)
     (Merge [lit ''auth'', lit ''login''] (Some (lit ''access'')) None None) 6 sample_filed))"

definition sample_merged :: catalog where
  "sample_merged = snd (apply_class_proposal_in_run sample_sha show_nat 1 [] (Some 1) 7 sample_queued)"

lemma sample_run: "(run_step sample_sha show_nat 1)\<^sup>*\<^sup>* sample_catalog sample_merged"
proof -
  have "stage_proposal show_nat (Some 1)
     (File (lit ''auth'') (Some (lit ''sessions'')) (lit ''session'') (lit ''s'') None None) 5 sample_catalog \<noteq> None"
    "stage_proposal show_nat (Some 1)
     (Merge [lit ''auth'', lit ''login''] (Some (lit ''access'')) None None) 6 sample_filed \<noteq> None"
    "get_class_proposal sample_queued 1 \<noteq> None" "undoable sample_queued (the (get_class_proposal sample_queued 1))"
    by code_simp+
  then have "run_step sample_sha show_nat 1 sample_catalog sample_filed"
    "run_step sample_sha show_nat 1 sample_filed sample_queued"
    "run_step sample_sha show_nat 1 sample_queued sample_merged"
    by (auto simp: sample_filed_def sample_queued_def sample_merged_def
        intro: run_step.staged run_step.applied [OF _ _ surjective_pairing])
  then show ?thesis by (meson converse_rtranclp_into_rtranclp rtranclp.rtrancl_refl)
qed

theorem revert_restores_witness:
  "\<exists>rec T. revert_run sample_sha 1 [] 9 sample_merged = (Inr rec, T) \<and> restores sample_catalog T
     \<and> rr_reverted_ops rec = 3 \<and> \<not> live_node sample_merged (lit ''login'') \<and> live_node T (lit ''login'')"
proof -
  have pre: "wf sample_catalog" "list_all (\<lambda>x. op_run_id x < 1) (ct_ops sample_catalog)"
    "find (\<lambda>x. ru_id x = 1) (ct_runs sample_catalog) = Some (hd (ct_runs sample_catalog))"
    "ru_outcome (hd (ct_runs sample_catalog)) = None" "\<not> run_source_forgotten sample_catalog 1"
    "ct_horizon sample_merged = None" "length (ct_ops sample_merged) = 3" "length (ct_ops sample_catalog) = 0"
    "\<not> live_node sample_merged (lit ''login'')" "live_node sample_catalog (lit ''login'')"
    by code_simp+
  obtain rec T where T: "revert_run sample_sha 1 [] 9 sample_merged = (Inr rec, T)" "restores sample_catalog T"
    "rr_reverted_ops rec = 3"
    using revert_restores [OF pre(1-3) _ _ pre(5) sample_run, of "[]" 9] pre(4,6-8)
    by (cases "revert_run sample_sha 1 [] 9 sample_merged"; cases "fst (revert_run sample_sha 1 [] 9 sample_merged)") auto
  have "live_node T (lit ''login'')"
    using T(2) pre(10) same_node_retired
    by (fastforce simp: restores_def rows_back_def live_node_row split: option.splits dest: spec [of _ "lit ''login''"])
  then show ?thesis using T pre(9) by blast
qed

section \<open>What a revert does not undo\<close>

text \<open>
  Why the two kinds of merge are left out.  Absorbing one's own parent makes the target its own parent, and
  a target moved under a class it absorbs is left there by the revert.  A promotion by a later run of a
  class that a merge had adopted is lost when the merge is reverted, because the journal does not name the
  adopted classes: no subject is shared, so the revert is not refused.
\<close>

definition queue_and_apply :: "int \<Rightarrow> proposal \<Rightarrow> catalog \<Rightarrow> catalog" where
  "queue_and_apply run p c =
     (let c1 = snd (the (stage_proposal show_nat (Some run) p 5 c))
      in snd (apply_class_proposal_in_run sample_sha show_nat (ct_prop_seq c1) [] (Some run) 6 c1))"

lemma merge_with_its_parent_loops:
  "parent_of sample_catalog (lit ''tokens'') = Some (lit ''login'')
   \<and> parent_of (queue_and_apply 1 (Merge [lit ''tokens'', lit ''login''] None None None) sample_catalog) (lit ''tokens'')
      = Some (lit ''tokens'')"
  by code_simp

lemma merge_under_absorbed_is_not_restored:
  "let c = queue_and_apply 1 (Merge [lit ''auth'', lit ''login''] None (Some (lit ''login'')) None) sample_catalog
   in parent_of c (lit ''auth'') = Some (lit ''auth'')
    \<and> parent_of sample_catalog (lit ''auth'') = Some (lit ''root'')
    \<and> parent_of (snd (revert_run sample_sha 1 [] 9 c)) (lit ''auth'') = Some (lit ''login'')"
  by code_simp

lemma revert_drops_a_later_promotion:
  "let c = queue_and_apply 1 (Merge [lit ''auth'', lit ''login''] None None None) sample_catalog;
       (r, c1) = insert_class_run_with (lit ''organize'') c;
       c2 = queue_and_apply r (Promote (lit ''tokens'') (Some (lit ''root'')) None) c1;
       (out, T) = revert_run sample_sha 1 [] 9 c2
   in parent_of c2 (lit ''tokens'') = Some (lit ''root'') \<and> (case out of Inl e \<Rightarrow> False | Inr rec \<Rightarrow> True)
    \<and> parent_of T (lit ''tokens'') = Some (lit ''login'')"
  by code_simp

end
