(* ===== verification/Forest.thy ===== *)
theory Forest
  imports Adjudicate RevertRun
begin

text \<open>
  The snapshot as a forest: what the bounded walks of \<^verbatim>\<open>adjudicate.rs\<close> compute, and that a promotion which was
  adjudicated against the current catalogue leaves a forest of bounded depth.
\<close>

section \<open>Depth and descent\<close>

primrec at_depth :: "class_node list \<Rightarrow> nat \<Rightarrow> rstr \<Rightarrow> bool" where
  "at_depth ns 0 i \<longleftrightarrow> (\<exists>n. class_at ns i = Some n \<and> cn_parent_id n = None)"
| "at_depth ns (Suc d) i \<longleftrightarrow> (\<exists>n p. class_at ns i = Some n \<and> cn_parent_id n = Some p \<and> at_depth ns d p)"

primrec steps_up :: "class_node list \<Rightarrow> nat \<Rightarrow> rstr \<Rightarrow> rstr \<Rightarrow> bool" where
  "steps_up ns 0 j i \<longleftrightarrow> j = i"
| "steps_up ns (Suc k) j i \<longleftrightarrow> (\<exists>n p. class_at ns j = Some n \<and> cn_parent_id n = Some p \<and> steps_up ns k p i)"

definition rooted :: "class_node list \<Rightarrow> bool" where
  "rooted ns \<longleftrightarrow> (\<forall>n\<in>set ns. root_of ns (cn_id n) \<noteq> None)"

lemma class_at_id: "class_at ns i = Some n \<Longrightarrow> cn_id n = i \<and> n \<in> set ns"
  unfolding class_at_def by (metis (mono_tags, lifting) find_Some_iff nth_mem set_rev)

lemma ex_le_Suc: "(\<exists>d\<le>Suc g. P d) \<longleftrightarrow> P 0 \<or> (\<exists>k\<le>g. P (Suc k))"
  by (metis Suc_le_mono le0 not0_implies_Suc)

lemma class_at_set:
  assumes "distinct (map cn_id ns)"
  shows "class_at ns i = Some n \<longleftrightarrow> n \<in> set ns \<and> cn_id n = i"
  unfolding class_at_def using find_key_mem [of cn_id "rev ns"] assms by (simp add: rev_map [symmetric])

lemma climb_depth:
  "climb ns g n \<noteq> None \<longleftrightarrow> (\<exists>d\<le>g. case d of 0 \<Rightarrow> cn_parent_id n = None
     | Suc k \<Rightarrow> \<exists>p. cn_parent_id n = Some p \<and> at_depth ns k p)"
proof (induction g arbitrary: n)
  case (Suc g)
  show ?case
  proof (cases "cn_parent_id n")
    case None
    then show ?thesis by (auto intro: exI [of _ 0])
  next
    case (Some p)
    have up: "at_depth ns k p \<longleftrightarrow> (\<exists>m. class_at ns p = Some m \<and> (case k of 0 \<Rightarrow> cn_parent_id m = None
       | Suc k \<Rightarrow> \<exists>q. cn_parent_id m = Some q \<and> at_depth ns k q))" for k
      by (cases k) auto
    have "climb ns (Suc g) n \<noteq> None \<longleftrightarrow> (\<exists>k\<le>g. at_depth ns k p)"
      using Some Suc.IH by (auto simp: up split: option.splits)
    also have "\<dots> \<longleftrightarrow> (\<exists>d\<le>Suc g. case d of 0 \<Rightarrow> cn_parent_id n = None
     | Suc k \<Rightarrow> \<exists>p. cn_parent_id n = Some p \<and> at_depth ns k p)"
      using Some by (simp add: ex_le_Suc)
    finally show ?thesis .
  qed
qed simp

lemma root_of_iff: "root_of ns i \<noteq> None \<longleftrightarrow> (\<exists>d\<le>64. at_depth ns d i)"
proof -
  have up: "at_depth ns k i \<longleftrightarrow> (\<exists>m. class_at ns i = Some m \<and> (case k of 0 \<Rightarrow> cn_parent_id m = None
     | Suc k \<Rightarrow> \<exists>q. cn_parent_id m = Some q \<and> at_depth ns k q))" for k
    by (cases k) auto
  show ?thesis unfolding root_of_def up
    by (cases "class_at ns i") (use climb_depth [of ns 64] in \<open>auto simp del: climb.simps\<close>)
qed

lemma at_depth_unique: "at_depth ns d i \<Longrightarrow> at_depth ns e i \<Longrightarrow> d = e"
proof (induction d arbitrary: e i)
  case 0
  then show ?case by (cases e) auto
next
  case (Suc d)
  then show ?case by (cases e) auto
qed

lemma depth_from_at: "at_depth ns d i \<Longrightarrow> d \<le> Suc left \<Longrightarrow> depth_from ns left (class_at ns i) = d"
proof (induction left arbitrary: d i)
  case 0
  then show ?case by (cases d) auto
next
  case (Suc left)
  then show ?case by (cases d) auto
qed

lemma depth_of_at: "at_depth ns d i \<Longrightarrow> d \<le> 65 \<Longrightarrow> depth_of ns i = d"
  using depth_from_at [of ns d i 64] by (simp add: depth_of_def)

lemma steps_up_last: "steps_up ns (Suc k) j i \<longleftrightarrow>
    (\<exists>m n. steps_up ns k j m \<and> class_at ns m = Some n \<and> cn_parent_id n = Some i)"
proof (induction k arbitrary: j)
  case (Suc k)
  show ?case (is "?l = ?r")
  proof -
    have "?l \<longleftrightarrow> (\<exists>n p. class_at ns j = Some n \<and> cn_parent_id n = Some p \<and> steps_up ns (Suc k) p i)" by simp
    also have "\<dots> \<longleftrightarrow> (\<exists>n p. class_at ns j = Some n \<and> cn_parent_id n = Some p
        \<and> (\<exists>m q. steps_up ns k p m \<and> class_at ns m = Some q \<and> cn_parent_id q = Some i))"
      by (simp only: Suc.IH)
    also have "\<dots> \<longleftrightarrow> ?r" by (simp only: steps_up.simps(2) [of ns k]) blast
    finally show ?thesis .
  qed
qed auto

lemma steps_up_depth: "steps_up ns k j i \<Longrightarrow> at_depth ns (k + d) j \<longleftrightarrow> at_depth ns d i"
  by (induction k arbitrary: j) auto

lemma ancestor_above_iff:
  "ancestor_above ns a left (Option.bind (class_at ns j) cn_parent_id) \<longleftrightarrow> (\<exists>k\<le>left. steps_up ns (Suc k) j a)"
proof (induction left arbitrary: j)
  case 0
  then show ?case by (cases "class_at ns j") auto
next
  case (Suc left)
  show ?case
  proof (cases "Option.bind (class_at ns j) cn_parent_id")
    case None
    then have "\<not> steps_up ns (Suc k) j a" for k by (cases "class_at ns j") auto
    then show ?thesis using None by simp
  next
    case (Some p)
    then have up: "steps_up ns (Suc k) j a \<longleftrightarrow> steps_up ns k p a" for k by (cases "class_at ns j") auto
    show ?thesis using Some Suc.IH [of p] by (simp add: up ex_le_Suc [of left] del: steps_up.simps(2))
  qed
qed

lemma is_descendant_iff: "is_descendant ns j i \<longleftrightarrow> (\<exists>k\<le>64. steps_up ns (Suc k) j i)"
  by (simp add: is_descendant_def ancestor_above_iff del: steps_up.simps ancestor_above.simps)

lemma fold_max_above: "x \<in> set (m # xs) \<Longrightarrow> (x::nat) \<le> fold max xs m"
  unfolding Max.set_eq_fold [symmetric] by (rule Max_ge) simp_all

lemma height_ge:
  assumes "steps_up ns k j i" "k \<le> Suc left"
  shows "k \<le> height ns left i"
  using assms
proof (induction left arbitrary: k i)
  case (0 k i)
  show ?case
  proof (cases k)
    case (Suc l)
    then obtain m n where "class_at ns m = Some n" "cn_parent_id n = Some i"
      using 0 unfolding Suc steps_up_last by blast
    then have "n \<in> set (kids ns i)" by (auto simp: kids_def dest: class_at_id)
    then show ?thesis using 0 Suc by (auto split: list.splits)
  qed simp
next
  case (Suc left k i)
  show ?case
  proof (cases k)
    case (Suc l)
    then obtain m n where m: "steps_up ns l j m" "class_at ns m = Some n" "cn_parent_id n = Some i"
      using Suc.prems unfolding Suc steps_up_last by blast
    then have n: "n \<in> set (kids ns i)" "cn_id n = m" by (auto simp: kids_def dest: class_at_id)
    have "l \<le> height ns left m" using Suc.IH [OF m(1)] Suc.prems Suc by simp
    also have "\<dots> \<le> fold max (map (\<lambda>n. height ns left (cn_id n)) (kids ns i)) 0"
      using n by (intro fold_max_above) auto
    finally show ?thesis using n Suc by (auto split: list.splits simp: comp_def)
  qed simp
qed

section \<open>Giving a class another parent\<close>

definition parent_in :: "class_node list \<Rightarrow> rstr \<Rightarrow> rstr option option" where
  "parent_in ns j = map_option cn_parent_id (class_at ns j)"

lemma at_depth_parent:
  "at_depth ns 0 j \<longleftrightarrow> parent_in ns j = Some None"
  "at_depth ns (Suc d) j \<longleftrightarrow> (\<exists>p. parent_in ns j = Some (Some p) \<and> at_depth ns d p)"
  by (auto simp: parent_in_def)

lemma steps_up_parent: "steps_up ns (Suc k) j i \<longleftrightarrow> (\<exists>p. parent_in ns j = Some (Some p) \<and> steps_up ns k p i)"
  by (auto simp: parent_in_def)

lemma outside_keeps_depth:
  assumes "parent_in ns' = (parent_in ns)(i := Some q)" "at_depth ns d j" "\<forall>k. \<not> steps_up ns k j i"
  shows "at_depth ns' d j"
  using assms(2,3)
proof (induction d arbitrary: j)
  case 0
  then have "j \<noteq> i" by (metis steps_up.simps(1))
  then show ?case using 0 assms(1) by (simp only: at_depth_parent fun_upd_apply) simp
next
  case (Suc d)
  then obtain p where p: "parent_in ns j = Some (Some p)" "at_depth ns d p" by (auto simp only: at_depth_parent)
  have "j \<noteq> i" "\<forall>k. \<not> steps_up ns k p i" using Suc.prems p(1) by (metis steps_up.simps(1), metis steps_up_parent)
  then show ?case using Suc.IH p assms(1) by (auto simp only: at_depth_parent fun_upd_apply if_False)
qed

lemma inside_moves_along:
  assumes "parent_in ns' = (parent_in ns)(i := Some q)" "at_depth ns d i" "steps_up ns k j i"
  shows "steps_up ns' k j i"
  using assms(3)
proof (induction k arbitrary: j)
  case (Suc k)
  then obtain p where p: "parent_in ns j = Some (Some p)" "steps_up ns k p i" by (auto simp only: steps_up_parent)
  have "at_depth ns (Suc k + d) j" using steps_up_depth [OF Suc.prems, of d] assms(2) by blast
  then have "j \<noteq> i" using at_depth_unique [OF assms(2), of "Suc k + d"] by auto
  then show ?case using Suc.IH p assms(1) by (auto simp only: steps_up_parent fun_upd_apply if_False)
qed simp

text \<open>Where the moved class is, its subtree follows; everything else stays.\<close>

lemma reparent_depth:
  assumes new: "parent_in ns' = (parent_in ns)(i := Some q)" "at_depth ns d i" "at_depth ns' e i" "at_depth ns m j"
  obtains "at_depth ns' m j" "\<forall>k. \<not> steps_up ns' k j i"
  | k where "steps_up ns k j i" "at_depth ns' (k + e) j" "k \<le> m" "m = k + d"
proof (cases "\<exists>k. steps_up ns k j i")
  case True
  then obtain k where k: "steps_up ns k j i" ..
  have "m = k + d" using steps_up_depth [OF k, of d] at_depth_unique [OF new(4)] new(2) by blast
  then show ?thesis
    using that(2) [OF k] steps_up_depth [OF inside_moves_along [OF new(1,2) k], of e] new(3) by simp
next
  case False
  have old: "parent_in ns = (parent_in ns')(i := parent_in ns i)" using new(1) by (auto simp: fun_eq_iff)
  obtain r where r: "parent_in ns i = Some r" using new(2) by (cases d) (auto simp only: at_depth_parent)
  have "\<not> steps_up ns' k j i" for k
    using inside_moves_along [of ns ns' i r, OF _ new(3)] old r False by metis
  then show ?thesis using that(1) outside_keeps_depth [OF new(1,4)] False by blast
qed

lemma promoted_depths:
  assumes new: "parent_in ns' = (parent_in ns)(i := Some q)" and ok: "\<And>j. class_at ns j \<noteq> None \<Longrightarrow> \<exists>m\<le>64. at_depth ns m j"
    and i: "class_at ns i \<noteq> None"
    and q: "case q of None \<Rightarrow> True
      | Some p \<Rightarrow> p \<noteq> i \<and> class_at ns p \<noteq> None \<and> \<not> is_descendant ns p i
          \<and> depth_of ns p + 1 + subtree_height ns i \<le> MAX_DEPTH"
    and j: "class_at ns j \<noteq> None"
  shows "\<exists>m\<le>64. at_depth ns' m j \<and> (q \<noteq> None \<and> (\<exists>k. steps_up ns' k j i) \<longrightarrow> m \<le> MAX_DEPTH)"
proof -
  obtain d where d: "at_depth ns d i" "d \<le> 64" using ok [OF i] by blast
  obtain m where m: "at_depth ns m j" "m \<le> 64" using ok [OF j] by blast
  obtain e where e: "at_depth ns' e i"
    "case q of None \<Rightarrow> e = 0 | Some p \<Rightarrow> e + subtree_height ns i \<le> MAX_DEPTH"
  proof (cases q)
    case None
    then show ?thesis using that [of 0] new by (simp add: at_depth_parent del: at_depth.simps)
  next
    case (Some p)
    then obtain f where f: "at_depth ns f p" "f \<le> 64" using ok q by auto
    have "\<not> steps_up ns k p i" for k
    proof
      assume k: "steps_up ns k p i"
      then have "f = k + d" using steps_up_depth [OF k, of d] at_depth_unique [OF f(1)] d(1) by blast
      with f have "k \<le> 64" by simp
      then show False using k q Some by (cases k) (auto simp: is_descendant_iff simp del: steps_up.simps(2))
    qed
    then have "at_depth ns' f p" using outside_keeps_depth [OF new f(1)] by blast
    then have "at_depth ns' (Suc f) i" unfolding at_depth_parent using new Some by simp
    then show ?thesis using that [of "Suc f"] Some q depth_of_at [OF f(1)] f(2) by simp
  qed
  show ?thesis
  proof (rule reparent_depth [OF new d(1) e(1) m(1)])
    assume "at_depth ns' m j" "\<forall>k. \<not> steps_up ns' k j i"
    then show ?thesis using m by blast
  next
    fix k assume k: "steps_up ns k j i" "at_depth ns' (k + e) j" "k \<le> m" "m = k + d"
    have "k \<le> subtree_height ns i" unfolding subtree_height_def using height_ge [OF k(1), of 64] k(3) m(2) by simp
    then have "k + e \<le> (case q of None \<Rightarrow> 64 | Some p \<Rightarrow> MAX_DEPTH)"
      using e(2) k(3) m(2) by (auto split: option.splits)
    then show ?thesis using k(2) by (intro exI [of _ "k + e"]) (auto split: option.splits simp: MAX_DEPTH_def)
  qed
qed

section \<open>The snapshot of the tables\<close>

lemma option_eqI: "(\<And>m. a = Some m \<longleftrightarrow> b = Some m) \<Longrightarrow> a = b"
  by (cases a; cases b) auto

lemma class_at_snapshot:
  assumes "wf c"
  shows "class_at (snapshot c) i =
    Option.bind (node c i) (\<lambda>n. if nr_retired_by n = None then Some (class_node.truncate n) else None)"
proof -
  let ?live = "filter (\<lambda>n. nr_retired_by n = None) (ct_nodes c)"
  have ids: "cn_id \<circ> class_node.truncate = (cn_id :: node_row \<Rightarrow> rstr)" by (simp add: fun_eq_iff class_node.defs)
  have "distinct (map cn_id ?live)" using assms by (simp add: wf_def distinct_map_filter)
  then have d: "distinct (map cn_id (map class_node.truncate ?live))" by (simp add: ids)
  have "mset (map cn_id (snapshot c)) = mset (map cn_id (map class_node.truncate ?live))"
    unfolding snapshot_def by (metis mset_map mset_sort)
  with d have "distinct (map cn_id (snapshot c))" by (metis mset_eq_imp_distinct_iff)
  note at = class_at_set [OF this, of i]
  have "class_at (snapshot c) i = Some m \<longleftrightarrow>
      Option.bind (node c i) (\<lambda>n. if nr_retired_by n = None then Some (class_node.truncate n) else None) = Some m" for m
    using assms unfolding at by (auto simp: snapshot_def wf_def node_def find_key_mem bind_eq_Some_conv class_node.defs)
  then show ?thesis by (rule option_eqI)
qed

lemma promoted_row:
  assumes "apply_class_proposal_in_run sha uuid x actor (Some run) now c = (Inr (Some a), d)"
    and "get_class_proposal c x = Some p" "pp_op p = lit ''promote''" "pp_node_id p = Some i"
  shows "ct_nodes d = ct_nodes (set_parent i (pp_parent_id p) now c)"
  using assms
  by (auto simp: apply_class_proposal_in_run_def apply_locked_def reorganise_def apply_promote_def do_promote_def
      or_empty_def finish_curation_def drop_proposal_def journal_op_def split: if_splits)

lemma parent_in_promoted:
  assumes wf: "wf c" and nodes: "ct_nodes d = ct_nodes (set_parent i q now c)"
    and i: "class_at (snapshot c) i \<noteq> None"
  shows "wf (set_parent i q now c)" and "parent_in (snapshot d) = (parent_in (snapshot c))(i := Some q)"
proof -
  show w: "wf (set_parent i q now c)" unfolding set_parent_def by (rule wf_nodes [OF wf]) auto
  have "snapshot d = snapshot (set_parent i q now c)" using nodes by (simp add: snapshot_def)
  moreover have "parent_in (snapshot (set_parent i q now c)) j = ((parent_in (snapshot c))(i := Some q)) j" for j
    using i unfolding parent_in_def class_at_snapshot [OF w] class_at_snapshot [OF wf]
    by (cases "node c j") (auto simp: node_set_parent class_node.defs dest: node_id split: if_splits)
  ultimately show "parent_in (snapshot d) = (parent_in (snapshot c))(i := Some q)" by (simp add: fun_eq_iff)
qed

text \<open>
  C8. An adjudicated promotion keeps the class tree a forest.  Take a catalogue in which every live class
  reaches a root within 64 steps, and a queued promotion that \<^verbatim>\<open>adjudicate_structural\<close> admits against the
  snapshot of that very catalogue (a pass over the queue judges all its proposals by the snapshot it began
  with, and there two admitted promotions can close a circle: \<open>two_promotions_make_a_cycle\<close>).  When \<^verbatim>\<open>apply_class_proposal_in_run\<close> applies it, the same classes are live, the class has
  the parent it was given, every class still reaches a root, and, if it was moved below
  another class, it and all classes below it are at most four levels deep; a promotion to a root is admitted
  whatever the depth below.
\<close>

theorem adjudicated_promote_keeps_the_forest:
  assumes "wf c" and "\<forall>n\<in>set (snapshot c). root_of (snapshot c) (cn_id n) \<noteq> None"
    and "get_class_proposal c x = Some p" "pp_op p = lit ''promote''" "pp_node_id p = Some i"
    and "fa_catalog f = snapshot c" "adjudicate_structural alnum to_lower c f p = ApplyNow"
    and "apply_class_proposal_in_run sha uuid x actor (Some run) now c = (Inr (Some a), d)"
  shows "(\<forall>j. class_at (snapshot d) j = None \<longleftrightarrow> class_at (snapshot c) j = None)
    \<and> parent_of d i = pp_parent_id p
    \<and> (\<forall>n\<in>set (snapshot d). root_of (snapshot d) (cn_id n) \<noteq> None)
    \<and> (\<forall>n\<in>set (snapshot d). pp_parent_id p \<noteq> None \<and> (cn_id n = i \<or> is_descendant (snapshot d) (cn_id n) i)
         \<longrightarrow> depth_of (snapshot d) (cn_id n) \<le> MAX_DEPTH)"
proof -
  let ?ns = "snapshot c" and ?ns' = "snapshot d" and ?q = "pp_parent_id p"
  have verdict: "class_at ?ns i \<noteq> None" "case ?q of None \<Rightarrow> True
      | Some q \<Rightarrow> q \<noteq> i \<and> class_at ?ns q \<noteq> None \<and> \<not> is_descendant ?ns q i
          \<and> depth_of ?ns q + 1 + subtree_height ?ns i \<le> MAX_DEPTH"
    using assms(4-7) by (auto simp: adjudicate_structural_def promote_verdict_def Let_def split: if_splits option.splits)
  note nodes = promoted_row [OF assms(8,3-5)]
  note new = parent_in_promoted(2) [OF assms(1) nodes verdict(1)]
  have wf: "wf (set_parent i ?q now c)" by (rule parent_in_promoted(1) [OF assms(1) nodes verdict(1)])
  have same: "class_at ?ns' j = None \<longleftrightarrow> class_at ?ns j = None" for j
    using fun_cong [OF new, of j] verdict(1) by (auto simp: parent_in_def split: if_splits)
  have ok: "\<exists>m\<le>64. at_depth ?ns m j" if "class_at ?ns j \<noteq> None" for j
    using assms(2) that class_at_id root_of_iff by (metis not_None_eq)
  have depth: "\<exists>m\<le>64. at_depth ?ns' m j \<and> (?q \<noteq> None \<and> (\<exists>k. steps_up ?ns' k j i) \<longrightarrow> m \<le> MAX_DEPTH)"
    if "class_at ?ns' j \<noteq> None" for j
    by (rule promoted_depths [OF new ok verdict]) (use that same in auto)
  have there: "class_at ?ns' (cn_id n) \<noteq> None" if "n \<in> set ?ns'" for n
    using that by (auto simp: class_at_def find_None_iff)
  have "parent_of d i = ?q"
    using verdict(1) nodes node_set_parent [of i ?q now c i]
    unfolding class_at_snapshot [OF assms(1)] parent_of_def node_def
    by (auto simp: class_at_snapshot dest: find_key_id split: option.splits if_splits)
  moreover have "root_of ?ns' (cn_id n) \<noteq> None" if "n \<in> set ?ns'" for n
    using depth [OF there [OF that]] root_of_iff by blast
  moreover have "depth_of ?ns' (cn_id n) \<le> MAX_DEPTH"
    if n: "n \<in> set ?ns'" "?q \<noteq> None" "cn_id n = i \<or> is_descendant ?ns' (cn_id n) i" for n
  proof -
    have "\<exists>k. steps_up ?ns' k (cn_id n) i" using n(3) is_descendant_iff steps_up.simps(1) by blast
    then obtain m where "m \<le> 64" "at_depth ?ns' m (cn_id n)" "m \<le> MAX_DEPTH"
      using depth [OF there [OF n(1)]] n(2) by blast
    then show ?thesis using depth_of_at [of ?ns' m "cn_id n"] by simp
  qed
  ultimately show ?thesis using same by blast
qed

definition sample_facts :: "catalog \<Rightarrow> facts" where
  "sample_facts c = \<lparr>fa_catalog = snapshot c, fa_stats = Map.empty, fa_env = \<lparr>oldest = 0, newest = 0\<rparr>,
     fa_protected = {}, fa_cosine = (\<lambda>_ _. None)\<rparr>"

definition sample_promotion :: catalog where
  "sample_promotion =
     snd (the (stage_proposal show_nat (Some 1) (Promote (lit ''tokens'') (Some (lit ''auth'')) None) 5 sample_catalog))"

theorem adjudicated_promote_keeps_the_forest_witness:
  "let d = snd (apply_class_proposal_in_run sample_sha show_nat 1 [] (Some 1) 6 sample_promotion)
   in parent_of d (lit ''tokens'') = Some (lit ''auth'') \<and> depth_of (snapshot d) (lit ''tokens'') \<le> MAX_DEPTH"
proof -
  obtain p a d where p: "get_class_proposal sample_promotion 1 = Some p" "pp_op p = lit ''promote''"
      "pp_node_id p = Some (lit ''tokens'')" "pp_parent_id p = Some (lit ''auth'')"
      "adjudicate_structural is_digit (\<lambda>s. s) sample_promotion (sample_facts sample_promotion) p = ApplyNow"
    and d: "apply_class_proposal_in_run sample_sha show_nat 1 [] (Some 1) 6 sample_promotion = (Inr (Some a), d)"
  proof -
    let ?p = "the (get_class_proposal sample_promotion 1)"
    let ?r = "apply_class_proposal_in_run sample_sha show_nat 1 [] (Some 1) 6 sample_promotion"
    have "get_class_proposal sample_promotion 1 \<noteq> None" "pp_op ?p = lit ''promote''"
      "pp_node_id ?p = Some (lit ''tokens'')" "pp_parent_id ?p = Some (lit ''auth'')"
      "adjudicate_structural is_digit (\<lambda>s. s) sample_promotion (sample_facts sample_promotion) ?p = ApplyNow"
      "case fst ?r of Inr (Some a) \<Rightarrow> True | _ \<Rightarrow> False"
      by code_simp+
    then show ?thesis
      using that [of ?p _ "snd ?r"] by (cases ?r) (auto split: sum.splits option.splits)
  qed
  have pre: "wf sample_promotion"
    "\<forall>n\<in>set (snapshot sample_promotion). root_of (snapshot sample_promotion) (cn_id n) \<noteq> None"
    "class_at (snapshot sample_promotion) (lit ''tokens'') \<noteq> None"
    by code_simp+
  note forest = adjudicated_promote_keeps_the_forest [OF pre(1,2) p(1-3) _ p(5) d]
  then have "class_at (snapshot d) (lit ''tokens'') \<noteq> None" using pre(3) by (simp add: sample_facts_def)
  then obtain n where "n \<in> set (snapshot d)" "cn_id n = lit ''tokens''" using class_at_id by blast
  then show ?thesis using forest p(4) d by (simp add: sample_facts_def)
qed

end
