(* ===== verification/Queue.thy ===== *)
theory Queue
  imports Forest "HOL-Library.AList"
begin

text \<open>
  The use of the adjudicator in \<^verbatim>\<open>polis-memory/src/organize.rs\<close>: staging a batch of proposals, and the pass over
  the work queue that applies, refuses, defers, verifies or expires each due proposal.  The verifier's model
  call, the clock, and the reads of tables that are not modelled are the fields of \<open>host\<close>; the clock is
  read once per batch or pass.
\<close>

section \<open>Parameters and effects\<close>

text \<open>A verifier's answer; a confidence is a finite binary64 number in units of \<open>2 ^ -1074\<close>.\<close>

record supersede_verdict =
  sv_proposal_id :: int
  sv_apply :: bool
  sv_confidence :: int
  sv_reason :: rstr

definition SUPERSEDE_CONFIDENCE_MIN :: int where
  "SUPERSEDE_CONFIDENCE_MIN = 7205759403792794 * 2 ^ 1021"

record host =
  h_sha :: sha_fn
  h_uuid :: "nat \<Rightarrow> rstr"
  h_now :: int
  h_alnum :: "uchar \<Rightarrow> bool"
  h_lower :: "rstr \<Rightarrow> rstr"
  h_project :: "int \<Rightarrow> rstr option"
  h_cosine :: "rstr \<Rightarrow> rstr \<Rightarrow> int option"
  h_protected :: "rstr set"
  h_verify :: "proposal_row list \<Rightarrow> rstr + supersede_verdict list"
  h_show2 :: "int \<Rightarrow> rstr"

definition CLASSIFIER_ACTOR :: rstr where "CLASSIFIER_ACTOR = lit ''classifier''"

text \<open>A refused or expired operation is journaled without an image.\<close>

definition journal_outcome :: "int \<Rightarrow> rstr \<Rightarrow> rstr list \<Rightarrow> rstr \<Rightarrow> catalog \<Rightarrow> catalog" where
  "journal_outcome r name subjects outcome c =
     (if run_source_forgotten c r then c
      else c\<lparr>ct_ops := ct_ops c @
        [\<lparr>op_run_id = r, op_ix = next_op_ix c r, op_name = name, op_subjects = subjects,
          op_outcome = outcome, op_image = None, op_ledger_seq = None, op_reverted_by = None\<rparr>]\<rparr>)"

definition class_event :: "event_kind \<Rightarrow> host \<Rightarrow> rstr \<Rightarrow> rstr \<Rightarrow> (rstr \<times> rstr) list \<Rightarrow> ledger_append" where
  "class_event kind h actor i hashed =
     \<lparr>la_kind = event_kind_as_str kind, la_author = actor, la_ts = h_now h, la_prompt_id = None,
      la_session_id = None, la_version_number = None, la_ref_kind = Some (lit ''class_node''), la_ref_id = Some i,
      la_payload_hash = decision_payload_hash (h_sha h) hashed\<rparr>"

definition append_class_event :: "host \<Rightarrow> ledger_append \<Rightarrow> catalog \<Rightarrow> catalog" where
  "append_class_event h a c =
     c\<lparr>ct_dec := (ct_dec c)\<lparr>dc_events := snd (append_in_txn (h_sha h) a (dc_events (ct_dec c)))\<rparr>\<rparr>"

text \<open>A curation is recorded once; an identical one is left out.\<close>

definition record_curate :: "host \<Rightarrow> rstr \<Rightarrow> rstr \<Rightarrow> rstr \<Rightarrow> rstr \<Rightarrow> catalog \<Rightarrow> catalog" where
  "record_curate h actor i action detail c =
     (let a = class_event EkClassCurate h actor i [(lit ''action'', action), (lit ''node'', i), (lit ''detail'', detail)]
      in if decision_event_exists (la_kind a) (lit ''class_node'') i (la_payload_hash a) (dc_events (ct_dec c)) then c
         else append_class_event h a c)"

definition record_reorg :: "host \<Rightarrow> rstr \<Rightarrow> rstr \<Rightarrow> rstr \<Rightarrow> rstr \<Rightarrow> catalog \<Rightarrow> catalog" where
  "record_reorg h actor name i detail =
     append_class_event h
       (class_event EkTaxonomyReorg h actor i [(lit ''op'', name), (lit ''node'', i), (lit ''detail'', detail)])"

section \<open>Staging under adjudication\<close>

record stage_result =
  st_created_nodes :: nat
  st_staged_links :: nat
  st_structural :: nat
  st_skipped :: nat

record staged =
  sd_result :: stage_result
  sd_refused :: nat
  sd_redirected :: nat
  sd_merges_enqueued :: nat

fun count_staged :: "staged_outcome \<Rightarrow> stage_result \<Rightarrow> stage_result" where
  "count_staged (StagedLink created) r =
     r\<lparr>st_staged_links := st_staged_links r + 1, st_created_nodes := st_created_nodes r + (if created then 1 else 0)\<rparr>"
| "count_staged StagedNode r = r\<lparr>st_created_nodes := st_created_nodes r + 1\<rparr>"
| "count_staged StagedStructural r = r\<lparr>st_structural := st_structural r + 1\<rparr>"
| "count_staged Skipped r = r\<lparr>st_skipped := st_skipped r + 1\<rparr>"

fun refusal_subject :: "proposal \<Rightarrow> rstr" where
  "refusal_subject (File parent _ _ _ _ _) = parent"
| "refusal_subject (Create parent _ _) = parent"
| "refusal_subject (Promote i _ _) = i"
| "refusal_subject (Split i _ _) = i"
| "refusal_subject (Collapse i _ _ _) = i"
| "refusal_subject (Merge ids _ _ _) = (case ids of [] \<Rightarrow> [] | i # _ \<Rightarrow> i)"
| "refusal_subject (Supersede old _ _) = show_int old"

type_synonym staging = "((rstr \<times> rstr) \<Rightarrow> rstr option) \<times> staged \<times> catalog"

definition refuse :: "host \<Rightarrow> int option \<Rightarrow> rstr \<Rightarrow> proposal \<Rightarrow> rstr \<Rightarrow> staging \<Rightarrow> staging" where
  "refuse h run actor p why st =
     (case st of (reds, out, c) \<Rightarrow>
        (reds, out\<lparr>sd_refused := sd_refused out + 1\<rparr>,
         record_curate h actor (refusal_subject p) (lit ''refuse'') (op_of p @ lit '': '' @ why)
           (case run of None \<Rightarrow> c | Some r \<Rightarrow> journal_outcome r (op_of p) (subjects_of p) (lit ''refused'') c)))"

text \<open>An SQL error ends the batch with the error and the store as it is (\<open>Inl\<close>).\<close>

definition stage :: "host \<Rightarrow> int option \<Rightarrow> proposal \<Rightarrow> staging \<Rightarrow> catalog + staging" where
  "stage h run p st =
     (case st of (reds, out, c) \<Rightarrow>
        case stage_proposal (h_uuid h) run p (h_now h) c of
          None \<Rightarrow> Inl c
        | Some (o1, c1) \<Rightarrow> Inr (reds, out\<lparr>sd_result := count_staged o1 (sd_result out)\<rparr>, c1))"

text \<open>Where a filing goes: the twin a refused \<^verbatim>\<open>create\<close> of this batch was redirected to, or one that is there.\<close>

definition redirected_parent ::
  "host \<Rightarrow> class_node list \<Rightarrow> ((rstr \<times> rstr) \<Rightarrow> rstr option) \<Rightarrow> rstr \<Rightarrow> rstr option \<Rightarrow> rstr \<times> rstr option" where
  "redirected_parent h ns reds parent sub =
     (case sub of
        None \<Rightarrow> (parent, sub)
      | Some s \<Rightarrow>
          if trim s = [] then (parent, sub)
          else
            (case reds (parent, h_lower h (trim s)) of
               Some twin \<Rightarrow> (twin, None)
             | None \<Rightarrow>
                 (case adjudicate_create (h_alnum h) (h_lower h) ns parent (trim s) of
                    Redirect twin _ \<Rightarrow> (twin, None)
                  | _ \<Rightarrow> (parent, sub))))"

text \<open>The twin rule: refuse the \<^verbatim>\<open>create\<close>, remember where its filings go, and queue the merge of two twins.\<close>

definition redirect_create ::
  "host \<Rightarrow> int option \<Rightarrow> rstr \<Rightarrow> proposal \<Rightarrow> rstr \<Rightarrow> rstr \<Rightarrow> rstr \<Rightarrow> rstr list option \<Rightarrow> staging \<Rightarrow> catalog + staging" where
  "redirect_create h run actor p parent title twin twins st =
     (case st of (reds, out, c) \<Rightarrow>
        let st1 = refuse h run actor p
              (lit ''duplicate of '' @ twin @ lit '' (title Jaccard '' @ [8805] @ lit '' 0.8)'')
              (reds((parent, h_lower h (trim title)) \<mapsto> twin), out\<lparr>sd_redirected := sd_redirected out + 1\<rparr>, c)
        in case twins of
             None \<Rightarrow> Inr st1
           | Some ids \<Rightarrow>
               (case st1 of (reds1, out1, c1) \<Rightarrow>
                case stage_proposal (h_uuid h) run
                    (Merge ids (Some title) None (Some (lit ''twin classes (B3 create rule)''))) (h_now h) c1 of
                  None \<Rightarrow> Inl c1
                | Some (StagedStructural, c2) \<Rightarrow>
                    Inr (reds1, out1\<lparr>sd_merges_enqueued := sd_merges_enqueued out1 + 1,
                      sd_result := count_staged StagedStructural (sd_result out1)\<rparr>, c2)
                | Some (_, c2) \<Rightarrow> Inr (reds1, out1, c2)))"

definition stage_one ::
  "host \<Rightarrow> class_node list \<Rightarrow> int option \<Rightarrow> rstr \<Rightarrow> proposal \<Rightarrow> staging \<Rightarrow> catalog + staging" where
  "stage_one h ns run actor p st =
     (case st of (reds, out, c) \<Rightarrow>
        case p of
          File parent sub kind target note rationale \<Rightarrow>
            (case redirected_parent h ns reds parent sub of (parent1, sub1) \<Rightarrow>
             case adjudicate_file (h_sha h) (h_project h) ns c parent1 kind target of
               ApplyNow \<Rightarrow> stage h run (File parent1 sub1 kind target note rationale) st
             | Refuse why \<Rightarrow> Inr (refuse h run actor p why st)
             | _ \<Rightarrow> Inr (refuse h run actor p (lit ''file cannot redirect'') st))
        | Create parent title _ \<Rightarrow>
            (case adjudicate_create (h_alnum h) (h_lower h) ns parent title of
               Redirect twin twins \<Rightarrow> redirect_create h run actor p parent title twin twins st
             | Refuse why \<Rightarrow> Inr (refuse h run actor p why st)
             | _ \<Rightarrow> stage h run p st)
        | Supersede old new _ \<Rightarrow>
            (case (ledger_event_ref c old, ledger_event_ref c new) of
               (Some (k1, _), Some (k2, _)) \<Rightarrow>
                 if k1 \<notin> set DECISION_KINDS \<or> k2 \<notin> set DECISION_KINDS
                 then Inr (refuse h run actor p (lit ''only decision events supersede'') st)
                 else stage h run p st
             | _ \<Rightarrow> Inr (refuse h run actor p (lit ''a seq does not exist'') st))
        | _ \<Rightarrow> stage h run p st)"

fun stage_all ::
  "host \<Rightarrow> class_node list \<Rightarrow> int option \<Rightarrow> rstr \<Rightarrow> proposal list \<Rightarrow> staging \<Rightarrow> catalog + staging" where
  "stage_all h ns run actor [] st = Inr st"
| "stage_all h ns run actor (p # ps) st =
     (case stage_one h ns run actor p st of
        Inl c \<Rightarrow> Inl c
      | Inr st1 \<Rightarrow> stage_all h ns run actor ps st1)"

definition no_staged :: staged where
  "no_staged = \<lparr>sd_result = \<lparr>st_created_nodes = 0, st_staged_links = 0, st_structural = 0, st_skipped = 0\<rparr>,
     sd_refused = 0, sd_redirected = 0, sd_merges_enqueued = 0\<rparr>"

definition stage_adjudicated :: "host \<Rightarrow> int option \<Rightarrow> proposal list \<Rightarrow> rstr \<Rightarrow> catalog \<Rightarrow> staged option \<times> catalog" where
  "stage_adjudicated h run ps actor c =
     (case stage_all h (snapshot c) run actor ps (Map.empty, no_staged, c) of
        Inl c1 \<Rightarrow> (None, c1)
      | Inr (reds, out, c1) \<Rightarrow> (Some out, c1))"

section \<open>The pass over the queue\<close>

text \<open>\<open>qo_warned\<close> holds the proposals named in the \<^verbatim>\<open>apply failed\<close> warnings, which go to the log.\<close>

record queue_outcome =
  qo_applied :: nat
  qo_refused :: nat
  qo_deferred :: nat
  qo_expired :: nat
  qo_superseded :: nat
  qo_verifier_calls :: nat
  qo_warned :: "int list"

text \<open>The quarantine setting, decoded: a node id and the run until which structural operations leave it alone.\<close>

type_synonym quarantine_map = "(rstr \<times> int) list"

definition quarantined :: "quarantine_map \<Rightarrow> int \<Rightarrow> rstr set" where
  "quarantined q run = set (map fst (filter (\<lambda>(i, till). till > run) q))"

definition quarantine :: "quarantine_map \<Rightarrow> int \<Rightarrow> rstr list \<Rightarrow> int \<Rightarrow> quarantine_map" where
  "quarantine q run subjects runs =
     fold (\<lambda>s m. AList.update s (run + runs) m) subjects (filter (\<lambda>(i, till). till > run) q)"

definition prop_subjects :: "proposal_row \<Rightarrow> rstr list" where
  "prop_subjects p =
     (if pp_op p = lit ''merge'' then (case pp_extra p of ExtraIds ids \<Rightarrow> map subject_node ids | _ \<Rightarrow> [])
      else if pp_op p = lit ''supersede''
      then (case pp_extra p of ExtraPair old new \<Rightarrow> [subject_seq old, subject_seq new] | _ \<Rightarrow> [])
      else (case pp_node_id p of None \<Rightarrow> [] | Some i \<Rightarrow> [subject_node i]))"

definition touches :: "rstr set \<Rightarrow> proposal_row \<Rightarrow> bool" where
  "touches q p \<longleftrightarrow> list_ex (\<lambda>s. starts_with s (lit ''node:'') \<and> drop 5 s \<in> q) (prop_subjects p)"

definition apply_one :: "host \<Rightarrow> int \<Rightarrow> proposal_row \<Rightarrow> queue_outcome \<times> catalog \<Rightarrow> queue_outcome \<times> catalog" where
  "apply_one h run p st =
     (case st of (out, c) \<Rightarrow>
        case apply_class_proposal_in_run (h_sha h) (h_uuid h) (pp_id p) CLASSIFIER_ACTOR (Some run) (h_now h) c of
          (Inr (Some a), c1) \<Rightarrow>
            if ar_op a = lit ''supersede''
            then (out\<lparr>qo_superseded := qo_superseded out + 1, qo_applied := qo_applied out + 1\<rparr>, c1)
            else (out\<lparr>qo_applied := qo_applied out + 1\<rparr>,
                  record_reorg h CLASSIFIER_ACTOR (ar_op a) (ar_node_id a) (ar_detail a) c1)
        | (Inr None, c1) \<Rightarrow> (out\<lparr>qo_refused := qo_refused out + 1\<rparr>, c1)
        | (Inl _, c1) \<Rightarrow> (out\<lparr>qo_warned := qo_warned out @ [pp_id p]\<rparr>, c1))"

definition leave_queue :: "host \<Rightarrow> int \<Rightarrow> proposal_row \<Rightarrow> rstr \<Rightarrow> rstr \<Rightarrow> rstr \<Rightarrow> catalog \<Rightarrow> catalog" where
  "leave_queue h run p outcome action detail c =
     drop_proposal (pp_id p)
       (record_curate h CLASSIFIER_ACTOR (or_empty (pp_node_id p)) action (pp_op p @ lit '': '' @ detail)
         (journal_outcome run (pp_op p) (prop_subjects p) outcome c))"

definition refuse_one :: "host \<Rightarrow> int \<Rightarrow> proposal_row \<Rightarrow> rstr \<Rightarrow> queue_outcome \<times> catalog \<Rightarrow> queue_outcome \<times> catalog" where
  "refuse_one h run p why st =
     (case st of (out, c) \<Rightarrow>
        (out\<lparr>qo_refused := qo_refused out + 1\<rparr>, leave_queue h run p (lit ''refused'') (lit ''refuse'') why c))"

definition expire_one :: "host \<Rightarrow> int \<Rightarrow> proposal_row \<Rightarrow> rstr \<Rightarrow> queue_outcome \<times> catalog \<Rightarrow> queue_outcome \<times> catalog" where
  "expire_one h run p why st =
     (case st of (out, c) \<Rightarrow>
        (out\<lparr>qo_expired := qo_expired out + 1\<rparr>, leave_queue h run p (lit ''expired'') (lit ''expire'') why c))"

definition defer_one :: "host \<Rightarrow> int \<Rightarrow> proposal_row \<Rightarrow> rstr \<Rightarrow> queue_outcome \<times> catalog \<Rightarrow> queue_outcome \<times> catalog" where
  "defer_one h run p why st =
     (let attempts = pp_attempts p + 1
      in if attempts \<ge> PROPOSAL_TTL_ATTEMPTS then expire_one h run p (show_int attempts @ lit '' attempts'') st
         else
           (case st of (out, c) \<Rightarrow>
              (out\<lparr>qo_deferred := qo_deferred out + 1\<rparr>,
               defer_proposal (pp_id p) attempts (run + backoff_runs attempts) why c)))"

definition judge_one ::
  "host \<Rightarrow> int \<Rightarrow> facts \<Rightarrow> rstr set \<Rightarrow> int \<Rightarrow> proposal_row
     \<Rightarrow> (queue_outcome \<times> catalog) \<times> proposal_row list \<Rightarrow> (queue_outcome \<times> catalog) \<times> proposal_row list" where
  "judge_one h run f q lake_newest p st =
     (case st of ((out, c), waiting) \<Rightarrow>
        case expired p lake_newest of
          Some why \<Rightarrow> (expire_one h run p why (out, c), waiting)
        | None \<Rightarrow>
            if touches q p
            then ((out\<lparr>qo_deferred := qo_deferred out + 1\<rparr>,
                   defer_proposal (pp_id p) (pp_attempts p) (run + 1) (lit ''quarantined by the canary'') c), waiting)
            else
              (case adjudicate_structural (h_alnum h) (h_lower h) c f p of
                 ApplyNow \<Rightarrow> (apply_one h run p (out, c), waiting)
               | Verify \<Rightarrow> ((out, c), waiting @ [p])
               | Refuse why \<Rightarrow> (refuse_one h run p why (out, c), waiting)
               | Redirect _ _ \<Rightarrow> (refuse_one h run p (lit ''not an additive op'') (out, c), waiting)))"

text \<open>One answer of the verifier, which was asked to refute.\<close>

definition settle_one ::
  "host \<Rightarrow> int \<Rightarrow> supersede_verdict list \<Rightarrow> proposal_row \<Rightarrow> queue_outcome \<times> catalog \<Rightarrow> queue_outcome \<times> catalog" where
  "settle_one h run vs p st =
     (case find (\<lambda>v. sv_proposal_id v = pp_id p) vs of
        None \<Rightarrow> defer_one h run p (lit ''no verdict'') st
      | Some v \<Rightarrow>
          if sv_apply v \<and> sv_confidence v \<ge> SUPERSEDE_CONFIDENCE_MIN then apply_one h run p st
          else refuse_one h run p
            (lit ''verifier refuted (confidence '' @ h_show2 h (sv_confidence v) @ lit ''): '' @ sv_reason v) st)"

definition verify_batch :: "host \<Rightarrow> int \<Rightarrow> proposal_row list \<Rightarrow> queue_outcome \<times> catalog \<Rightarrow> queue_outcome \<times> catalog" where
  "verify_batch h run batch st =
     (if batch = [] then st
      else
        (case st of (out, c) \<Rightarrow>
           let st1 = (out\<lparr>qo_verifier_calls := qo_verifier_calls out + 1\<rparr>, c)
           in case h_verify h batch of
                Inr vs \<Rightarrow> fold (settle_one h run vs) batch st1
              | Inl e \<Rightarrow> fold (\<lambda>p. defer_one h run p (lit ''verifier unavailable: '' @ e)) batch st1))"

text \<open>The facts of a pass are read once, before anything is applied.\<close>

definition sql_int :: "rstr \<Rightarrow> int" where
  "sql_int s =
     (let t = dropWhile (\<lambda>c. c = 32 \<or> 9 \<le> c \<and> c \<le> 13) s;
          signed = t \<noteq> [] \<and> (hd t = 43 \<or> hd t = 45);
          v = int (digits_value (takeWhile is_digit (if signed then tl t else t)))
      in clamp (- (2 ^ 63)) (2 ^ 63 - 1) (if signed \<and> hd t = 45 then - v else v))"

definition link_ts :: "catalog \<Rightarrow> link_row \<Rightarrow> int option" where
  "link_ts c k =
     (if cl_target_kind k \<in> set [lit ''prompt'', lit ''decision'', lit ''ledger'']
      then map_option ev_ts (find (\<lambda>e. ev_seq e = sql_int (cl_target_id k)) (dc_events (ct_dec c))) else None)"

definition node_direct_link_activity :: "catalog \<Rightarrow> direct_activity" where
  "node_direct_link_activity c i =
     (case filter (\<lambda>k. cl_node_id k = i \<and> lr_retired_by k = None) (ct_links c) of
        [] \<Rightarrow> None
      | ks \<Rightarrow> Some (int (length ks), fold later (map (link_ts c) ks) None))"

definition lake_envelope_of :: "catalog \<Rightarrow> lake_envelope" where
  "lake_envelope_of c =
     (case map ev_ts (dc_events (ct_dec c)) of
        [] \<Rightarrow> \<lparr>oldest = 0, newest = 0\<rparr>
      | t # ts \<Rightarrow> \<lparr>oldest = fold min ts t, newest = fold max ts t\<rparr>)"

definition pass_facts :: "host \<Rightarrow> catalog \<Rightarrow> facts" where
  "pass_facts h c =
     \<lparr>fa_catalog = snapshot c,
      fa_stats = subtree_stats_protected (snapshot c) (node_direct_link_activity c) (h_protected h),
      fa_env = lake_envelope_of c, fa_protected = h_protected h, fa_cosine = h_cosine h\<rparr>"

definition no_outcome :: queue_outcome where
  "no_outcome = \<lparr>qo_applied = 0, qo_refused = 0, qo_deferred = 0, qo_expired = 0, qo_superseded = 0, qo_verifier_calls = 0,
     qo_warned = []\<rparr>"

definition process_queue :: "host \<Rightarrow> quarantine_map \<Rightarrow> int \<Rightarrow> catalog \<Rightarrow> queue_outcome \<times> catalog" where
  "process_queue h q run c =
     (case list_due_proposals run c of
        [] \<Rightarrow> (no_outcome, c)
      | due \<Rightarrow>
          (case fold (judge_one h run (pass_facts h c) (quarantined q run) (lake_newest_ts c)) due ((no_outcome, c), []) of
             (st, waiting) \<Rightarrow>
               verify_batch h run (filter (\<lambda>p. pp_op p \<noteq> lit ''supersede'') waiting)
                 (verify_batch h run (filter (\<lambda>p. pp_op p = lit ''supersede'') waiting) st)))"

end
