(* ===== verification/QueueLife.thy ===== *)
theory QueueLife
  imports Queue
begin

text \<open>
  What a pass over the work queue does to one proposal: it leaves the queue, or it waits with one more
  attempt counted, or its application failed and was warned about.  Hence a proposal cannot wait for ever.
\<close>

section \<open>The queue and the runs are touched by few operations\<close>

definition queue_of :: "catalog \<Rightarrow> proposal_row list \<times> run_row list" where
  "queue_of c = (ct_props c, ct_runs c)"

lemma queue_simps [simp]:
  "queue_of (update_nodes P f c) = queue_of c" "queue_of (update_links Q g c) = queue_of c"
  "queue_of (update_obs R k c) = queue_of c" "queue_of (journal_op r name subjects im s c) = queue_of c"
  "queue_of (journal_outcome r name subjects outcome c) = queue_of c"
  "queue_of (set_parent i p now c) = queue_of c" "queue_of (set_title i t now c) = queue_of c"
  "queue_of (retire_link run l c) = queue_of c" "queue_of (retire_obs run b c) = queue_of c"
  "queue_of (append_class_event h a c) = queue_of c" "queue_of (record_curate h actor i action detail c) = queue_of c"
  "queue_of (record_reorg h actor name i detail c) = queue_of c" "queue_of (c\<lparr>ct_dec := x\<rparr>) = queue_of c"
  by (simp_all add: queue_of_def update_nodes_def update_links_def update_obs_def journal_op_def journal_outcome_def
      set_parent_def set_title_def retire_link_def retire_obs_def append_class_event_def record_curate_def record_reorg_def Let_def)

lemma queue_inserts:
  "insert_link i kind target note now c = (l, d) \<Longrightarrow> queue_of d = queue_of c"
  "new_node_id uuid c = (i, d) \<Longrightarrow> queue_of d = queue_of c"
  "insert_node i parent kind title summary project actor now c = Some d \<Longrightarrow> queue_of d = queue_of c"
  "move_link l i c = Some d \<Longrightarrow> queue_of d = queue_of c"
  by (auto simp: insert_link_def new_node_id_def insert_node_def move_link_def put_link_def queue_of_def Let_def
      update_links_def split: if_splits)

lemma queue_folds [simp]:
  "queue_of (fst (fold (cite_seq digest now) seqs st)) = queue_of (fst st)"
  "queue_of (fst (fold (merge_link run target other) ls st2)) = queue_of (fst st2)"
  "queue_of (fst (fold (adopt target other now) ks st2)) = queue_of (fst st2)"
  "queue_of (fst (fold (split_link i new) ls st)) = queue_of (fst st)"
  "queue_of (fold (retire_link run) ls c) = queue_of c"
  "queue_of (fold (retire_obs run) bs c) = queue_of c"
  by (rule fold_preserves [where g = "\<lambda>st. queue_of (fst st)"] fold_preserves [where g = queue_of];
      auto simp: cite_seq_def merge_link_def adopt_def split_link_def Let_def dest: queue_inserts
        split: prod.splits option.splits)+

text \<open>The same for the destructured results of the code.\<close>

lemma queue_fold_results:
  "fold (cite_seq digest now) seqs (c, x) = (d, y) \<Longrightarrow> queue_of d = queue_of c"
  "fold (merge_link run target other) ls (c, g) = (d, k) \<Longrightarrow> queue_of d = queue_of c"
  "fold (adopt target other now) ks (c, g) = (d, k) \<Longrightarrow> queue_of d = queue_of c"
  "fold (split_link i new) ls (c, x) = (d, y) \<Longrightarrow> queue_of d = queue_of c"
  by (metis fst_conv queue_folds(1), metis fst_conv queue_folds(2), metis fst_conv queue_folds(3), metis fst_conv queue_folds(4))

lemma queue_absorb: "fold (absorb_class run target now) others (c, g) = (d, k) \<Longrightarrow> queue_of d = queue_of c"
proof -
  have "queue_of (fst (fold (absorb_class run target now) others st)) = queue_of (fst st)" for st
    by (rule fold_preserves [where g = "\<lambda>st. queue_of (fst st)"])
      (auto simp: absorb_class_def Let_def dest!: queue_fold_results split: prod.splits option.splits)
  then show "fold (absorb_class run target now) others (c, g) = (d, k) \<Longrightarrow> queue_of d = queue_of c"
    by (metis fst_conv)
qed

lemma queue_retire: "retire_node_subtree i run into c = (d, m) \<Longrightarrow> queue_of d = queue_of c"
proof -
  have "queue_of (fst (fold (retire_node run into) ks st)) = queue_of (fst st)" for ks st
    by (rule fold_preserves [where g = "\<lambda>st. queue_of (fst st)"]) (auto simp: retire_node_def Let_def split: prod.splits)
  then show "retire_node_subtree i run into c = (d, m) \<Longrightarrow> queue_of d = queue_of c"
    unfolding retire_node_subtree_def by (metis fst_conv)
qed

lemma queue_split:
  "split_parts uuid actor i parent now ps c = Some (d, made) \<Longrightarrow> queue_of d = queue_of c"
proof (induction ps arbitrary: c d made)
  case (Cons p ps)
  then show ?case
    by (fastforce split: prod.splits option.splits dest!: queue_inserts queue_fold_results)
qed simp

lemma queue_reorganise:
  assumes "reorganise sha uuid actor run now p c = Reorganised detail d"
  shows "queue_of d = queue_of c"
proof -
  consider "apply_promote run now p c = Reorganised detail d" | "apply_collapse uuid actor run now p c = Reorganised detail d"
    | "apply_merge run now p c = Reorganised detail d" | "apply_split uuid actor run now p c = Reorganised detail d"
    | "apply_supersede sha actor run now p c = Reorganised detail d"
    using assms by (auto simp: reorganise_def split: if_splits)
  then show ?thesis
  proof cases
    case 1
    then show ?thesis by (auto simp: apply_promote_def do_promote_def)
  next
    case 2
    then obtain n digest where "do_collapse uuid actor run (or_empty (pp_node_id p)) n (pp_title p) (pp_summary p)
         (case pp_extra p of ExtraSeqs ss \<Rightarrow> ss | _ \<Rightarrow> []) now c = Some (digest, d)"
      by (auto simp: apply_collapse_def Let_def split: option.splits)
    then show ?thesis
      by (auto simp: do_collapse_def split: prod.splits option.splits dest!: queue_inserts queue_fold_results queue_retire)
  next
    case 3
    then obtain t others n where "d = do_merge run t n others (pp_title p) (pp_parent_id p) now c"
      by (auto simp: apply_merge_def split: extra.splits list.splits option.splits)
    then show ?thesis by (auto simp: do_merge_def Let_def dest!: queue_absorb split: prod.splits option.splits)
  next
    case 4
    then show ?thesis by (auto simp: apply_split_def do_split_def Let_def dest: queue_split split: option.splits prod.splits)
  next
    case 5
    then show ?thesis
      by (auto simp: apply_supersede_def do_supersede_def
          split: extra.splits prod.splits option.splits supersession_outcome.splits)
  qed
qed

section \<open>What one step does to a proposal\<close>

type_synonym queue_state = "queue_outcome \<times> catalog"

text \<open>How many proposals a pass has applied, refused or expired.\<close>

definition qo_done :: "queue_outcome \<Rightarrow> nat" where
  "qo_done out = qo_applied out + qo_refused out + qo_expired out"

lemma qo_done_simps [simp]:
  "qo_done (out\<lparr>qo_applied := a\<rparr>) = a + qo_refused out + qo_expired out"
  "qo_done (out\<lparr>qo_refused := r\<rparr>) = qo_applied out + r + qo_expired out"
  "qo_done (out\<lparr>qo_expired := e\<rparr>) = qo_applied out + qo_refused out + e"
  "qo_done (out\<lparr>qo_deferred := d\<rparr>) = qo_done out" "qo_done (out\<lparr>qo_superseded := n\<rparr>) = qo_done out"
  "qo_done (out\<lparr>qo_verifier_calls := n\<rparr>) = qo_done out" "qo_done (out\<lparr>qo_warned := ws\<rparr>) = qo_done out"
  "qo_done no_outcome = 0"
  by (simp_all add: qo_done_def no_outcome_def)

definition kept :: "int \<Rightarrow> queue_state \<Rightarrow> queue_state \<Rightarrow> bool" where
  "kept i st st' \<longleftrightarrow> qo_done (fst st) \<le> qo_done (fst st') \<and> get_class_proposal (snd st') i = get_class_proposal (snd st) i \<and> ct_runs (snd st') = ct_runs (snd st)
     \<and> set (qo_warned (fst st)) \<subseteq> set (qo_warned (fst st'))"

definition deferred :: "proposal_row \<Rightarrow> int \<Rightarrow> proposal_row \<Rightarrow> bool" where
  "deferred p run p' \<longleftrightarrow> pp_attempts p + 1 < PROPOSAL_TTL_ATTEMPTS
     \<and> (\<exists>why. p' = p\<lparr>pp_attempts := pp_attempts p + 1, pp_next_after_run := Some (run + backoff_runs (pp_attempts p + 1)),
          pp_last_reason := Some why\<rparr>)"

definition forgotten :: "int \<Rightarrow> proposal_row \<Rightarrow> catalog \<Rightarrow> bool" where
  "forgotten run p c \<longleftrightarrow> run_source_forgotten c run
     \<or> (case pp_run_id p of None \<Rightarrow> False | Some r \<Rightarrow> run_source_forgotten c r)"

definition dealt :: "int \<Rightarrow> proposal_row \<Rightarrow> queue_state \<Rightarrow> queue_state \<Rightarrow> bool" where
  "dealt run p st st' \<longleftrightarrow> (\<forall>i. i \<noteq> pp_id p \<longrightarrow> kept i st st') \<and> ct_runs (snd st') = ct_runs (snd st)
     \<and> (get_class_proposal (snd st) (pp_id p) = Some p \<and> pending p \<and> \<not> forgotten run p (snd st) \<longrightarrow>
         (case get_class_proposal (snd st') (pp_id p) of
            None \<Rightarrow> qo_done (fst st) < qo_done (fst st')
          | Some p' \<Rightarrow> deferred p run p' \<or> pp_id p \<in> set (qo_warned (fst st'))))"

lemma kept_refl [simp]: "kept i st st" by (simp add: kept_def)
lemma kept_trans [trans]: "kept i a b \<Longrightarrow> kept i b c \<Longrightarrow> kept i a c" by (auto simp: kept_def)

lemma queue_of_kept:
  "queue_of d = queue_of c \<Longrightarrow> set (qo_warned out) \<subseteq> set (qo_warned out') \<Longrightarrow> qo_done out \<le> qo_done out' \<Longrightarrow> kept i (out, c) (out', d)"
  by (simp add: kept_def queue_of_def get_class_proposal_def)

lemma get_drop: "get_class_proposal (drop_proposal j c) i = (if i = j then None else get_class_proposal c i)"
  by (simp add: get_class_proposal_def drop_proposal_def find_filter_key)

lemma get_defer:
  "get_class_proposal (defer_proposal j a n why c) i =
     map_option (\<lambda>p. if pp_id p = j \<and> pending p
       then p\<lparr>pp_attempts := a, pp_next_after_run := Some n, pp_last_reason := Some why\<rparr> else p) (get_class_proposal c i)"
  unfolding get_class_proposal_def defer_proposal_def by (simp add: find_map_key)

lemma get_id: "get_class_proposal c i = Some p \<Longrightarrow> pp_id p = i"
  unfolding get_class_proposal_def by (rule find_key_id)

lemma drop_runs [simp]: "ct_runs (drop_proposal i c) = ct_runs c" "ct_runs (defer_proposal i a n why c) = ct_runs c"
  by (simp_all add: drop_proposal_def defer_proposal_def)

text \<open>Leaving the queue through a state with the same queue.\<close>

lemma get_queue: "queue_of d = queue_of c \<Longrightarrow> get_class_proposal d i = get_class_proposal c i \<and> ct_runs d = ct_runs c"
  by (simp add: queue_of_def get_class_proposal_def)

lemma dealt_drop:
  assumes "queue_of d = queue_of c" "queue_of e = queue_of (drop_proposal (pp_id p) d)"
    and "set (qo_warned out) \<subseteq> set (qo_warned out')" "qo_done out < qo_done out'"
  shows "dealt run p (out, c) (out', e)"
  using get_queue [OF assms(1)] get_queue [OF assms(2)] assms(3,4) by (simp add: dealt_def kept_def get_drop)

lemma dealt_refuse: "dealt run p st (refuse_one h run p why st)"
  by (cases st) (auto simp: refuse_one_def leave_queue_def qo_done_def intro!: dealt_drop [OF _ refl])

lemma dealt_expire: "dealt run p st (expire_one h run p why st)"
  by (cases st) (auto simp: expire_one_def leave_queue_def qo_done_def intro!: dealt_drop [OF _ refl])

lemma dealt_defer: "dealt run p st (defer_one h run p why st)"
proof (cases "pp_attempts p + 1 \<ge> PROPOSAL_TTL_ATTEMPTS")
  case True
  then show ?thesis by (simp add: defer_one_def dealt_expire)
next
  case False
  obtain out c where st: "st = (out, c)" by (cases st)
  have "get_class_proposal (defer_proposal (pp_id p) a n why c) i = get_class_proposal c i" if "i \<noteq> pp_id p" for i a n
    using that by (cases "get_class_proposal c i") (auto simp: get_defer dest: get_id)
  then show ?thesis using False
    by (auto simp: st defer_one_def Let_def dealt_def kept_def) (auto simp: get_defer deferred_def)
qed

text \<open>An application removes the proposal unless it failed or its source is forgotten.\<close>

lemma dealt_apply: "dealt run p st (apply_one h run p st)"
proof -
  obtain out c where st: "st = (out, c)" by (cases st)
  let ?r = "apply_class_proposal_in_run (h_sha h) (h_uuid h) (pp_id p) CLASSIFIER_ACTOR (Some run) (h_now h) c"
  obtain res d where r: "?r = (res, d)" by (cases ?r)
  consider (failed) "res = Inl ()" "d = c" | (gone) res' d' where "res = Inr res'" "queue_of d' = queue_of c" "d = drop_proposal (pp_id p) d'"
    | (none) "res = Inr None" "d = c" "get_class_proposal c (pp_id p) \<noteq> Some p \<or> \<not> pending p \<or> forgotten run p c"
  proof (cases "get_class_proposal c (pp_id p)")
    case None
    then show ?thesis using r none by (simp add: apply_class_proposal_in_run_def)
  next
    case (Some p1)
    then have id: "pp_id p1 = pp_id p" by (rule get_id)
    let ?l = "apply_locked (h_sha h) (h_uuid h) CLASSIFIER_ACTOR run False (h_now h) p1 c"
    show ?thesis
    proof (cases "\<not> list_ex (\<lambda>q. pp_id q = pp_id p1 \<and> pending q) (ct_props c) \<or> forgotten run p1 c")
      case True
      then have "\<not> (p1 = p \<and> pending p \<and> \<not> forgotten run p c)"
        using Some unfolding get_class_proposal_def by (auto simp: list_ex_iff find_Some_iff)
      then show ?thesis using True r Some none
        by (auto simp: apply_class_proposal_in_run_def apply_locked_def forgotten_def split: if_splits)
    next
      case False
      then have "?l = (case reorganise (h_sha h) (h_uuid h) CLASSIFIER_ACTOR run (h_now h) p1 c of
           SqlError \<Rightarrow> None
         | Refused \<Rightarrow> Some (None, drop_proposal (pp_id p) c)
         | Reorganised detail c1 \<Rightarrow>
             Some (Some \<lparr>ar_op = pp_op p1, ar_node_id = or_empty (pp_node_id p1), ar_detail = detail\<rparr>, drop_proposal (pp_id p) c1))"
        by (auto simp: apply_locked_def forgotten_def finish_curation_def id split: reorg.splits)
      note l = this
      show ?thesis
      proof (cases "reorganise (h_sha h) (h_uuid h) CLASSIFIER_ACTOR run (h_now h) p1 c")
        case SqlError
        then show ?thesis using l r Some failed by (simp add: apply_class_proposal_in_run_def)
      next
        case Refused
        then show ?thesis using l r Some gone [of None c] by (simp add: apply_class_proposal_in_run_def)
      next
        case (Reorganised detail c1)
        then show ?thesis using l r Some gone [OF _ queue_reorganise [OF Reorganised]]
          by (auto simp: apply_class_proposal_in_run_def)
      qed
    qed
  qed
  then show ?thesis
  proof cases
    case failed
    then show ?thesis using r by (auto simp: st apply_one_def dealt_def kept_def split: option.splits)
  next
    case (gone res' d')
    then show ?thesis using r
      by (cases res') (auto simp: st apply_one_def qo_done_def intro!: dealt_drop [OF gone(2)])
  next
    case none
    then show ?thesis using r by (auto simp: st apply_one_def dealt_def kept_def qo_done_def)
  qed
qed

text \<open>With a forgotten source the application is refused, and the proposal stays for the next pass.\<close>

lemma forgotten_source_stays:
  assumes "get_class_proposal c (pp_id p) = Some p" "forgotten run p c"
  shows "apply_one h run p (out, c) = (out\<lparr>qo_refused := qo_refused out + 1\<rparr>, c)"
  using assms by (auto simp: apply_one_def apply_class_proposal_in_run_def apply_locked_def forgotten_def)

section \<open>What one pass does to a proposal\<close>

definition settled :: "int \<Rightarrow> proposal_row \<Rightarrow> queue_state \<Rightarrow> queue_state \<Rightarrow> bool" where
  "settled run p st st' \<longleftrightarrow> ct_runs (snd st') = ct_runs (snd st)
     \<and> (get_class_proposal (snd st) (pp_id p) = Some p \<and> pending p \<and> \<not> forgotten run p (snd st) \<longrightarrow>
         (case get_class_proposal (snd st') (pp_id p) of
            None \<Rightarrow> qo_done (fst st) < qo_done (fst st')
          | Some p' \<Rightarrow> deferred p run p' \<or> pp_id p \<in> set (qo_warned (fst st'))))"

lemma forgotten_kept: "kept i a b \<Longrightarrow> forgotten run p (snd b) = forgotten run p (snd a)"
  by (simp add: kept_def forgotten_def run_source_forgotten_def split: option.splits)

lemma dealt_settled: "dealt run p a b \<Longrightarrow> settled run p a b" by (simp add: dealt_def settled_def)
lemma dealt_kept: "dealt run p a b \<Longrightarrow> i \<noteq> pp_id p \<Longrightarrow> kept i a b" by (simp add: dealt_def)

lemma kept_settled: "kept (pp_id p) a b \<Longrightarrow> settled run p b c \<Longrightarrow> settled run p a c"
  using forgotten_kept [of "pp_id p" a b] by (auto simp: settled_def kept_def split: option.splits)

lemma settled_kept: "settled run p a b \<Longrightarrow> kept (pp_id p) b c \<Longrightarrow> settled run p a c"
  unfolding settled_def kept_def by (auto split: option.splits)

lemma fold_kept:
  assumes "\<And>x st. dealt run x st (f x st)" "i \<notin> pp_id ` set xs"
  shows "kept i st (fold f xs st)"
  using assms(2)
proof (induction xs arbitrary: st)
  case (Cons x xs)
  then have "kept i st (f x st)" "kept i (f x st) (fold f xs (f x st))" using dealt_kept [OF assms(1)] by simp_all
  then show ?case using kept_trans by simp
qed simp

lemma fold_settled:
  assumes step: "\<And>x st. dealt run x st (f x st)" and "distinct (map pp_id xs)" "p \<in> set xs"
  shows "settled run p st (fold f xs st)"
proof -
  obtain us vs where xs: "xs = us @ p # vs" using assms(3) by (meson split_list)
  then have "pp_id p \<notin> pp_id ` set us" "pp_id p \<notin> pp_id ` set vs" using assms(2) by auto
  then show ?thesis
    unfolding xs using kept_settled [OF fold_kept [OF step] settled_kept [OF dealt_settled [OF step] fold_kept [OF step]]]
    by simp
qed

lemma dealt_settle: "dealt run p st (settle_one h run vs p st)"
  by (auto simp: settle_one_def dealt_defer dealt_apply dealt_refuse split: option.splits)

lemma verified:
  shows "i \<notin> pp_id ` set batch \<Longrightarrow> kept i st (verify_batch h run batch st)"
    and "p \<in> set batch \<Longrightarrow> distinct (map pp_id batch) \<Longrightarrow> settled run p st (verify_batch h run batch st)"
proof -
  obtain out c where st: "st = (out, c)" by (cases st)
  let ?st1 = "(out\<lparr>qo_verifier_calls := qo_verifier_calls out + 1\<rparr>, c)"
  have one: "kept i st ?st1" for i by (simp add: st kept_def)
  obtain f where f: "batch \<noteq> [] \<Longrightarrow> verify_batch h run batch st = fold f batch ?st1" "\<And>x st. dealt run x st (f x st)"
  proof (cases "h_verify h batch")
    case (Inl e)
    then show ?thesis using that [OF _ dealt_defer] by (simp add: verify_batch_def st)
  next
    case (Inr vs)
    then show ?thesis using that [OF _ dealt_settle] by (simp add: verify_batch_def st)
  qed
  show "i \<notin> pp_id ` set batch \<Longrightarrow> kept i st (verify_batch h run batch st)"
    using kept_trans [OF one fold_kept [OF f(2)]] f(1) by (cases "batch = []") (simp_all add: verify_batch_def)
  show "p \<in> set batch \<Longrightarrow> distinct (map pp_id batch) \<Longrightarrow> settled run p st (verify_batch h run batch st)"
    using kept_settled [OF one fold_settled [OF f(2)]] f(1) by (cases "batch = []") simp_all
qed

lemma judge_cases:
  obtains "judge_one h run f q t p (st, w) = (st, w @ [p])"
  | st' where "judge_one h run f q t p (st, w) = (st', w)" "\<And>i. i \<noteq> pp_id p \<Longrightarrow> kept i st st'"
      "\<not> touches q p \<Longrightarrow> dealt run p st st'"
proof -
  obtain out c where st: "st = (out, c)" by (cases st)
  note d = dealt_kept [OF dealt_expire] dealt_kept [OF dealt_apply] dealt_kept [OF dealt_refuse]
    dealt_expire dealt_apply dealt_refuse
  show ?thesis
  proof (cases "expired p t = None \<and> touches q p")
    case True
    have "kept i st (out\<lparr>qo_deferred := qo_deferred out + 1\<rparr>,
        defer_proposal (pp_id p) (pp_attempts p) (run + 1) (lit ''quarantined by the canary'') c)" if "i \<noteq> pp_id p" for i
      using that by (cases "get_class_proposal c i") (auto simp: st kept_def get_defer dest: get_id)
    then show ?thesis using that(2) True by (simp add: judge_one_def st)
  next
    case False
    then show ?thesis
      using that d by (cases "expired p t"; cases "adjudicate_structural (h_alnum h) (h_lower h) c f p")
        (simp_all add: judge_one_def st)
  qed
qed

lemma judged_outside:
  assumes "i \<notin> pp_id ` set ps"
  shows "kept i st (fst (fold (judge_one h run f q t) ps (st, w)))
    \<and> filter (\<lambda>x. pp_id x = i) (snd (fold (judge_one h run f q t) ps (st, w))) = filter (\<lambda>x. pp_id x = i) w"
  using assms
proof (induction ps arbitrary: st w)
  case (Cons p ps)
  show ?case
  proof (rule judge_cases [of h run f q t p st w])
    assume "judge_one h run f q t p (st, w) = (st, w @ [p])"
    then show ?thesis using Cons.IH [of st "w @ [p]"] Cons.prems by simp
  next
    fix st' assume "judge_one h run f q t p (st, w) = (st', w)" "\<And>i. i \<noteq> pp_id p \<Longrightarrow> kept i st st'"
    then show ?thesis using Cons.IH [of st' w] Cons.prems kept_trans [of i st st'] by simp
  qed
qed simp

lemma judged:
  assumes "distinct (map pp_id ps)" "p \<in> set ps" "\<not> touches q p"
    and r: "fold (judge_one h run f q t) ps (st, []) = (st', w)"
  obtains "settled run p st st'" "pp_id p \<notin> pp_id ` set w" | "kept (pp_id p) st st'" "filter (\<lambda>x. pp_id x = pp_id p) w = [p]"
proof -
  obtain us vs where ps: "ps = us @ p # vs" using assms(2) by (meson split_list)
  then have out: "pp_id p \<notin> pp_id ` set us" "pp_id p \<notin> pp_id ` set vs" using assms(1) by auto
  obtain a w1 where a: "fold (judge_one h run f q t) us (st, []) = (a, w1)" by fastforce
  obtain b w2 where b: "judge_one h run f q t p (a, w1) = (b, w2)" by fastforce
  have rest: "fold (judge_one h run f q t) vs (b, w2) = (st', w)" using r by (simp add: ps a b)
  note before = judged_outside [OF out(1), of st h run f q t "[]", unfolded a, simplified]
  note after = judged_outside [OF out(2), of b h run f q t w2, unfolded rest, simplified]
  show ?thesis
  proof (rule judge_cases [of h run f q t p a w1])
    assume "judge_one h run f q t p (a, w1) = (a, w1 @ [p])"
    then have "b = a" "w2 = w1 @ [p]" using b by simp_all
    then have "kept (pp_id p) st st'" "filter (\<lambda>x. pp_id x = pp_id p) w = [p]"
      using before after kept_trans [of "pp_id p" st a st'] by simp_all
    then show ?thesis using that(2) by blast
  next
    fix c assume c: "judge_one h run f q t p (a, w1) = (c, w1)" "\<not> touches q p \<Longrightarrow> dealt run p a c"
    then have "b = c" "w2 = w1" using b by simp_all
    then have "settled run p a b" using dealt_settled [OF c(2) [OF assms(3)]] by simp
    then have "settled run p st st'"
      using kept_settled [of p st a] settled_kept [of run p st b st'] before after by blast
    moreover have "filter (\<lambda>x. pp_id x = pp_id p) w = []" using before after \<open>w2 = w1\<close> by simp
    then have "pp_id p \<notin> pp_id ` set w" by (auto simp: filter_empty_conv)
    ultimately show ?thesis using that(1) by blast
  qed
qed

lemma judged_distinct:
  "distinct (map pp_id (w @ ps)) \<Longrightarrow> distinct (map pp_id (snd (fold (judge_one h run f q t) ps (st, w))))"
proof (induction ps arbitrary: st w)
  case (Cons p ps)
  show ?case
  proof (rule judge_cases [of h run f q t p st w])
    assume "judge_one h run f q t p (st, w) = (st, w @ [p])"
    then show ?thesis using Cons.IH [of "w @ [p]" st] Cons.prems by simp
  next
    fix st' assume "judge_one h run f q t p (st, w) = (st', w)"
    then show ?thesis using Cons.IH [of w st'] Cons.prems by simp
  qed
qed simp

definition due :: "int \<Rightarrow> proposal_row \<Rightarrow> bool" where
  "due run p \<longleftrightarrow> pending p \<and> (case pp_next_after_run p of None \<Rightarrow> True | Some n \<Rightarrow> n \<le> run)"

lemma due_list: "set (list_due_proposals run c) = {p \<in> set (ct_props c). due run p}"
  and due_distinct: "distinct (map pp_id (ct_props c)) \<Longrightarrow> distinct (map pp_id (list_due_proposals run c))"
  by (auto simp: list_due_proposals_def due_def distinct_map inj_on_def)

lemma process_queue_split:
  obtains st w where
    "fold (judge_one h run (pass_facts h c) (quarantined q run) (lake_newest_ts c)) (list_due_proposals run c)
       ((no_outcome, c), []) = (st, w)"
    "process_queue h q run c = verify_batch h run (filter (\<lambda>p. pp_op p \<noteq> lit ''supersede'') w)
       (verify_batch h run (filter (\<lambda>p. pp_op p = lit ''supersede'') w) st)"
proof -
  obtain st w where r: "fold (judge_one h run (pass_facts h c) (quarantined q run) (lake_newest_ts c))
      (list_due_proposals run c) ((no_outcome, c), []) = (st, w)" by fastforce
  show ?thesis
    by (rule that [OF r]) (use r in \<open>auto simp: process_queue_def verify_batch_def split: list.splits\<close>)
qed

text \<open>A proposal that is not due stays as it is; one that is due and not quarantined is settled.\<close>

lemma pass_keeps:
  assumes "i \<notin> pp_id ` set (list_due_proposals run c)"
  shows "kept i (no_outcome, c) (process_queue h q run c)"
proof (rule process_queue_split [of h run c q])
  let ?judge = "judge_one h run (pass_facts h c) (quarantined q run) (lake_newest_ts c)"
  fix st w
  assume r: "fold ?judge (list_due_proposals run c) ((no_outcome, c), []) = (st, w)"
    and pass: "process_queue h q run c = verify_batch h run (filter (\<lambda>p. pp_op p \<noteq> lit ''supersede'') w)
       (verify_batch h run (filter (\<lambda>p. pp_op p = lit ''supersede'') w) st)"
  have st: "kept i (no_outcome, c) st" "filter (\<lambda>x. pp_id x = i) w = []"
    using judged_outside [OF assms, of "(no_outcome, c)" h run "pass_facts h c" "quarantined q run" "lake_newest_ts c" "[]"]
    by (simp_all add: r)
  then have out: "i \<notin> pp_id ` set (filter P w)" for P by (auto simp: filter_empty_conv)
  show ?thesis unfolding pass by (rule kept_trans [OF kept_trans [OF st(1) verified(1) [OF out]] verified(1) [OF out]])
qed

lemma pass_settles:
  assumes "distinct (map pp_id (ct_props c))" "p \<in> set (ct_props c)" "due run p" "\<not> touches (quarantined q run) p"
  shows "settled run p (no_outcome, c) (process_queue h q run c)"
proof (rule process_queue_split [of h run c q])
  let ?judge = "judge_one h run (pass_facts h c) (quarantined q run) (lake_newest_ts c)"
  fix st w
  assume r: "fold ?judge (list_due_proposals run c) ((no_outcome, c), []) = (st, w)"
    and pass: "process_queue h q run c = verify_batch h run (filter (\<lambda>p. pp_op p \<noteq> lit ''supersede'') w)
       (verify_batch h run (filter (\<lambda>p. pp_op p = lit ''supersede'') w) st)"
  let ?mid = "verify_batch h run (filter (\<lambda>p. pp_op p = lit ''supersede'') w) st"
  have dist: "distinct (map pp_id (list_due_proposals run c))" by (rule due_distinct [OF assms(1)])
  have p: "p \<in> set (list_due_proposals run c)" using assms(2,3) by (simp add: due_list)
  have w: "distinct (map pp_id w)"
    using judged_distinct [of "[]" "list_due_proposals run c" h run "pass_facts h c" "quarantined q run" "lake_newest_ts c"
        "(no_outcome, c)"] dist by (simp add: r)
  then have ws: "distinct (map pp_id (filter P w))" for P by (simp add: distinct_map_filter)
  show ?thesis unfolding pass
  proof (rule judged [OF dist p assms(4) r])
    assume s: "settled run p (no_outcome, c) st" and "pp_id p \<notin> pp_id ` set w"
    then have out: "pp_id p \<notin> pp_id ` set (filter P w)" for P by auto
    show "settled run p (no_outcome, c) (verify_batch h run (filter (\<lambda>p. pp_op p \<noteq> lit ''supersede'') w) ?mid)"
      by (rule settled_kept [OF settled_kept [OF s verified(1) [OF out]] verified(1) [OF out]])
  next
    assume k: "kept (pp_id p) (no_outcome, c) st" and "filter (\<lambda>x. pp_id x = pp_id p) w = [p]"
    then have "set (filter (\<lambda>x. pp_id x = pp_id p) w) = {p}" by simp
    then have only: "x \<in> set w \<and> pp_id x = pp_id p \<longleftrightarrow> x = p" for x by (auto simp: set_eq_iff)
    have same: "x = p" if "x \<in> set w" "pp_id p = pp_id x" for x using only [of x] that by simp
    have mem: "p \<in> set w" using only [of p] by simp
    show "settled run p (no_outcome, c) (verify_batch h run (filter (\<lambda>p. pp_op p \<noteq> lit ''supersede'') w) ?mid)"
    proof (cases "pp_op p = lit ''supersede''")
      case True
      then have out: "pp_id p \<notin> pp_id ` set (filter (\<lambda>p. pp_op p \<noteq> lit ''supersede'') w)"
        and there: "p \<in> set (filter (\<lambda>p. pp_op p = lit ''supersede'') w)" using same mem by auto
      show ?thesis
        by (rule settled_kept [OF kept_settled [OF k verified(2) [OF there ws]] verified(1) [OF out]])
    next
      case False
      then have out: "pp_id p \<notin> pp_id ` set (filter (\<lambda>p. pp_op p = lit ''supersede'') w)"
        and there: "p \<in> set (filter (\<lambda>p. pp_op p \<noteq> lit ''supersede'') w)" using same mem by auto
      show ?thesis
        by (rule kept_settled [OF kept_trans [OF k verified(1) [OF out]] verified(2) [OF there ws]])
    qed
  qed
qed

section \<open>No proposal waits for ever\<close>

text \<open>
  A history of passes as one proposal sees it: the run numbers grow, and a pass finds the proposal's row as
  the pass before left it, whatever else happened to the store in between.
\<close>

type_synonym pass = "host \<times> quarantine_map \<times> int \<times> catalog"

fun history :: "int \<Rightarrow> proposal_row option \<Rightarrow> pass list \<Rightarrow> bool" where
  "history i row [] = True"
| "history i row ((h, q, run, c) # passes) \<longleftrightarrow>
     get_class_proposal c i = row \<and> (\<forall>(_, _, later_run, _)\<in>set passes. run < later_run)
     \<and> history i (get_class_proposal (snd (process_queue h q run c)) i) passes"

definition undisturbed :: "proposal_row \<Rightarrow> pass \<Rightarrow> bool" where
  "undisturbed p x \<longleftrightarrow>
     (case x of (h, q, run, c) \<Rightarrow>
        distinct (map pp_id (ct_props c)) \<and> \<not> touches (quarantined q run) p \<and> \<not> forgotten run p c)"

definition leaves :: "int \<Rightarrow> pass \<Rightarrow> bool" where
  "leaves i x \<longleftrightarrow>
     (case x of (h, q, run, c) \<Rightarrow>
        (case process_queue h q run c of
           (out, d) \<Rightarrow> get_class_proposal d i = None \<and> 0 < qo_done out \<or> i \<in> set (qo_warned out)))"

lemma deferred_same:
  assumes "deferred p run p'"
  shows "undisturbed p' = undisturbed p" "pending p' = pending p"
    "pp_attempts p' = pp_attempts p + 1" "pp_next_after_run p' = Some (run + backoff_runs (pp_attempts p + 1))"
    "pp_attempts p + 1 < 3" "pp_id p' = pp_id p"
  using assms
  by (auto simp: deferred_def undisturbed_def fun_eq_iff touches_def prop_subjects_def forgotten_def pending_def
      PROPOSAL_TTL_ATTEMPTS_def)

lemma pass_row:
  assumes "history i (Some p) ((h, q, run, c) # passes)" "undisturbed p (h, q, run, c)" "pending p"
    and "\<not> leaves i (h, q, run, c)"
  obtains p' where "history i (Some p') passes" "deferred p run p'" "due run p"
  | "history i (Some p) passes" "\<not> due run p"
proof -
  have row: "get_class_proposal c i = Some p" using assms(1) by simp
  then have p: "p \<in> set (ct_props c)" "pp_id p = i"
    unfolding get_class_proposal_def by (auto simp: find_Some_iff)
  obtain out d where d: "process_queue h q run c = (out, d)" by fastforce
  have u: "distinct (map pp_id (ct_props c))" "\<not> touches (quarantined q run) p" "\<not> forgotten run p c"
    using assms(2) by (auto simp: undisturbed_def)
  have rest: "history i (get_class_proposal d i) passes" using assms(1) by (simp add: d)
  show ?thesis
  proof (cases "due run p")
    case True
    have "settled run p (no_outcome, c) (out, d)" using pass_settles [OF u(1) p(1) True u(2), of h] by (simp add: d)
    then obtain p' where "get_class_proposal d i = Some p'" "deferred p run p'"
      using assms(3,4) row u(3) p(2) by (auto simp: settled_def leaves_def d split: option.splits)
    then show ?thesis using that(1) rest True by simp
  next
    case False
    have "i \<notin> pp_id ` set (list_due_proposals run c)"
    proof
      assume "i \<in> pp_id ` set (list_due_proposals run c)"
      then obtain x where "x \<in> set (ct_props c)" "due run x" "pp_id x = i" by (auto simp: due_list)
      moreover have "x = p" using calculation p u(1) by (auto simp: distinct_map inj_on_def)
      ultimately show False using False by simp
    qed
    then have "kept i (no_outcome, c) (out, d)" using pass_keeps [of i run c h q] by (simp add: d)
    then show ?thesis using that(2) rest False row by (simp add: kept_def)
  qed
qed

text \<open>
  C9. No proposal waits for ever, unless it is quarantined or its source was forgotten.  Take a queued
  proposal and any four passes with growing run numbers that find its row as the previous pass left it, the
  first at a run where it is due, whatever the verifier answers, fails to answer, or answers about other
  proposals.  Provided that no pass finds one of its classes quarantined, its run or the pass's own marked as
  having a forgotten source, or two proposals with one id, one of the four passes takes the row out of the
  queue, counting an application, a refusal or an expiry, or it warns that applying this proposal failed.
  (\<open>forgotten_source_stays\<close>: applying one whose source was forgotten counts a refusal and leaves it there.)
\<close>

theorem no_proposal_waits_forever:
  assumes "history i (Some p) passes" "length passes = 4"
    and "pending p" "0 \<le> pp_attempts p" "case passes of (h, q, run, c) # _ \<Rightarrow> due run p"
    and "\<forall>x\<in>set passes. undisturbed p x"
  shows "\<exists>x\<in>set passes. leaves i x"
proof (rule ccontr)
  assume stay: "\<not> ?thesis"
  obtain h0 q0 r0 c0 h1 q1 r1 c1 h2 q2 r2 c2 h3 q3 r3 c3
    where passes: "passes = [(h0, q0, r0, c0), (h1, q1, r1, c1), (h2, q2, r2, c2), (h3, q3, r3, c3)]"
    using assms(2) by (auto simp: numeral_eq_Suc length_Suc_conv)
  have runs: "r0 < r1" "r1 < r2" "r2 < r3" using assms(1) by (auto simp: passes)
  have waits: "backoff_runs 1 = 1" "backoff_runs 2 = 2" by (simp_all add: backoff_runs_def PROPOSAL_BACKOFF_RUNS_def)
  have step: "\<exists>p'. history i (Some p') xs \<and> (\<forall>y\<in>set xs. undisturbed p' y) \<and> pending p' \<and>
      (if due run p then pp_attempts p' = pp_attempts p + 1 \<and> pp_attempts p + 1 < 3
          \<and> pp_next_after_run p' = Some (run + backoff_runs (pp_attempts p + 1)) else p' = p)"
    if "history i (Some p) ((h, q, run, c) # xs)" "\<forall>y\<in>set ((h, q, run, c) # xs). undisturbed p y" "pending p"
      "set ((h, q, run, c) # xs) \<subseteq> set passes" for p h q run c xs
    by (rule pass_row [OF that(1) _ that(3)]) (use that stay deferred_same in auto)
  obtain p1 where p1: "history i (Some p1) [(h1, q1, r1, c1), (h2, q2, r2, c2), (h3, q3, r3, c3)]"
    "\<forall>y\<in>set [(h1, q1, r1, c1), (h2, q2, r2, c2), (h3, q3, r3, c3)]. undisturbed p1 y" "pending p1"
    "pp_attempts p1 = pp_attempts p + 1" "pp_attempts p + 1 < 3"
    "pp_next_after_run p1 = Some (r0 + backoff_runs (pp_attempts p + 1))"
    using step [OF assms(1) [unfolded passes] assms(6) [unfolded passes] assms(3)] assms(5) unfolding passes by auto
  obtain p2 where p2: "history i (Some p2) [(h2, q2, r2, c2), (h3, q3, r3, c3)]"
    "\<forall>y\<in>set [(h2, q2, r2, c2), (h3, q3, r3, c3)]. undisturbed p2 y" "pending p2"
    "if due r1 p1 then pp_attempts p2 = pp_attempts p1 + 1 \<and> pp_attempts p1 + 1 < 3
       \<and> pp_next_after_run p2 = Some (r1 + backoff_runs (pp_attempts p1 + 1)) else p2 = p1"
    using step [OF p1(1-3)] unfolding passes by auto
  obtain p3 where p3: "history i (Some p3) [(h3, q3, r3, c3)]"
    "\<forall>y\<in>set [(h3, q3, r3, c3)]. undisturbed p3 y" "pending p3"
    "if due r2 p2 then pp_attempts p3 = pp_attempts p2 + 1 \<and> pp_attempts p2 + 1 < 3
       \<and> pp_next_after_run p3 = Some (r2 + backoff_runs (pp_attempts p2 + 1)) else p3 = p2"
    using step [OF p2(1-3)] unfolding passes by auto
  have last: "due r3 p3 \<Longrightarrow> pp_attempts p3 + 1 < 3"
    using step [OF p3(1-3)] unfolding passes by auto
  consider "pp_attempts p = 0" | "pp_attempts p = 1" using p1(5) assms(4) by linarith
  then show False
  proof cases
    case 1
    then have "due r1 p1" using p1 runs waits by (simp add: due_def)
    then have p2': "pp_attempts p2 = 2" "pp_next_after_run p2 = Some (r1 + 2)" using p2(4) p1(4) 1 waits by auto
    then have "p3 = p2" using p3(4) by (auto split: if_splits)
    then have "due r3 p3" using p2' p3(3) runs by (simp add: due_def)
    then show False using last \<open>p3 = p2\<close> p2' by simp
  next
    case 2
    then have "p2 = p1" using p2(4) p1(4) by (auto split: if_splits)
    then have "due r2 p2" using p1 2 waits runs by (simp add: due_def)
    then show False using p3(4) \<open>p2 = p1\<close> p1(4) 2 by simp
  qed
qed

section \<open>Sample passes\<close>

definition sample_host :: host where
  "sample_host = \<lparr>h_sha = sample_sha, h_uuid = show_nat, h_now = 6, h_alnum = (\<lambda>_. True), h_lower = (\<lambda>s. s),
     h_project = (\<lambda>_. None), h_cosine = (\<lambda>_ _. None), h_protected = {}, h_verify = (\<lambda>_. Inl []), h_show2 = (\<lambda>_. [])\<rparr>"

definition queued :: "proposal \<Rightarrow> catalog \<Rightarrow> catalog" where
  "queued p c = snd (the (stage_proposal show_nat (Some 1) p 5 c))"

text \<open>Promotions and supersessions are adjudicated without the statistics, so a pass over them can do without.\<close>

definition plain_pass :: "int \<Rightarrow> catalog \<Rightarrow> queue_outcome \<times> catalog" where
  "plain_pass run c =
     (case fold (judge_one sample_host run (sample_facts c) {} (lake_newest_ts c)) (list_due_proposals run c)
         ((no_outcome, c), []) of
        (st, w) \<Rightarrow>
          verify_batch sample_host run (filter (\<lambda>p. pp_op p \<noteq> lit ''supersede'') w)
            (verify_batch sample_host run (filter (\<lambda>p. pp_op p = lit ''supersede'') w) st))"

lemma plain_pass_is_a_pass:
  assumes "list_all (\<lambda>p. pp_op p = lit ''promote'' \<or> pp_op p = lit ''supersede'') (list_due_proposals run c)"
  shows "process_queue sample_host [] run c = plain_pass run c"
proof -
  have same: "adjudicate_structural alnum low d (pass_facts sample_host c) p = adjudicate_structural alnum low d (sample_facts c) p"
    if "p \<in> set (list_due_proposals run c)" for alnum low d p
    using that assms by (auto simp: adjudicate_structural_def list_all_iff pass_facts_def sample_facts_def lit_def)
  have "judge_one sample_host run (pass_facts sample_host c) {} t p st = judge_one sample_host run (sample_facts c) {} t p st"
    if "p \<in> set (list_due_proposals run c)" for t p st
    unfolding judge_one_def same [OF that] ..
  then have "fold (judge_one sample_host run (pass_facts sample_host c) {} t) (list_due_proposals run c) st
      = fold (judge_one sample_host run (sample_facts c) {} t) (list_due_proposals run c) st" for t st
    by (intro fold_cong) auto
  then show ?thesis
    using process_queue_split [of sample_host run c "[]"] by (simp add: plain_pass_def quarantined_def) (metis (no_types, lifting) case_prod_conv)
qed

text \<open>A supersession of one subject-less decision by another, which only the silent verifier could judge.\<close>

definition resolution :: ledger_append where
  "resolution = \<lparr>la_kind = lit ''resolution'', la_author = [], la_ts = 1, la_prompt_id = None, la_session_id = None,
     la_version_number = None, la_ref_kind = None, la_ref_id = None, la_payload_hash = []\<rparr>"

definition waiting_since :: "nat \<Rightarrow> catalog" where
  "waiting_since n =
     fold (\<lambda>run c. snd (plain_pass (int run) c)) [2..<2 + n]
       (queued (Supersede 1 2 None)
         (append_class_event sample_host resolution (append_class_event sample_host resolution sample_catalog)))"

definition silent_passes :: "pass list" where
  "silent_passes = map (\<lambda>n. (sample_host, [], 2 + int n, waiting_since n)) [0..<4]"

lemma silent_pass: "n < 4 \<Longrightarrow> process_queue sample_host [] (2 + int n) (waiting_since n) = plain_pass (2 + int n) (waiting_since n)"
proof (rule plain_pass_is_a_pass)
  have "list_all (\<lambda>n. list_all (\<lambda>p. pp_op p = lit ''promote'' \<or> pp_op p = lit ''supersede'')
      (list_due_proposals (2 + int n) (waiting_since n))) [0..<4]"
    by code_simp
  then show "n < 4 \<Longrightarrow> list_all (\<lambda>p. pp_op p = lit ''promote'' \<or> pp_op p = lit ''supersede'')
      (list_due_proposals (2 + int n) (waiting_since n))"
    by (simp add: list_all_iff)
qed

theorem no_proposal_waits_forever_witness:
  "(\<exists>x\<in>set silent_passes. leaves 1 x) \<and> \<not> leaves 1 (silent_passes ! 1)"
proof -
  obtain p where p: "get_class_proposal (waiting_since 0) 1 = Some p" "pending p" "pp_attempts p = 0" "due 2 p"
    "\<forall>x\<in>set silent_passes. undisturbed p x"
  proof -
    let ?p = "the (get_class_proposal (waiting_since 0) 1)"
    have "get_class_proposal (waiting_since 0) 1 \<noteq> None" "pending ?p" "pp_attempts ?p = 0" "due 2 ?p"
      "\<forall>x\<in>set silent_passes. undisturbed ?p x"
      by code_simp+
    then show ?thesis using that [of ?p] by auto
  qed
  have after: "waiting_since (Suc n) = snd (plain_pass (2 + int n) (waiting_since n))" for n
    by (simp add: waiting_since_def)
  have four: "[0..<4] = [0, Suc 0, Suc (Suc 0), Suc (Suc (Suc 0))]" by (simp add: upt_rec)
  have "history 1 (Some p) silent_passes"
    using p(1) silent_pass [of 0] silent_pass [of "Suc 0"] silent_pass [of "Suc (Suc 0)"] after [of 0] after [of "Suc 0"]
      after [of "Suc (Suc 0)"]
    by (simp add: silent_passes_def four)
  moreover have "case plain_pass 3 (waiting_since 1) of (out, d) \<Rightarrow> get_class_proposal d 1 \<noteq> None \<and> 1 \<notin> set (qo_warned out)"
    by code_simp
  then have "\<not> leaves 1 (silent_passes ! 1)"
    using silent_pass [of 1] by (simp add: leaves_def silent_passes_def four split: prod.splits)
  ultimately show ?thesis
    using no_proposal_waits_forever [of 1 p silent_passes] p by (simp add: silent_passes_def four)
qed

text \<open>
  The pass adjudicates every proposal against the snapshot it read first.  Two promotions that are fine one
  at a time are both applied, and their classes end up above each other, cut off from every root.
\<close>

definition crossed_promotions :: catalog where
  "crossed_promotions = queued (Promote (lit ''login'') (Some (lit ''auth'')) None)
     (queued (Promote (lit ''auth'') (Some (lit ''login'')) None) sample_catalog)"

lemma two_promotions_make_a_cycle:
  "let (out, d) = process_queue sample_host [] 2 crossed_promotions
   in qo_applied out = 2 \<and> parent_of d (lit ''auth'') = Some (lit ''login'') \<and> parent_of d (lit ''login'') = Some (lit ''auth'')
    \<and> root_of (snapshot crossed_promotions) (lit ''auth'') = Some (lit ''root'') \<and> root_of (snapshot d) (lit ''auth'') = None"
proof -
  have "list_all (\<lambda>p. pp_op p = lit ''promote'' \<or> pp_op p = lit ''supersede'') (list_due_proposals 2 crossed_promotions)"
    by code_simp
  show ?thesis unfolding plain_pass_is_a_pass [OF \<open>list_all _ _\<close>] by code_simp
qed

end
