(* ===== verification/Scopes.thy ===== *)
theory Scopes
  imports Identity Types
begin

text \<open>
  \<^verbatim>\<open>polis-store/src/principals.rs\<close>: the tables of principals and aliases, the ids an author string stands for,
  and the scope clause of the read paths, as a predicate on a row of \<^verbatim>\<open>prompts\<close>.
\<close>

section \<open>Principals and aliases\<close>

record principals =
  pd_principals :: "principal list"
  pd_aliases :: "(rstr \<times> rstr) list"

definition get_principal :: "principals \<Rightarrow> rstr \<Rightarrow> principal option" where
  "get_principal db i = find (\<lambda>p. pc_principal_id p = i) (pd_principals db)"

definition or_old :: "'a option \<Rightarrow> 'a option \<Rightarrow> 'a option" where
  "or_old new old = (case new of None \<Rightarrow> old | Some x \<Rightarrow> Some x)"

definition upsert_principal :: "principal \<Rightarrow> principals \<Rightarrow> principals" where
  "upsert_principal p db =
     db\<lparr>pd_principals :=
       (if get_principal db (pc_principal_id p) = None then pd_principals db @ [p]
        else map (\<lambda>q. if pc_principal_id q = pc_principal_id p
            then q\<lparr>pc_kind := pc_kind p, pc_pubkey := or_old (pc_pubkey p) (pc_pubkey q),
                   pc_parent_id := or_old (pc_parent_id p) (pc_parent_id q),
                   pc_display_name := or_old (pc_display_name p) (pc_display_name q)\<rparr>
            else q) (pd_principals db))\<rparr>"

definition list_principals :: "principals \<Rightarrow> principal list" where
  "list_principals db = sort_key (\<lambda>p. (created_at p, pc_principal_id p)) (pd_principals db)"

definition list_children :: "principals \<Rightarrow> rstr \<Rightarrow> principal list" where
  "list_children db parent = sort_key pc_principal_id (filter (\<lambda>p. pc_parent_id p = Some parent) (pd_principals db))"

text \<open>An alias is never replaced.\<close>

definition set_alias :: "rstr \<Rightarrow> rstr \<Rightarrow> principals \<Rightarrow> bool \<times> principals" where
  "set_alias a p db =
     (if map_of (pd_aliases db) a = None then (True, db\<lparr>pd_aliases := pd_aliases db @ [(a, p)]\<rparr>) else (False, db))"

definition list_aliases :: "principals \<Rightarrow> (rstr \<times> rstr) list" where
  "list_aliases db = sort_key fst (pd_aliases db)"

definition resolve_author :: "principals \<Rightarrow> rstr \<Rightarrow> rstr option" where
  "resolve_author db author =
     (case map_of (pd_aliases db) author of
        Some p \<Rightarrow> Some p
      | None \<Rightarrow> map_option pc_principal_id (get_principal db author))"

record scope_ids =
  si_principal_id :: "rstr option"
  si_device_id :: "rstr option"
  si_agent_id :: "rstr option"

definition no_ids :: scope_ids where
  "no_ids = \<lparr>si_principal_id = None, si_device_id = None, si_agent_id = None\<rparr>"

text \<open>An agent sits under a device, a device under a human.\<close>

definition scope_ids_for_author :: "principals \<Rightarrow> rstr \<Rightarrow> scope_ids" where
  "scope_ids_for_author db author =
     (case Option.bind (resolve_author db author) (get_principal db) of
        None \<Rightarrow> no_ids
      | Some p \<Rightarrow>
          (case pc_kind p of
             Human \<Rightarrow> no_ids\<lparr>si_principal_id := Some (pc_principal_id p)\<rparr>
           | Org \<Rightarrow> no_ids\<lparr>si_principal_id := Some (pc_principal_id p)\<rparr>
           | Device \<Rightarrow> no_ids\<lparr>si_principal_id := pc_parent_id p, si_device_id := Some (pc_principal_id p)\<rparr>
           | Agent \<Rightarrow>
               \<lparr>si_principal_id = Option.bind (pc_parent_id p) (\<lambda>d. Option.bind (get_principal db d) pc_parent_id),
                si_device_id = pc_parent_id p, si_agent_id = Some (pc_principal_id p)\<rparr>))"

text \<open>What a principal stands for: itself, its children and its grandchildren.\<close>

definition principal_id_set :: "principals \<Rightarrow> rstr \<Rightarrow> rstr list" where
  "principal_id_set db i =
     (let root = (case resolve_author db i of None \<Rightarrow> i | Some r \<Rightarrow> r);
          below = (\<lambda>p. map pc_principal_id (filter (\<lambda>q. pc_parent_id q = Some p) (pd_principals db)))
      in remdups_adj (sort (root # concat (map below (below root)) @ below root)))"

section \<open>Scopes\<close>

record scope_filter =
  sf_principal :: "rstr option"
  sf_project :: "rstr option"
  sf_roles :: "rstr list"
  sf_after :: "int option"
  sf_before :: "int option"
  sf_agent :: "rstr option"
  sf_run :: "rstr option"
  sf_org :: "rstr option"
  sf_include_shared :: bool

definition from_scope :: "scope \<Rightarrow> scope_filter" where
  "from_scope s =
     \<lparr>sf_principal = sc_principal s, sf_project = sc_project s, sf_roles = [], sf_after = None, sf_before = None,
      sf_agent = sc_agent s, sf_run = sc_run s, sf_org = sc_org s, sf_include_shared = sc_include_shared s\<rparr>"

definition filter_is_empty :: "scope_filter \<Rightarrow> bool" where
  "filter_is_empty f \<longleftrightarrow> sf_project f = None \<and> sf_roles f = [] \<and> sf_after f = None \<and> sf_before f = None
     \<and> sf_principal f = None \<and> sf_agent f = None \<and> sf_run f = None \<and> sf_org f = None"

text \<open>The columns of \<^verbatim>\<open>prompts\<close> that scopes and citations look at.\<close>

record source_row =
  sr_id :: int
  sr_ts :: int
  sr_role :: "rstr option"
  sr_body :: rstr
  sr_principal_id :: "rstr option"
  sr_device_id :: "rstr option"
  sr_agent_id :: "rstr option"
  sr_run_id :: "rstr option"
  sr_org_id :: "rstr option"
  sr_project_path :: "rstr option"

text \<open>A blank value of a field is no condition; a condition never holds on a missing column.\<close>

definition asked :: "rstr option \<Rightarrow> rstr option" where
  "asked v = (case v of None \<Rightarrow> None | Some s \<Rightarrow> if trim s = [] then None else Some (trim s))"

definition in_scope :: "principals \<Rightarrow> scope_filter \<Rightarrow> source_row \<Rightarrow> bool" where
  "in_scope db f p \<longleftrightarrow>
     (case asked (sf_principal f) of
        None \<Rightarrow> True
      | Some i \<Rightarrow> list_ex (\<lambda>q. sr_principal_id p = Some q \<or> sr_device_id p = Some q \<or> sr_agent_id p = Some q)
                    (principal_id_set db i))
     \<and> (case asked (sf_agent f) of
          None \<Rightarrow> True
        | Some a \<Rightarrow> sr_agent_id p = Some (case resolve_author db a of None \<Rightarrow> a | Some i \<Rightarrow> i))
     \<and> (case asked (sf_run f) of None \<Rightarrow> True | Some r \<Rightarrow> sr_run_id p = Some r)
     \<and> (case asked (sf_org f) of None \<Rightarrow> True | Some r \<Rightarrow> sr_org_id p = Some r)
     \<and> (case asked (sf_project f) of None \<Rightarrow> True | Some r \<Rightarrow> sr_project_path p = Some r)
     \<and> (sf_roles f = [] \<or> (case sr_role p of None \<Rightarrow> lit ''user'' | Some r \<Rightarrow> r) \<in> set (sf_roles f))
     \<and> (case sf_after f of None \<Rightarrow> True | Some t \<Rightarrow> sr_ts p \<ge> t)
     \<and> (case sf_before f of None \<Rightarrow> True | Some t \<Rightarrow> sr_ts p < t)"

end
