(* ===== verification/Claims.thy ===== *)
theory Claims
  imports Scopes Catalog Query
begin

text \<open>
  \<^verbatim>\<open>polis-store/src/claims.rs\<close>: cited assertions on two time axes.  An immutable record per claim, a
  projection the queries read, and an event of the ledger.  A transaction that fails leaves the store alone.
  A claim's JSON is \<^verbatim>\<open>serde_json\<close>'s: it is kept decoded, and \<open>enc\<close> stands for its text.
\<close>

section \<open>Tables\<close>

record claim_record =
  rec_id :: rstr
  rec_event_seq :: int
  rec_recorded_at :: int
  rec_assertion :: "claim_write option"
  rec_retired_at :: "int option"
  rec_invalidated :: bool

record claim_row =
  cr_id :: rstr
  cr_subject :: rstr
  cr_predicate :: claim_predicate
  cr_assertion :: claim_write
  cr_recorded_at :: int
  cr_event_seq :: int
  cr_valid_from :: int
  cr_valid_until :: "int option"
  cr_retired_at :: "int option"
  cr_principal_id :: "rstr option"
  cr_agent_id :: "rstr option"
  cr_run_id :: "rstr option"
  cr_org_id :: "rstr option"
  cr_project_path :: "rstr option"

text \<open>\<open>cd_journal\<close> holds the journal rows of claims: the run, the claim and the event.\<close>

record claim_db =
  cd_names :: principals
  cd_prompts :: "source_row list"
  cd_forgotten :: "int list"
  cd_events :: "ledger_event_row list"
  cd_runs :: "run_row list"
  cd_journal :: "(int \<times> rstr \<times> int) list"
  cd_records :: "claim_record list"
  cd_claims :: "claim_row list"
  cd_sources :: "(rstr \<times> rstr \<times> int) list"

datatype claim_error =
    InvalidClaim | GardenerNeedsRun | ClaimTooLong | IdTaken | RunNotRunning | CitationUnavailable int
  | UnknownRole | WrongCitation | NoSupport | MixedSources | RelationUnavailable | RelationDiffers
  | OtherNamespace | UserEvidence | RelationLater | RoleUnsupported rstr | ClaimSqlError

section \<open>Checks\<close>

definition f64_finite :: "f64_bits \<Rightarrow> bool" where
  "f64_finite b \<longleftrightarrow> take_bit 11 (drop_bit 52 b) \<noteq> 2047"

definition claim_malformed :: "(f64_bits \<Rightarrow> rstr) \<Rightarrow> claim_write \<Rightarrow> bool" where
  "claim_malformed show_f64 w \<longleftrightarrow>
     trim (cw_id w) = [] \<or> byte_len (cw_id w) > 200 \<or> trim (cw_subject w) = [] \<or> cw_sources w = []
     \<or> length (cw_sources w) > 32
     \<or> (case cw_valid_until w of None \<Rightarrow> False | Some t \<Rightarrow> t \<le> cw_valid_from w)
     \<or> supporting_text show_f64 (cw_value w) = []
     \<or> (case cw_value w of ClaimNumber n \<Rightarrow> \<not> f64_finite n | _ \<Rightarrow> False)"

definition claim_role_of :: "rstr option \<Rightarrow> claim_role option" where
  "claim_role_of r =
     (let s = (case r of None \<Rightarrow> lit ''user'' | Some s \<Rightarrow> s)
      in if s = lit ''user'' then Some ClaimUser
         else if s = lit ''assistant'' then Some ClaimAssistant
         else if s = lit ''agent'' then Some ClaimAgent
         else if s = lit ''system'' then Some ClaimSystem
         else if s = lit ''tool'' then Some ClaimTool
         else None)"

text \<open>The prompt behind a number, when it is a prompt event of a prompt that is not forgotten.\<close>

definition prompt_of_seq :: "claim_db \<Rightarrow> int \<Rightarrow> source_row option" where
  "prompt_of_seq db s =
     Option.bind (find (\<lambda>e. ev_seq e = s \<and> ev_kind e = lit ''prompt'') (cd_events db))
       (\<lambda>e. Option.bind (ev_prompt_id e) (\<lambda>i. find (\<lambda>p. sr_id p = i) (cd_prompts db)))"

definition cited_prompt :: "claim_db \<Rightarrow> scope_filter \<Rightarrow> int \<Rightarrow> source_row option" where
  "cited_prompt db f s =
     (case prompt_of_seq db s of
        None \<Rightarrow> None
      | Some p \<Rightarrow> if sr_id p \<notin> set (cd_forgotten db) \<and> in_scope (cd_names db) f p then Some p else None)"

text \<open>The quotation at its byte offset, or anywhere.\<close>

definition supports :: "source_row \<Rightarrow> claim_source \<Rightarrow> bool" where
  "supports p s \<longleftrightarrow> trim (cs_quote s) \<noteq> []
     \<and> (case cs_start_byte s of
          Some start \<Rightarrow> take (byte_len (cs_quote s)) (drop start (utf8 (sr_body p))) = utf8 (cs_quote s)
        | None \<Rightarrow> contains (sr_body p) (cs_quote s))"

definition source_refused :: "(f64_bits \<Rightarrow> rstr) \<Rightarrow> claim_db \<Rightarrow> claim_write \<Rightarrow> claim_source \<Rightarrow> claim_error option" where
  "source_refused show_f64 db w s =
     (case cited_prompt db (from_scope (cw_scope w)) (cs_seq s) of
        None \<Rightarrow> Some (CitationUnavailable (cs_seq s))
      | Some p \<Rightarrow>
          (case claim_role_of (sr_role p) of
             None \<Rightarrow> Some UnknownRole
           | Some r \<Rightarrow>
               if cs_chain_id s \<noteq> (case sr_device_id p of None \<Rightarrow> lit ''local'' | Some d \<Rightarrow> d) \<or> cs_role s \<noteq> r
               then Some WrongCitation
               else if \<not> supports p s \<or> \<not> contains (cs_quote s) (supporting_text show_f64 (cw_value w))
               then Some NoSupport else None))"

definition namespace_of :: "claim_db \<Rightarrow> claim_source \<Rightarrow> rstr option \<times> rstr option" where
  "namespace_of db s =
     (case prompt_of_seq db (cs_seq s) of None \<Rightarrow> (None, None) | Some p \<Rightarrow> (sr_principal_id p, sr_project_path p))"

text \<open>The sources in order; all of them share the namespace of the first.\<close>

fun sources_refused ::
  "(f64_bits \<Rightarrow> rstr) \<Rightarrow> claim_db \<Rightarrow> claim_write \<Rightarrow> (rstr option \<times> rstr option) option \<Rightarrow> claim_source list
     \<Rightarrow> claim_error option" where
  "sources_refused show_f64 db w ns [] = None"
| "sources_refused show_f64 db w ns (s # ss) =
     (case source_refused show_f64 db w s of
        Some e \<Rightarrow> Some e
      | None \<Rightarrow>
          if (case ns of None \<Rightarrow> False | Some n \<Rightarrow> n \<noteq> namespace_of db s) then Some MixedSources
          else sources_refused show_f64 db w (Some (case ns of None \<Rightarrow> namespace_of db s | Some n \<Rightarrow> n)) ss)"

definition claim_row_of :: "claim_db \<Rightarrow> rstr \<Rightarrow> claim_row option" where
  "claim_row_of db i = find (\<lambda>r. cr_id r = i) (cd_claims db)"

definition relation_refused ::
  "claim_db \<Rightarrow> claim_write \<Rightarrow> rstr option \<times> rstr option \<Rightarrow> int \<Rightarrow> rstr \<Rightarrow> claim_error option" where
  "relation_refused db w ns recorded_at i =
     (case claim_row_of db i of
        None \<Rightarrow> Some RelationUnavailable
      | Some r \<Rightarrow>
          let old = cr_assertion r
          in if cw_subject old \<noteq> cw_subject w \<or> cw_predicate old \<noteq> cw_predicate w \<or> cw_scope old \<noteq> cw_scope w
             then Some RelationDiffers
             else if (cr_principal_id r, cr_project_path r) \<noteq> ns then Some OtherNamespace
             else if i \<in> set (cw_supersedes w) \<and> list_ex (\<lambda>s. cs_role s = ClaimUser) (cw_sources old)
                \<and> (cw_derivation w \<noteq> Structured \<or> \<not> list_all (\<lambda>s. cs_role s = ClaimUser) (cw_sources w))
             then Some UserEvidence
             else if recorded_at < cr_recorded_at r then Some RelationLater else None)"

fun first_error :: "('a \<Rightarrow> 'e option) \<Rightarrow> 'a list \<Rightarrow> 'e option" where
  "first_error f [] = None"
| "first_error f (x # xs) = (case f x of Some e \<Rightarrow> Some e | None \<Rightarrow> first_error f xs)"

section \<open>Writing\<close>

text \<open>The row the queries read, and the citations, inserted unless they are there.\<close>

definition project_row :: "claim_write \<Rightarrow> int \<Rightarrow> int \<Rightarrow> int option \<Rightarrow> rstr option \<times> rstr option \<Rightarrow> claim_row" where
  "project_row w recorded_at event_seq retired ns =
     \<lparr>cr_id = cw_id w, cr_subject = cw_subject w, cr_predicate = cw_predicate w, cr_assertion = w,
      cr_recorded_at = recorded_at, cr_event_seq = event_seq, cr_valid_from = cw_valid_from w,
      cr_valid_until = cw_valid_until w, cr_retired_at = retired, cr_principal_id = fst ns,
      cr_agent_id = sc_agent (cw_scope w), cr_run_id = sc_run (cw_scope w), cr_org_id = sc_org (cw_scope w),
      cr_project_path = snd ns\<rparr>"

definition cite_source :: "rstr \<Rightarrow> claim_source \<Rightarrow> (rstr \<times> rstr \<times> int) list \<Rightarrow> (rstr \<times> rstr \<times> int) list" where
  "cite_source i s xs = (if (i, cs_chain_id s, cs_seq s) \<in> set xs then xs else xs @ [(i, cs_chain_id s, cs_seq s)])"

definition project ::
  "claim_write \<Rightarrow> int \<Rightarrow> int \<Rightarrow> int option \<Rightarrow> rstr option \<times> rstr option \<Rightarrow> claim_db \<Rightarrow> claim_db option" where
  "project w recorded_at event_seq retired ns db =
     (if claim_row_of db (cw_id w) \<noteq> None then None
      else Some (db\<lparr>cd_claims := cd_claims db @ [project_row w recorded_at event_seq retired ns],
                    cd_sources := fold (cite_source (cw_id w)) (cw_sources w) (cd_sources db)\<rparr>))"

definition claim_append :: "sha_fn \<Rightarrow> string \<Rightarrow> rstr \<Rightarrow> int \<Rightarrow> rstr \<Rightarrow> rstr \<Rightarrow> ledger_append" where
  "claim_append sha kind author ts i text =
     \<lparr>la_kind = lit kind, la_author = author, la_ts = ts, la_prompt_id = None, la_session_id = None,
      la_version_number = None, la_ref_kind = Some (lit ''claim''), la_ref_id = Some i, la_payload_hash = body_hash sha text\<rparr>"

definition run_accepts :: "claim_db \<Rightarrow> int option \<Rightarrow> bool" where
  "run_accepts db run \<longleftrightarrow>
     (case run of
        None \<Rightarrow> False
      | Some r \<Rightarrow> list_ex (\<lambda>x. ru_id x = r \<and> ru_status x = lit ''running''
          \<and> ru_outcome x \<noteq> Some (lit ''reverted'') \<and> ru_outcome x \<noteq> Some (lit ''reverted_by_canary'')) (cd_runs db))"

definition claim_answer :: "claim_write \<Rightarrow> int \<Rightarrow> int \<Rightarrow> claim" where
  "claim_answer w recorded_at event_seq =
     \<lparr>cl_assertion = w, cl_recorded_at = recorded_at, cl_event_seq = event_seq, cl_unresolved_alternatives = []\<rparr>"

text \<open>The checks before and inside the transaction, in order.\<close>

definition write_refused ::
  "(f64_bits \<Rightarrow> rstr) \<Rightarrow> (claim_write \<Rightarrow> rstr) \<Rightarrow> claim_write \<Rightarrow> claim_error option" where
  "write_refused show_f64 enc w =
     (if claim_malformed show_f64 w then Some InvalidClaim
      else if cw_derivation w = Gardener
          \<and> (cw_organizer_run w = None \<or> (case cw_model_version w of None \<Rightarrow> True | Some m \<Rightarrow> m = []))
      then Some GardenerNeedsRun
      else if byte_len (enc w) > 64000 then Some ClaimTooLong else None)"

definition evidence_refused :: "(f64_bits \<Rightarrow> rstr) \<Rightarrow> claim_write \<Rightarrow> int \<Rightarrow> claim_db \<Rightarrow> claim_error option" where
  "evidence_refused show_f64 w recorded_at db =
     (if cw_derivation w = Gardener \<and> \<not> run_accepts db (cw_organizer_run w) then Some RunNotRunning
      else
        (case sources_refused show_f64 db w None (cw_sources w) of
           Some e \<Rightarrow> Some e
         | None \<Rightarrow> first_error (relation_refused db w (namespace_of db (hd (cw_sources w))) recorded_at)
                     (cw_supersedes w @ cw_contradicts w)))"

definition journal_claim :: "int option \<Rightarrow> rstr \<Rightarrow> int \<Rightarrow> claim_db \<Rightarrow> claim_db" where
  "journal_claim run i s db =
     (case run of
        None \<Rightarrow> db
      | Some r \<Rightarrow>
          if list_ex (\<lambda>x. ru_id x = r \<and> ru_source_forgotten_at x \<noteq> None) (cd_runs db) then db
          else db\<lparr>cd_journal := cd_journal db @ [(r, i, s)]\<rparr>)"

definition insert_claim ::
  "sha_fn \<Rightarrow> (claim_write \<Rightarrow> rstr) \<Rightarrow> rstr \<Rightarrow> claim_write \<Rightarrow> int \<Rightarrow> claim_db \<Rightarrow> (int \<times> claim_db) option" where
  "insert_claim sha enc author w recorded_at db =
     (let (ev, rows) = append_in_txn sha (claim_append sha ''claim'' author recorded_at (cw_id w) (enc w)) (cd_events db)
      in if list_ex (\<lambda>r. rec_id r = cw_id w) (cd_records db) then None
         else
           map_option (\<lambda>db1. (ev_seq ev,
               if cw_derivation w = Gardener then journal_claim (cw_organizer_run w) (cw_id w) (ev_seq ev) db1 else db1))
             (project w recorded_at (ev_seq ev) None (namespace_of db (hd (cw_sources w)))
               (db\<lparr>cd_events := rows,
                   cd_records := cd_records db @
                     [\<lparr>rec_id = cw_id w, rec_event_seq = ev_seq ev, rec_recorded_at = recorded_at,
                       rec_assertion = Some w, rec_retired_at = None, rec_invalidated = False\<rparr>]\<rparr>)))"

definition write_claim ::
  "sha_fn \<Rightarrow> (f64_bits \<Rightarrow> rstr) \<Rightarrow> (claim_write \<Rightarrow> rstr) \<Rightarrow> rstr \<Rightarrow> claim_write \<Rightarrow> int \<Rightarrow> claim_db
     \<Rightarrow> (claim_error + claim) \<times> claim_db" where
  "write_claim sha show_f64 enc author w recorded_at db =
     (case write_refused show_f64 enc w of
        Some e \<Rightarrow> (Inl e, db)
      | None \<Rightarrow>
          (case find (\<lambda>r. rec_id r = cw_id w \<and> \<not> rec_invalidated r) (cd_records db) of
             Some r \<Rightarrow>
               (if rec_assertion r \<noteq> Some w then Inl IdTaken
                else Inr (claim_answer w (rec_recorded_at r) (rec_event_seq r)), db)
           | None \<Rightarrow>
               (case evidence_refused show_f64 w recorded_at db of
                  Some e \<Rightarrow> (Inl e, db)
                | None \<Rightarrow>
                    (case insert_claim sha enc author w recorded_at db of
                       None \<Rightarrow> (Inl ClaimSqlError, db)
                     | Some (s, db1) \<Rightarrow> (Inr (claim_answer w recorded_at s), db1)))))"

section \<open>Retiring, forgetting and rebuilding\<close>

definition retire_claim :: "sha_fn \<Rightarrow> rstr \<Rightarrow> rstr \<Rightarrow> int \<Rightarrow> claim_db \<Rightarrow> bool \<times> claim_db" where
  "retire_claim sha author i recorded_at db =
     (let changed = list_ex (\<lambda>r. rec_id r = i \<and> rec_retired_at r = None \<and> rec_recorded_at r \<le> recorded_at) (cd_records db);
          db1 = db\<lparr>cd_records := map (\<lambda>r. if rec_id r = i \<and> rec_retired_at r = None \<and> rec_recorded_at r \<le> recorded_at
                     then r\<lparr>rec_retired_at := Some recorded_at\<rparr> else r) (cd_records db),
                   cd_claims := map (\<lambda>r. if cr_id r = i \<and> cr_retired_at r = None \<and> cr_recorded_at r \<le> recorded_at
                     then r\<lparr>cr_retired_at := Some recorded_at\<rparr> else r) (cd_claims db)\<rparr>
      in (changed,
          if changed
          then db1\<lparr>cd_events := snd (append_in_txn sha
                 (claim_append sha ''claim_retired'' author recorded_at i i) (cd_events db))\<rparr>
          else db1))"

definition cites_prompt :: "claim_db \<Rightarrow> int \<Rightarrow> rstr \<Rightarrow> bool" where
  "cites_prompt db p i \<longleftrightarrow>
     list_ex (\<lambda>(j, _, s). j = i \<and> list_ex (\<lambda>e. ev_seq e = s \<and> ev_prompt_id e = Some p \<and> ev_kind e = lit ''prompt'')
       (cd_events db)) (cd_sources db)"

definition invalidate_prompt_claims :: "int \<Rightarrow> claim_db \<Rightarrow> nat \<times> claim_db" where
  "invalidate_prompt_claims p db =
     (length (filter (\<lambda>r. cites_prompt db p (rec_id r)) (cd_records db)),
      db\<lparr>cd_records := map (\<lambda>r. if cites_prompt db p (rec_id r)
             then r\<lparr>rec_assertion := None, rec_invalidated := True\<rparr> else r) (cd_records db),
         cd_claims := filter (\<lambda>r. \<not> cites_prompt db p (cr_id r)) (cd_claims db)\<rparr>)"

text \<open>The owner of a claim is read again from its first source.\<close>

definition owner_of_seq :: "claim_db \<Rightarrow> int \<Rightarrow> (rstr option \<times> rstr option) option" where
  "owner_of_seq db s =
     Option.bind (find (\<lambda>e. ev_seq e = s) (cd_events db))
       (\<lambda>e. Option.bind (ev_prompt_id e)
         (\<lambda>i. map_option (\<lambda>p. (sr_principal_id p, sr_project_path p)) (find (\<lambda>p. sr_id p = i) (cd_prompts db))))"

fun project_all :: "claim_record list \<Rightarrow> claim_db \<Rightarrow> claim_db option" where
  "project_all [] db = Some db"
| "project_all (r # rs) db =
     (case rec_assertion r of
        None \<Rightarrow> None
      | Some w \<Rightarrow>
          (case cw_sources w of
             [] \<Rightarrow> None
           | s # _ \<Rightarrow>
               (case owner_of_seq db (cs_seq s) of
                  None \<Rightarrow> None
                | Some ns \<Rightarrow>
                    (case project w (rec_recorded_at r) (rec_event_seq r) (rec_retired_at r) ns db of
                       None \<Rightarrow> None
                     | Some db1 \<Rightarrow> project_all rs db1))))"

definition live_records :: "claim_db \<Rightarrow> claim_record list" where
  "live_records db =
     sort_key (\<lambda>r. (rec_recorded_at r, rec_event_seq r)) (filter (\<lambda>r. \<not> rec_invalidated r) (cd_records db))"

definition rebuild_claim_projection :: "claim_db \<Rightarrow> nat option \<times> claim_db" where
  "rebuild_claim_projection db =
     (case project_all (live_records db)
         (db\<lparr>cd_claims := [],
             cd_sources := filter (\<lambda>(i, _). \<not> list_ex (\<lambda>r. rec_id r = i \<and> \<not> rec_invalidated r) (cd_records db))
               (cd_sources db)\<rparr>) of
        None \<Rightarrow> (None, db)
      | Some db1 \<Rightarrow> (Some (length (live_records db)), db1))"

section \<open>Queries\<close>

record claim_query =
  cq_q :: "rstr option"
  cq_roles :: "rstr list"
  cq_after :: "int option"
  cq_before :: "int option"
  cq_subject :: "rstr option"
  cq_predicate :: "claim_predicate option"
  cq_scope :: scope
  cq_valid_at :: "int option"
  cq_known_at :: "int option"
  cq_limit :: "nat option"

fun query_roles :: "rstr list \<Rightarrow> claim_error + rstr list" where
  "query_roles [] = Inr []"
| "query_roles (r # rs) =
     (case corpus_role_parse r of
        None \<Rightarrow> Inl (RoleUnsupported r)
      | Some role \<Rightarrow>
          (case query_roles rs of Inl e \<Rightarrow> Inl e | Inr xs \<Rightarrow> Inr (corpus_role_as_str role # xs)))"

definition source_filter :: "claim_query \<Rightarrow> claim_error + scope_filter" where
  "source_filter q =
     (case (if cq_roles q = [] then Inr [lit ''user'', lit ''assistant''] else query_roles (cq_roles q)) of
        Inl e \<Rightarrow> Inl e
      | Inr roles \<Rightarrow> Inr ((from_scope (cq_scope q))\<lparr>sf_roles := roles, sf_after := cq_after q, sf_before := cq_before q\<rparr>))"

text \<open>Every citation of the claim stands, and there is one.\<close>

definition source_eligible :: "claim_db \<Rightarrow> scope_filter \<Rightarrow> rstr \<Rightarrow> bool" where
  "source_eligible db f i \<longleftrightarrow>
     list_ex (\<lambda>(j, _). j = i) (cd_sources db)
     \<and> list_all (\<lambda>(j, chain, s). j = i \<longrightarrow>
          (case cited_prompt db f s of
             None \<Rightarrow> False
           | Some p \<Rightarrow> chain = lit ''local'' \<or> sr_device_id p = Some chain)) (cd_sources db)"

definition known_by :: "int \<Rightarrow> claim_row \<Rightarrow> bool" where
  "known_by known r \<longleftrightarrow> cr_recorded_at r \<le> known \<and> (case cr_retired_at r of None \<Rightarrow> True | Some t \<Rightarrow> t > known)"

definition holds_at :: "int \<Rightarrow> claim_row \<Rightarrow> bool" where
  "holds_at valid r \<longleftrightarrow> cr_valid_from r \<le> valid \<and> (case cr_valid_until r of None \<Rightarrow> True | Some t \<Rightarrow> t > valid)"

text \<open>What an eligible claim has superseded by then, its own interval over or not.\<close>

definition superseded_ids :: "claim_db \<Rightarrow> scope_filter \<Rightarrow> int \<Rightarrow> int \<Rightarrow> rstr set" where
  "superseded_ids db f known valid =
     set (concat (map (\<lambda>r. cw_supersedes (cr_assertion r))
       (filter (\<lambda>r. known_by known r \<and> cr_valid_from r \<le> valid \<and> source_eligible db f (cr_id r)) (cd_claims db))))"

fun same_value :: "claim_value \<Rightarrow> claim_value \<Rightarrow> bool" where
  "same_value (ClaimText a) (ClaimText b) \<longleftrightarrow> a = b"
| "same_value (ClaimBoolean a) (ClaimBoolean b) \<longleftrightarrow> a = b"
| "same_value (ClaimNumber a) (ClaimNumber b) \<longleftrightarrow> a = b \<or> take_bit 63 a = 0 \<and> take_bit 63 b = 0"
| "same_value _ _ \<longleftrightarrow> False"

definition alternatives :: "claim list \<Rightarrow> claim \<Rightarrow> rstr list" where
  "alternatives cs c =
     map (\<lambda>d. cw_id (cl_assertion d))
       (filter (\<lambda>d. cw_id (cl_assertion d) \<noteq> cw_id (cl_assertion c)
          \<and> cw_subject (cl_assertion d) = cw_subject (cl_assertion c)
          \<and> cw_predicate (cl_assertion d) = cw_predicate (cl_assertion c)
          \<and> cw_scope (cl_assertion d) = cw_scope (cl_assertion c)
          \<and> \<not> same_value (cw_value (cl_assertion d)) (cw_value (cl_assertion c))) cs)"

fun predicate_debug :: "claim_predicate \<Rightarrow> rstr" where
  "predicate_debug Preference = lit ''Preference''"
| "predicate_debug ProjectConfiguration = lit ''ProjectConfiguration''"
| "predicate_debug SelectedTechnology = lit ''SelectedTechnology''"
| "predicate_debug Constraint = lit ''Constraint''"
| "predicate_debug DecisionClaim = lit ''Decision''"
| "predicate_debug Relationship = lit ''Relationship''"

definition query_terms :: "(rstr \<Rightarrow> rstr) \<Rightarrow> (uchar \<Rightarrow> bool) \<Rightarrow> rstr \<Rightarrow> rstr list" where
  "query_terms to_lower alnum raw =
     (case plan_fts_query to_lower alnum raw of None \<Rightarrow> [to_lower raw] | Some p \<Rightarrow> terms p)"

definition claim_score :: "(f64_bits \<Rightarrow> rstr) \<Rightarrow> (rstr \<Rightarrow> rstr) \<Rightarrow> rstr list \<Rightarrow> claim \<Rightarrow> nat" where
  "claim_score show_f64 to_lower ts c =
     (let w = cl_assertion c;
          text = to_lower (cw_subject w @ [32] @ predicate_debug (cw_predicate w) @ [32] @ supporting_text show_f64 (cw_value w))
      in length (filter (contains text) ts))"

text \<open>The rows that hold at \<open>valid\<close> as far as was known at \<open>known\<close>, newest first.\<close>

definition claim_rows :: "claim_db \<Rightarrow> scope_filter \<Rightarrow> claim_query \<Rightarrow> int \<Rightarrow> int \<Rightarrow> claim_row list" where
  "claim_rows db f q known valid =
     sort_key (\<lambda>r. (- cr_recorded_at r, cr_id r))
       (filter (\<lambda>r. known_by known r \<and> holds_at valid r \<and> source_eligible db f (cr_id r)
          \<and> (case cq_subject q of None \<Rightarrow> True | Some s \<Rightarrow> cr_subject r = s)
          \<and> (case cq_predicate q of None \<Rightarrow> True | Some p \<Rightarrow> cr_predicate r = p)) (cd_claims db))"

definition ranked_claims ::
  "(f64_bits \<Rightarrow> rstr) \<Rightarrow> (rstr \<Rightarrow> rstr) \<Rightarrow> (uchar \<Rightarrow> bool) \<Rightarrow> rstr option \<Rightarrow> claim list \<Rightarrow> claim list" where
  "ranked_claims show_f64 to_lower alnum q cs =
     (case q of
        None \<Rightarrow> cs
      | Some raw \<Rightarrow>
          if trim raw = [] then cs
          else
            let score = claim_score show_f64 to_lower (query_terms to_lower alnum raw)
            in sort_key (\<lambda>c. (- int (score c), - cl_recorded_at c)) (filter (\<lambda>c. score c > 0) cs))"

definition query_claims ::
  "(f64_bits \<Rightarrow> rstr) \<Rightarrow> (rstr \<Rightarrow> rstr) \<Rightarrow> (uchar \<Rightarrow> bool) \<Rightarrow> int \<Rightarrow> claim_query \<Rightarrow> claim_db \<Rightarrow> claim_error + claim list" where
  "query_claims show_f64 to_lower alnum now q db =
     (case source_filter q of
        Inl e \<Rightarrow> Inl e
      | Inr f \<Rightarrow>
          let known = (case cq_known_at q of None \<Rightarrow> now | Some t \<Rightarrow> t);
              valid = (case cq_valid_at q of None \<Rightarrow> now | Some t \<Rightarrow> t);
              gone = superseded_ids db f known valid;
              cs = filter (\<lambda>c. cw_id (cl_assertion c) \<notin> gone)
                     (map (\<lambda>r. claim_answer (cr_assertion r) (cr_recorded_at r) (cr_event_seq r)) (claim_rows db f q known valid));
              cs1 = map (\<lambda>c. c\<lparr>cl_unresolved_alternatives := alternatives cs c\<rparr>) cs
          in Inr (take (clamp 1 200 (case cq_limit q of None \<Rightarrow> 50 | Some n \<Rightarrow> n))
                (ranked_claims show_f64 to_lower alnum (cq_q q) cs1)))"

end
