(* ===== verification/ClaimLife.thy ===== *)
theory ClaimLife
  imports Claims "HOL-Library.Multiset"
begin

text \<open>
  The claims of a store under everything that happens to them and to the prompts they cite: the projection
  always is the projection of the live records, but for the owner columns, so rebuilding it changes no answer;
  explicit user evidence is only superseded by the user; and
  nothing that cites a forgotten prompt is kept or answered.
\<close>

section \<open>What happens to a store\<close>

definition forget_prompt :: "int \<Rightarrow> claim_db \<Rightarrow> claim_db" where
  "forget_prompt p db =
     snd (invalidate_prompt_claims p
       (db\<lparr>cd_forgotten := p # cd_forgotten db,
           cd_prompts := map (\<lambda>r. if sr_id r = p then r\<lparr>sr_body := []\<rparr> else r) (cd_prompts db)\<rparr>))"

text \<open>
  Adopting an identity (\<^verbatim>\<open>stamp_unscoped\<close>): the prompts an author's events captured and that have no owner yet
  get the author's; \<open>session\<close> stands for the session column, which becomes the run of a prompt without one.
  The authors come in whatever order SQLite lists them.
\<close>

definition stamp_author :: "(int \<Rightarrow> rstr option) \<Rightarrow> rstr \<Rightarrow> claim_db \<Rightarrow> claim_db" where
  "stamp_author session who db =
     (let ids = scope_ids_for_author (cd_names db) who
      in if si_principal_id ids = None \<and> si_device_id ids = None \<and> si_agent_id ids = None then db
         else db\<lparr>cd_prompts := map (\<lambda>p.
             if sr_principal_id p = None
                \<and> list_ex (\<lambda>e. ev_kind e = lit ''prompt'' \<and> ev_author e = who \<and> ev_prompt_id e = Some (sr_id p)) (cd_events db)
             then p\<lparr>sr_principal_id := si_principal_id ids, sr_device_id := si_device_id ids,
                    sr_agent_id := si_agent_id ids, sr_run_id := or_old (sr_run_id p) (session (sr_id p))\<rparr>
             else p) (cd_prompts db)\<rparr>)"

definition stamp_unscoped :: "(int \<Rightarrow> rstr option) \<Rightarrow> rstr list \<Rightarrow> claim_db \<Rightarrow> claim_db" where
  "stamp_unscoped session authors db = fold (stamp_author session) authors db"

text \<open>The scope a caller gave with a write, on the prompt of the event it appended.\<close>

definition stamp_scope :: "int \<Rightarrow> scope_filter \<Rightarrow> claim_db \<Rightarrow> claim_db" where
  "stamp_scope s f db =
     db\<lparr>cd_prompts := map (\<lambda>p.
         if Option.bind (find (\<lambda>e. ev_seq e = s) (cd_events db)) ev_prompt_id = Some (sr_id p)
         then p\<lparr>sr_principal_id := or_old (sr_principal_id p) (sf_principal f),
                sr_agent_id := or_old (sr_agent_id p) (sf_agent f), sr_run_id := or_old (sf_run f) (sr_run_id p),
                sr_org_id := or_old (sf_org f) (sr_org_id p), sr_project_path := or_old (sf_project f) (sr_project_path p)\<rparr>
         else p) (cd_prompts db)\<rparr>"

text \<open>
  Prompts are captured with fresh ids, stamped with their owners, and edited otherwise (a body compacted or
  restored, a role classified), which changes anything but the id; any event may be appended, principals and
  aliases are named, and runs come and go.  A claim may be retired under any name: the revert of a run does
  so under its own.
\<close>

inductive claim_step ::
  "sha_fn \<Rightarrow> (f64_bits \<Rightarrow> rstr) \<Rightarrow> (claim_write \<Rightarrow> rstr) \<Rightarrow> rstr \<Rightarrow> claim_db \<Rightarrow> claim_db \<Rightarrow> bool"
  for sha show_f64 enc author where
  wrote: "write_claim sha show_f64 enc author w t db = (res, db') \<Longrightarrow> claim_step sha show_f64 enc author db db'"
| retired: "retire_claim sha who i t db = (changed, db') \<Longrightarrow> claim_step sha show_f64 enc author db db'"
| forgot: "claim_step sha show_f64 enc author db (forget_prompt p db)"
| rebuilt: "rebuild_claim_projection db = (n, db') \<Longrightarrow> claim_step sha show_f64 enc author db db'"
| captured: "sr_id p \<notin> sr_id ` set (cd_prompts db) \<Longrightarrow> sr_id p \<notin> set (cd_forgotten db) \<Longrightarrow>
     claim_step sha show_f64 enc author db (db\<lparr>cd_prompts := cd_prompts db @ [p]\<rparr>)"
| stamped: "claim_step sha show_f64 enc author db (stamp_unscoped session authors db)"
| scoped: "claim_step sha show_f64 enc author db (stamp_scope s f db)"
| edited: "(\<And>p. sr_id (f p) = sr_id p) \<Longrightarrow>
     claim_step sha show_f64 enc author db (db\<lparr>cd_prompts := map f (cd_prompts db)\<rparr>)"
| appended: "claim_step sha show_f64 enc author db (db\<lparr>cd_events := snd (append_in_txn sha a (cd_events db))\<rparr>)"
| runs: "claim_step sha show_f64 enc author db (db\<lparr>cd_runs := rs\<rparr>)"
| named: "claim_step sha show_f64 enc author db (db\<lparr>cd_names := ns\<rparr>)"

definition no_claims :: claim_db where
  "no_claims = \<lparr>cd_names = \<lparr>pd_principals = [], pd_aliases = []\<rparr>, cd_prompts = [], cd_forgotten = [], cd_events = [],
     cd_runs = [], cd_journal = [], cd_records = [], cd_claims = [], cd_sources = []\<rparr>"

section \<open>The invariant\<close>

definition row_of :: "claim_db \<Rightarrow> claim_record \<Rightarrow> claim_row" where
  "row_of db r =
     (let w = the (rec_assertion r)
      in project_row w (rec_recorded_at r) (rec_event_seq r) (rec_retired_at r) (namespace_of db (hd (cw_sources w))))"

text \<open>
  A row without its owner columns.  A stamp can change the owner of a prompt after a claim that cites it was
  projected, so these columns are the only ones that may be out of date.
\<close>

definition unowned :: "claim_row \<Rightarrow> claim_row" where
  "unowned r = r\<lparr>cr_principal_id := None, cr_project_path := None\<rparr>"

definition bare_row :: "claim_record \<Rightarrow> claim_row" where
  "bare_row r = project_row (the (rec_assertion r)) (rec_recorded_at r) (rec_event_seq r) (rec_retired_at r) (None, None)"

lemma unowned_row_of [simp]: "unowned (row_of db r) = bare_row r"
  by (simp add: unowned_def row_of_def bare_row_def project_row_def Let_def)

lemma unowned_sel [simp]:
  "cr_id (unowned r) = cr_id r" "cr_subject (unowned r) = cr_subject r" "cr_predicate (unowned r) = cr_predicate r"
  "cr_assertion (unowned r) = cr_assertion r" "cr_recorded_at (unowned r) = cr_recorded_at r"
  "cr_event_seq (unowned r) = cr_event_seq r" "cr_valid_from (unowned r) = cr_valid_from r"
  "cr_valid_until (unowned r) = cr_valid_until r" "cr_retired_at (unowned r) = cr_retired_at r"
  by (simp_all add: unowned_def)

lemma unowned_ids: "map cr_id (map unowned rs) = map cr_id rs"
  by (simp add: comp_def)

text \<open>A live record: its citations stand, are indexed, and its supersessions respect the user's own words.\<close>

definition stands :: "claim_db \<Rightarrow> claim_record \<Rightarrow> claim_source \<Rightarrow> bool" where
  "stands db r s \<longleftrightarrow> (\<exists>p. prompt_of_seq db (cs_seq s) = Some p \<and> sr_id p \<notin> set (cd_forgotten db))
     \<and> (rec_id r, cs_chain_id s, cs_seq s) \<in> set (cd_sources db)"

definition user_said :: "claim_write \<Rightarrow> bool" where
  "user_said w \<longleftrightarrow> list_ex (\<lambda>s. cs_role s = ClaimUser) (cw_sources w)"

definition only_user :: "claim_write \<Rightarrow> bool" where
  "only_user w \<longleftrightarrow> cw_derivation w = Structured \<and> list_all (\<lambda>s. cs_role s = ClaimUser) (cw_sources w)"

definition honours :: "claim_db \<Rightarrow> claim_record \<Rightarrow> claim_write \<Rightarrow> bool" where
  "honours db r w \<longleftrightarrow>
     (\<forall>i\<in>set (cw_supersedes w). \<exists>x\<in>set (cd_records db). rec_id x = i \<and> rec_event_seq x < rec_event_seq r
        \<and> (\<forall>old. rec_assertion x = Some old \<longrightarrow>
             cw_subject old = cw_subject w \<and> cw_predicate old = cw_predicate w \<and> cw_scope old = cw_scope w
             \<and> (user_said old \<longrightarrow> only_user w)))"

definition live_ok :: "claim_db \<Rightarrow> claim_record \<Rightarrow> bool" where
  "live_ok db r \<longleftrightarrow>
     (\<exists>w. rec_assertion r = Some w \<and> cw_id w = rec_id r \<and> cw_sources w \<noteq> [] \<and> (\<forall>s\<in>set (cw_sources w). stands db r s)
        \<and> honours db r w)"

definition indexed :: "claim_db \<Rightarrow> rstr \<times> rstr \<times> int \<Rightarrow> bool" where
  "indexed db x \<longleftrightarrow>
     (\<exists>r\<in>set (cd_records db). rec_id r = fst x
        \<and> (\<not> rec_invalidated r \<longrightarrow> snd x \<in> (\<lambda>s. (cs_chain_id s, cs_seq s)) ` set (cw_sources (the (rec_assertion r)))))"

definition claims_ok :: "sha_fn \<Rightarrow> claim_db \<Rightarrow> bool" where
  "claims_ok sha db \<longleftrightarrow> sound_chain sha (cd_events db)
     \<and> distinct (map rec_id (cd_records db)) \<and> distinct (map cr_id (cd_claims db))
     \<and> (\<forall>r\<in>set (cd_records db). rec_event_seq r \<le> int (length (cd_events db))
          \<and> (if rec_invalidated r then rec_assertion r = None else live_ok db r))
     \<and> unowned ` set (cd_claims db) = bare_row ` {r \<in> set (cd_records db). \<not> rec_invalidated r}
     \<and> (\<forall>x\<in>set (cd_sources db). indexed db x)"

lemma claims_okD:
  assumes "claims_ok sha db"
  shows "sound_chain sha (cd_events db)" "distinct (map rec_id (cd_records db))" "distinct (map cr_id (cd_claims db))"
    "\<And>r. r \<in> set (cd_records db) \<Longrightarrow> rec_event_seq r \<le> int (length (cd_events db))"
    "\<And>r. r \<in> set (cd_records db) \<Longrightarrow> rec_invalidated r \<Longrightarrow> rec_assertion r = None"
    "\<And>r. r \<in> set (cd_records db) \<Longrightarrow> \<not> rec_invalidated r \<Longrightarrow> live_ok db r"
    "unowned ` set (cd_claims db) = bare_row ` {r \<in> set (cd_records db). \<not> rec_invalidated r}"
    "\<And>x. x \<in> set (cd_sources db) \<Longrightarrow> indexed db x"
  using assms by (auto simp: claims_ok_def)

lemma sound_seqs: "sound_chain sha rows \<Longrightarrow> distinct (map ev_seq rows)"
  by (simp add: sound_chain_def contiguous_def)

section \<open>Prompts behind numbers\<close>

text \<open>A store extends another when every number that was a prompt's still is that prompt's.\<close>

definition extends :: "claim_db \<Rightarrow> claim_db \<Rightarrow> bool" where
  "extends db db' \<longleftrightarrow> (\<forall>s p. prompt_of_seq db s = Some p \<longrightarrow> (\<exists>p'. prompt_of_seq db' s = Some p' \<and> sr_id p' = sr_id p))"

lemma extends_refl: "cd_events db' = cd_events db \<Longrightarrow> cd_prompts db' = cd_prompts db \<Longrightarrow> extends db db'"
  by (simp add: extends_def prompt_of_seq_def)

lemma find_append_Some: "find P xs = Some x \<Longrightarrow> find P (xs @ ys) = Some x"
  by (induction xs) (auto split: if_splits)

lemma extends_events:
  assumes "cd_events db' = cd_events db @ es" "cd_prompts db' = cd_prompts db"
  shows "extends db db'"
  using assms by (auto simp: extends_def prompt_of_seq_def bind_eq_Some_conv dest: find_append_Some)

lemma extends_prompts:
  assumes "cd_events db' = cd_events db" "cd_prompts db' = cd_prompts db @ ps"
  shows "extends db db'"
  using assms by (auto simp: extends_def prompt_of_seq_def bind_eq_Some_conv dest: find_append_Some)

lemma extends_edit:
  assumes "cd_events db' = cd_events db" "cd_prompts db' = map f (cd_prompts db)" "\<And>p. sr_id (f p) = sr_id p"
  shows "extends db db'"
proof -
  have "find (\<lambda>p. sr_id p = i) (map f rs) = map_option f (find (\<lambda>p. sr_id p = i) rs)" for i and rs :: "source_row list"
    by (induction rs) (simp_all add: assms(3))
  then have "prompt_of_seq db' s = map_option f (prompt_of_seq db s)" for s
    by (cases "find (\<lambda>e. ev_seq e = s \<and> ev_kind e = lit ''prompt'') (cd_events db)")
      (simp_all add: prompt_of_seq_def assms(1,2) map_conv_bind_option comp_def)
  then show ?thesis by (simp add: extends_def assms(3))
qed

text \<open>The stamps are edits.\<close>

lemma stamp_author_edit:
  "\<exists>f. stamp_author session who db = db\<lparr>cd_prompts := map f (cd_prompts db)\<rparr> \<and> (\<forall>p :: source_row. sr_id (f p) = sr_id p)"
proof (cases "si_principal_id (scope_ids_for_author (cd_names db) who) = None
    \<and> si_device_id (scope_ids_for_author (cd_names db) who) = None \<and> si_agent_id (scope_ids_for_author (cd_names db) who) = None")
  case True
  then show ?thesis by (intro exI [of _ id]) (simp add: stamp_author_def Let_def)
next
  case False
  show ?thesis unfolding stamp_author_def Let_def if_not_P [OF False] by (rule exI, rule conjI, rule refl) simp
qed

lemma stamp_scope_edit:
  "\<exists>f. stamp_scope s g db = db\<lparr>cd_prompts := map f (cd_prompts db)\<rparr> \<and> (\<forall>p :: source_row. sr_id (f p) = sr_id p)"
  unfolding stamp_scope_def by (rule exI, rule conjI, rule refl) simp

lemma stands_extends:
  assumes "stands db r s" "extends db db'" "set (cd_sources db) \<subseteq> set (cd_sources db')"
    and "\<And>p. p \<in> set (cd_forgotten db') \<Longrightarrow> p \<notin> set (cd_forgotten db) \<Longrightarrow>
      \<forall>q. prompt_of_seq db (cs_seq s) = Some q \<longrightarrow> sr_id q \<noteq> p"
  shows "stands db' r s"
  using assms by (fastforce simp: stands_def extends_def)

lemma honours_mono:
  assumes "honours db r w" "set (cd_records db) \<subseteq> set (cd_records db')"
  shows "honours db' r w"
  using assms unfolding honours_def by (meson subsetD)

text \<open>Steps that touch neither the records nor their projection.\<close>

lemma ok_around:
  assumes ok: "claims_ok sha db" and ext: "extends db db'" and snd: "sound_chain sha (cd_events db')"
    and more: "length (cd_events db) \<le> length (cd_events db')"
    and same: "cd_records db' = cd_records db" "cd_claims db' = cd_claims db" "cd_sources db' = cd_sources db"
      "cd_forgotten db' = cd_forgotten db"
  shows "claims_ok sha db'"
proof -
  note d = claims_okD [OF ok]
  have live: "live_ok db' r" if "r \<in> set (cd_records db)" "\<not> rec_invalidated r" for r
  proof -
    note live = d(6) [OF that]
    obtain w where w: "rec_assertion r = Some w" "cw_id w = rec_id r" "cw_sources w \<noteq> []"
      "\<forall>s\<in>set (cw_sources w). stands db r s" "honours db r w"
      using live by (auto simp: live_ok_def)
    moreover have "honours db' r w" by (rule honours_mono [OF w(5)]) (simp add: same)
    moreover have "stands db' r s" if "s \<in> set (cw_sources w)" for s
      by (rule stands_extends [OF _ ext]) (use w(4) that same in auto)
    ultimately show ?thesis unfolding live_ok_def by blast
  qed
  have "indexed db' x" if "x \<in> set (cd_sources db)" for x using d(8) [OF that] by (simp add: indexed_def same)
  moreover have "rec_event_seq r \<le> int (length (cd_events db'))" if "r \<in> set (cd_records db)" for r
    using d(4) [OF that] more by linarith
  ultimately show ?thesis
    unfolding claims_ok_def same using d snd live by auto
qed

section \<open>Writing keeps the invariant\<close>

lemma set_cites: "set (fold (cite_source i) ss xs) = set xs \<union> (\<lambda>s. (i, cs_chain_id s, cs_seq s)) ` set ss"
  by (induction ss arbitrary: xs) (auto simp: cite_source_def)

lemma first_error_None: "first_error f xs = None \<longleftrightarrow> (\<forall>x\<in>set xs. f x = None)"
  by (induction xs) (auto split: option.splits)

lemma sources_accepted:
  "sources_refused show_f64 db w ns ss = None \<Longrightarrow> s \<in> set ss \<Longrightarrow> source_refused show_f64 db w s = None"
  by (induction ss arbitrary: ns) (auto split: option.splits if_splits)

lemma source_accepted:
  assumes "source_refused show_f64 db w s = None"
  obtains p where "prompt_of_seq db (cs_seq s) = Some p" "sr_id p \<notin> set (cd_forgotten db)"
  using assms by (auto simp: source_refused_def cited_prompt_def split: option.splits if_splits)

lemma claim_row_record:
  assumes ok: "claims_ok sha db" and r: "row \<in> set (cd_claims db)"
  obtains x w where "x \<in> set (cd_records db)" "\<not> rec_invalidated x" "rec_id x = cr_id row" "rec_assertion x = Some w"
    "cr_assertion row = w"
proof -
  note d = claims_okD [OF ok]
  have "unowned row \<in> bare_row ` {r \<in> set (cd_records db). \<not> rec_invalidated r}"
    unfolding d(7) [symmetric] by (rule imageI [OF r])
  then obtain x where x: "x \<in> set (cd_records db)" "\<not> rec_invalidated x" "unowned row = bare_row x" by auto
  obtain w where w: "rec_assertion x = Some w" "cw_id w = rec_id x" using d(6) [OF x(1,2)] unfolding live_ok_def by blast
  have "cr_id (unowned row) = cw_id w" "cr_assertion (unowned row) = w"
    unfolding x(3) by (simp_all add: bare_row_def project_row_def w(1))
  then show ?thesis by (intro that [OF x(1,2) _ w(1)]) (use w(2) in simp_all)
qed

lemma written_claim:
  assumes "write_claim sha show_f64 enc author w t db = (res, db')" "db' \<noteq> db"
  obtains ev rows new ns where
    "append_in_txn sha (claim_append sha ''claim'' author t (cw_id w) (enc w)) (cd_events db) = (ev, rows)"
    "new = \<lparr>rec_id = cw_id w, rec_event_seq = ev_seq ev, rec_recorded_at = t, rec_assertion = Some w,
       rec_retired_at = None, rec_invalidated = False\<rparr>"
    "cd_events db' = rows" "cd_records db' = cd_records db @ [new]" "cw_id w \<notin> rec_id ` set (cd_records db)"
    "ns = namespace_of db (hd (cw_sources w))"
    "cd_claims db' = cd_claims db @ [project_row w t (ev_seq ev) None ns]"
    "cd_sources db' = fold (cite_source (cw_id w)) (cw_sources w) (cd_sources db)"
    "cd_prompts db' = cd_prompts db" "cd_forgotten db' = cd_forgotten db" "cd_names db' = cd_names db"
    "evidence_refused show_f64 w t db = None" "cw_sources w \<noteq> []"
proof -
  obtain ev rows where ev: "append_in_txn sha (claim_append sha ''claim'' author t (cw_id w) (enc w)) (cd_events db) = (ev, rows)"
    by fastforce
  have jc: "cd_events (journal_claim q i n d) = cd_events d" "cd_records (journal_claim q i n d) = cd_records d"
    "cd_claims (journal_claim q i n d) = cd_claims d" "cd_sources (journal_claim q i n d) = cd_sources d"
    "cd_prompts (journal_claim q i n d) = cd_prompts d" "cd_forgotten (journal_claim q i n d) = cd_forgotten d"
    "cd_names (journal_claim q i n d) = cd_names d" for q i n d
    by (simp_all add: journal_claim_def split: option.splits)
  have ref: "write_refused show_f64 enc w = None"
    using assms by (cases "write_refused show_f64 enc w") (simp_all add: write_claim_def)
  have free: "find (\<lambda>r. rec_id r = cw_id w \<and> \<not> rec_invalidated r) (cd_records db) = None"
    using assms ref by (cases "find (\<lambda>r. rec_id r = cw_id w \<and> \<not> rec_invalidated r) (cd_records db)") (simp_all add: write_claim_def)
  have evi: "evidence_refused show_f64 w t db = None"
    using assms ref free by (cases "evidence_refused show_f64 w t db") (simp_all add: write_claim_def)
  obtain n where ins: "insert_claim sha enc author w t db = Some (n, db')"
    using assms ref free evi by (cases "insert_claim sha enc author w t db") (auto simp: write_claim_def)
  define new where "new = \<lparr>rec_id = cw_id w, rec_event_seq = ev_seq ev, rec_recorded_at = t, rec_assertion = Some w,
       rec_retired_at = None, rec_invalidated = False\<rparr>"
  define ns where "ns = namespace_of db (hd (cw_sources w))"
  define db1 where "db1 = db\<lparr>cd_events := rows, cd_records := cd_records db @ [new],
      cd_claims := cd_claims db @ [project_row w t (ev_seq ev) None ns],
      cd_sources := fold (cite_source (cw_id w)) (cw_sources w) (cd_sources db)\<rparr>"
  have fresh: "cw_id w \<notin> rec_id ` set (cd_records db)"
    using ins by (cases "list_ex (\<lambda>r. rec_id r = cw_id w) (cd_records db)") (auto simp: insert_claim_def ev list_ex_iff)
  have no: "list_ex (\<lambda>r. rec_id r = cw_id w) (cd_records db) = False" using fresh by (force simp: list_ex_iff)
  have "claim_row_of (db\<lparr>cd_events := rows, cd_records := cd_records db @ [new]\<rparr>) (cw_id w) = None"
    using ins by (cases "claim_row_of (db\<lparr>cd_events := rows, cd_records := cd_records db @ [new]\<rparr>) (cw_id w)")
      (simp_all add: insert_claim_def ev no project_def new_def)
  then have "db' = (if cw_derivation w = Gardener then journal_claim (cw_organizer_run w) (cw_id w) (ev_seq ev) db1 else db1)"
    using ins by (cases "cw_derivation w = Gardener") (auto simp: insert_claim_def ev no project_def new_def db1_def ns_def)
  then have out: "cd_events db' = rows" "cd_records db' = cd_records db @ [new]"
    "cd_claims db' = cd_claims db @ [project_row w t (ev_seq ev) None ns]"
    "cd_sources db' = fold (cite_source (cw_id w)) (cw_sources w) (cd_sources db)"
    "cd_prompts db' = cd_prompts db" "cd_forgotten db' = cd_forgotten db" "cd_names db' = cd_names db"
    by (simp_all add: jc db1_def)
  have "cw_sources w \<noteq> []"
    using ref by (cases "cw_sources w") (simp_all add: write_refused_def claim_malformed_def split: if_splits)
  then show ?thesis by (rule that [OF ev new_def out(1,2) fresh ns_def out(3-7) evi])
qed

lemma ok_written:
  assumes ok: "claims_ok sha db" and wr: "write_claim sha show_f64 enc author w t db = (res, db')"
  shows "claims_ok sha db'"
proof (cases "db' = db")
  case False
  note d = claims_okD [OF ok]
  obtain ev rows new ns where ev: "append_in_txn sha (claim_append sha ''claim'' author t (cw_id w) (enc w)) (cd_events db) = (ev, rows)"
    and new: "new = \<lparr>rec_id = cw_id w, rec_event_seq = ev_seq ev, rec_recorded_at = t, rec_assertion = Some w,
       rec_retired_at = None, rec_invalidated = False\<rparr>"
    and db': "cd_events db' = rows" "cd_records db' = cd_records db @ [new]" "cw_id w \<notin> rec_id ` set (cd_records db)"
      "ns = namespace_of db (hd (cw_sources w))"
      "cd_claims db' = cd_claims db @ [project_row w t (ev_seq ev) None ns]"
      "cd_sources db' = fold (cite_source (cw_id w)) (cw_sources w) (cd_sources db)"
      "cd_prompts db' = cd_prompts db" "cd_forgotten db' = cd_forgotten db" "cd_names db' = cd_names db"
      "evidence_refused show_f64 w t db = None" "cw_sources w \<noteq> []"
    by (rule written_claim [OF wr False])
  define a where "a = claim_append sha ''claim'' author t (cw_id w) (enc w)"
  have ap: "append_in_txn sha a (cd_events db) = (ev, rows)" by (simp add: a_def ev)
  have rows: "rows = cd_events db @ [ev]" using append_in_txn_rows [of sha a "cd_events db"] by (simp add: ap)
  have head: "ev_seq ev = int (length (cd_events db)) + 1"
    using append_in_txn_row(1) [of sha a "cd_events db"] contiguous_head d(1) by (simp add: ap sound_chain_def)
  have snd: "sound_chain sha rows" using sound_append [OF d(1), of a] by (simp add: ap)
  have ext: "extends db db'" by (rule extends_events [OF _ db'(7)]) (simp add: db'(1) rows)
  have accepted: "sources_refused show_f64 db w None (cw_sources w) = None"
    "\<forall>i\<in>set (cw_supersedes w). relation_refused db w ns t i = None"
    using db'(10) by (auto simp: evidence_refused_def first_error_None db'(4) split: if_splits option.splits)
  have subs: "set (cd_sources db) \<subseteq> set (cd_sources db')" by (auto simp: db'(6) set_cites)
  have live: "live_ok db' r" if r: "r \<in> set (cd_records db)" "\<not> rec_invalidated r" for r
  proof -
    note lv = d(6) [OF r]
    obtain v where v: "rec_assertion r = Some v" "cw_id v = rec_id r" "cw_sources v \<noteq> []"
      "\<forall>s\<in>set (cw_sources v). stands db r s" "honours db r v"
      using lv by (auto simp: live_ok_def)
    moreover have "honours db' r v" by (rule honours_mono [OF v(5)]) (auto simp: db'(2))
    moreover have "stands db' r s" if "s \<in> set (cw_sources v)" for s
      by (rule stands_extends [OF _ ext subs]) (use v(4) that db'(8) in auto)
    ultimately show ?thesis unfolding live_ok_def by blast
  qed
  have "stands db' new s" if s: "s \<in> set (cw_sources w)" for s
  proof -
    obtain p where "prompt_of_seq db (cs_seq s) = Some p" "sr_id p \<notin> set (cd_forgotten db)"
      using source_accepted [OF sources_accepted [OF accepted(1) s]] by blast
    then show ?thesis using ext s by (auto simp: stands_def extends_def db'(6,8) set_cites new) (metis (no_types, lifting))+
  qed
  moreover have "honours db' new w" unfolding honours_def
  proof
    fix i assume i: "i \<in> set (cw_supersedes w)"
    then obtain row where row: "claim_row_of db i = Some row" using accepted(2) by (auto simp: relation_refused_def split: option.splits)
    then have "row \<in> set (cd_claims db)" "cr_id row = i" by (auto simp: claim_row_of_def find_Some_iff)
    then obtain x v where x: "x \<in> set (cd_records db)" "rec_id x = i" "rec_assertion x = Some v" "cr_assertion row = v"
      by (elim claim_row_record [OF ok]) simp
    have "cw_subject v = cw_subject w \<and> cw_predicate v = cw_predicate w \<and> cw_scope v = cw_scope w \<and> (user_said v \<longrightarrow> only_user w)"
      using accepted(2) i row x(4) by (auto simp: relation_refused_def Let_def user_said_def only_user_def split: if_splits)
    moreover have "rec_event_seq x < rec_event_seq new" using d(4) [OF x(1)] by (simp add: new head)
    ultimately show "\<exists>x\<in>set (cd_records db'). rec_id x = i \<and> rec_event_seq x < rec_event_seq new
        \<and> (\<forall>old. rec_assertion x = Some old \<longrightarrow> cw_subject old = cw_subject w \<and> cw_predicate old = cw_predicate w
             \<and> cw_scope old = cw_scope w \<and> (user_said old \<longrightarrow> only_user w))"
      using x by (intro bexI [of _ x]) (auto simp: db'(2))
  qed
  ultimately have lnew: "live_ok db' new" using db'(11) by (simp add: live_ok_def new)
  have rnew: "bare_row new = unowned (project_row w t (ev_seq ev) None ns)"
    by (simp add: bare_row_def unowned_def project_row_def new)
  have split: "{r \<in> set (cd_records db'). \<not> rec_invalidated r} = insert new {r \<in> set (cd_records db). \<not> rec_invalidated r}"
    by (auto simp: db'(2) new)
  have "cw_id w \<notin> cr_id ` set (cd_claims db)"
  proof
    assume "cw_id w \<in> cr_id ` set (cd_claims db)"
    then obtain row where row: "row \<in> set (cd_claims db)" "cr_id row = cw_id w" by auto
    obtain x where "x \<in> set (cd_records db)" "rec_id x = cr_id row" by (rule claim_row_record [OF ok row(1)])
    then show False using db'(3) row(2) by (metis imageI)
  qed
  then have ids: "distinct (map cr_id (cd_claims db'))" using d(3) by (simp add: db'(5) project_row_def)
  have "unowned ` set (cd_claims db') = bare_row ` {r \<in> set (cd_records db'). \<not> rec_invalidated r}"
    unfolding split image_insert rnew using d(7) by (simp add: db'(5))
  moreover have "indexed db' x" if at: "x \<in> set (cd_sources db')" for x
  proof -
    consider "x \<in> set (cd_sources db)" | s where "s \<in> set (cw_sources w)" "x = (cw_id w, cs_chain_id s, cs_seq s)"
      using at by (auto simp: db'(6) set_cites)
    then show ?thesis
    proof cases
      case 1
      then show ?thesis using d(8) unfolding indexed_def by (auto simp: db'(2))
    next
      case 2
      then show ?thesis unfolding indexed_def by (intro bexI [of _ new]) (auto simp: db'(2) new)
    qed
  qed
  moreover have "rec_event_seq r \<le> int (length rows) \<and> (if rec_invalidated r then rec_assertion r = None else live_ok db' r)"
    if "r \<in> set (cd_records db')" for r
    using that d(4,5) live lnew by (fastforce simp: db'(2) rows new head)
  ultimately show ?thesis
    unfolding claims_ok_def using snd d(2) db'(3) ids by (auto simp: db'(1,2) new)
qed (use ok in simp)

section \<open>Retiring and forgetting keep it\<close>

lemma live_ok_cong:
  assumes "rec_id r' = rec_id r" "rec_event_seq r' = rec_event_seq r" "rec_assertion r' = rec_assertion r"
  shows "live_ok db r' = live_ok db r"
  by (simp add: live_ok_def stands_def honours_def assms)

text \<open>Records changed in place: retired, or emptied and invalidated.\<close>

lemma ok_mapped:
  assumes ok: "claims_ok sha db" and ext: "extends db db'" and snd: "sound_chain sha (cd_events db')"
    and more: "length (cd_events db) \<le> length (cd_events db')"
    and recs: "cd_records db' = map f (cd_records db)" and srcs: "cd_sources db' = cd_sources db"
    and f: "\<And>r. r \<in> set (cd_records db) \<Longrightarrow> rec_id (f r) = rec_id r \<and> rec_event_seq (f r) = rec_event_seq r
      \<and> (if rec_invalidated (f r) then rec_assertion (f r) = None
         else \<not> rec_invalidated r \<and> rec_assertion (f r) = rec_assertion r)"
    and gone: "\<And>r s p. r \<in> set (cd_records db) \<Longrightarrow> \<not> rec_invalidated (f r) \<Longrightarrow>
      s \<in> set (cw_sources (the (rec_assertion r))) \<Longrightarrow> prompt_of_seq db (cs_seq s) = Some p \<Longrightarrow>
      sr_id p \<notin> set (cd_forgotten db) \<Longrightarrow> sr_id p \<notin> set (cd_forgotten db')"
    and ids: "distinct (map cr_id (cd_claims db'))"
    and rows: "unowned ` set (cd_claims db') = bare_row ` f ` {r \<in> set (cd_records db). \<not> rec_invalidated (f r)}"
  shows "claims_ok sha db'"
proof -
  note d = claims_okD [OF ok]
  have kept: "live_ok db (f r)" if "r \<in> set (cd_records db)" "\<not> rec_invalidated (f r)" for r
    using live_ok_cong [of "f r" r db] f [OF that(1)] d(6) [OF that(1)] that(2) by simp
  have live: "live_ok db' (f r)" if r: "r \<in> set (cd_records db)" "\<not> rec_invalidated (f r)" for r
  proof -
    note lv = kept [OF r]
    obtain w where w: "rec_assertion (f r) = Some w" "cw_id w = rec_id (f r)" "cw_sources w \<noteq> []"
      "\<forall>s\<in>set (cw_sources w). stands db (f r) s" "honours db (f r) w"
      using lv by (auto simp: live_ok_def)
    have same: "rec_assertion r = Some w" using f [OF r(1)] r(2) w(1) by simp
    have "stands db' (f r) s" if s: "s \<in> set (cw_sources w)" for s
    proof -
      obtain p where p: "prompt_of_seq db (cs_seq s) = Some p" "sr_id p \<notin> set (cd_forgotten db)"
        "(rec_id (f r), cs_chain_id s, cs_seq s) \<in> set (cd_sources db)"
        using w(4) s by (auto simp: stands_def)
      moreover have "sr_id p \<notin> set (cd_forgotten db')" using gone [OF r _ p(1,2)] s same by simp
      ultimately show ?thesis using ext unfolding stands_def extends_def srcs by metis
    qed
    moreover have "honours db' (f r) w"
      unfolding honours_def
    proof
      fix i assume "i \<in> set (cw_supersedes w)"
      then obtain x where x: "x \<in> set (cd_records db)" "rec_id x = i" "rec_event_seq x < rec_event_seq (f r)"
        "\<forall>old. rec_assertion x = Some old \<longrightarrow> cw_subject old = cw_subject w \<and> cw_predicate old = cw_predicate w
           \<and> cw_scope old = cw_scope w \<and> (user_said old \<longrightarrow> only_user w)"
        using w(5) by (auto simp: honours_def)
      have "rec_assertion (f x) = None \<or> rec_assertion (f x) = rec_assertion x" using f [OF x(1)] by metis
      then show "\<exists>x\<in>set (cd_records db'). rec_id x = i \<and> rec_event_seq x < rec_event_seq (f r)
          \<and> (\<forall>old. rec_assertion x = Some old \<longrightarrow> cw_subject old = cw_subject w \<and> cw_predicate old = cw_predicate w
               \<and> cw_scope old = cw_scope w \<and> (user_said old \<longrightarrow> only_user w))"
        using x f [OF x(1)] by (intro bexI [of _ "f x"]) (auto simp: recs)
    qed
    ultimately show ?thesis unfolding live_ok_def using w by blast
  qed
  have split: "{r \<in> set (cd_records db'). \<not> rec_invalidated r} = f ` {r \<in> set (cd_records db). \<not> rec_invalidated (f r)}"
    by (auto simp: recs)
  have "unowned ` set (cd_claims db') = bare_row ` {r \<in> set (cd_records db'). \<not> rec_invalidated r}"
    unfolding split by (rule rows)
  moreover have "indexed db' x" if at: "x \<in> set (cd_sources db')" for x
  proof -
    obtain r where r: "r \<in> set (cd_records db)" "rec_id r = fst x"
      "\<not> rec_invalidated r \<longrightarrow> snd x \<in> (\<lambda>s. (cs_chain_id s, cs_seq s)) ` set (cw_sources (the (rec_assertion r)))"
      using d(8) [of x] at unfolding srcs indexed_def by blast
    then show ?thesis unfolding indexed_def using f [OF r(1)] by (intro bexI [of _ "f r"]) (auto simp: recs split: if_splits)
  qed
  moreover have "map rec_id (cd_records db') = map rec_id (cd_records db)" using f by (simp add: recs)
  moreover have "rec_event_seq r \<le> int (length (cd_events db')) \<and> (if rec_invalidated r then rec_assertion r = None else live_ok db' r)"
    if at: "r \<in> set (cd_records db')" for r
  proof -
    obtain q where q: "q \<in> set (cd_records db)" "r = f q" using at by (auto simp: recs)
    then show ?thesis using f [OF q(1)] live [OF q(1)] d(4) [OF q(1)] more by (auto split: if_splits)
  qed
  ultimately show ?thesis unfolding claims_ok_def using snd d(2) ids by simp
qed

lemma bare_row_live:
  assumes "live_ok db r"
  shows "cr_id (bare_row r) = rec_id r" "cr_recorded_at (bare_row r) = rec_recorded_at r"
    "cr_retired_at (bare_row r) = rec_retired_at r"
  using assms by (auto simp: live_ok_def bare_row_def project_row_def)

lemma ok_retired:
  assumes ok: "claims_ok sha db" and re: "retire_claim sha who i t db = (changed, db')"
  shows "claims_ok sha db'"
proof -
  note d = claims_okD [OF ok]
  define f where "f r = (if rec_id r = i \<and> rec_retired_at r = None \<and> rec_recorded_at r \<le> t then r\<lparr>rec_retired_at := Some t\<rparr> else r)"
    for r :: claim_record
  define g where "g r = (if cr_id r = i \<and> cr_retired_at r = None \<and> cr_recorded_at r \<le> t then r\<lparr>cr_retired_at := Some t\<rparr> else r)"
    for r :: claim_row
  define a where "a = claim_append sha ''claim_retired'' who t i i"
  have f: "rec_id (f r) = rec_id r" "rec_event_seq (f r) = rec_event_seq r" "rec_assertion (f r) = rec_assertion r"
    "rec_invalidated (f r) = rec_invalidated r" for r by (simp_all add: f_def)
  have new: "cd_records db' = map f (cd_records db)" "cd_claims db' = map g (cd_claims db)" "cd_sources db' = cd_sources db"
    "cd_forgotten db' = cd_forgotten db" "cd_prompts db' = cd_prompts db"
    "cd_events db' = (if changed then snd (append_in_txn sha a (cd_events db)) else cd_events db)"
    using re by (auto simp: retire_claim_def Let_def f_def [abs_def] g_def [abs_def] a_def)
  have grow: "\<exists>es. cd_events db' = cd_events db @ es" by (simp add: new(6) append_in_txn_rows)
  have gf: "g (bare_row r) = bare_row (f r)" if "r \<in> set (cd_records db)" "\<not> rec_invalidated r" for r
    using bare_row_live [OF d(6) [OF that]] by (simp add: g_def f_def) (simp add: bare_row_def project_row_def)
  have gu: "unowned (g r) = g (unowned r)" for r by (simp add: g_def) (simp add: unowned_def)
  have "unowned ` set (cd_claims db') = g ` unowned ` set (cd_claims db)"
    unfolding new(2) set_map image_image gu ..
  also have "\<dots> = bare_row ` f ` {r \<in> set (cd_records db). \<not> rec_invalidated r}"
    unfolding d(7) image_image by (rule image_cong) (simp_all add: gf f)
  finally have "unowned ` set (cd_claims db') = bare_row ` f ` {r \<in> set (cd_records db). \<not> rec_invalidated r}" .
  moreover have "map cr_id (cd_claims db') = map cr_id (cd_claims db)" by (simp add: new(2) g_def)
  ultimately show ?thesis
    using d(3,5) grow extends_events [OF _ new(5)] sound_append [OF d(1)] d(1)
    by (intro ok_mapped [OF ok _ _ _ new(1,3)]) (auto simp: f new(4) new(6))
qed

lemma cites_prompt_intro:
  assumes "prompt_of_seq db (cs_seq s) = Some p" "(i, cs_chain_id s, cs_seq s) \<in> set (cd_sources db)"
  shows "cites_prompt db (sr_id p) i"
proof -
  obtain e where "e \<in> set (cd_events db)" "ev_seq e = cs_seq s" "ev_kind e = lit ''prompt''" "ev_prompt_id e = Some (sr_id p)"
    using assms(1) by (auto simp: prompt_of_seq_def bind_eq_Some_conv find_Some_iff) (metis nth_mem)
  then show ?thesis using assms(2) by (auto simp: cites_prompt_def list_ex_iff)
qed

lemma ok_forgot:
  assumes ok: "claims_ok sha db"
  shows "claims_ok sha (forget_prompt p db)"
proof -
  note d = claims_okD [OF ok]
  define f where "f r = (if cites_prompt db p (rec_id r) then r\<lparr>rec_assertion := None, rec_invalidated := True\<rparr> else r)"
    for r :: claim_record
  define db' where "db' = forget_prompt p db"
  have new: "cd_records db' = map f (cd_records db)" "cd_claims db' = filter (\<lambda>r. \<not> cites_prompt db p (cr_id r)) (cd_claims db)"
    "cd_sources db' = cd_sources db" "cd_forgotten db' = p # cd_forgotten db" "cd_events db' = cd_events db"
    "cd_prompts db' = map (\<lambda>r. if sr_id r = p then r\<lparr>sr_body := []\<rparr> else r) (cd_prompts db)"
    by (simp_all add: db'_def forget_prompt_def invalidate_prompt_claims_def cites_prompt_def f_def [abs_def])
  have inv: "rec_invalidated (f r) \<longleftrightarrow> cites_prompt db p (rec_id r) \<or> rec_invalidated r" for r by (simp add: f_def)
  have "unowned ` set (cd_claims db') = {r \<in> unowned ` set (cd_claims db). \<not> cites_prompt db p (cr_id r)}"
    by (auto simp: new(2))
  also have "\<dots> = bare_row ` {r \<in> set (cd_records db). \<not> rec_invalidated r \<and> \<not> cites_prompt db p (rec_id r)}"
    unfolding d(7) using bare_row_live(1) [OF d(6)] by auto
  also have "\<dots> = bare_row ` f ` {r \<in> set (cd_records db). \<not> rec_invalidated (f r)}"
    unfolding image_image inv by (rule image_cong) (auto simp: f_def)
  finally have rows: "unowned ` set (cd_claims db') = bare_row ` f ` {r \<in> set (cd_records db). \<not> rec_invalidated (f r)}" .
  have "claims_ok sha db'"
  proof (rule ok_mapped [OF ok _ _ _ new(1,3) _ _ _ rows])
    show "extends db db'" by (rule extends_edit [OF new(5,6)]) simp
    show "distinct (map cr_id (cd_claims db'))" using d(3) by (simp add: new(2) distinct_map_filter)
    show "sr_id q \<notin> set (cd_forgotten db')"
      if r: "r \<in> set (cd_records db)" "\<not> rec_invalidated (f r)" and s: "s \<in> set (cw_sources (the (rec_assertion r)))"
        and q: "prompt_of_seq db (cs_seq s) = Some q" "sr_id q \<notin> set (cd_forgotten db)" for r s q
    proof -
      have "\<not> rec_invalidated r" "\<not> cites_prompt db p (rec_id r)" using r(2) by (simp_all add: inv)
      moreover from this have "(rec_id r, cs_chain_id s, cs_seq s) \<in> set (cd_sources db)"
        using d(6) [OF r(1)] s by (auto simp: live_ok_def stands_def)
      ultimately show ?thesis using cites_prompt_intro [OF q(1)] q(2) by (auto simp: new(4))
    qed
  qed (use d(1,5) in \<open>auto simp: new f_def\<close>)
  then show ?thesis by (simp add: db'_def)
qed

section \<open>Rebuilding the projection\<close>

lemma find_by_key:
  "find (\<lambda>e. k e = q \<and> P e) es = Some x \<Longrightarrow> distinct (map k es) \<Longrightarrow> find (\<lambda>e. k e = q) es = Some x"
proof (induction es)
  case (Cons e es)
  then show ?case
  proof (cases "k e = q")
    case True
    then have "find (\<lambda>e. k e = q \<and> P e) es \<noteq> Some x"
      using Cons.prems(2) by (auto simp: find_Some_iff) (metis imageI nth_mem)
    then show ?thesis using Cons.prems True by (auto split: if_splits)
  qed auto
qed simp

lemma owner_of_seq_prompt:
  assumes "distinct (map ev_seq (cd_events db))" "prompt_of_seq db (cs_seq s) \<noteq> None"
  shows "owner_of_seq db (cs_seq s) = Some (namespace_of db s)"
proof -
  obtain e where e: "find (\<lambda>e. ev_seq e = cs_seq s \<and> ev_kind e = lit ''prompt'') (cd_events db) = Some e"
    using assms(2) by (cases "find (\<lambda>e. ev_seq e = cs_seq s \<and> ev_kind e = lit ''prompt'') (cd_events db)")
      (auto simp: prompt_of_seq_def)
  have "find (\<lambda>e. ev_seq e = cs_seq s) (cd_events db) = Some e" by (rule find_by_key [OF e assms(1)])
  with assms(2) e show ?thesis
    by (cases "ev_prompt_id e") (auto simp: owner_of_seq_def namespace_of_def prompt_of_seq_def)
qed

lemma projection_free:
  "prompt_of_seq (db\<lparr>cd_claims := cs, cd_sources := ss\<rparr>) = prompt_of_seq db"
  "owner_of_seq (db\<lparr>cd_claims := cs, cd_sources := ss\<rparr>) = owner_of_seq db"
  "namespace_of (db\<lparr>cd_claims := cs, cd_sources := ss\<rparr>) = namespace_of db"
  "row_of (db\<lparr>cd_claims := cs, cd_sources := ss\<rparr>) = row_of db"
  by (simp_all add: fun_eq_iff prompt_of_seq_def owner_of_seq_def namespace_of_def row_of_def)

definition cite_all :: "claim_record list \<Rightarrow> (rstr \<times> rstr \<times> int) list \<Rightarrow> (rstr \<times> rstr \<times> int) list" where
  "cite_all = fold (\<lambda>r. fold (cite_source (rec_id r)) (cw_sources (the (rec_assertion r))))"

lemma set_cite_all:
  "set (cite_all rs xs) = set xs
     \<union> {(rec_id r, cs_chain_id s, cs_seq s) | r s. r \<in> set rs \<and> s \<in> set (cw_sources (the (rec_assertion r)))}"
  unfolding cite_all_def by (induction rs arbitrary: xs) (auto simp: set_cites)

lemma project_all_rows:
  assumes "distinct (map rec_id rs)" "\<forall>r\<in>set rs. rec_id r \<notin> cr_id ` set cs"
    and "\<forall>r\<in>set rs. \<exists>w. rec_assertion r = Some w \<and> cw_id w = rec_id r \<and> cw_sources w \<noteq> []
      \<and> owner_of_seq db (cs_seq (hd (cw_sources w))) = Some (namespace_of db (hd (cw_sources w)))"
  shows "project_all rs (db\<lparr>cd_claims := cs, cd_sources := ss\<rparr>)
    = Some (db\<lparr>cd_claims := cs @ map (row_of db) rs, cd_sources := cite_all rs ss\<rparr>)"
  using assms
proof (induction rs arbitrary: cs ss)
  case (Cons r rs)
  obtain w where w: "rec_assertion r = Some w" "cw_id w = rec_id r" "cw_sources w \<noteq> []"
    "owner_of_seq db (cs_seq (hd (cw_sources w))) = Some (namespace_of db (hd (cw_sources w)))"
    using Cons.prems(3) by auto
  then obtain s more where s: "cw_sources w = s # more" by (cases "cw_sources w") auto
  have "claim_row_of (db\<lparr>cd_claims := cs, cd_sources := ss\<rparr>) (rec_id r) = None"
    using Cons.prems(2) by (force simp: claim_row_of_def find_None_iff)
  moreover have "row_of db r = project_row w (rec_recorded_at r) (rec_event_seq r) (rec_retired_at r) (namespace_of db s)"
    by (simp add: row_of_def w(1) s)
  moreover have here: "cr_id (row_of db r) = rec_id r" by (simp add: row_of_def project_row_def w)
  have clash: "\<forall>q\<in>set rs. rec_id q \<notin> cr_id ` set (cs @ [row_of db r])"
  proof
    fix q assume q: "q \<in> set rs"
    then have "rec_id q \<in> rec_id ` set rs" by (rule imageI)
    moreover have "rec_id r \<notin> rec_id ` set rs" using Cons.prems(1) by simp
    ultimately have "rec_id q \<noteq> rec_id r" by metis
    moreover have "rec_id q \<notin> cr_id ` set cs" using Cons.prems(2) q by simp
    ultimately show "rec_id q \<notin> cr_id ` set (cs @ [row_of db r])" by (simp add: here)
  qed
  have "project_all rs (db\<lparr>cd_claims := cs @ [row_of db r], cd_sources := fold (cite_source (rec_id r)) (cw_sources w) ss\<rparr>)
      = Some (db\<lparr>cd_claims := (cs @ [row_of db r]) @ map (row_of db) rs,
          cd_sources := cite_all rs (fold (cite_source (rec_id r)) (cw_sources w) ss)\<rparr>)"
    using clash Cons.prems(1,3) by (intro Cons.IH) simp_all
  ultimately show ?case using w s by (simp add: projection_free project_def cite_all_def)
qed (simp add: cite_all_def)

lemma rebuilt_rows:
  assumes ok: "claims_ok sha db"
  obtains cs ss where "rebuild_claim_projection db = (Some (length (live_records db)), db\<lparr>cd_claims := cs, cd_sources := ss\<rparr>)"
    "cs = map (row_of db) (live_records db)"
    "unowned ` set cs = unowned ` set (cd_claims db)" "distinct (map cr_id cs)" "set ss = set (cd_sources db)"
proof -
  note d = claims_okD [OF ok]
  define kept where "kept = filter (\<lambda>(i, _). \<not> list_ex (\<lambda>r. rec_id r = i \<and> \<not> rec_invalidated r) (cd_records db)) (cd_sources db)"
  have set_live: "set (live_records db) = {r \<in> set (cd_records db). \<not> rec_invalidated r}" by (auto simp: live_records_def)
  have "distinct (map rec_id (filter (\<lambda>r. \<not> rec_invalidated r) (cd_records db)))" using d(2) by (simp add: distinct_map_filter)
  then have dis: "distinct (map rec_id (live_records db))"
    by (simp add: live_records_def distinct_map)
  have live: "\<exists>w. rec_assertion r = Some w \<and> cw_id w = rec_id r \<and> cw_sources w \<noteq> []
      \<and> owner_of_seq db (cs_seq (hd (cw_sources w))) = Some (namespace_of db (hd (cw_sources w)))"
    if r: "r \<in> set (live_records db)" for r
  proof -
    have lv: "live_ok db r" using d(6) r by (simp add: set_live)
    then obtain w where w: "rec_assertion r = Some w" "cw_id w = rec_id r" "cw_sources w \<noteq> []" "\<forall>s\<in>set (cw_sources w). stands db r s"
      by (auto simp: live_ok_def)
    moreover have "prompt_of_seq db (cs_seq (hd (cw_sources w))) \<noteq> None" using w(3,4) by (auto simp: stands_def)
    ultimately show ?thesis using owner_of_seq_prompt [OF sound_seqs [OF d(1)]] by blast
  qed
  have "project_all (live_records db) (db\<lparr>cd_claims := [], cd_sources := kept\<rparr>)
      = Some (db\<lparr>cd_claims := [] @ map (row_of db) (live_records db), cd_sources := cite_all (live_records db) kept\<rparr>)"
    by (rule project_all_rows [OF dis]) (use live in auto)
  then have "rebuild_claim_projection db = (Some (length (live_records db)),
      db\<lparr>cd_claims := map (row_of db) (live_records db), cd_sources := cite_all (live_records db) kept\<rparr>)"
    by (simp add: rebuild_claim_projection_def kept_def)
  moreover have "unowned ` set (map (row_of db) (live_records db)) = unowned ` set (cd_claims db)"
    by (simp add: set_live d(7) image_image)
  moreover have "map cr_id (map (row_of db) (live_records db)) = map cr_id (map unowned (map (row_of db) (live_records db)))"
    by (simp only: unowned_ids)
  then have "map cr_id (map (row_of db) (live_records db)) = map rec_id (live_records db)"
    using bare_row_live(1) [OF d(6)] set_live by (auto simp: comp_def)
  then have "distinct (map cr_id (map (row_of db) (live_records db)))" using dis by metis
  moreover have "set (cite_all (live_records db) kept) = set (cd_sources db)"
  proof (intro equalityI subsetI)
    fix x assume "x \<in> set (cite_all (live_records db) kept)"
    then consider "x \<in> set kept"
      | r s where "r \<in> set (cd_records db)" "\<not> rec_invalidated r" "s \<in> set (cw_sources (the (rec_assertion r)))"
        "x = (rec_id r, cs_chain_id s, cs_seq s)"
      by (auto simp: set_cite_all set_live)
    then show "x \<in> set (cd_sources db)"
    proof cases
      case 2
      then show ?thesis using d(6) [OF 2(1,2)] by (auto simp: live_ok_def stands_def)
    qed (simp add: kept_def)
  next
    fix x assume x: "x \<in> set (cd_sources db)"
    show "x \<in> set (cite_all (live_records db) kept)"
    proof (cases "list_ex (\<lambda>r. rec_id r = fst x \<and> \<not> rec_invalidated r) (cd_records db)")
      case True
      then obtain r where r: "r \<in> set (cd_records db)" "rec_id r = fst x" "\<not> rec_invalidated r" by (auto simp: list_ex_iff)
      moreover obtain q where q: "q \<in> set (cd_records db)" "rec_id q = fst x"
        "\<not> rec_invalidated q \<longrightarrow> snd x \<in> (\<lambda>s. (cs_chain_id s, cs_seq s)) ` set (cw_sources (the (rec_assertion q)))"
        using d(8) [OF x] unfolding indexed_def by blast
      moreover have "q = r" using d(2) r(1,2) q(1,2) by (auto simp: distinct_map inj_on_def)
      ultimately show ?thesis unfolding set_cite_all set_live by (cases x) auto
    next
      case False
      then have "x \<in> set kept" using x by (cases x) (simp add: kept_def)
      then show ?thesis by (simp add: set_cite_all)
    qed
  qed
  ultimately show ?thesis by (rule that [OF _ refl])
qed

lemma ok_same_projection:
  assumes "unowned ` set cs = unowned ` set (cd_claims db)" "distinct (map cr_id cs)" "set ss = set (cd_sources db)"
    and ok: "claims_ok sha db"
  shows "claims_ok sha (db\<lparr>cd_claims := cs, cd_sources := ss\<rparr>)"
proof -
  have "live_ok (db\<lparr>cd_claims := cs, cd_sources := ss\<rparr>) r = live_ok db r" for r
    by (simp add: live_ok_def stands_def honours_def projection_free assms(3))
  moreover have "indexed (db\<lparr>cd_claims := cs, cd_sources := ss\<rparr>) x = indexed db x" for x by (simp add: indexed_def)
  ultimately show ?thesis using ok assms(1-3) by (simp add: claims_ok_def projection_free)
qed

section \<open>Every reachable store\<close>

definition claims_reachable ::
  "sha_fn \<Rightarrow> (f64_bits \<Rightarrow> rstr) \<Rightarrow> (claim_write \<Rightarrow> rstr) \<Rightarrow> rstr \<Rightarrow> claim_db \<Rightarrow> bool" where
  "claims_reachable sha show_f64 enc author db \<longleftrightarrow> (claim_step sha show_f64 enc author)\<^sup>*\<^sup>* no_claims db"

lemma ok_edited:
  assumes "claims_ok sha db" "\<And>p. sr_id (f p) = sr_id p"
  shows "claims_ok sha (db\<lparr>cd_prompts := map f (cd_prompts db)\<rparr>)"
  using assms by (intro ok_around [OF assms(1)] extends_edit [of _ _ f]) (auto dest: claims_okD(1))

lemma ok_stamped: "claims_ok sha db \<Longrightarrow> claims_ok sha (stamp_unscoped session authors db)"
  unfolding stamp_unscoped_def
proof (induction authors arbitrary: db)
  case (Cons who authors)
  obtain f :: "source_row \<Rightarrow> source_row" where
    f: "stamp_author session who db = db\<lparr>cd_prompts := map f (cd_prompts db)\<rparr>" "\<And>p. sr_id (f p) = sr_id p"
    using stamp_author_edit [of session who db] by blast
  show ?case using Cons.IH [of "stamp_author session who db"] ok_edited [OF Cons.prems f(2)] by (simp add: f(1))
qed simp

lemma claim_step_ok:
  assumes "claim_step sha show_f64 enc author db db'" "claims_ok sha db"
  shows "claims_ok sha db'"
  using assms
proof (induction rule: claim_step.induct)
  case (rebuilt db n db')
  obtain cs ss where "db' = db\<lparr>cd_claims := cs, cd_sources := ss\<rparr>" "unowned ` set cs = unowned ` set (cd_claims db)"
    "distinct (map cr_id cs)" "set ss = set (cd_sources db)"
    by (rule rebuilt_rows [OF rebuilt(2)]) (use rebuilt(1) in simp)
  then show ?case using ok_same_projection rebuilt(2) by blast
next
  case (captured p db)
  then show ?case
    by (intro ok_around [OF captured(3)] extends_prompts [of _ _ "[p]"]) (auto dest: claims_okD(1))
next
  case (stamped db session authors)
  then show ?case by (rule ok_stamped)
next
  case (scoped db s f)
  obtain g :: "source_row \<Rightarrow> source_row" where
    g: "stamp_scope s f db = db\<lparr>cd_prompts := map g (cd_prompts db)\<rparr>" "\<And>p. sr_id (g p) = sr_id p"
    using stamp_scope_edit [of s f db] by blast
  show ?case unfolding g(1) by (rule ok_edited [OF scoped g(2)])
next
  case (edited f db)
  then show ?case by (intro ok_edited)
next
  case (appended db a)
  have rows: "snd (append_in_txn sha a (cd_events db)) = cd_events db @ [fst (append_in_txn sha a (cd_events db))]"
    by (rule append_in_txn_rows)
  show ?case
    by (intro ok_around [OF appended] extends_events [of _ _ "[fst (append_in_txn sha a (cd_events db))]"])
      (use sound_append [OF claims_okD(1) [OF appended], of a] in \<open>simp_all add: rows\<close>)
next
  case (runs db rs)
  then show ?case by (intro ok_around [OF runs] extends_refl) (auto dest: claims_okD(1))
next
  case (named db ns)
  then show ?case by (intro ok_around [OF named] extends_refl) (auto dest: claims_okD(1))
qed (auto intro: ok_written ok_retired ok_forgot)

lemma claims_reachable_ok:
  assumes "claims_reachable sha show_f64 enc author db"
  shows "claims_ok sha db"
  using assms [unfolded claims_reachable_def]
proof (induction rule: rtranclp_induct)
  case base
  show ?case by (simp add: claims_ok_def no_claims_def sound_chain_def contiguous_def)
qed (rule claim_step_ok)

section \<open>Answers\<close>

lemma sort_key_same_set:
  assumes "set xs = set ys" "distinct (map g xs)" "distinct (map g ys)" "\<And>x y. k x = k y \<Longrightarrow> g x = g y"
  shows "sort_key k xs = sort_key k ys"
proof (rule sort_key_inj_key_eq)
  show "mset xs = mset (sort_key k ys)"
    using assms(1-3) set_eq_iff_mset_eq_distinct [of xs ys] by (simp add: distinct_map)
  show "inj_on k (set xs)" using assms(2,4) unfolding distinct_map inj_on_def by blast
qed simp

lemma sort_key_map: "sort_key k (map f xs) = map f (sort_key (\<lambda>x. k (f x)) xs)"
proof -
  have "insort_key k (f x) (map f ys) = map f (insort_key (\<lambda>x. k (f x)) x ys)" for x ys by (induction ys) simp_all
  then show ?thesis by (induction xs) simp_all
qed

text \<open>A query reads everything but the owner columns.\<close>

lemma claim_rows_unowned:
  assumes "unowned ` set cs = unowned ` set (cd_claims db)" "distinct (map cr_id cs)" "distinct (map cr_id (cd_claims db))"
    and el: "source_eligible (db\<lparr>cd_claims := cs, cd_sources := ss\<rparr>) = source_eligible db"
  shows "map unowned (claim_rows (db\<lparr>cd_claims := cs, cd_sources := ss\<rparr>) f q known valid)
    = map unowned (claim_rows db f q known valid)"
proof -
  define P where "P r \<longleftrightarrow> known_by known r \<and> holds_at valid r \<and> source_eligible db f (cr_id r)
      \<and> (case cq_subject q of None \<Rightarrow> True | Some s \<Rightarrow> cr_subject r = s)
      \<and> (case cq_predicate q of None \<Rightarrow> True | Some p \<Rightarrow> cr_predicate r = p)" for r :: claim_row
  define k where "k r = (- cr_recorded_at r, cr_id r)" for r :: claim_row
  have inv: "P (unowned r) = P r" "k (unowned r) = k r" for r by (simp_all add: P_def k_def known_by_def holds_at_def split: option.split)
  have bare: "map unowned (sort_key k (filter P rs)) = sort_key k (filter P (map unowned rs))" for rs
    by (simp add: sort_key_map inv filter_map comp_def)
  have "sort_key k (filter P (map unowned cs)) = sort_key k (filter P (map unowned (cd_claims db)))"
  proof (rule sort_key_same_set [where g = cr_id])
    show "set (filter P (map unowned cs)) = set (filter P (map unowned (cd_claims db)))"
      unfolding set_filter set_map assms(1) ..
    show "distinct (map cr_id (filter P (map unowned cs)))" "distinct (map cr_id (filter P (map unowned (cd_claims db))))"
      using assms(2,3) unowned_ids [of cs] unowned_ids [of "cd_claims db"] by (simp_all only: distinct_map_filter)
  qed (simp add: k_def)
  moreover have "claim_rows db f q known valid = sort_key k (filter P (cd_claims db))"
    "claim_rows (db\<lparr>cd_claims := cs, cd_sources := ss\<rparr>) f q known valid = sort_key k (filter P cs)"
    by (simp_all add: claim_rows_def P_def [abs_def] k_def [abs_def] el)
  ultimately show ?thesis by (simp only: bare)
qed

lemma query_claims_projection:
  assumes "unowned ` set cs = unowned ` set (cd_claims db)" "distinct (map cr_id cs)" "distinct (map cr_id (cd_claims db))"
    and "set ss = set (cd_sources db)"
  shows "query_claims show_f64 to_lower alnum now q (db\<lparr>cd_claims := cs, cd_sources := ss\<rparr>)
    = query_claims show_f64 to_lower alnum now q db"
proof -
  let ?db = "db\<lparr>cd_claims := cs, cd_sources := ss\<rparr>"
  have "cited_prompt ?db = cited_prompt db" by (auto simp: fun_eq_iff cited_prompt_def projection_free split: option.split)
  then have el: "source_eligible ?db = source_eligible db"
    by (simp add: fun_eq_iff source_eligible_def list_ex_iff list_all_iff assms(4))
  have ids: "superseded_ids d f known valid = (\<Union>r \<in> {r \<in> unowned ` set (cd_claims d). known_by known r \<and> cr_valid_from r \<le> valid
      \<and> source_eligible d f (cr_id r)}. set (cw_supersedes (cr_assertion r)))" for d f known valid
    by (auto simp: superseded_ids_def known_by_def)
  have sup: "superseded_ids ?db = superseded_ids db"
    by (simp add: fun_eq_iff ids el assms(1))
  let ?a = "\<lambda>r. claim_answer (cr_assertion r) (cr_recorded_at r) (cr_event_seq r)"
  have "map ?a rs = map ?a (map unowned rs)" for rs by simp
  then have rows: "map ?a (claim_rows ?db f q known valid) = map ?a (claim_rows db f q known valid)" for f known valid
    using claim_rows_unowned [OF assms(1-3) el, of f q known valid] by metis
  show ?thesis unfolding query_claims_def sup rows ..
qed

lemma answered_rows:
  assumes "query_claims show_f64 to_lower alnum now q db = Inr cs" "c \<in> set cs"
  obtains r where "r \<in> set (cd_claims db)" "cl_assertion c = cr_assertion r"
proof -
  obtain f where f: "source_filter q = Inr f" using assms(1) by (cases "source_filter q") (simp_all add: query_claims_def)
  define known valid where "known = (case cq_known_at q of None \<Rightarrow> now | Some t \<Rightarrow> t)"
    and "valid = (case cq_valid_at q of None \<Rightarrow> now | Some t \<Rightarrow> t)"
  define rows where "rows = claim_rows db f q known valid"
  define found where "found = filter (\<lambda>c. cw_id (cl_assertion c) \<notin> superseded_ids db f known valid)
    (map (\<lambda>r. claim_answer (cr_assertion r) (cr_recorded_at r) (cr_event_seq r)) rows)"
  have ranked: "set (ranked_claims show_f64 to_lower alnum x ds) \<subseteq> set ds" for x ds
    by (auto simp: ranked_claims_def Let_def split: option.splits if_splits)
  have "cs = take (clamp 1 200 (case cq_limit q of None \<Rightarrow> 50 | Some n \<Rightarrow> n)) (ranked_claims show_f64 to_lower alnum (cq_q q)
      (map (\<lambda>c. c\<lparr>cl_unresolved_alternatives := alternatives found c\<rparr>) found))"
    using assms(1) by (simp add: query_claims_def f Let_def found_def rows_def known_def valid_def)
  with assms(2) have "c \<in> set (ranked_claims show_f64 to_lower alnum (cq_q q)
      (map (\<lambda>c. c\<lparr>cl_unresolved_alternatives := alternatives found c\<rparr>) found))"
    by (auto dest: in_set_takeD)
  then have "c \<in> set (map (\<lambda>c. c\<lparr>cl_unresolved_alternatives := alternatives found c\<rparr>) found)" using ranked by blast
  then obtain r where r: "r \<in> set rows" "cl_assertion c = cr_assertion r" unfolding found_def claim_answer_def by force
  show ?thesis by (rule that [OF _ r(2)]) (use r(1) in \<open>simp add: rows_def claim_rows_def\<close>)
qed

lemma row_stands:
  assumes ok: "claims_ok sha db" and row: "r \<in> set (cd_claims db)" and s: "s \<in> set (cw_sources (cr_assertion r))"
  shows "\<exists>p. prompt_of_seq db (cs_seq s) = Some p \<and> sr_id p \<notin> set (cd_forgotten db)"
proof -
  obtain x w where x: "x \<in> set (cd_records db)" "\<not> rec_invalidated x" "rec_assertion x = Some w" "cr_assertion r = w"
    by (rule claim_row_record [OF ok row])
  then have "live_ok db x" by (intro claims_okD(6) [OF ok])
  then show ?thesis using s x(3,4) by (auto simp: live_ok_def stands_def)
qed

section \<open>A store with two claims\<close>

definition sample_source :: claim_source where
  "sample_source = \<lparr>cs_chain_id = lit ''local'', cs_seq = 1, cs_role = ClaimUser, cs_quote = lit ''use rust'', cs_start_byte = Some 3\<rparr>"

definition sample_claim :: claim_write where
  "sample_claim =
     \<lparr>cw_id = lit ''c1'', cw_subject = lit ''stack'', cw_predicate = SelectedTechnology, cw_value = ClaimText (lit ''rust''),
      cw_scope = \<lparr>sc_principal = None, sc_org = None, sc_agent = None, sc_run = None, sc_project = None, sc_include_shared = False\<rparr>,
      cw_sources = [sample_source], cw_derivation = Structured, cw_valid_from = 0, cw_valid_until = None,
      cw_supersedes = [], cw_contradicts = [], cw_organizer_run = None, cw_model_version = None\<rparr>"

definition sample_again :: claim_write where
  "sample_again = sample_claim\<lparr>cw_id := lit ''c2'', cw_supersedes := [lit ''c1'']\<rparr>"

definition sample_prompt :: source_row where
  "sample_prompt =
     \<lparr>sr_id = 1, sr_ts = 1, sr_role = None, sr_body = lit ''we use rust'', sr_principal_id = None, sr_device_id = None,
      sr_agent_id = None, sr_run_id = None, sr_org_id = None, sr_project_path = None\<rparr>"

definition sample_ask :: ledger_append where
  "sample_ask =
     \<lparr>la_kind = lit ''prompt'', la_author = lit ''me'', la_ts = 1, la_prompt_id = Some 1, la_session_id = None,
      la_version_number = None, la_ref_kind = None, la_ref_id = None, la_payload_hash = []\<rparr>"

definition sample_asked :: claim_db where
  "sample_asked = no_claims\<lparr>cd_prompts := [sample_prompt], cd_events := snd (append_in_txn (\<lambda>_. []) sample_ask [])\<rparr>"

definition sample_write :: "claim_write \<Rightarrow> int \<Rightarrow> claim_db \<Rightarrow> (claim_error + claim) \<times> claim_db" where
  "sample_write = write_claim (\<lambda>_. []) (\<lambda>_. []) (\<lambda>_. []) (lit ''me'')"

definition sample_claimed :: claim_db where
  "sample_claimed = snd (sample_write sample_again 3 (snd (sample_write sample_claim 2 sample_asked)))"

lemma sample_claimed_reachable: "claims_reachable (\<lambda>_. []) (\<lambda>_. []) (\<lambda>_. []) (lit ''me'') sample_claimed"
proof -
  let ?step = "claim_step (\<lambda>_. []) (\<lambda>_. []) (\<lambda>_. []) (lit ''me'')"
  have "?step no_claims (no_claims\<lparr>cd_prompts := cd_prompts no_claims @ [sample_prompt]\<rparr>)"
    by (rule captured) (simp_all add: no_claims_def)
  moreover have "?step (no_claims\<lparr>cd_prompts := cd_prompts no_claims @ [sample_prompt]\<rparr>) sample_asked"
    using appended [of "\<lambda>_. []" "\<lambda>_. []" "\<lambda>_. []" "lit ''me''" "no_claims\<lparr>cd_prompts := cd_prompts no_claims @ [sample_prompt]\<rparr>" sample_ask]
    by (simp add: sample_asked_def no_claims_def)
  moreover have "?step db (snd (sample_write w t db))" for w t db
    unfolding sample_write_def by (rule wrote [of _ _ _ _ w t db]) (rule prod.collapse [symmetric])
  ultimately show ?thesis unfolding claims_reachable_def sample_claimed_def by (meson rtranclp.rtrancl_into_rtrancl rtranclp.rtrancl_refl)
qed

text \<open>The project of the cited prompt is stamped after the claims were made.\<close>

definition sample_scope :: scope_filter where
  "sample_scope = (from_scope (cw_scope sample_claim))\<lparr>sf_project := Some (lit ''p'')\<rparr>"

definition sample_stamped :: claim_db where
  "sample_stamped = stamp_scope 1 sample_scope sample_claimed"

lemma sample_stamped_reachable: "claims_reachable (\<lambda>_. []) (\<lambda>_. []) (\<lambda>_. []) (lit ''me'') sample_stamped"
  using sample_claimed_reachable unfolding claims_reachable_def sample_stamped_def
  by (rule rtranclp.rtrancl_into_rtrancl) (rule scoped)

text \<open>
  What the stale owner does: a claim projected before the stamp cannot be superseded by the same user's next
  one, until the projection is rebuilt.
\<close>

definition sample_first_stamped :: claim_db where
  "sample_first_stamped = stamp_scope 1 sample_scope (snd (sample_write sample_claim 2 sample_asked))"

lemma stale_owner_blocks_supersession:
  "fst (sample_write sample_again 3 sample_first_stamped) = Inl OtherNamespace"
  "fst (sample_write sample_again 3 (snd (rebuild_claim_projection sample_first_stamped)))
     = Inr (claim_answer sample_again 3 3)"
  by code_simp+

section \<open>Properties\<close>

text \<open>
  C10. Rebuilding changes no answer.  Whatever happened to a store, stamps and edits of the cited prompts
  included, the projection is that of the live records in every column but the owner's: rebuilding it
  succeeds, counts the live records, writes for each the row with the owner its first source has now, which
  differs from the row before in the owner columns at most, and keeps the records and the citations; every
  query has the same answer before and after.
\<close>
theorem rebuilding_changes_no_answer:
  assumes "claims_reachable sha show_f64 enc author db"
  shows "\<exists>db'. rebuild_claim_projection db = (Some (length (live_records db)), db')
    \<and> set (cd_claims db') = row_of db ` set (live_records db)
    \<and> unowned ` set (cd_claims db') = unowned ` set (cd_claims db)
    \<and> length (cd_claims db') = length (live_records db) \<and> distinct (map cr_id (cd_claims db'))
    \<and> set (cd_sources db') = set (cd_sources db) \<and> cd_records db' = cd_records db
    \<and> query_claims show_f64 to_lower alnum now q db' = query_claims show_f64 to_lower alnum now q db"
proof -
  have ok: "claims_ok sha db" by (rule claims_reachable_ok [OF assms])
  obtain cs ss where r: "rebuild_claim_projection db = (Some (length (live_records db)), db\<lparr>cd_claims := cs, cd_sources := ss\<rparr>)"
    "cs = map (row_of db) (live_records db)"
    "unowned ` set cs = unowned ` set (cd_claims db)" "distinct (map cr_id cs)" "set ss = set (cd_sources db)"
    by (rule rebuilt_rows [OF ok])
  show ?thesis
    using r(2-5) query_claims_projection [OF r(3,4) claims_okD(3) [OF ok] r(5)]
    by (intro exI [of _ "db\<lparr>cd_claims := cs, cd_sources := ss\<rparr>"]) (simp add: r(1))
qed

theorem rebuilding_changes_no_answer_witness:
  "\<exists>db'. rebuild_claim_projection sample_stamped = (Some 2, db')
    \<and> map cr_project_path (cd_claims sample_stamped) = [None, None]
    \<and> cr_project_path ` set (cd_claims db') = {Some (lit ''p'')}
    \<and> query_claims (\<lambda>_. []) id (\<lambda>_. True) 5
        \<lparr>cq_q = None, cq_roles = [], cq_after = None, cq_before = None, cq_subject = None, cq_predicate = None,
         cq_scope = cw_scope sample_claim, cq_valid_at = None, cq_known_at = None, cq_limit = None\<rparr> db'
      = Inr [\<lparr>cl_assertion = sample_again, cl_recorded_at = 3, cl_event_seq = 3, cl_unresolved_alternatives = []\<rparr>]"
proof -
  let ?q = "\<lparr>cq_q = None, cq_roles = [], cq_after = None, cq_before = None, cq_subject = None, cq_predicate = None,
    cq_scope = cw_scope sample_claim, cq_valid_at = None, cq_known_at = None, cq_limit = None\<rparr>"
  have "map (cr_project_path \<circ> row_of sample_stamped) (live_records sample_stamped) = [Some (lit ''p''), Some (lit ''p'')]"
    "map cr_project_path (cd_claims sample_stamped) = [None, None]" "length (live_records sample_stamped) = 2"
    "query_claims (\<lambda>_. []) id (\<lambda>_. True) 5 ?q sample_stamped
      = Inr [\<lparr>cl_assertion = sample_again, cl_recorded_at = 3, cl_event_seq = 3, cl_unresolved_alternatives = []\<rparr>]"
    by code_simp+
  moreover have "cr_project_path ` row_of sample_stamped ` set (live_records sample_stamped)
      = set (map (cr_project_path \<circ> row_of sample_stamped) (live_records sample_stamped))"
    by (simp add: image_image)
  then have "cr_project_path ` row_of sample_stamped ` set (live_records sample_stamped) = {Some (lit ''p'')}"
    unfolding calculation(1) by simp
  ultimately show ?thesis
    using rebuilding_changes_no_answer [OF sample_stamped_reachable, of id "\<lambda>_. True" 5 ?q] by metis
qed

text \<open>
  C11. What a user said in so many words is superseded only by claims that rest on the user's words alone, are
  structured (not derived by the gardener), speak of the same subject, predicate and scope, and were recorded
  later in the ledger.
\<close>
theorem user_words_yield_only_to_the_user:
  assumes "claims_reachable sha show_f64 enc author db"
    and "r \<in> set (cd_records db)" "rec_assertion r = Some w" "i \<in> set (cw_supersedes w)"
    and "x \<in> set (cd_records db)" "rec_id x = i" "rec_assertion x = Some old"
    and "list_ex (\<lambda>s. cs_role s = ClaimUser) (cw_sources old)"
  shows "cw_derivation w = Structured \<and> list_all (\<lambda>s. cs_role s = ClaimUser) (cw_sources w)
    \<and> cw_subject old = cw_subject w \<and> cw_predicate old = cw_predicate w \<and> cw_scope old = cw_scope w
    \<and> rec_event_seq x < rec_event_seq r"
proof -
  note d = claims_okD [OF claims_reachable_ok [OF assms(1)]]
  have "live_ok db r" using d(5,6) [OF assms(2)] assms(3) by auto
  then obtain y where y: "y \<in> set (cd_records db)" "rec_id y = i" "rec_event_seq y < rec_event_seq r"
    "\<forall>old. rec_assertion y = Some old \<longrightarrow> cw_subject old = cw_subject w \<and> cw_predicate old = cw_predicate w
       \<and> cw_scope old = cw_scope w \<and> (user_said old \<longrightarrow> only_user w)"
    using assms(3,4) by (auto simp: live_ok_def honours_def)
  have "y = x" using d(2) y(1,2) assms(5,6) by (auto simp: distinct_map inj_on_def)
  then show ?thesis using y(3,4) assms(7,8) by (simp add: user_said_def only_user_def)
qed

theorem user_words_yield_only_to_the_user_witness:
  "rec_assertion (cd_records sample_claimed ! 0) = Some sample_claim
    \<and> rec_event_seq (cd_records sample_claimed ! 0) < rec_event_seq (cd_records sample_claimed ! 1)"
proof -
  have "length (cd_records sample_claimed) = 2" "rec_assertion (cd_records sample_claimed ! 0) = Some sample_claim"
    "rec_assertion (cd_records sample_claimed ! 1) = Some sample_again" "rec_id (cd_records sample_claimed ! 0) = lit ''c1''"
    "list_ex (\<lambda>s. cs_role s = ClaimUser) (cw_sources sample_claim)" "lit ''c1'' \<in> set (cw_supersedes sample_again)"
    by code_simp+
  then show ?thesis
    using user_words_yield_only_to_the_user [OF sample_claimed_reachable, of "cd_records sample_claimed ! 1" sample_again
      "lit ''c1''" "cd_records sample_claimed ! 0" sample_claim] by simp
qed

text \<open>
  C38. Forgetting a prompt forgets what was claimed from it: no record that keeps its assertion, and no answer to
  any query, cites a forgotten prompt or a number that is not a prompt's.
\<close>
theorem forgotten_prompts_support_nothing:
  assumes "claims_reachable sha show_f64 enc author db"
  shows "(\<forall>r\<in>set (cd_records db). \<forall>w. rec_assertion r = Some w \<longrightarrow> (\<forall>s\<in>set (cw_sources w).
      \<exists>p. prompt_of_seq db (cs_seq s) = Some p \<and> sr_id p \<notin> set (cd_forgotten db)))
    \<and> (\<forall>cs. query_claims show_f64 to_lower alnum now q db = Inr cs \<longrightarrow>
      (\<forall>c\<in>set cs. \<forall>s\<in>set (cw_sources (cl_assertion c)).
        \<exists>p. prompt_of_seq db (cs_seq s) = Some p \<and> sr_id p \<notin> set (cd_forgotten db)))"
proof -
  have ok: "claims_ok sha db" by (rule claims_reachable_ok [OF assms])
  have "live_ok db r" if "r \<in> set (cd_records db)" "rec_assertion r = Some w" for r w
    using claims_okD(5,6) [OF ok that(1)] that(2) by auto
  then show ?thesis using row_stands [OF ok] by (force simp: live_ok_def stands_def elim!: answered_rows)
qed

theorem forgotten_prompts_support_nothing_witness:
  "rec_assertion (cd_records sample_claimed ! 0) = Some sample_claim
    \<and> (\<exists>p. prompt_of_seq sample_claimed (cs_seq sample_source) = Some p \<and> sr_id p \<notin> set (cd_forgotten sample_claimed))
    \<and> map rec_assertion (cd_records (forget_prompt 1 sample_claimed)) = [None, None]"
proof -
  have "length (cd_records sample_claimed) = 2" "rec_assertion (cd_records sample_claimed ! 0) = Some sample_claim"
    "map rec_assertion (cd_records (forget_prompt 1 sample_claimed)) = [None, None]"
    "sample_source \<in> set (cw_sources sample_claim)"
    by code_simp+
  moreover from this have "cd_records sample_claimed ! 0 \<in> set (cd_records sample_claimed)" by simp
  ultimately show ?thesis using forgotten_prompts_support_nothing [OF sample_claimed_reachable] by blast
qed

end
