(* ===== verification/Chunks.thy ===== *)
theory Chunks
  imports Prelude
begin

unbundle bit_operations_syntax

text \<open>
  \<^verbatim>\<open>polis-core/src/vec.rs\<close>: the pieces of a text that are embedded, and the integer arithmetic of the vectors.
  Positions are counted in characters, as the code does, except inside \<^verbatim>\<open>find_break\<close>, which takes byte offsets
  of the window for character offsets.  Quantisation itself (\<^verbatim>\<open>f32\<close>) is not modelled.
\<close>

section \<open>Chunks\<close>

definition CHUNK_TARGET :: nat where "CHUNK_TARGET = 800"
definition CHUNK_MAX :: nat where "CHUNK_MAX = 1200"
definition CHUNK_OVERLAP :: nat where "CHUNK_OVERLAP = 150"
definition OPENING_CHARS :: nat where "OPENING_CHARS = 400"

lemmas chunk_sizes = CHUNK_TARGET_def CHUNK_MAX_def CHUNK_OVERLAP_def OPENING_CHARS_def

record chunk =
  ch_ix :: nat
  ch_start :: nat
  ch_len :: nat
  ch_text :: rstr

text \<open>\<^verbatim>\<open>str::find\<close> proper: the byte offset.\<close>

definition byte_find :: "rstr \<Rightarrow> rstr \<Rightarrow> nat option" where
  "byte_find s p = map_option (\<lambda>i. byte_len (take i s)) (find_sub s p)"

text \<open>Where the first fence of the window ends, if it closes in it.\<close>

definition fence_end :: "nat \<Rightarrow> rstr \<Rightarrow> nat option" where
  "fence_end start window =
     (case find_sub window [96, 96, 96] of
        None \<Rightarrow> None
      | Some i \<Rightarrow>
          map_option (\<lambda>close. start + byte_len (take i window) + 3 + close + 3)
            (byte_find (drop (i + 3) window) [96, 96, 96]))"

definition find_break :: "rstr \<Rightarrow> nat \<Rightarrow> nat \<Rightarrow> nat \<Rightarrow> nat" where
  "find_break chars start target hard =
     (let cut = (case find (\<lambda>i. chars ! i = 10 \<and> chars ! (i + 1) = 10) [target..<hard - 1] of
                   Some i \<Rightarrow> i + 2
                 | None \<Rightarrow>
                     (case find (\<lambda>i. chars ! i \<in> {46, 33, 63}
                          \<and> (i + 1 < length chars \<longrightarrow> is_whitespace (chars ! (i + 1)))) [target..<hard] of
                        Some i \<Rightarrow> i + 1
                      | None \<Rightarrow> hard))
      in (case fence_end start (drop start (take hard chars)) of
            Some after \<Rightarrow> if target < after \<and> after \<le> hard then after else cut
          | None \<Rightarrow> cut))"

definition chunk_end :: "rstr \<Rightarrow> nat \<Rightarrow> nat" where
  "chunk_end chars start =
     (let hard = min (start + CHUNK_MAX) (length chars)
      in if hard = length chars then length chars
         else find_break chars start (min (start + CHUNK_TARGET) (length chars)) hard)"

definition piece :: "rstr \<Rightarrow> nat \<Rightarrow> nat \<Rightarrow> nat \<Rightarrow> chunk list" where
  "piece chars ix start stop =
     (let slice = drop start (take stop chars)
      in if trim slice = [] then [] else [\<lparr>ch_ix = ix, ch_start = start, ch_len = stop - start, ch_text = slice\<rparr>])"

text \<open>The loop, with the number of chunks so far.\<close>

function chunks_from :: "rstr \<Rightarrow> nat \<Rightarrow> nat \<Rightarrow> chunk list" where
  "chunks_from chars ix start =
     (if length chars \<le> start then []
      else
        let stop = chunk_end chars start;
            new = piece chars ix start stop
        in if length chars \<le> stop then new
           else new @ chunks_from chars (ix + length new) (max (stop - CHUNK_OVERLAP) (start + 1)))"
  by pat_completeness auto
termination by (relation "measure (\<lambda>(chars, _, start). length chars - start)") auto

declare chunks_from.simps [simp del]

definition chunk_text :: "rstr \<Rightarrow> chunk list" where
  "chunk_text text =
     (if text = [] then []
      else
        let opening = min OPENING_CHARS (length text);
            first = \<lparr>ch_ix = 0, ch_start = 0, ch_len = opening, ch_text = take opening text\<rparr>
        in if length text \<le> OPENING_CHARS then [first] else first # chunks_from text 1 0)"

section \<open>What the chunks hold\<close>

lemma find_upt: "find P [a..<b] = Some i \<Longrightarrow> a \<le> i \<and> i < b"
  by (auto simp: find_Some_iff)

lemma find_break_bounds:
  assumes "start < target" "target < hard"
  shows "start < find_break chars start target hard \<and> find_break chars start target hard \<le> hard"
  using assms by (auto simp: find_break_def Let_def split: option.split dest!: find_upt)

lemma chunk_end_bounds:
  assumes "start < length chars"
  shows "start < chunk_end chars start" "chunk_end chars start \<le> length chars" "chunk_end chars start \<le> start + CHUNK_MAX"
proof -
  consider "length chars \<le> start + CHUNK_MAX" | "start + CHUNK_MAX < length chars" by linarith
  then have "start < chunk_end chars start \<and> chunk_end chars start \<le> length chars \<and> chunk_end chars start \<le> start + CHUNK_MAX"
  proof cases
    case 2
    then have "chunk_end chars start = find_break chars start (start + CHUNK_TARGET) (start + CHUNK_MAX)"
      by (simp add: chunk_end_def Let_def chunk_sizes)
    then show ?thesis
      using 2 find_break_bounds [of start "start + CHUNK_TARGET" "start + CHUNK_MAX" chars] by (simp add: chunk_sizes)
  qed (use assms in \<open>simp add: chunk_end_def Let_def min_def\<close>)
  then show "start < chunk_end chars start" "chunk_end chars start \<le> length chars" "chunk_end chars start \<le> start + CHUNK_MAX"
    by simp_all
qed

text \<open>A chunk quotes the text at its offsets.\<close>

definition quotes :: "rstr \<Rightarrow> chunk \<Rightarrow> bool" where
  "quotes chars c \<longleftrightarrow> 0 < ch_len c \<and> ch_len c \<le> CHUNK_MAX \<and> ch_start c + ch_len c \<le> length chars
     \<and> ch_text c = take (ch_len c) (drop (ch_start c) chars)"

definition covers :: "chunk \<Rightarrow> nat \<Rightarrow> bool" where
  "covers c k \<longleftrightarrow> ch_start c \<le> k \<and> k < ch_start c + ch_len c"

lemma piece_quotes:
  assumes "start < length chars" "c \<in> set (piece chars ix start (chunk_end chars start))"
  shows "quotes chars c"
  using assms(2) chunk_end_bounds [OF assms(1)]
  by (auto simp: piece_def Let_def quotes_def drop_take split: if_splits)

lemma piece_covers:
  assumes "start \<le> k" "k < stop" "stop \<le> length chars" "\<not> is_whitespace (chars ! k)"
  shows "\<exists>c\<in>set (piece chars ix start stop). covers c k"
proof -
  have "chars ! k \<in> set (drop start (take stop chars))"
    using assms by (auto simp: in_set_conv_nth intro!: exI [of _ "k - start"])
  then have "trim (drop start (take stop chars)) \<noteq> []"
    using assms(4) by (auto simp: trim_def trim_by_Nil_iff)
  then show ?thesis using assms by (simp add: piece_def covers_def)
qed

lemma chunks_from_quotes: "c \<in> set (chunks_from chars ix start) \<Longrightarrow> quotes chars c"
proof (induction chars ix start rule: chunks_from.induct)
  case (1 chars ix start)
  show ?case
  proof (cases "length chars \<le> start")
    case False
    then show ?thesis
      using 1 piece_quotes [of start chars c ix]
      by (subst (asm) (2) chunks_from.simps) (auto simp: Let_def split: if_splits)
  qed (use 1(2) in \<open>simp add: chunks_from.simps\<close>)
qed

lemma chunks_from_covers:
  "start \<le> k \<Longrightarrow> k < length chars \<Longrightarrow> \<not> is_whitespace (chars ! k) \<Longrightarrow> \<exists>c\<in>set (chunks_from chars ix start). covers c k"
proof (induction chars ix start rule: chunks_from.induct)
  case (1 chars ix start)
  let ?stop = "chunk_end chars start"
  let ?new = "piece chars ix start ?stop"
  have b: "start < ?stop" "?stop \<le> length chars" using 1(2,3) chunk_end_bounds [of start chars] by auto
  show ?case
  proof (cases "k < ?stop")
    case True
    then have "\<exists>c\<in>set ?new. covers c k" using 1(2,4) b(2) by (intro piece_covers)
    then show ?thesis using 1(2,3) by (subst chunks_from.simps) (auto simp: Let_def)
  next
    case False
    then have "\<exists>c\<in>set (chunks_from chars (ix + length ?new) (max (?stop - CHUNK_OVERLAP) (start + 1))). covers c k"
      using 1(2-4) b by (intro 1(1)) auto
    then show ?thesis using False 1(2,3) by (subst chunks_from.simps) (auto simp: Let_def)
  qed
qed

lemma chunks_from_numbered: "map ch_ix (chunks_from chars ix start) = [ix..<ix + length (chunks_from chars ix start)]"
proof (induction chars ix start rule: chunks_from.induct)
  case (1 chars ix start)
  let ?stop = "chunk_end chars start"
  let ?new = "piece chars ix start ?stop"
  let ?rest = "chunks_from chars (ix + length ?new) (max (?stop - CHUNK_OVERLAP) (start + 1))"
  have new: "map ch_ix ?new = [ix..<ix + length ?new]" by (simp add: piece_def Let_def)
  consider "length chars \<le> start" | "start < length chars" "length chars \<le> ?stop" | "start < length chars" "?stop < length chars"
    by linarith
  then show ?case
  proof cases
    case 3
    have "map ch_ix ?rest = [ix + length ?new..<ix + length ?new + length ?rest]" using 3 by (intro 1) auto
    then have "map ch_ix (?new @ ?rest) = [ix..<ix + length (?new @ ?rest)]"
      using new by (simp add: upt_add_eq_append [of ix "ix + length ?new" "length ?rest", simplified] add.assoc [symmetric])
    then show ?thesis using 3 by (subst (1 2) chunks_from.simps) (simp add: Let_def)
  qed (use new in \<open>simp_all add: chunks_from.simps [of chars ix start] Let_def\<close>)
qed

section \<open>The integer dot product\<close>






text \<open>\<^verbatim>\<open>pack\<close> and \<^verbatim>\<open>unpack\<close> reinterpret each byte.\<close>

definition pack_vec :: "8 word list \<Rightarrow> nat list" where
  "pack_vec q = map unat q"

definition unpack_vec :: "nat list \<Rightarrow> 8 word list" where
  "unpack_vec blob = map of_nat blob"

lemma unpack_pack: "unpack_vec (pack_vec q) = q"
  by (simp add: unpack_vec_def pack_vec_def comp_def)









section \<open>Properties\<close>

text \<open>
  C39. Chunking loses nothing and invents nothing, and it ends.  Every chunk is a nonempty passage of the text at
  its recorded offset, at most \<^verbatim>\<open>CHUNK_MAX\<close> characters long; the chunks are numbered from 0 on, the first is the
  opening of the text; and every character that is not white space lies in some chunk.
\<close>
theorem chunks_cover_the_text:
  "map ch_ix (chunk_text chars) = [0..<length (chunk_text chars)]
     \<and> (\<forall>c\<in>set (chunk_text chars). quotes chars c)
     \<and> (chars = [] \<or> ch_text (hd (chunk_text chars)) = take OPENING_CHARS chars)
     \<and> (\<forall>k<length chars. is_whitespace (chars ! k) \<or> (\<exists>c\<in>set (chunk_text chars). covers c k))"
proof (intro conjI ballI allI impI)
  show "map ch_ix (chunk_text chars) = [0..<length (chunk_text chars)]"
    using chunks_from_numbered [of chars 1 0] by (simp add: chunk_text_def Let_def upt_conv_Cons)
  show "chars = [] \<or> ch_text (hd (chunk_text chars)) = take OPENING_CHARS chars"
    by (simp add: chunk_text_def Let_def min_def)
  show "quotes chars c" if "c \<in> set (chunk_text chars)" for c
    using that by (auto simp: chunk_text_def Let_def quotes_def chunk_sizes split: if_splits
      dest: chunks_from_quotes [unfolded quotes_def chunk_sizes])
  show "is_whitespace (chars ! k) \<or> (\<exists>c\<in>set (chunk_text chars). covers c k)" if "k < length chars" for k
    using that chunks_from_covers [of 0 k chars 1] by (auto simp: chunk_text_def Let_def covers_def)
qed

theorem chunks_cover_the_text_witness:
  "\<exists>c. c \<in> set (chunk_text (replicate 3000 97)) \<and> covers c 2500 \<and> quotes (replicate 3000 97) c"
proof -
  have "\<not> is_whitespace (replicate 3000 97 ! 2500)" by (simp add: is_whitespace_def)
  moreover have "2500 < length (replicate 3000 (97::nat))" by simp
  ultimately show ?thesis using chunks_cover_the_text [of "replicate 3000 97"] by blast
qed



end
