(* ===== verification/Archive.thy ===== *)
theory Archive
  imports Chain
begin

text \<open>
  The bodies of \<^verbatim>\<open>polis-store/src/compaction.rs\<close>: a cold prompt's words are replaced by a gist and kept,
  deflated, in an archive; a forgotten prompt's words are gone.  \<^verbatim>\<open>flate2\<close> is the parameters \<open>deflate\<close> and
  \<open>inflate\<close>; whether the best-effort archive write and the forget marker beside the database succeed is part of
  the input.  What forgetting does to other tables is left to their models (claims, peers' chains).
\<close>

section \<open>Tables\<close>

record prompt_text =
  pt_id :: int
  pt_body :: rstr
  pt_body_hash :: rstr
  pt_gist :: "rstr option"
  pt_compacted_at :: "int option"
  pt_original_bytes :: "int option"
  pt_gist_source :: "rstr option"
  pt_user_text :: "rstr option"

record archived =
  ac_prompt_id :: int
  ac_body_hash :: rstr
  ac_algo :: rstr
  ac_original_bytes :: int
  ac_blob :: "byte list"
  ac_archived_at :: int

record body_store =
  bo_prompts :: "prompt_text list"
  bo_archive :: "archived list"
  bo_forgotten :: "(int \<times> rstr \<times> int) list"
  bo_outbox :: "(int \<times> int) list"
  bo_events :: "ledger_event_row list"

datatype archive_error = MarkerNotDurable | UnknownCodec rstr | InflateFailed | HashMismatch

definition ARCHIVE_ALGO :: rstr where "ARCHIVE_ALGO = lit ''deflate''"

definition prompt_at :: "body_store \<Rightarrow> int \<Rightarrow> prompt_text option" where
  "prompt_at db i = find (\<lambda>p. pt_id p = i) (bo_prompts db)"

definition is_forgotten :: "body_store \<Rightarrow> int \<Rightarrow> bool" where
  "is_forgotten db i \<longleftrightarrow> i \<in> fst ` set (bo_forgotten db)"

text \<open>The prompt when its words may be released: warm, or to be forgotten, and not forgotten yet.\<close>

definition releasable :: "body_store \<Rightarrow> int \<Rightarrow> rstr \<Rightarrow> prompt_text option" where
  "releasable db i reason =
     (case prompt_at db i of
        None \<Rightarrow> None
      | Some p \<Rightarrow> if (pt_gist p = None \<or> reason = lit ''forget'') \<and> \<not> is_forgotten db i then Some p else None)"

section \<open>Compaction\<close>

text \<open>The upsert keyed by the prompt.\<close>

definition archive_put :: "archived \<Rightarrow> archived list \<Rightarrow> archived list" where
  "archive_put a as =
     (if \<exists>x\<in>set as. ac_prompt_id x = ac_prompt_id a
      then map (\<lambda>x. if ac_prompt_id x = ac_prompt_id a then a else x) as else as @ [a])"

definition archive_body ::
  "(rstr \<Rightarrow> byte list option) \<Rightarrow> bool \<Rightarrow> int \<Rightarrow> rstr \<Rightarrow> prompt_text \<Rightarrow> archived list \<Rightarrow> archived list" where
  "archive_body deflate writes ts reason p as =
     (if reason = lit ''cold''
      then (case deflate (pt_body p) of
              None \<Rightarrow> as
            | Some blob \<Rightarrow>
                if writes
                then archive_put \<lparr>ac_prompt_id = pt_id p, ac_body_hash = pt_body_hash p, ac_algo = ARCHIVE_ALGO,
                       ac_original_bytes = int (byte_len (pt_body p)), ac_blob = blob, ac_archived_at = ts\<rparr> as
                else as)
      else filter (\<lambda>x. ac_prompt_id x \<noteq> pt_id p) as)"

definition release_words :: "rstr \<Rightarrow> rstr \<Rightarrow> rstr \<Rightarrow> int \<Rightarrow> int \<Rightarrow> prompt_text \<Rightarrow> prompt_text" where
  "release_words gist reason source bytes ts p =
     p\<lparr>pt_gist := Some gist, pt_body := [], pt_compacted_at := Some ts,
       pt_original_bytes := Some (case pt_original_bytes p of None \<Rightarrow> bytes | Some b \<Rightarrow> b),
       pt_gist_source := Some source,
       pt_user_text := (if reason = lit ''forget'' then None else pt_user_text p)\<rparr>"

definition compaction_append :: "sha_fn \<Rightarrow> rstr \<Rightarrow> int \<Rightarrow> int \<Rightarrow> rstr \<Rightarrow> rstr \<Rightarrow> rstr \<Rightarrow> ledger_append" where
  "compaction_append sha actor ts i hash gist reason =
     \<lparr>la_kind = lit ''compaction'', la_author = actor, la_ts = ts, la_prompt_id = Some i, la_session_id = None,
      la_version_number = None, la_ref_kind = Some (lit ''prompt''), la_ref_id = Some (show_int i),
      la_payload_hash = decision_payload_hash sha
        [(lit ''original_body_hash'', hash), (lit ''gist_hash'', body_hash sha gist), (lit ''reason'', reason)]\<rparr>"

record release =
  rl_gist :: rstr
  rl_reason :: rstr
  rl_source :: rstr
  rl_actor :: rstr
  rl_ts :: int
  rl_archive_writes :: bool
  rl_marker_durable :: bool

definition compact_prompt_body ::
  "sha_fn \<Rightarrow> (rstr \<Rightarrow> byte list option) \<Rightarrow> int \<Rightarrow> release \<Rightarrow> body_store \<Rightarrow> (archive_error + int option) \<times> body_store" where
  "compact_prompt_body sha deflate i w db =
     (case releasable db i (rl_reason w) of
        None \<Rightarrow> (Inr None, db)
      | Some p \<Rightarrow>
          if rl_reason w = lit ''forget'' \<and> \<not> rl_marker_durable w then (Inl MarkerNotDurable, db)
          else
            let forget = (rl_reason w = lit ''forget'');
                (ev, rows) = append_in_txn sha
                  (compaction_append sha (rl_actor w) (rl_ts w) i (pt_body_hash p) (rl_gist w) (rl_reason w)) (bo_events db)
            in (Inr (Some (ev_seq ev)),
                db\<lparr>bo_archive := archive_body deflate (rl_archive_writes w) (rl_ts w) (rl_reason w) p (bo_archive db),
                   bo_forgotten := bo_forgotten db @ (if forget then [(i, pt_body_hash p, rl_ts w)] else []),
                   bo_outbox := bo_outbox db @
                     (if forget \<and> i \<notin> fst ` set (bo_outbox db) then [(i, rl_ts w)] else []),
                   bo_prompts := map (\<lambda>q. if pt_id q = i
                       then release_words (rl_gist w) (rl_reason w) (rl_source w) (int (byte_len (pt_body p))) (rl_ts w) q
                       else q) (bo_prompts db),
                   bo_events := rows\<rparr>))"

text \<open>The gist when no model summarises (\<^verbatim>\<open>polis-core/src/gist.rs\<close>): the head and the tail of the words.\<close>

definition GIST_HEAD_CHARS :: nat where "GIST_HEAD_CHARS = 200"
definition GIST_TAIL_CHARS :: nat where "GIST_TAIL_CHARS = 120"

definition deterministic_gist :: "rstr \<Rightarrow> rstr" where
  "deterministic_gist body =
     (let flat = join [32] (split_whitespace body);
          summary = (if length flat \<le> GIST_HEAD_CHARS + GIST_TAIL_CHARS then flat
                     else take GIST_HEAD_CHARS flat @ [32, 8230, 32] @ drop (length flat - GIST_TAIL_CHARS) flat)
      in summary @ [8230] @ lit '' [compacted '' @ show_nat (byte_len body) @ lit '' bytes]'')"

lemma gist_is_short: "length (deterministic_gist body) \<le> 343 + length (show_nat (byte_len body))"
  by (simp add: deterministic_gist_def Let_def GIST_HEAD_CHARS_def GIST_TAIL_CHARS_def lit_def)

section \<open>Restoring\<close>

definition restore_words :: "rstr \<Rightarrow> prompt_text \<Rightarrow> prompt_text" where
  "restore_words body p =
     p\<lparr>pt_body := body, pt_gist := None, pt_compacted_at := None, pt_original_bytes := None, pt_gist_source := None\<rparr>"

definition restore_prompt_body ::
  "sha_fn \<Rightarrow> (byte list \<Rightarrow> rstr option) \<Rightarrow> int \<Rightarrow> body_store \<Rightarrow> (archive_error + bool) \<times> body_store" where
  "restore_prompt_body sha inflate i db =
     (if is_forgotten db i then (Inr False, db)
      else
        (case find (\<lambda>a. ac_prompt_id a = i) (bo_archive db) of
           None \<Rightarrow> (Inr False, db)
         | Some a \<Rightarrow>
             if ac_algo a \<noteq> ARCHIVE_ALGO then (Inl (UnknownCodec (ac_algo a)), db)
             else
               (case inflate (ac_blob a) of
                  None \<Rightarrow> (Inl InflateFailed, db)
                | Some body \<Rightarrow>
                    if body_hash sha body \<noteq> ac_body_hash a then (Inl HashMismatch, db)
                    else if \<not> (\<exists>p\<in>set (bo_prompts db). pt_id p = i \<and> pt_body_hash p = ac_body_hash a) then (Inr False, db)
                    else (Inr True,
                          db\<lparr>bo_prompts := map (\<lambda>q. if pt_id q = i \<and> pt_body_hash q = ac_body_hash a
                                 then restore_words body q else q) (bo_prompts db),
                             bo_archive := filter (\<lambda>x. ac_prompt_id x \<noteq> i) (bo_archive db)\<rparr>))))"

definition archive_stats :: "body_store \<Rightarrow> nat \<times> nat" where
  "archive_stats db = (length (bo_archive db), sum_list (map (\<lambda>a. length (ac_blob a)) (bo_archive db)))"

section \<open>Any sequence of both\<close>

datatype body_op = Compact int release | Restored int

fun body_step :: "sha_fn \<Rightarrow> (rstr \<Rightarrow> byte list option) \<Rightarrow> (byte list \<Rightarrow> rstr option) \<Rightarrow> body_op \<Rightarrow> body_store \<Rightarrow> body_store" where
  "body_step sha deflate inflate (Compact i w) db = snd (compact_prompt_body sha deflate i w db)"
| "body_step sha deflate inflate (Restored i) db = snd (restore_prompt_body sha inflate i db)"

text \<open>A store in which nothing was released yet: ids are unique and hashes are those of the bodies.\<close>

definition all_warm :: "sha_fn \<Rightarrow> body_store \<Rightarrow> bool" where
  "all_warm sha db \<longleftrightarrow> distinct (map pt_id (bo_prompts db)) \<and> bo_archive db = [] \<and> bo_forgotten db = []
     \<and> (\<forall>p\<in>set (bo_prompts db). pt_gist p = None \<and> pt_compacted_at p = None \<and> pt_original_bytes p = None
          \<and> pt_gist_source p = None \<and> pt_body_hash p = body_hash sha (pt_body p))"

text \<open>What a prompt is beside what it was: forgotten, itself, or a gist with the body, if archived, in the archive.\<close>

definition gist_of :: "prompt_text \<Rightarrow> prompt_text \<Rightarrow> bool" where
  "gist_of p q \<longleftrightarrow> pt_body q = [] \<and> restore_words (pt_body p) q = p \<and> pt_gist q \<noteq> None"

definition holds_body :: "(byte list \<Rightarrow> rstr option) \<Rightarrow> prompt_text \<Rightarrow> archived \<Rightarrow> bool" where
  "holds_body inflate p a \<longleftrightarrow> ac_algo a = ARCHIVE_ALGO \<and> inflate (ac_blob a) = Some (pt_body p) \<and> ac_body_hash a = pt_body_hash p"

definition prompt_ok :: "(byte list \<Rightarrow> rstr option) \<Rightarrow> body_store \<Rightarrow> prompt_text \<Rightarrow> prompt_text \<Rightarrow> bool" where
  "prompt_ok inflate db p q \<longleftrightarrow> pt_id q = pt_id p \<and> pt_body_hash q = pt_body_hash p
     \<and> (if is_forgotten db (pt_id p)
        then pt_body q = [] \<and> pt_user_text q = None \<and> pt_id p \<notin> ac_prompt_id ` set (bo_archive db)
        else (q = p \<or> gist_of p q) \<and> (\<forall>a\<in>set (bo_archive db). ac_prompt_id a = pt_id p \<longrightarrow> holds_body inflate p a))"

definition bodies_ok :: "(byte list \<Rightarrow> rstr option) \<Rightarrow> body_store \<Rightarrow> body_store \<Rightarrow> bool" where
  "bodies_ok inflate db0 db \<longleftrightarrow> list_all2 (prompt_ok inflate db) (bo_prompts db0) (bo_prompts db)"

lemma prompt_ok_other:
  assumes "prompt_ok inflate db p q" "pt_id p \<noteq> i"
    and "is_forgotten db' (pt_id p) = is_forgotten db (pt_id p)"
    and "{a \<in> set (bo_archive db'). ac_prompt_id a = pt_id p} \<subseteq> set (bo_archive db)"
  shows "prompt_ok inflate db' p q"
  using assms unfolding prompt_ok_def by (auto split: if_splits)

lemma rows_updated:
  assumes "list_all2 P xs ys" "\<And>x y. x \<in> set xs \<Longrightarrow> y \<in> set ys \<Longrightarrow> P x y \<Longrightarrow> Q x (f y)"
  shows "list_all2 Q xs (map f ys)"
  using assms by (auto simp: list_all2_conv_all_nth)

lemma body_row_ids:
  assumes "bodies_ok inflate db0 db"
  shows "map pt_id (bo_prompts db) = map pt_id (bo_prompts db0)"
  using assms unfolding bodies_ok_def by (auto simp: list_all2_conv_all_nth prompt_ok_def intro!: nth_equalityI)

lemma find_unique: "distinct (map k xs) \<Longrightarrow> x \<in> set xs \<Longrightarrow> find (\<lambda>y. k y = k x) xs = Some x"
  by (induction xs) auto

lemma in_archive_body:
  assumes "a \<in> set (archive_body deflate writes ts reason p as)"
  obtains "a \<in> set as"
  | z where "deflate (pt_body p) = Some z" "ac_algo a = ARCHIVE_ALGO" "ac_blob a = z" "ac_body_hash a = pt_body_hash p"
  using assms by (auto simp: archive_body_def archive_put_def split: option.splits if_splits)

lemma compact_ok:
  assumes ok: "bodies_ok inflate db0 db" and warm: "all_warm sha db0"
    and flate: "\<And>b z. deflate b = Some z \<Longrightarrow> inflate z = Some b"
  shows "bodies_ok inflate db0 (snd (compact_prompt_body sha deflate i w db))"
proof (cases "releasable db i (rl_reason w) = None \<or> rl_reason w = lit ''forget'' \<and> \<not> rl_marker_durable w")
  case False
  have ids: "distinct (map pt_id (bo_prompts db0))" using warm by (simp add: all_warm_def)
  obtain r where r: "prompt_at db i = Some r" "pt_gist r = None \<or> rl_reason w = lit ''forget''" "\<not> is_forgotten db i"
    using False by (auto simp: releasable_def split: option.splits if_splits)
  have rel: "releasable db i (rl_reason w) = Some r" using r by (simp add: releasable_def)
  have rid: "pt_id r = i" "r \<in> set (bo_prompts db)" using r(1) by (auto simp: prompt_at_def find_Some_iff)
  define f where "f q = (if pt_id q = i
      then release_words (rl_gist w) (rl_reason w) (rl_source w) (int (byte_len (pt_body r))) (rl_ts w) q else q)" for q
  define db' where "db' = snd (compact_prompt_body sha deflate i w db)"
  have new: "bo_prompts db' = map f (bo_prompts db)"
    "bo_archive db' = archive_body deflate (rl_archive_writes w) (rl_ts w) (rl_reason w) r (bo_archive db)"
    "is_forgotten db' j \<longleftrightarrow> is_forgotten db j \<or> rl_reason w = lit ''forget'' \<and> j = i" for j
    using False by (auto simp: db'_def compact_prompt_body_def rel Let_def f_def [abs_def] is_forgotten_def split: prod.splits)
  have others: "{a \<in> set (bo_archive db'). ac_prompt_id a = j} \<subseteq> set (bo_archive db)" if "j \<noteq> i" for j
    using that by (auto simp: new(2) archive_body_def archive_put_def rid split: option.splits if_splits)
  have "list_all2 (prompt_ok inflate db') (bo_prompts db0) (map f (bo_prompts db))"
  proof (rule rows_updated [OF ok [unfolded bodies_ok_def]])
    fix p q assume p: "p \<in> set (bo_prompts db0)" and q: "q \<in> set (bo_prompts db)" and pq: "prompt_ok inflate db p q"
    show "prompt_ok inflate db' p (f q)"
    proof (cases "pt_id q = i")
      case False
      show ?thesis
      proof -
        have pid: "pt_id p \<noteq> i" using pq False by (simp add: prompt_ok_def)
        have "prompt_ok inflate db' p q"
          by (rule prompt_ok_other [OF pq pid _ others [OF pid]]) (simp add: new(3) pid)
        then show ?thesis using False by (simp add: f_def)
      qed
    next
      case True
      then have qr: "q = r" using find_unique [of pt_id "bo_prompts db" q] q r(1) ids body_row_ids [OF ok] by (simp add: prompt_at_def)
      have pid: "pt_id p = i" "pt_body_hash r = pt_body_hash p" using pq True qr by (auto simp: prompt_ok_def)
      show ?thesis
      proof (cases "rl_reason w = lit ''forget''")
        case forget: True
        have "lit ''forget'' \<noteq> lit ''cold''" by code_simp
        then show ?thesis
          using forget pid rid by (auto simp: prompt_ok_def new(2,3) f_def qr release_words_def archive_body_def)
      next
        case kept: False
        have same: "r = p" using pq r(2,3) kept pid by (auto simp: prompt_ok_def qr gist_of_def)
        have plain: "restore_words (pt_body p) p = p" using warm p by (simp add: all_warm_def restore_words_def)
        have held: "holds_body inflate p a" if a: "a \<in> set (bo_archive db')" "ac_prompt_id a = pt_id p" for a
          using a(1) unfolding new(2) same
        proof (cases rule: in_archive_body)
          case 1
          then show ?thesis using pq r(3) pid(1) a(2) by (simp add: prompt_ok_def)
        next
          case (2 z)
          then show ?thesis using flate by (simp add: holds_body_def)
        qed
        show ?thesis
          using kept r(3) pid held plain
          by (auto simp: prompt_ok_def new(3) f_def qr same gist_of_def release_words_def restore_words_def)
      qed
    qed
  qed
  then show ?thesis by (simp add: bodies_ok_def db'_def [symmetric] new(1))
qed (auto simp: compact_prompt_body_def ok split: option.splits)

lemma restored_prompt:
  assumes ok: "bodies_ok inflate db0 db" and ids: "distinct (map pt_id (bo_prompts db0))"
    and p: "p \<in> set (bo_prompts db0)"
  obtains q where "prompt_at db (pt_id p) = Some q" "prompt_ok inflate db p q"
proof -
  obtain k where k: "k < length (bo_prompts db0)" "bo_prompts db0 ! k = p" using p by (auto simp: in_set_conv_nth)
  then have q: "bo_prompts db ! k \<in> set (bo_prompts db)" "prompt_ok inflate db p (bo_prompts db ! k)"
    using ok by (auto simp: bodies_ok_def list_all2_conv_all_nth)
  then have "prompt_at db (pt_id p) = Some (bo_prompts db ! k)"
    using find_unique [of pt_id "bo_prompts db", OF _ q(1)] ids body_row_ids [OF ok]
    by (simp add: prompt_at_def prompt_ok_def)
  then show ?thesis using q(2) that by blast
qed

lemma restore_result:
  assumes ok: "bodies_ok inflate db0 db" and warm: "all_warm sha db0" and p: "p \<in> set (bo_prompts db0)"
    and f: "\<not> is_forgotten db (pt_id p)" and a: "find (\<lambda>a. ac_prompt_id a = pt_id p) (bo_archive db) = Some a"
  shows "restore_prompt_body sha inflate (pt_id p) db
    = (Inr True, db\<lparr>bo_prompts := map (\<lambda>q. if pt_id q = pt_id p then p else q) (bo_prompts db),
         bo_archive := filter (\<lambda>x. ac_prompt_id x \<noteq> pt_id p) (bo_archive db)\<rparr>)"
proof -
  have ids: "distinct (map pt_id (bo_prompts db0))" using warm by (simp add: all_warm_def)
  obtain q where q: "prompt_at db (pt_id p) = Some q" "prompt_ok inflate db p q" by (rule restored_prompt [OF ok ids p])
  have qin: "q \<in> set (bo_prompts db)" "pt_id q = pt_id p" using q(1) by (auto simp: prompt_at_def find_Some_iff)
  have "a \<in> set (bo_archive db)" "ac_prompt_id a = pt_id p" using a by (auto simp: find_Some_iff)
  then have h: "holds_body inflate p a" using q(2) f by (simp add: prompt_ok_def)
  have pw: "pt_body_hash p = body_hash sha (pt_body p)" "restore_words (pt_body p) p = p"
    using warm p by (auto simp: all_warm_def restore_words_def)
  have only: "r = q" if "r \<in> set (bo_prompts db)" "pt_id r = pt_id p" for r
    using find_unique [of pt_id "bo_prompts db", OF _ that(1)] ids body_row_ids [OF ok] q(1) that(2) by (simp add: prompt_at_def)
  have original: "restore_words (pt_body p) q = p" using q(2) f pw(2) by (auto simp: prompt_ok_def gist_of_def)
  have "map (\<lambda>r. if pt_id r = pt_id p \<and> pt_body_hash r = pt_body_hash p then restore_words (pt_body p) r else r) (bo_prompts db)
      = map (\<lambda>r. if pt_id r = pt_id p then p else r) (bo_prompts db)"
    using only original q(2) by (auto simp: prompt_ok_def)
  moreover have "\<exists>r\<in>set (bo_prompts db). pt_id r = pt_id p \<and> pt_body_hash r = pt_body_hash p"
    using qin q(2) by (auto simp: prompt_ok_def)
  ultimately show ?thesis
    using h f a pw(1) by (simp add: restore_prompt_body_def holds_body_def)
qed

lemma restore_ok:
  assumes ok: "bodies_ok inflate db0 db" and warm: "all_warm sha db0"
  shows "bodies_ok inflate db0 (snd (restore_prompt_body sha inflate i db))"
proof (cases "is_forgotten db i \<or> find (\<lambda>a. ac_prompt_id a = i) (bo_archive db) = None
    \<or> i \<notin> pt_id ` set (bo_prompts db0)")
  case True
  have "\<forall>p\<in>set (bo_prompts db). pt_id p \<noteq> i" if "i \<notin> pt_id ` set (bo_prompts db0)"
    using that arg_cong [OF body_row_ids [OF ok], of set] by auto
  then have "snd (restore_prompt_body sha inflate i db) = db"
    using True by (auto simp: restore_prompt_body_def split: option.splits)
  then show ?thesis using ok by simp
next
  case False
  then obtain p a where p: "p \<in> set (bo_prompts db0)" "i = pt_id p"
    and a: "find (\<lambda>a. ac_prompt_id a = pt_id p) (bo_archive db) = Some a" by auto
  define db' where "db' = snd (restore_prompt_body sha inflate i db)"
  have f: "\<not> is_forgotten db (pt_id p)" using False p(2) by simp
  have new: "bo_prompts db' = map (\<lambda>q. if pt_id q = pt_id p then p else q) (bo_prompts db)"
    "bo_archive db' = filter (\<lambda>x. ac_prompt_id x \<noteq> pt_id p) (bo_archive db)" "is_forgotten db' j = is_forgotten db j" for j
    using restore_result [OF ok warm p(1) f a] by (simp_all add: db'_def p(2) is_forgotten_def)
  have ids: "distinct (map pt_id (bo_prompts db0))" using warm by (simp add: all_warm_def)
  have "list_all2 (prompt_ok inflate db') (bo_prompts db0) (bo_prompts db')"
    unfolding new(1)
  proof (rule rows_updated [OF ok [unfolded bodies_ok_def]])
    fix x y assume x: "x \<in> set (bo_prompts db0)" and xy: "prompt_ok inflate db x y"
    show "prompt_ok inflate db' x (if pt_id y = pt_id p then p else y)"
    proof (cases "pt_id x = pt_id p")
      case True
      then have "x = p" using ids x p(1) by (auto simp: distinct_map inj_on_def)
      then show ?thesis using xy f by (auto simp: prompt_ok_def new(2,3))
    next
      case False
      have "prompt_ok inflate db' x y"
        by (rule prompt_ok_other [OF xy False]) (auto simp: new(2,3))
      then show ?thesis using xy False by (simp add: prompt_ok_def)
    qed
  qed
  then show ?thesis by (simp add: bodies_ok_def db'_def)
qed

lemma bodies_ok_run:
  assumes "\<And>b z. deflate b = Some z \<Longrightarrow> inflate z = Some b" and warm: "all_warm sha db0"
  shows "bodies_ok inflate db0 (fold (body_step sha deflate inflate) ops db0)"
proof (induction ops rule: rev_induct)
  case Nil
  have "prompt_ok inflate db0 p p" if "p \<in> set (bo_prompts db0)" for p
    using warm that by (simp add: all_warm_def prompt_ok_def is_forgotten_def)
  then show ?case by (auto simp: bodies_ok_def list_all2_conv_all_nth)
next
  case (snoc x ops)
  show ?case
    using compact_ok [OF snoc warm assms(1)] restore_ok [OF snoc warm] by (cases x) simp_all
qed

section \<open>What was archived\<close>

text \<open>
  Whether an operation releases the words of a prompt only into the archive, or forgets them: a cold
  compaction whose archive write succeeds does, one for another reason or with a failed write does not.
\<close>

fun archived_release :: "int \<Rightarrow> body_op \<Rightarrow> bool" where
  "archived_release i (Compact j w) \<longleftrightarrow>
     j \<noteq> i \<or> rl_reason w = lit ''forget'' \<or> rl_reason w = lit ''cold'' \<and> rl_archive_writes w"
| "archived_release i (Restored j) \<longleftrightarrow> True"

definition recoverable :: "prompt_text \<Rightarrow> body_store \<Rightarrow> bool" where
  "recoverable p db \<longleftrightarrow> is_forgotten db (pt_id p) \<or> prompt_at db (pt_id p) = Some p
     \<or> pt_id p \<in> ac_prompt_id ` set (bo_archive db)"

lemma archive_body_keeps:
  "j \<in> ac_prompt_id ` set as \<Longrightarrow> j \<noteq> pt_id r \<Longrightarrow> j \<in> ac_prompt_id ` set (archive_body deflate writes ts reason r as)"
  by (force simp: archive_body_def archive_put_def split: option.splits)

lemma archive_body_cold:
  assumes "deflate (pt_body r) \<noteq> None"
  shows "pt_id r \<in> ac_prompt_id ` set (archive_body deflate True ts (lit ''cold'') r as)"
proof -
  obtain z where "deflate (pt_body r) = Some z" using assms by auto
  moreover have "ac_prompt_id a \<in> ac_prompt_id ` set (archive_put a as)" for a
    by (auto simp: archive_put_def image_iff)
  from this [of "\<lparr>ac_prompt_id = pt_id r, ac_body_hash = pt_body_hash r, ac_algo = ARCHIVE_ALGO,
      ac_original_bytes = int (byte_len (pt_body r)), ac_blob = z, ac_archived_at = ts\<rparr>"]
  have "pt_id r \<in> ac_prompt_id ` set (archive_put \<lparr>ac_prompt_id = pt_id r, ac_body_hash = pt_body_hash r,
      ac_algo = ARCHIVE_ALGO, ac_original_bytes = int (byte_len (pt_body r)), ac_blob = z, ac_archived_at = ts\<rparr> as)" by simp
  ultimately show ?thesis by (simp add: archive_body_def)
qed

lemma prompt_at_other:
  assumes "bo_prompts db' = map (\<lambda>q. if pt_id q = i then g q else q) (bo_prompts db)" "\<And>q. pt_id (g q) = pt_id q" "j \<noteq> i"
  shows "prompt_at db' j = prompt_at db j"
proof -
  have "find (\<lambda>q. pt_id q = j) (map (\<lambda>q. if pt_id q = i then g q else q) qs) = find (\<lambda>q. pt_id q = j) qs" for qs
    using assms(2,3) by (induction qs) auto
  then show ?thesis by (simp add: prompt_at_def assms(1))
qed

lemma recoverable_compact:
  assumes ok: "bodies_ok inflate db0 db" and warm: "all_warm sha db0" and p: "p \<in> set (bo_prompts db0)"
    and body: "deflate (pt_body p) \<noteq> None" and op: "archived_release (pt_id p) (Compact i w)" and rec: "recoverable p db"
  shows "recoverable p (snd (compact_prompt_body sha deflate i w db))"
proof (cases "releasable db i (rl_reason w) = None \<or> rl_reason w = lit ''forget'' \<and> \<not> rl_marker_durable w")
  case True
  then show ?thesis using rec by (auto simp: compact_prompt_body_def split: option.splits)
next
  case False
  then obtain r where r: "releasable db i (rl_reason w) = Some r" by auto
  then have r': "prompt_at db i = Some r" "pt_gist r = None \<or> rl_reason w = lit ''forget''" "\<not> is_forgotten db i"
    by (auto simp: releasable_def split: option.splits if_splits)
  have rid: "pt_id r = i" using r'(1) by (auto simp: prompt_at_def find_Some_iff)
  define db' where "db' = snd (compact_prompt_body sha deflate i w db)"
  have new: "bo_prompts db' = map (\<lambda>q. if pt_id q = i
      then release_words (rl_gist w) (rl_reason w) (rl_source w) (int (byte_len (pt_body r))) (rl_ts w) q else q) (bo_prompts db)"
    "bo_archive db' = archive_body deflate (rl_archive_writes w) (rl_ts w) (rl_reason w) r (bo_archive db)"
    "is_forgotten db' j \<longleftrightarrow> is_forgotten db j \<or> rl_reason w = lit ''forget'' \<and> j = i" for j
    using False by (auto simp: db'_def compact_prompt_body_def r Let_def is_forgotten_def split: prod.splits)
  have "recoverable p db'"
  proof (cases "pt_id p = i")
    case True
    show ?thesis
    proof (cases "rl_reason w = lit ''forget''")
      case False
      obtain q where q: "prompt_at db (pt_id p) = Some q" "prompt_ok inflate db p q"
        by (rule restored_prompt [OF ok _ p]) (use warm in \<open>simp_all add: all_warm_def\<close>)
      have "r = p" using q r' False True by (auto simp: prompt_ok_def gist_of_def)
      moreover have "rl_reason w = lit ''cold''" "rl_archive_writes w" using op False True by auto
      ultimately show ?thesis using archive_body_cold [of deflate p] body by (simp add: recoverable_def new(2))
    qed (simp add: recoverable_def new(3) True)
  next
    case False
    have "prompt_at db' (pt_id p) = prompt_at db (pt_id p)"
      by (rule prompt_at_other [OF new(1) _ False]) (simp add: release_words_def)
    then show ?thesis
      using rec archive_body_keeps [of "pt_id p" "bo_archive db" r] False rid by (auto simp: recoverable_def new(2,3))
  qed
  then show ?thesis by (simp add: db'_def)
qed

lemma restore_cases:
  "snd (restore_prompt_body sha inflate i db) = db
   \<or> (\<exists>b h. snd (restore_prompt_body sha inflate i db)
      = db\<lparr>bo_prompts := map (\<lambda>q. if pt_id q = i then if pt_body_hash q = h then restore_words b q else q else q) (bo_prompts db),
           bo_archive := filter (\<lambda>x. ac_prompt_id x \<noteq> i) (bo_archive db)\<rparr>)"
proof -
  have "(\<lambda>q. if pt_id q = i \<and> pt_body_hash q = h then restore_words b q else q)
      = (\<lambda>q. if pt_id q = i then if pt_body_hash q = h then restore_words b q else q else q)" for b h
    by (simp add: fun_eq_iff)
  then show ?thesis
    by (cases "is_forgotten db i"; cases "find (\<lambda>a. ac_prompt_id a = i) (bo_archive db)")
      (auto simp: restore_prompt_body_def split: option.split)
qed

lemma recoverable_restore:
  assumes ok: "bodies_ok inflate db0 db" and warm: "all_warm sha db0" and p: "p \<in> set (bo_prompts db0)"
    and rec: "recoverable p db"
  shows "recoverable p (snd (restore_prompt_body sha inflate i db))"
proof (cases "pt_id p = i")
  case True
  show ?thesis
  proof (cases "is_forgotten db i \<or> find (\<lambda>a. ac_prompt_id a = i) (bo_archive db) = None")
    case True
    then show ?thesis using rec by (auto simp: restore_prompt_body_def)
  next
    case False
    then obtain a where a: "find (\<lambda>a. ac_prompt_id a = pt_id p) (bo_archive db) = Some a" and f: "\<not> is_forgotten db (pt_id p)"
      using True by auto
    obtain q where q: "prompt_at db (pt_id p) = Some q"
      by (rule restored_prompt [OF ok _ p]) (use warm in \<open>simp_all add: all_warm_def\<close>)
    have "find (\<lambda>q. pt_id q = pt_id p) (map (\<lambda>q. if pt_id q = pt_id p then p else q) qs) = Some p"
      if "find (\<lambda>q. pt_id q = pt_id p) qs = Some q" for qs
      using that by (induction qs) (auto split: if_splits)
    then show ?thesis
      using q restore_result [OF ok warm p f a] True by (simp add: recoverable_def prompt_at_def)
  qed
next
  case False
  consider "snd (restore_prompt_body sha inflate i db) = db"
    | b h where "snd (restore_prompt_body sha inflate i db)
      = db\<lparr>bo_prompts := map (\<lambda>q. if pt_id q = i then if pt_body_hash q = h then restore_words b q else q else q) (bo_prompts db),
           bo_archive := filter (\<lambda>x. ac_prompt_id x \<noteq> i) (bo_archive db)\<rparr>"
    using restore_cases by blast
  then show ?thesis
  proof cases
    case (2 b h)
    have "prompt_at (snd (restore_prompt_body sha inflate i db)) (pt_id p) = prompt_at db (pt_id p)"
      by (rule prompt_at_other [of _ i "\<lambda>q. if pt_body_hash q = h then restore_words b q else q", OF _ _ False])
        (simp_all add: 2 restore_words_def)
    then show ?thesis using rec False by (auto simp: 2 recoverable_def is_forgotten_def)
  qed (use rec in simp)
qed

lemma recoverable_run:
  assumes flate: "\<And>b z. deflate b = Some z \<Longrightarrow> inflate z = Some b" and warm: "all_warm sha db0"
    and p: "p \<in> set (bo_prompts db0)" and body: "deflate (pt_body p) \<noteq> None"
  shows "list_all (archived_release (pt_id p)) ops \<Longrightarrow> recoverable p (fold (body_step sha deflate inflate) ops db0)"
proof (induction ops rule: rev_induct)
  case Nil
  have "distinct (map pt_id (bo_prompts db0))" using warm by (simp add: all_warm_def)
  then show ?case using find_unique [of pt_id "bo_prompts db0" p] p by (simp add: recoverable_def prompt_at_def)
next
  case (snoc x ops)
  have ok: "bodies_ok inflate db0 (fold (body_step sha deflate inflate) ops db0)" by (rule bodies_ok_run [OF flate warm])
  have op: "archived_release (pt_id p) x" and rec: "recoverable p (fold (body_step sha deflate inflate) ops db0)"
    using snoc by simp_all
  show ?case
  proof (cases x)
    case (Compact i w)
    then have "archived_release (pt_id p) (Compact i w)" using op by simp
    then show ?thesis using recoverable_compact [where deflate = deflate, OF ok warm p body] rec by (simp add: Compact)
  next
    case (Restored i)
    then show ?thesis using recoverable_restore [OF ok warm p rec] by simp
  qed
qed

section \<open>Properties\<close>

text \<open>
  C13. Cold words come back, forgotten words never.  After any sequence of compactions, forgettings and restores
  on a store in which nothing was released before, every prompt is still there.  If it was forgotten, its words
  and the user's text are empty, no archive row holds them, and restoring does nothing.  Otherwise it is exactly
  what it was, or it is a gist.  Restoring one with an archive row brings back exactly the original row; and if
  every compaction of the prompt was for being cold (or a forgetting), its archive write succeeded and its words
  could be deflated, then a gist always has that row, so the words come back.  Words compacted without an archive
  row stay released: restoring changes nothing.  No restore fails.
\<close>
theorem cold_words_return_forgotten_never:
  assumes "\<forall>b z. deflate b = Some z \<longrightarrow> inflate z = Some b" and "all_warm sha db0" and "p \<in> set (bo_prompts db0)"
  shows "let db = fold (body_step sha deflate inflate) ops db0;
             (res, db') = restore_prompt_body sha inflate (pt_id p) db;
             held = (pt_id p \<in> ac_prompt_id ` set (bo_archive db));
             archived = (deflate (pt_body p) \<noteq> None \<and> list_all (archived_release (pt_id p)) ops)
    in \<exists>q. prompt_at db (pt_id p) = Some q
         \<and> (if is_forgotten db (pt_id p)
            then pt_body q = [] \<and> pt_user_text q = None \<and> \<not> held \<and> (res, db') = (Inr False, db)
            else (if pt_gist q = None then q = p else pt_body q = [])
              \<and> res = Inr held \<and> (if held then prompt_at db' (pt_id p) = Some p else db' = db)
              \<and> (if archived then held \<or> q = p else True)
              \<and> (if archived then prompt_at db' (pt_id p) = Some p else True))"
proof -
  define db where "db = fold (body_step sha deflate inflate) ops db0"
  have ok: "bodies_ok inflate db0 db" unfolding db_def using assms(1) by (intro bodies_ok_run assms(2)) blast
  have ids: "distinct (map pt_id (bo_prompts db0))" using assms(2) by (simp add: all_warm_def)
  obtain q where q: "prompt_at db (pt_id p) = Some q" "prompt_ok inflate db p q" by (rule restored_prompt [OF ok ids assms(3)])
  show ?thesis
  proof (cases "is_forgotten db (pt_id p)")
    case True
    then show ?thesis using q by (simp add: db_def [symmetric] restore_prompt_body_def prompt_ok_def)
  next
    case False
    have "pt_gist p = None" using assms(2,3) by (simp add: all_warm_def)
    then have same: "if pt_gist q = None then q = p else pt_body q = []"
      using q(2) False by (auto simp: prompt_ok_def gist_of_def)
    have kept: "pt_id p \<in> ac_prompt_id ` set (bo_archive db) \<or> q = p"
      if "deflate (pt_body p) \<noteq> None" "list_all (archived_release (pt_id p)) ops"
    proof -
      have "recoverable p db"
        unfolding db_def by (rule recoverable_run [where deflate = deflate, OF _ assms(2,3) that]) (use assms(1) in blast)
      then show ?thesis using False q(1) by (auto simp: recoverable_def)
    qed
    show ?thesis
    proof (cases "find (\<lambda>a. ac_prompt_id a = pt_id p) (bo_archive db)")
      case None
      then have "pt_id p \<notin> ac_prompt_id ` set (bo_archive db)" by (auto simp: find_None_iff)
      then have whole: "q = p" if "deflate (pt_body p) \<noteq> None" "list_all (archived_release (pt_id p)) ops"
        using kept that by simp
      have res: "restore_prompt_body sha inflate (pt_id p) db = (Inr False, db)"
        using None False by (simp add: restore_prompt_body_def)
      have at: "prompt_at db (pt_id p) = Some p" if "deflate (pt_body p) \<noteq> None" "list_all (archived_release (pt_id p)) ops"
        using whole [OF that] q(1) by simp
      show ?thesis
        unfolding db_def [symmetric] Let_def res prod.case if_not_P [OF False] if_not_P [OF \<open>pt_id p \<notin> _\<close>]
        by (intro exI [of _ q] conjI q(1) same) (use whole at \<open>pt_id p \<notin> _\<close> in simp_all)
    next
      case (Some a)
      then have "a \<in> set (bo_archive db)" "ac_prompt_id a = pt_id p" by (auto simp: find_Some_iff)
      then have held: "pt_id p \<in> ac_prompt_id ` set (bo_archive db)" by (metis imageI)
      have "find (\<lambda>q. pt_id q = pt_id p) (map (\<lambda>q. if pt_id q = pt_id p then p else q) qs) = Some p"
        if "find (\<lambda>q. pt_id q = pt_id p) qs = Some q" for qs
        using that by (induction qs) (auto split: if_splits)
      then have again: "prompt_at (snd (restore_prompt_body sha inflate (pt_id p) db)) (pt_id p) = Some p"
        using q(1) by (simp add: restore_result [OF ok assms(2,3) False Some] prompt_at_def)
      obtain db' where res: "restore_prompt_body sha inflate (pt_id p) db = (Inr True, db')"
        using restore_result [OF ok assms(2,3) False Some] by blast
      show ?thesis
        unfolding db_def [symmetric] Let_def res prod.case if_not_P [OF False]
        by (intro exI [of _ q] conjI q(1) same) (use held again in \<open>simp_all add: res\<close>)
    qed
  qed
qed

definition sample_body :: prompt_text where
  "sample_body = \<lparr>pt_id = 4, pt_body = lit ''use rust'', pt_body_hash = lit ''use rust'', pt_gist = None, pt_compacted_at = None,
     pt_original_bytes = None, pt_gist_source = None, pt_user_text = Some (lit ''use rust'')\<rparr>"

definition sample_bodies :: body_store where
  "sample_bodies = \<lparr>bo_prompts = [sample_body, sample_body\<lparr>pt_id := 5\<rparr>], bo_archive = [], bo_forgotten = [], bo_outbox = [], bo_events = []\<rparr>"

definition sample_release :: "string \<Rightarrow> release" where
  "sample_release reason = \<lparr>rl_gist = lit ''g'', rl_reason = lit reason, rl_source = lit ''agent'', rl_actor = lit ''keeper'',
     rl_ts = 9, rl_archive_writes = True, rl_marker_durable = True\<rparr>"

definition sample_history :: "body_op list" where
  "sample_history = [Compact 4 (sample_release ''cold''), Compact 5 (sample_release ''cold''), Compact 5 (sample_release ''forget'')]"

definition sample_released :: body_store where
  "sample_released = fold (body_step (\<lambda>b. b) (\<lambda>b. Some b) (\<lambda>b. Some b)) sample_history sample_bodies"

theorem cold_words_return_forgotten_never_witness:
  "is_forgotten sample_released 5 \<and> \<not> is_forgotten sample_released 4
     \<and> list_all (archived_release 4) sample_history
     \<and> map_option pt_body (prompt_at sample_released 4) = Some []
     \<and> prompt_at (snd (restore_prompt_body (\<lambda>b. b) (\<lambda>b. Some b) 4 sample_released)) 4 = Some sample_body"
proof -
  have "all_warm (\<lambda>b. b) sample_bodies" "sample_body \<in> set (bo_prompts sample_bodies)" "pt_id sample_body = 4"
    "is_forgotten sample_released 5" "\<not> is_forgotten sample_released 4" "list_all (archived_release 4) sample_history"
    "map_option pt_body (prompt_at sample_released 4) = Some []"
    by code_simp+
  then show ?thesis
    using cold_words_return_forgotten_never [of "\<lambda>b. Some b" "\<lambda>b. Some b" "\<lambda>b. b" sample_bodies sample_body sample_history]
    by (auto simp: sample_released_def [symmetric] Let_def split_def)
qed

end
