(* ===== verification/Spec2Isabelle.thy ===== *)
theory Spec2Isabelle
  imports Writers Bundle Identity Jobs Dedup Coldness Query Pack Fuse Calendar Render HeldLog QueueLife ClaimLife Fence Chunks Archive
begin

text \<open>
  \<^bold>\<open>A model of polis-memory\<close>

  Polis keeps a person's memory of working with language models: prompts, decisions and pages are captured into a
  SQLite store, every one of them leaves an event in a hash-chained ledger, and a catalogue of classes, claims and
  observations is derived from them.  A gardener reorganises the catalogue with a model's help and without a
  reviewer; peers exchange signed segments of their ledgers; an answer pack is assembled for a question and
  rendered into a prompt.  This library models the parts that decide something: what is appended and verified,
  what is imported, forgotten or refused, what a proposal may do and how it is undone, what an answer holds.

  \<^bold>\<open>Conventions.\<close>  Rust strings are lists of Unicode scalar values (\<open>rstr\<close>), bytes the UTF-8 of them.  A SQLite
  table is the list of its rows in key order, a database a record of tables, a transaction one function; an SQL
  error is \<open>None\<close> or a value of an error type, and then the caller keeps the old state.  \<^verbatim>\<open>i64\<close> values are \<open>int\<close>,
  with saturation and bounds written out where the code has them; \<^verbatim>\<open>u64\<close> hashes are words; binary64 numbers are
  their bits or scaled integers with the rounding written out.  Parameters stand for what is not in the
  repository: SHA-256 (\<open>sha\<close>), Ed25519 (\<open>ed\<close>), Unicode tables (\<open>to_lower\<close>, \<open>alnum\<close>), the printing of floats
  (\<open>show_f64\<close>), \<^verbatim>\<open>serde_json\<close> where a text is only measured or hashed (\<open>enc\<close>), a model's verdict, random ids and
  the clock.

  \<^bold>\<open>Vocabulary\<close> (\<^verbatim>\<open>polis-core\<close>).
  \<^item> \<open>Prelude\<close>, \<open>Json\<close>: string operations of the standard library, decimal numbers, and the compact JSON that is
    hashed.  The locale \<open>prefix_code\<close> says when an encoding can be read back; every field encoder interprets it.
  \<^item> \<open>Ledger\<close> (\<^verbatim>\<open>ledger.rs\<close>): kinds, roles, the canonical event and its hash, the consume-once guards (locale
    \<open>consume_once\<close>).  \<open>Types\<close> (\<^verbatim>\<open>types.rs\<close>, \<^verbatim>\<open>claims.rs\<close>, \<^verbatim>\<open>api.rs\<close>): the rows other parts exchange.
  \<^item> \<open>Identity\<close> (\<^verbatim>\<open>identity.rs\<close>): ids derived from keys, cards, bind payloads.
  \<^item> \<open>Bundle\<close> (\<^verbatim>\<open>bundle.rs\<close> of both crates): exports and their verification.
  \<^item> \<open>Dedup\<close>, \<open>Query\<close>, \<open>Coldness\<close> (\<^verbatim>\<open>dedup.rs\<close>, \<^verbatim>\<open>query.rs\<close>, \<^verbatim>\<open>coldness.rs\<close>): SimHash and excerpts, query planning,
    the rules of warmth and collapse.
  \<^item> \<open>Pack\<close>, \<open>Fuse\<close>, \<open>Calendar\<close>, \<open>Render\<close> (\<^verbatim>\<open>pack.rs\<close>): the answer pack and its byte budget, rank fusion, dates,
    and the evidence block.

  \<^bold>\<open>The store\<close> (\<^verbatim>\<open>polis-store\<close>).
  \<^item> \<open>Chain\<close> (\<^verbatim>\<open>ledger.rs\<close>, \<^verbatim>\<open>chain.rs\<close>): append, full and incremental verification, reads; the locale \<open>event_log\<close> is
    what other parts rely on.  \<open>Writers\<close>: the transaction around an append, and any number of processes.
  \<^item> \<open>Jobs\<close> (\<^verbatim>\<open>jobs.rs\<close>): leased background work.  \<open>Supersession\<close> (\<^verbatim>\<open>supersessions.rs\<close>): a decision replaces another;
    the unchecked reversal of an approval and the deletions of a revert are steps of the same table.
  \<^item> \<open>Catalog\<close>, \<open>Reorg\<close> (\<^verbatim>\<open>catalog.rs\<close>, \<^verbatim>\<open>observations.rs\<close>, \<^verbatim>\<open>runs.rs\<close>): classes, links, observations, proposals,
    runs and the journal; staging and applying proposals.
  \<^item> \<open>Revert\<close> (\<^verbatim>\<open>runs.rs\<close>): the inverse of each operation, \<^verbatim>\<open>revert_run\<close>, vacuum.  \<open>Restore\<close>, \<open>Undo\<close>, \<open>UndoMerge\<close>,
    \<open>UndoSplit\<close>, \<open>RevertRun\<close>: each operation is undone by the image it journals, hence a run by its revert.
  \<^item> \<open>Scopes\<close> (\<^verbatim>\<open>principals.rs\<close>), \<open>Claims\<close> (\<^verbatim>\<open>claims.rs\<close>): who a scope admits; cited claims on two time axes.
    \<open>ClaimLife\<close>: claims under every sequence of writes, retirements, forgettings, rebuilds, owner stamps
    and edits of the prompts they cite; the owner columns of the projection are the only ones that can be stale.
  \<^item> \<open>Archive\<close> (\<^verbatim>\<open>compaction.rs\<close>, \<^verbatim>\<open>gist.rs\<close>): bodies replaced by gists, restored from the archive, or forgotten.
  \<^item> \<open>Foreign\<close> (\<^verbatim>\<open>foreign.rs\<close>): what peers' segments leave in the store.

  \<^bold>\<open>The application\<close> (\<^verbatim>\<open>polis-memory\<close>).
  \<^item> \<open>Envelope\<close> (\<^verbatim>\<open>envelope.rs\<close>): signed segments; \<open>Sharing\<close> (\<^verbatim>\<open>sharing.rs\<close>): their import; \<open>HeldLog\<close>: what copies
    of peers' chains promise over any sequence of imports.
  \<^item> \<open>Adjudicate\<close> (\<^verbatim>\<open>adjudicate.rs\<close>): the rules that admit, refuse or defer a proposal, and the screen for a model's
    output.  \<open>Forest\<close>: what its bounded walks compute.  \<open>Queue\<close> (\<^verbatim>\<open>organize.rs\<close>): staging under adjudication and a
    pass over the work queue; \<open>QueueLife\<close>: what a pass does to one proposal.
  \<^item> \<open>Fence\<close> (\<^verbatim>\<open>fence.rs\<close>): captured text in a prompt, inside delimiters with a nonce, and the parser that reads
    the prompt back.  \<open>Chunks\<close> (\<^verbatim>\<open>vec.rs\<close> of \<^verbatim>\<open>polis-core\<close>): the pieces of a text that are embedded, and the
    integer dot product.

  \<^bold>\<open>What the groups of lemmas show.\<close>
  \<^item> Hashing and verification: the hashed bytes determine an event; verification accepts exactly the linked
    chains; appends keep a chain sound and agree with the incremental verifier as far as its anchor reaches;
    concurrent writers never fork it; bundles and envelopes are accepted exactly when every stated check holds.
  \<^item> Lives of tables: invariants by induction over the step relations \<open>writer_step\<close>, \<open>decision_step\<close>, \<open>share_step\<close>,
    \<open>run_step\<close> and \<open>claim_step\<close>, or over sequences of operations (jobs).
  \<^item> Refinement: held chains refine one abstract log per chain, operation by operation: an import is
    \<open>log_import\<close> or nothing, any other store operation is \<open>log_op\<close>.
  \<^item> Undoing: \<open>undoes\<close> says row by row that an image restores what an operation changed; the operations of a run
    compose, so reverting the newest run restores the catalogue.
  \<^item> Progress: loops end (\<open>function\<close> with a measure, or the guard of the code), a walk to a superseding decision
    finds its end while edges go forward, a queued proposal is dealt with within four passes.
  \<^item> Bounds: budgets of the pack and of the evidence block, excerpts, leases, depths of classes.

  \<^bold>\<open>Bounds of the code that are part of the model.\<close>  The walk over supersessions stops after 64 hops, walks over
  the catalogue after 64 levels, the roll-up of branches at depth 64; they are arguments of the recursions, which
  therefore end on every input, cyclic catalogues and circular supersessions included.  A sound catalogue reaches none of them while its
  depth is at most 64, and the theorems say so where they need it.  \<^verbatim>\<open>BEGIN IMMEDIATE\<close> is tried a fixed number
  of times.  No other fuel is used: \<open>follow\<close> is a \<open>partial_function\<close> whose result is proved to exist where
  every reversal named a later event.  Where a property needs a condition the program does not enforce, a lemma
  shows what happens without it (circles of classes and of supersessions, merges a revert cannot undo, sources
  that break a fence, a retried job's old handle, a stale owner).

  \<^bold>\<open>Not modelled.\<close>  Embedding and language models, the search arms (FTS5's ranking and \<^verbatim>\<open>f32\<close> cosines have no
  exact model here), the HTTP, MCP and command-line front ends, migrations and DDL (their constraints are in the
  table models), the gardener's prompts and the parsing of replies, the copies forgetting clears in other tables, transport,
  mirror and backup (files and sockets), evaluation and canaries (measurements over the search).  Of the modelled
  files, plain presentation queries and counters are left out, and the inverses of \<^verbatim>\<open>claim\<close> and \<^verbatim>\<open>compact\<close> in
  \<^verbatim>\<open>revert_run\<close>.  One clock reading is used per pass or import where the code reads the clock repeatedly.
\<close>

end
